(* ===== verification/Prelude.thy ===== *)
theory Prelude
  imports Main "HOL-Library.Word"
begin

text \<open>
  Shared vocabulary of the development: the machine-integer types and the checked and
  saturating operations of the Rust standard library, the result type of fallible code with
  its combinators, Rust strings as their UTF-8 bytes, big-endian integers as byte lists, and
  the generic lemmas on lists and words that the component theories use.
\<close>

named_theorems codec_simps
  \<open>lengths and evaluation rules of the byte-level encoders\<close>

named_theorems word_arith
  \<open>unsigned values of the checked and saturating operations\<close>

section \<open>Types\<close>

type_synonym u8 = "8 word"
type_synonym u16 = "16 word"
type_synonym u32 = "32 word"
type_synonym u64 = "64 word"
type_synonym byte = u8
type_synonym bytes = "byte list"

text \<open>
  A Rust \<open>String\<close> is its UTF-8 bytes: \<open>len()\<close> counts bytes and comparison is bytewise.
  A literal of the source is written \<open>str ''...''\<close>.
\<close>

type_synonym rstring = bytes

definition str :: "string \<Rightarrow> rstring" where
  "str s = map of_char s"

text \<open>Rust's \<open>usize\<close> is 64 bits wide on the targets modelled; lengths are \<open>nat\<close>.\<close>

section \<open>Results\<close>

text \<open>\<open>Result<A, E>\<close> is \<open>'e + 'a\<close> with \<open>Inl\<close> for \<open>Err\<close>; \<open>and_then\<close> is the \<open>?\<close> operator.\<close>

definition and_then :: "'e + 'a \<Rightarrow> ('a \<Rightarrow> 'e + 'b) \<Rightarrow> 'e + 'b" where
  "and_then r f = (case r of Inl e \<Rightarrow> Inl e | Inr a \<Rightarrow> f a)"

definition map_err :: "('e \<Rightarrow> 'f) \<Rightarrow> 'e + 'a \<Rightarrow> 'f + 'a" where
  "map_err f r = (case r of Inl e \<Rightarrow> Inl (f e) | Inr a \<Rightarrow> Inr a)"

lemma and_then_Inl [simp]: "and_then (Inl e) f = Inl e"
  by (simp add: and_then_def)

lemma and_then_Inr [simp]: "and_then (Inr a) f = f a"
  by (simp add: and_then_def)

lemma and_then_eq_Inr: "and_then r f = Inr b \<longleftrightarrow> (\<exists>a. r = Inr a \<and> f a = Inr b)"
  by (cases r) auto

lemma and_then_eq_Inl:
  "and_then r f = Inl e \<longleftrightarrow> r = Inl e \<or> (\<exists>a. r = Inr a \<and> f a = Inl e)"
  by (cases r) auto

lemma map_err_simps [simp]:
  "map_err f (Inl e) = Inl (f e)"
  "map_err f (Inr a) = Inr a"
  by (simp_all add: map_err_def)

lemma map_err_eq_Inr [simp]: "map_err f r = Inr a \<longleftrightarrow> r = Inr a"
  by (cases r) auto

section \<open>Machine arithmetic\<close>

definition checked_add :: "'a::len word \<Rightarrow> 'a word \<Rightarrow> 'a word option" where
  "checked_add a b = (if unat a + unat b < 2 ^ LENGTH('a) then Some (a + b) else None)"

definition saturating_add :: "'a::len word \<Rightarrow> 'a word \<Rightarrow> 'a word" where
  "saturating_add a b = (if unat a + unat b < 2 ^ LENGTH('a) then a + b else - 1)"

definition saturating_sub :: "'a::len word \<Rightarrow> 'a word \<Rightarrow> 'a word" where
  "saturating_sub a b = (if b \<le> a then a - b else 0)"

lemma unat_lt: "unat (w :: 'a::len word) < 2 ^ LENGTH('a)"
  by (rule unsigned_less)

lemma unat_add_lt:
  fixes a b :: "'a::len word"
  assumes "unat a + unat b < 2 ^ LENGTH('a)"
  shows "unat (a + b) = unat a + unat b"
  using assms by (simp add: unat_word_ariths)

lemma checked_add_Some [word_arith]:
  fixes a b :: "'a::len word"
  assumes "checked_add a b = Some c"
  shows "c = a + b \<and> unat c = unat a + unat b"
  using assms by (auto simp: checked_add_def unat_add_lt split: if_splits)

lemma unat_saturating_sub [word_arith]:
  "unat (saturating_sub a b) = unat a - unat b"
proof (cases "b \<le> a")
  case True
  then show ?thesis by (simp add: saturating_sub_def unat_sub)
next
  case False
  then have "unat a \<le> unat b" by (simp add: word_le_nat_alt)
  with False show ?thesis by (simp add: saturating_sub_def)
qed

text \<open>
  The admission test that the retained history, the WAL and the RPC budget share: a request of
  \<open>cost\<close> is refused when it exceeds \<open>limit.saturating_sub(used)\<close>. When it passes, adding the
  cost neither wraps nor exceeds the limit.
\<close>

lemma admitted_fits:
  fixes used cost lim :: "'a::len word"
  assumes "\<not> saturating_sub lim used < cost" and "used \<le> lim"
  shows "unat (used + cost) = unat used + unat cost" and "used + cost \<le> lim"
proof -
  have "unat cost \<le> unat lim - unat used"
    using assms(1) by (simp add: word_less_nat_alt unat_saturating_sub)
  moreover have "unat used \<le> unat lim"
    using assms(2) by (simp add: word_le_nat_alt)
  moreover have "unat lim < 2 ^ LENGTH('a)" by (rule unsigned_less)
  ultimately have le: "unat used + unat cost \<le> unat lim"
    and lt: "unat used + unat cost < 2 ^ LENGTH('a)" by linarith+
  show sum: "unat (used + cost) = unat used + unat cost"
    using lt by (rule unat_add_lt)
  show "used + cost \<le> lim"
    using le sum by (simp add: word_le_nat_alt)
qed

lemma unat_of_nat_lt:
  "n < 2 ^ LENGTH('a) \<Longrightarrow> unat (of_nat n :: 'a::len word) = n"
  by (simp add: unat_of_nat take_bit_nat_eq_self)

section \<open>Big-endian integers\<close>

primrec be_bytes :: "nat \<Rightarrow> nat \<Rightarrow> bytes" where
  "be_bytes 0 v = []"
| "be_bytes (Suc n) v = of_nat (v div 256 ^ n) # be_bytes n v"

definition be_nat :: "bytes \<Rightarrow> nat" where
  "be_nat bs = foldl (\<lambda>a b. a * 256 + unat b) 0 bs"

definition to_be_bytes :: "'a::len word \<Rightarrow> bytes" where
  "to_be_bytes w = be_bytes (LENGTH('a) div 8) (unat w)"

definition from_be_bytes :: "bytes \<Rightarrow> 'a::len word" where
  "from_be_bytes bs = of_nat (be_nat bs)"

lemma be_bytes_numeral [codec_simps]:
  "be_bytes (numeral k) v = of_nat (v div 256 ^ pred_numeral k) # be_bytes (pred_numeral k) v"
  by (simp add: numeral_eq_Suc)

lemma length_be_bytes [simp]: "length (be_bytes n v) = n"
  by (induction n) auto

lemma foldl_be: "foldl (\<lambda>a b. a * 256 + unat (b :: byte)) s bs = s * 256 ^ length bs + be_nat bs"
proof (induction bs arbitrary: s)
  case (Cons b bs)
  have "be_nat (b # bs) = unat b * 256 ^ length bs + be_nat bs"
    using Cons.IH [of "unat b"] by (simp add: be_nat_def)
  then show ?case using Cons.IH [of "s * 256 + unat b"] by (simp add: algebra_simps)
qed (simp add: be_nat_def)

lemma be_nat_Nil [simp]: "be_nat [] = 0"
  by (simp add: be_nat_def)

lemma be_nat_Cons [simp]: "be_nat (b # bs) = unat b * 256 ^ length bs + be_nat bs"
  using foldl_be [of "unat b" bs] by (simp add: be_nat_def)

lemma be_nat_less: "be_nat bs < 256 ^ length bs"
proof (induction bs)
  case (Cons b bs)
  have "unat b < 2 ^ LENGTH(8)" by (rule unsigned_less)
  then have b: "Suc (unat b) \<le> 256" by simp
  have "be_nat (b # bs) < Suc (unat b) * 256 ^ length bs" using Cons by simp
  also have "\<dots> \<le> 256 * 256 ^ length bs" using b by (rule mult_le_mono1)
  finally show ?case by simp
qed simp

lemma unat_byte: "unat (of_nat v :: byte) = v mod 256"
  by (simp add: unat_of_nat take_bit_eq_mod)

lemma be_nat_be_bytes: "be_nat (be_bytes n v) = v mod 256 ^ n"
proof (induction n)
  case (Suc n)
  have "v mod (256 ^ n * 256) = 256 ^ n * (v div 256 ^ n mod 256) + v mod 256 ^ n"
    by (rule mod_mult2_eq)
  with Suc show ?case by (simp add: unat_byte algebra_simps)
qed simp

lemma be_bytes_mod: "be_bytes n (v + k * 256 ^ n) = be_bytes n v"
proof (induction n arbitrary: k)
  case (Suc n)
  have "be_bytes n (v + k * 256 ^ Suc n) = be_bytes n (v + (k * 256) * 256 ^ n)"
    by (simp add: algebra_simps)
  also have "\<dots> = be_bytes n v" by (rule Suc.IH)
  finally have tail: "be_bytes n (v + k * 256 ^ Suc n) = be_bytes n v" .
  have "(v + k * 256 ^ Suc n) div 256 ^ n = (v + (k * 256) * 256 ^ n) div 256 ^ n"
    by (simp add: algebra_simps)
  also have "\<dots> = v div 256 ^ n + k * 256" by simp
  finally have "(of_nat ((v + k * 256 ^ Suc n) div 256 ^ n) :: byte) = of_nat (v div 256 ^ n + k * 256)"
    by simp
  also have "\<dots> = of_nat (v div 256 ^ n)"
    by (rule word_unat_eq_iff [THEN iffD2], unfold unat_byte) simp
  finally show ?case using tail by simp
qed simp

lemma be_bytes_be_nat: "be_bytes (length bs) (be_nat bs) = bs"
proof (induction bs)
  case (Cons b bs)
  have "be_bytes (length bs) (be_nat (b # bs)) = be_bytes (length bs) (be_nat bs + unat b * 256 ^ length bs)"
    by (simp add: add.commute)
  also have "\<dots> = bs" using Cons.IH by (simp add: be_bytes_mod)
  finally have tail: "be_bytes (length bs) (be_nat (b # bs)) = bs" .
  have "be_nat (b # bs) div 256 ^ length bs = unat b"
    using be_nat_less [of bs] by simp
  with tail show ?case by simp
qed simp

lemma length_to_be_bytes [simp]: "length (to_be_bytes (w :: 'a::len word)) = LENGTH('a) div 8"
  by (simp add: to_be_bytes_def)

lemma byte_width:
  assumes "8 dvd LENGTH('a::len)"
  shows "(256 :: nat) ^ (LENGTH('a) div 8) = 2 ^ LENGTH('a)"
proof -
  have "(256 :: nat) = 2 ^ 8" by simp
  then have "(256 :: nat) ^ (LENGTH('a) div 8) = 2 ^ (8 * (LENGTH('a) div 8))"
    by (simp only: power_mult)
  then show ?thesis using assms by simp
qed

lemma from_to_be_bytes:
  assumes "8 dvd LENGTH('a)"
  shows "from_be_bytes (to_be_bytes w) = (w :: 'a::len word)"
proof -
  have "unat w mod 256 ^ (LENGTH('a) div 8) = unat w"
    unfolding byte_width [OF assms] by simp
  then show ?thesis by (simp add: from_be_bytes_def to_be_bytes_def be_nat_be_bytes)
qed

lemma to_from_be_bytes:
  assumes "8 dvd LENGTH('a)" and "length bs = LENGTH('a) div 8"
  shows "to_be_bytes (from_be_bytes bs :: 'a::len word) = bs"
proof -
  have "(256 :: nat) ^ length bs = 2 ^ LENGTH('a)"
    using byte_width [OF assms(1)] assms(2) by simp
  then have "unat (from_be_bytes bs :: 'a word) = be_nat bs"
    using be_nat_less [of bs] by (simp add: from_be_bytes_def unat_of_nat take_bit_nat_eq_self)
  then show ?thesis
    using assms(2) be_bytes_be_nat [of bs] by (simp add: to_be_bytes_def)
qed

lemma to_be_bytes_16 [codec_simps]:
  "to_be_bytes (w :: u16) = [of_nat (unat w div 256), of_nat (unat w)]"
  by (simp add: to_be_bytes_def numeral_2_eq_2)

lemma to_be_bytes_8 [codec_simps]: "to_be_bytes (w :: u8) = [w]"
  by (simp add: to_be_bytes_def)

section \<open>Decimal rendering\<close>

text \<open>What \<open>format!("{n}")\<close> prints for an unsigned integer.\<close>

fun decimal :: "nat \<Rightarrow> rstring" where
  "decimal n = (if n < 10 then [of_nat (48 + n)] else decimal (n div 10) @ [of_nat (48 + n mod 10)])"

declare decimal.simps [simp del]

section \<open>Lists\<close>

lemma sum_list_filter_split:
  "sum_list (map f (filter P xs)) + sum_list (map f (filter (\<lambda>x. \<not> P x) xs)) = sum_list (map f xs)"
  for f :: "'a \<Rightarrow> 'b::comm_monoid_add"
  by (induction xs) (auto simp: algebra_simps)

lemma of_nat_sum_list: "of_nat (sum_list (map g xs)) = (\<Sum>x\<leftarrow>xs. of_nat (g x) :: 'b::semiring_1)"
  by (induction xs) auto

end
