(* ===== verification/Utf8.thy ===== *)
theory Utf8
  imports Prelude
begin

text \<open>
  The part of the Rust standard library that decides which byte sequences are strings:
  \<open>String::from_utf8\<close> / \<open>std::str::from_utf8\<close> (protocol.rs) accept exactly the sequences
  \<open>utf8_valid\<close> accepts, and \<open>String::from_utf8_lossy\<close> (rpc.rs) replaces each maximal
  ill-formed part by U+FFFD. The lemmas show that the lossy conversion is the identity on valid
  input, that its result is always valid, and that ASCII text is valid.
\<close>

definition is_continuation :: "byte \<Rightarrow> bool" where
  "is_continuation b = (0x80 \<le> b \<and> b \<le> 0xBF)"

definition utf8_char_width :: "byte \<Rightarrow> nat" where
  "utf8_char_width b =
     (if b < 0x80 then 1
      else if 0xC2 \<le> b \<and> b \<le> 0xDF then 2
      else if 0xE0 \<le> b \<and> b \<le> 0xEF then 3
      else if 0xF0 \<le> b \<and> b \<le> 0xF4 then 4
      else 0)"

text \<open>The second byte excludes overlong forms, surrogates and values above U+10FFFF.\<close>

definition utf8_second :: "byte \<Rightarrow> byte \<Rightarrow> bool" where
  "utf8_second a b =
     (if a = 0xE0 then 0xA0 \<le> b \<and> b \<le> 0xBF
      else if a = 0xED then 0x80 \<le> b \<and> b \<le> 0x9F
      else if a = 0xF0 then 0x90 \<le> b \<and> b \<le> 0xBF
      else if a = 0xF4 then 0x80 \<le> b \<and> b \<le> 0x8F
      else is_continuation b)"

text \<open>
  The first character of a nonempty sequence: whether it is well formed, and how many bytes
  it has (or how many bytes the ill-formed part has that is skipped).
\<close>

fun utf8_chunk :: "bytes \<Rightarrow> bool \<times> nat" where
  "utf8_chunk [] = (False, 0)"
| "utf8_chunk (a # bs) =
     (if utf8_char_width a = 0 then (False, 1)
      else if utf8_char_width a = 1 then (True, 1)
      else case bs of
        [] \<Rightarrow> (False, 1)
      | b # cs \<Rightarrow>
          if \<not> utf8_second a b then (False, 1)
          else if utf8_char_width a = 2 then (True, 2)
          else case cs of
            [] \<Rightarrow> (False, 2)
          | c # ds \<Rightarrow>
              if \<not> is_continuation c then (False, 2)
              else if utf8_char_width a = 3 then (True, 3)
              else case ds of
                [] \<Rightarrow> (False, 3)
              | d # _ \<Rightarrow> if is_continuation d then (True, 4) else (False, 3))"

lemma utf8_chunk_pos: "bs \<noteq> [] \<Longrightarrow> 0 < snd (utf8_chunk bs)"
  by (cases bs rule: utf8_chunk.cases) (auto split: list.splits)

lemma utf8_chunk_decreases:
  "bs \<noteq> [] \<Longrightarrow> length (drop (snd (utf8_chunk bs)) bs) < length bs"
  using utf8_chunk_pos [of bs] by (auto simp: neq_Nil_conv)

function utf8_valid :: "bytes \<Rightarrow> bool" where
  "utf8_valid bs =
     (if bs = [] then True
      else fst (utf8_chunk bs) \<and> utf8_valid (drop (snd (utf8_chunk bs)) bs))"
  by pat_completeness auto
termination
  by (relation "measure length") (use utf8_chunk_decreases in \<open>auto simp del: length_drop\<close>)

declare utf8_valid.simps [simp del]

definition from_utf8 :: "bytes \<Rightarrow> rstring option" where
  "from_utf8 bs = (if utf8_valid bs then Some bs else None)"

definition replacement_character :: rstring where
  "replacement_character = [0xEF, 0xBF, 0xBD]"

function from_utf8_lossy :: "bytes \<Rightarrow> rstring" where
  "from_utf8_lossy bs =
     (if bs = [] then []
      else (if fst (utf8_chunk bs) then take (snd (utf8_chunk bs)) bs else replacement_character)
           @ from_utf8_lossy (drop (snd (utf8_chunk bs)) bs))"
  by pat_completeness auto
termination
  by (relation "measure length") (use utf8_chunk_decreases in \<open>auto simp del: length_drop\<close>)

declare from_utf8_lossy.simps [simp del]

lemma utf8_valid_Nil [simp]: "utf8_valid []"
  by (simp add: utf8_valid.simps)

lemma from_utf8_lossy_Nil [simp]: "from_utf8_lossy [] = []"
  by (simp add: from_utf8_lossy.simps)

lemma utf8_valid_step:
  "bs \<noteq> [] \<Longrightarrow> utf8_valid bs \<longleftrightarrow> fst (utf8_chunk bs) \<and> utf8_valid (drop (snd (utf8_chunk bs)) bs)"
  by (subst utf8_valid.simps) simp

lemma from_utf8_lossy_valid: "utf8_valid bs \<Longrightarrow> from_utf8_lossy bs = bs"
proof (induction bs rule: from_utf8_lossy.induct)
  case (1 bs)
  then show ?case
    by (cases "bs = []") (simp_all add: from_utf8_lossy.simps [of bs] utf8_valid_step)
qed

text \<open>A well-formed character stays one whatever follows it, so valid strings concatenate.\<close>

lemma utf8_chunk_append:
  "fst (utf8_chunk bs) \<Longrightarrow> utf8_chunk (bs @ cs) = utf8_chunk bs \<and> snd (utf8_chunk bs) \<le> length bs"
  by (cases bs rule: utf8_chunk.cases) (auto split: list.splits if_splits)

lemma utf8_chunk_take:
  assumes "fst (utf8_chunk bs)"
  shows "fst (utf8_chunk (take (snd (utf8_chunk bs)) bs))
    \<and> snd (utf8_chunk (take (snd (utf8_chunk bs)) bs)) = snd (utf8_chunk bs)"
proof (cases bs rule: utf8_chunk.cases)
  case (2 a cs)
  show ?thesis
  proof (cases "utf8_char_width a = 1")
    case True
    then show ?thesis by (simp add: 2)
  next
    case False
    with assms 2 show ?thesis by (auto split: list.splits if_splits)
  qed
qed (use assms in simp)

lemma utf8_valid_append: "utf8_valid xs \<Longrightarrow> utf8_valid ys \<Longrightarrow> utf8_valid (xs @ ys)"
proof (induction xs rule: utf8_valid.induct)
  case (1 xs)
  show ?case
  proof (cases "xs = []")
    case False
    with "1.prems" have ok: "fst (utf8_chunk xs)" by (simp add: utf8_valid_step)
    with False "1.prems" "1.IH" have "utf8_valid (drop (snd (utf8_chunk xs)) xs @ ys)"
      by (simp add: utf8_valid_step)
    then show ?thesis
      using False ok utf8_chunk_append [OF ok, of ys] by (simp add: utf8_valid_step)
  qed (use "1.prems" in simp)
qed

lemma utf8_valid_ascii: "\<forall>b\<in>set bs. b < 0x80 \<Longrightarrow> utf8_valid bs"
proof (induction bs)
  case (Cons b bs)
  then have "utf8_chunk (b # bs) = (True, 1)" by (simp add: utf8_char_width_def)
  then show ?case using Cons by (simp add: utf8_valid_step)
qed simp

lemma utf8_valid_replacement: "utf8_valid replacement_character"
  by (simp add: replacement_character_def utf8_valid_step utf8_char_width_def utf8_second_def
      is_continuation_def)

lemma utf8_valid_lossy: "utf8_valid (from_utf8_lossy bs)"
proof (induction bs rule: from_utf8_lossy.induct)
  case (1 bs)
  show ?case
  proof (cases "bs = []")
    case False
    have "utf8_valid (take (snd (utf8_chunk bs)) bs)" if "fst (utf8_chunk bs)"
      using utf8_chunk_take [OF that] False utf8_chunk_pos [OF False]
      by (simp add: utf8_valid_step)
    with False "1.IH" show ?thesis
      by (simp add: from_utf8_lossy.simps [of bs] utf8_valid_append utf8_valid_replacement)
  qed simp
qed

end
