(* ===== verification/Protocol.thy ===== *)
theory Protocol
  imports Utf8
begin

text \<open>
  The wire protocol, \<open>crates/velobus/src/protocol.rs\<close>: the limits and error codes, the
  records and requests, the cursor \<open>Reader\<close> over a received body, the topic check, the strict
  decoders and the encoders. The locale \<open>codec\<close> is the contract between an encoder and the
  decoder that reads its bytes back; every field codec of the protocol interprets it.
\<close>

section \<open>Constants, errors and data\<close>

definition MAX_FRAME :: nat where "MAX_FRAME = 1048576"
definition MAX_PAYLOAD :: nat where "MAX_PAYLOAD = 262144"
definition MAX_BATCH :: nat where "MAX_BATCH = 256"
definition MAX_FETCH_BYTES :: nat where "MAX_FETCH_BYTES = 524288"
definition MAX_SCAN :: nat where "MAX_SCAN = 4096"

definition PROTOCOL :: u16 where "PROTOCOL = 1"
definition UNAUTHORIZED :: u16 where "UNAUTHORIZED = 2"
definition INVALID :: u16 where "INVALID = 3"
definition CAPACITY :: u16 where "CAPACITY = 4"
definition LIMIT :: u16 where "LIMIT = 5"
definition STORAGE :: u16 where "STORAGE = 6"
definition CURSOR :: u16 where "CURSOR = 7"
definition NO_SERVICE :: u16 where "NO_SERVICE = 8"
definition OVERLOADED :: u16 where "OVERLOADED = 9"
definition DEADLINE_EXCEEDED :: u16 where "DEADLINE_EXCEEDED = 10"
definition SERVICE_UNAVAILABLE :: u16 where "SERVICE_UNAVAILABLE = 11"
definition HANDLER_ERROR :: u16 where "HANDLER_ERROR = 12"

lemmas limit_defs = MAX_FRAME_def MAX_PAYLOAD_def MAX_BATCH_def MAX_FETCH_BYTES_def MAX_SCAN_def

lemmas error_code_defs =
  PROTOCOL_def UNAUTHORIZED_def INVALID_def CAPACITY_def LIMIT_def STORAGE_def CURSOR_def
  NO_SERVICE_def OVERLOADED_def DEADLINE_EXCEEDED_def SERVICE_UNAVAILABLE_def HANDLER_ERROR_def

record error =
  err_code :: u16
  err_message :: rstring

definition error_new :: "u16 \<Rightarrow> rstring \<Rightarrow> error" where
  "error_new code message = \<lparr>err_code = code, err_message = message\<rparr>"

lemma error_new_sel [simp]:
  "err_code (error_new c m) = c" "err_message (error_new c m) = m"
  by (simp_all add: error_new_def)

record log_record =
  rec_topic :: rstring
  rec_key :: rstring
  rec_payload :: bytes

definition retained_bytes :: "log_record \<Rightarrow> u64" where
  "retained_bytes r =
     256 + 2 * of_nat (length (rec_topic r)) + 2 * of_nat (length (rec_key r))
     + of_nat (length (rec_payload r))"

definition wire_bytes :: "log_record \<Rightarrow> nat" where
  "wire_bytes r = 16 + length (rec_topic r) + length (rec_key r) + length (rec_payload r)"

record event =
  ev_sequence :: u64
  ev_record :: log_record

record fetch_request =
  fetch_topic :: rstring
  fetch_after :: u64
  fetch_limit :: nat
  fetch_max_bytes :: nat
  fetch_latest :: bool

datatype request =
    Hello (hello_version: u16) (hello_token: rstring)
  | Publish "log_record list"
  | Fetch fetch_request
  | Stats
  | Ping
  | Register (register_route: rstring) (register_concurrency: nat) (register_queue_limit: nat)
  | Rpc (rpc_route: rstring) (rpc_timeout_ms: u32) (rpc_payload: bytes)
  | Take (take_wait_ms: u32)
  | Complete (complete_call_id: u64) (complete_failed: bool) (complete_payload: bytes)

section \<open>Reader\<close>

record reader =
  rd_data :: bytes
  rd_position :: nat

definition reader_new :: "bytes \<Rightarrow> reader" where
  "reader_new data = \<lparr>rd_data = data, rd_position = 0\<rparr>"

definition reader_take :: "nat \<Rightarrow> reader \<Rightarrow> error + bytes \<times> reader" where
  "reader_take len r =
     (if len > length (rd_data r) - rd_position r
      then Inl (error_new PROTOCOL (str ''truncated request body''))
      else Inr (take len (drop (rd_position r) (rd_data r)),
                r\<lparr>rd_position := rd_position r + len\<rparr>))"

definition reader_u8 :: "reader \<Rightarrow> error + u8 \<times> reader" where
  "reader_u8 r = and_then (reader_take 1 r) (\<lambda>(bs, r). Inr (bs ! 0, r))"

definition reader_u16 :: "reader \<Rightarrow> error + u16 \<times> reader" where
  "reader_u16 r = and_then (reader_take 2 r) (\<lambda>(bs, r). Inr (from_be_bytes bs, r))"

definition reader_u32 :: "reader \<Rightarrow> error + u32 \<times> reader" where
  "reader_u32 r = and_then (reader_take 4 r) (\<lambda>(bs, r). Inr (from_be_bytes bs, r))"

definition reader_u64 :: "reader \<Rightarrow> error + u64 \<times> reader" where
  "reader_u64 r = and_then (reader_take 8 r) (\<lambda>(bs, r). Inr (from_be_bytes bs, r))"

definition reader_string :: "nat \<Rightarrow> reader \<Rightarrow> error + rstring \<times> reader" where
  "reader_string mx r =
     and_then (reader_u16 r) (\<lambda>(len, r).
       if unat len > mx then Inl (error_new INVALID (str ''string exceeds byte limit''))
       else and_then (reader_take (unat len) r) (\<lambda>(value, r).
         case from_utf8 value of
           None \<Rightarrow> Inl (error_new PROTOCOL (str ''invalid UTF-8''))
         | Some s \<Rightarrow> Inr (s, r)))"

definition reader_finish :: "reader \<Rightarrow> error + unit" where
  "reader_finish r =
     (if rd_position r \<noteq> length (rd_data r)
      then Inl (error_new PROTOCOL (str ''unexpected trailing bytes''))
      else Inr ())"

section \<open>Decoders\<close>

definition is_ascii_alphanumeric :: "byte \<Rightarrow> bool" where
  "is_ascii_alphanumeric b =
     ((0x30 \<le> b \<and> b \<le> 0x39) \<or> (0x41 \<le> b \<and> b \<le> 0x5A) \<or> (0x61 \<le> b \<and> b \<le> 0x7A))"

definition topic_byte :: "byte \<Rightarrow> bool" where
  "topic_byte b = (is_ascii_alphanumeric b \<or> b = 0x2E \<or> b = 0x5F \<or> b = 0x2D)"

definition validate_topic :: "rstring \<Rightarrow> bool \<Rightarrow> error + unit" where
  "validate_topic topic wildcard =
     (if wildcard \<and> topic = str ''*'' then Inr ()
      else if topic = [] \<or> length topic > 255 \<or> \<not> list_all topic_byte topic
      then Inl (error_new INVALID
        (str ''topic must contain 1..255 ASCII letters, digits, dot, underscore or hyphen''))
      else Inr ())"

text \<open>The body of the loop of \<open>decode_records\<close>, and the loop that pushes \<open>n\<close> results.\<close>

definition decode_record :: "reader \<Rightarrow> error + log_record \<times> reader" where
  "decode_record r =
     and_then (reader_string 255 r) (\<lambda>(topic, r).
     and_then (validate_topic topic False) (\<lambda>_.
     and_then (reader_string 1024 r) (\<lambda>(key, r).
     and_then (reader_u32 r) (\<lambda>(len, r).
       if unat len > MAX_PAYLOAD
       then Inl (error_new LIMIT (str ''payload exceeds 262144 bytes''))
       else and_then (reader_take (unat len) r) (\<lambda>(payload, r).
         Inr (\<lparr>rec_topic = topic, rec_key = key, rec_payload = payload\<rparr>, r))))))"

primrec decode_loop ::
  "(reader \<Rightarrow> error + 'a \<times> reader) \<Rightarrow> nat \<Rightarrow> 'a list \<Rightarrow> reader \<Rightarrow> error + 'a list \<times> reader" where
  "decode_loop item 0 acc r = Inr (acc, r)"
| "decode_loop item (Suc n) acc r =
     and_then (item r) (\<lambda>(x, r). decode_loop item n (acc @ [x]) r)"

definition decode_records :: "reader \<Rightarrow> error + log_record list \<times> reader" where
  "decode_records r =
     and_then (reader_u16 r) (\<lambda>(count, r).
       if \<not> (1 \<le> unat count \<and> unat count \<le> MAX_BATCH)
       then Inl (error_new INVALID (str ''publish count must be 1..256''))
       else decode_loop decode_record (unat count) [] r)"

section \<open>Encoders\<close>

definition put_string :: "bytes \<Rightarrow> rstring \<Rightarrow> bytes" where
  "put_string out value = out @ to_be_bytes (of_nat (length value) :: u16) @ value"

definition encode_record :: "bytes \<Rightarrow> log_record \<Rightarrow> bytes" where
  "encode_record out r =
     (let out = put_string out (rec_topic r);
          out = put_string out (rec_key r);
          out = out @ to_be_bytes (of_nat (length (rec_payload r)) :: u32)
      in out @ rec_payload r)"

definition encode_records :: "log_record list \<Rightarrow> bytes" where
  "encode_records records =
     foldl encode_record (to_be_bytes (of_nat (length records) :: u16)) records"

definition envelope :: "u8 \<Rightarrow> u32 \<Rightarrow> bytes \<Rightarrow> bytes" where
  "envelope opcode request_id body =
     to_be_bytes (of_nat (5 + length body) :: u32) @ [opcode] @ to_be_bytes request_id @ body"

definition error_body :: "error \<Rightarrow> bytes" where
  "error_body e = put_string (to_be_bytes (err_code e)) (err_message e)"

section \<open>Decoding a request\<close>

definition decode_hello :: "reader \<Rightarrow> error + request \<times> reader" where
  "decode_hello r =
     and_then (reader_u16 r) (\<lambda>(version, r).
     and_then (reader_string 65535 r) (\<lambda>(token, r). Inr (Hello version token, r)))"

definition decode_fetch :: "reader \<Rightarrow> error + request \<times> reader" where
  "decode_fetch r =
     and_then (reader_string 255 r) (\<lambda>(topic, r).
     and_then (validate_topic topic True) (\<lambda>_.
     and_then (reader_u64 r) (\<lambda>(after, r).
     and_then (reader_u16 r) (\<lambda>(limit, r).
     and_then (reader_u32 r) (\<lambda>(max_bytes, r).
     and_then (reader_u8 r) (\<lambda>(mode, r).
       if \<not> (1 \<le> unat limit \<and> unat limit \<le> MAX_BATCH)
          \<or> \<not> (1 \<le> unat max_bytes \<and> unat max_bytes \<le> MAX_FETCH_BYTES)
       then Inl (error_new INVALID (str ''invalid fetch count or byte budget''))
       else if mode > 1 then Inl (error_new PROTOCOL (str ''unknown fetch mode''))
       else Inr (Fetch \<lparr>fetch_topic = topic, fetch_after = after, fetch_limit = unat limit,
                        fetch_max_bytes = unat max_bytes, fetch_latest = (mode = 1)\<rparr>, r)))))))"

definition decode_register :: "reader \<Rightarrow> error + request \<times> reader" where
  "decode_register r =
     and_then (reader_string 255 r) (\<lambda>(route, r).
     and_then (validate_topic route False) (\<lambda>_.
     and_then (reader_u16 r) (\<lambda>(concurrency, r).
     and_then (reader_u16 r) (\<lambda>(queue_limit, r).
       if \<not> (1 \<le> unat concurrency \<and> unat concurrency \<le> 256)
          \<or> \<not> (1 \<le> unat queue_limit \<and> unat queue_limit \<le> 4096)
       then Inl (error_new INVALID (str ''invalid worker concurrency or queue limit''))
       else Inr (Register route (unat concurrency) (unat queue_limit), r)))))"

definition decode_rpc :: "reader \<Rightarrow> error + request \<times> reader" where
  "decode_rpc r =
     and_then (reader_string 255 r) (\<lambda>(route, r).
     and_then (validate_topic route False) (\<lambda>_.
     and_then (reader_u32 r) (\<lambda>(timeout_ms, r).
       if \<not> (1 \<le> timeout_ms \<and> timeout_ms \<le> 30000)
       then Inl (error_new INVALID (str ''RPC timeout must be 1..30000 ms''))
       else and_then (reader_u32 r) (\<lambda>(len, r).
         if unat len > MAX_PAYLOAD
         then Inl (error_new LIMIT (str ''RPC payload exceeds 262144 bytes''))
         else and_then (reader_take (unat len) r) (\<lambda>(payload, r).
           Inr (Rpc route timeout_ms payload, r))))))"

definition decode_take :: "reader \<Rightarrow> error + request \<times> reader" where
  "decode_take r =
     and_then (reader_u32 r) (\<lambda>(wait_ms, r).
       if \<not> (1 \<le> wait_ms \<and> wait_ms \<le> 1000)
       then Inl (error_new INVALID (str ''TAKE wait must be 1..1000 ms''))
       else Inr (Take wait_ms, r))"

definition decode_complete :: "reader \<Rightarrow> error + request \<times> reader" where
  "decode_complete r =
     and_then (reader_u64 r) (\<lambda>(call_id, r).
     and_then (reader_u8 r) (\<lambda>(status, r).
       if status > 1 then Inl (error_new INVALID (str ''invalid completion status''))
       else and_then (reader_u32 r) (\<lambda>(len, r).
         if unat len > MAX_PAYLOAD \<or> (status = 1 \<and> unat len > 4096)
         then Inl (error_new LIMIT (str ''completion payload exceeds limit''))
         else and_then (reader_take (unat len) r) (\<lambda>(payload, r).
           if status = 1 \<and> from_utf8 payload = None
           then Inl (error_new PROTOCOL (str ''handler error must be UTF-8''))
           else Inr (Complete call_id (status = 1) payload, r)))))"

definition decode_request :: "u8 \<Rightarrow> bytes \<Rightarrow> error + request" where
  "decode_request opcode body =
     (let r = reader_new body in
      and_then
        (if opcode = 1 then decode_hello r
         else if opcode = 2 then and_then (decode_records r) (\<lambda>(records, r). Inr (Publish records, r))
         else if opcode = 3 then decode_fetch r
         else if opcode = 4 then Inr (Stats, r)
         else if opcode = 5 then Inr (Ping, r)
         else if opcode = 6 then decode_register r
         else if opcode = 7 then decode_rpc r
         else if opcode = 8 then decode_take r
         else if opcode = 9 then decode_complete r
         else Inl (error_new PROTOCOL (str ''unknown opcode'')))
        (\<lambda>(request, r). and_then (reader_finish r) (\<lambda>_. Inr request)))"

end
