(* ===== verification/Codec.thy ===== *)
theory Codec
  imports Protocol
begin

text \<open>
  What the reader and the encoders promise each other. The locale \<open>codec\<close> states that a decoder
  reads back exactly the bytes its encoder writes and accepts nothing else; it is interpreted
  for integers, strings and records, and gives the loop of \<open>decode_records\<close> at once. From it
  follow the round trip and the canonicity of publish bodies, the bounds every decoded request
  satisfies, and the rejection of trailing bytes.
\<close>

section \<open>The unread bytes of a reader\<close>

definition unread :: "reader \<Rightarrow> bytes" where
  "unread r = drop (rd_position r) (rd_data r)"

definition reader_ok :: "reader \<Rightarrow> bool" where
  "reader_ok r = (rd_position r \<le> length (rd_data r))"

definition advance :: "nat \<Rightarrow> reader \<Rightarrow> reader" where
  "advance n r = r\<lparr>rd_position := rd_position r + n\<rparr>"

lemma reader_new_simps [simp]:
  "unread (reader_new bs) = bs" "reader_ok (reader_new bs)"
  by (simp_all add: reader_new_def unread_def reader_ok_def)

lemma advance_advance [simp]: "advance n (advance m r) = advance (m + n) r"
  by (simp add: advance_def)

lemma advance_0 [simp]: "advance 0 r = r"
  by (simp add: advance_def)

lemma unread_advance: "unread (advance n r) = drop n (unread r)"
  by (simp add: unread_def advance_def add.commute)

lemma reader_ok_advance: "reader_ok r \<Longrightarrow> n \<le> length (unread r) \<Longrightarrow> reader_ok (advance n r)"
  by (simp add: reader_ok_def unread_def advance_def)

lemma reader_take_unread:
  "reader_take n r =
     (if n \<le> length (unread r) then Inr (take n (unread r), advance n r)
      else Inl (error_new PROTOCOL (str ''truncated request body'')))"
  by (simp add: reader_take_def unread_def advance_def)

lemma reader_finish_iff: "reader_ok r \<Longrightarrow> reader_finish r = Inr () \<longleftrightarrow> unread r = []"
  by (auto simp: reader_finish_def reader_ok_def unread_def)

section \<open>The contract of a codec\<close>

locale codec =
  fixes enc :: "'a \<Rightarrow> bytes"
    and dec :: "reader \<Rightarrow> error + 'a \<times> reader"
    and ok :: "'a \<Rightarrow> bool"
  assumes dec_enc: "ok x \<Longrightarrow> unread r = enc x @ rest \<Longrightarrow> dec r = Inr (x, advance (length (enc x)) r)"
    and enc_dec: "dec r = Inr (x, r') \<Longrightarrow>
      ok x \<and> r' = advance (length (enc x)) r \<and> unread r = enc x @ unread r'"
begin

lemma reader_ok_dec:
  assumes "dec r = Inr (x, r')" and "reader_ok r"
  shows "reader_ok r'"
proof -
  from enc_dec [OF assms(1)] have r': "r' = advance (length (enc x)) r"
    and "unread r = enc x @ unread r'" by simp_all
  then have "length (enc x) \<le> length (unread r)" by simp
  with assms(2) show ?thesis unfolding r' by (rule reader_ok_advance)
qed

lemma dec_unread: "dec r = Inr (x, r') \<Longrightarrow> ok x \<and> unread r = enc x @ unread r'"
  using enc_dec by blast

lemma dec_step:
  assumes "reader_ok r" and "unread r = enc x @ rest" and "ok x"
  obtains r' where "dec r = Inr (x, r')" and "unread r' = rest" and "reader_ok r'"
proof
  show "dec r = Inr (x, advance (length (enc x)) r)" using assms(3,2) by (rule dec_enc)
  show "unread (advance (length (enc x)) r) = rest" using assms(2) by (simp add: unread_advance)
  show "reader_ok (advance (length (enc x)) r)"
    using assms(1) by (rule reader_ok_advance) (simp add: assms(2))
qed

lemma loop_dec_enc:
  assumes "list_all ok xs" and "unread r = concat (map enc xs) @ rest"
  shows "decode_loop dec (length xs) acc r = Inr (acc @ xs, advance (length (concat (map enc xs))) r)"
  using assms
proof (induction xs arbitrary: acc r)
  case (Cons x xs)
  let ?r = "advance (length (enc x)) r"
  have "dec r = Inr (x, ?r)"
    using Cons.prems by (intro dec_enc [where rest = "concat (map enc xs) @ rest"]) simp_all
  moreover have "decode_loop dec (length xs) (acc @ [x]) ?r
      = Inr ((acc @ [x]) @ xs, advance (length (concat (map enc xs))) ?r)"
    using Cons.prems by (intro Cons.IH) (simp_all add: unread_advance)
  ultimately show ?case by (simp add: add.commute)
qed simp

lemma loop_enc_dec:
  assumes "decode_loop dec n acc r = Inr (ys, r')"
  shows "\<exists>xs. ys = acc @ xs \<and> length xs = n \<and> list_all ok xs
    \<and> r' = advance (length (concat (map enc xs))) r \<and> unread r = concat (map enc xs) @ unread r'"
  using assms
proof (induction n arbitrary: acc r)
  case 0
  then show ?case by simp
next
  case (Suc n)
  then obtain x r1 where x: "dec r = Inr (x, r1)" and "decode_loop dec n (acc @ [x]) r1 = Inr (ys, r')"
    by (auto simp: and_then_eq_Inr)
  from Suc.IH [OF this(2)] obtain xs where "ys = (acc @ [x]) @ xs" "length xs = n" "list_all ok xs"
    "r' = advance (length (concat (map enc xs))) r1" "unread r1 = concat (map enc xs) @ unread r'"
    by blast
  with enc_dec [OF x] show ?case by (intro exI [of _ "x # xs"]) (simp add: add.commute)
qed

end

section \<open>Integers and strings\<close>

lemma reader_take_enc_dec:
  assumes "reader_take n r = Inr (bs, r')"
  shows "length bs = n \<and> r' = advance n r \<and> unread r = bs @ unread r'"
  using assms by (auto simp: reader_take_unread unread_advance split: if_splits)

interpretation u8_codec: codec "\<lambda>w. [w]" reader_u8 "\<lambda>_. True"
proof unfold_locales
  fix r x r' assume "reader_u8 r = Inr (x, r')"
  then obtain bs where bs: "reader_take 1 r = Inr (bs, r')" and x: "x = bs ! 0"
    by (auto simp: reader_u8_def and_then_eq_Inr)
  from reader_take_enc_dec [OF bs] x
  show "True \<and> r' = advance (length [x]) r \<and> unread r = [x] @ unread r'"
    by (auto simp: length_Suc_conv)
qed (simp add: reader_u8_def reader_take_unread)

interpretation u16_codec: codec to_be_bytes reader_u16 "\<lambda>_. True"
proof unfold_locales
  fix r x r' assume "reader_u16 r = Inr (x, r')"
  then obtain bs where bs: "reader_take 2 r = Inr (bs, r')" and x: "x = from_be_bytes bs"
    by (auto simp: reader_u16_def and_then_eq_Inr)
  from reader_take_enc_dec [OF bs] x
  show "True \<and> r' = advance (length (to_be_bytes x)) r \<and> unread r = to_be_bytes x @ unread r'"
    by (simp add: to_from_be_bytes)
qed (simp add: reader_u16_def reader_take_unread from_to_be_bytes)

interpretation u32_codec: codec to_be_bytes reader_u32 "\<lambda>_. True"
proof unfold_locales
  fix r x r' assume "reader_u32 r = Inr (x, r')"
  then obtain bs where bs: "reader_take 4 r = Inr (bs, r')" and x: "x = from_be_bytes bs"
    by (auto simp: reader_u32_def and_then_eq_Inr)
  from reader_take_enc_dec [OF bs] x
  show "True \<and> r' = advance (length (to_be_bytes x)) r \<and> unread r = to_be_bytes x @ unread r'"
    by (simp add: to_from_be_bytes)
qed (simp add: reader_u32_def reader_take_unread from_to_be_bytes)

interpretation u64_codec: codec to_be_bytes reader_u64 "\<lambda>_. True"
proof unfold_locales
  fix r x r' assume "reader_u64 r = Inr (x, r')"
  then obtain bs where bs: "reader_take 8 r = Inr (bs, r')" and x: "x = from_be_bytes bs"
    by (auto simp: reader_u64_def and_then_eq_Inr)
  from reader_take_enc_dec [OF bs] x
  show "True \<and> r' = advance (length (to_be_bytes x)) r \<and> unread r = to_be_bytes x @ unread r'"
    by (simp add: to_from_be_bytes)
qed (simp add: reader_u64_def reader_take_unread from_to_be_bytes)

lemma put_string_out: "put_string out s = out @ put_string [] s"
  by (simp add: put_string_def)

lemma length_put_string [simp]: "length (put_string out s) = length out + 2 + length s"
  by (simp add: put_string_def)

definition string_ok :: "nat \<Rightarrow> rstring \<Rightarrow> bool" where
  "string_ok mx s = (length s \<le> mx \<and> length s < 65536 \<and> utf8_valid s)"

interpretation string_codec: codec "put_string []" "reader_string mx" "string_ok mx" for mx
proof unfold_locales
  fix x r rest
  assume ok: "string_ok mx x" and un: "unread r = put_string [] x @ rest"
  let ?len = "of_nat (length x) :: u16"
  have "reader_u16 r = Inr (?len, advance 2 r)"
    using u16_codec.dec_enc [of r ?len "x @ rest"] un by (simp add: put_string_def)
  moreover have "unat ?len = length x"
    using ok by (simp add: string_ok_def unat_of_nat_lt)
  ultimately show "reader_string mx r = Inr (x, advance (length (put_string [] x)) r)"
    using ok un by (simp add: reader_string_def string_ok_def from_utf8_def reader_take_unread
        unread_advance put_string_def)
next
  fix r x r' assume "reader_string mx r = Inr (x, r')"
  then obtain len r1 where len: "reader_u16 r = Inr (len, r1)" and mx: "unat len \<le> mx"
    and take: "reader_take (unat len) r1 = Inr (x, r')" and "utf8_valid x"
    by (auto simp: reader_string_def and_then_eq_Inr from_utf8_def split: if_splits)
  note x = reader_take_enc_dec [OF take] and n = u16_codec.enc_dec [OF len]
  have "of_nat (length x) = len" using x by simp
  moreover have "unat len < 65536" using unsigned_less [of len] by simp
  ultimately show "string_ok mx x \<and> r' = advance (length (put_string [] x)) r
      \<and> unread r = put_string [] x @ unread r'"
    using x n mx \<open>utf8_valid x\<close> by (simp add: string_ok_def put_string_def)
qed

section \<open>Records\<close>

definition valid_topic :: "rstring \<Rightarrow> bool" where
  "valid_topic t = (t \<noteq> [] \<and> length t \<le> 255 \<and> list_all topic_byte t)"

definition record_ok :: "log_record \<Rightarrow> bool" where
  "record_ok x =
     (valid_topic (rec_topic x)
      \<and> length (rec_key x) \<le> 1024 \<and> utf8_valid (rec_key x)
      \<and> length (rec_payload x) \<le> MAX_PAYLOAD)"

lemma validate_topic_strict: "validate_topic t False = Inr () \<longleftrightarrow> valid_topic t"
  by (auto simp: validate_topic_def valid_topic_def)

lemma validate_topic_wildcard:
  "validate_topic t True = Inr () \<longleftrightarrow> t = str ''*'' \<or> valid_topic t"
  by (auto simp: validate_topic_def valid_topic_def)

lemma topic_byte_ascii: "topic_byte b \<Longrightarrow> b < 0x80"
  by (auto simp: topic_byte_def is_ascii_alphanumeric_def word_le_nat_alt word_less_nat_alt)

lemma valid_topic_utf8: "valid_topic t \<Longrightarrow> utf8_valid t"
  by (rule utf8_valid_ascii) (auto simp: valid_topic_def list_all_iff intro: topic_byte_ascii)

lemma string_ok_topic: "valid_topic t \<Longrightarrow> string_ok 255 t"
  by (simp add: string_ok_def valid_topic_utf8) (simp add: valid_topic_def)

lemma encode_record_out: "encode_record out x = out @ encode_record [] x"
  by (simp add: encode_record_def Let_def put_string_def)

lemma encode_record_parts:
  "encode_record [] x = put_string [] (rec_topic x) @ put_string [] (rec_key x)
     @ to_be_bytes (of_nat (length (rec_payload x)) :: u32) @ rec_payload x"
  by (simp add: encode_record_def Let_def put_string_def)

lemma length_encode_record: "length (encode_record [] x) = wire_bytes x - 8"
  by (simp add: encode_record_parts wire_bytes_def)

interpretation record_codec: codec "encode_record []" decode_record record_ok
proof unfold_locales
  fix x r rest
  assume ok: "record_ok x" and un: "unread r = encode_record [] x @ rest"
  let ?t = "rec_topic x" and ?k = "rec_key x" and ?p = "rec_payload x"
  let ?n = "of_nat (length ?p) :: u32"
  define r1 where "r1 = advance (length (put_string [] ?t)) r"
  define r2 where "r2 = advance (length (put_string [] ?k)) r1"
  define r3 where "r3 = advance (length (to_be_bytes ?n)) r2"
  note un' = un [unfolded encode_record_parts append_assoc]
  have un1: "unread r1 = put_string [] ?k @ to_be_bytes ?n @ ?p @ rest"
    by (simp add: r1_def unread_advance un')
  then have un2: "unread r2 = to_be_bytes ?n @ ?p @ rest"
    by (simp add: r2_def unread_advance)
  then have un3: "unread r3 = ?p @ rest" by (simp add: r3_def unread_advance)
  have n: "unat ?n = length ?p"
    using ok by (simp add: record_ok_def MAX_PAYLOAD_def unat_of_nat_lt)
  have topic: "reader_string 255 r = Inr (?t, r1)"
    unfolding r1_def by (rule string_codec.dec_enc [OF _ un']) (use ok in \<open>simp add: record_ok_def string_ok_topic\<close>)
  have key: "reader_string 1024 r1 = Inr (?k, r2)"
    unfolding r2_def by (rule string_codec.dec_enc [OF _ un1]) (use ok in \<open>simp add: record_ok_def string_ok_def\<close>)
  have len: "reader_u32 r2 = Inr (?n, r3)"
    unfolding r3_def by (rule u32_codec.dec_enc [OF _ un2]) simp
  have "advance (length (encode_record [] x)) r = advance (length ?p) r3"
    by (simp add: r1_def r2_def r3_def encode_record_parts add.assoc)
  then show "decode_record r = Inr (x, advance (length (encode_record [] x)) r)"
    using ok n validate_topic_strict [of ?t]
    by (simp add: decode_record_def topic key len record_ok_def reader_take_unread un3)
next
  fix r x r' assume "decode_record r = Inr (x, r')"
  then obtain t r1 k r2 len r3 p where topic: "reader_string 255 r = Inr (t, r1)"
    and v: "validate_topic t False = Inr ()"
    and key: "reader_string 1024 r1 = Inr (k, r2)" and len: "reader_u32 r2 = Inr (len, r3)"
    and "\<not> unat len > MAX_PAYLOAD" and take: "reader_take (unat len) r3 = Inr (p, r')"
    and x: "x = \<lparr>rec_topic = t, rec_key = k, rec_payload = p\<rparr>"
    by (auto simp: decode_record_def and_then_eq_Inr split: if_splits)
  note parts = string_codec.enc_dec [OF topic] string_codec.enc_dec [OF key]
    u32_codec.enc_dec [OF len] reader_take_enc_dec [OF take]
  have "of_nat (length p) = len" using parts by simp
  then show "record_ok x \<and> r' = advance (length (encode_record [] x)) r
      \<and> unread r = encode_record [] x @ unread r'"
    using parts v \<open>\<not> unat len > MAX_PAYLOAD\<close>
    by (simp add: x record_ok_def validate_topic_strict string_ok_def encode_record_parts add.assoc)
qed

definition batch_ok :: "log_record list \<Rightarrow> bool" where
  "batch_ok records =
     (1 \<le> length records \<and> length records \<le> MAX_BATCH \<and> list_all record_ok records)"

lemma encode_records_concat:
  "encode_records records =
     to_be_bytes (of_nat (length records) :: u16) @ concat (map (encode_record []) records)"
proof -
  have "foldl encode_record out xs = out @ concat (map (encode_record []) xs)" for out xs
  proof (induction xs arbitrary: out)
    case (Cons x xs)
    then show ?case using encode_record_out [of out x] by simp
  qed simp
  then show ?thesis by (simp add: encode_records_def)
qed

interpretation batch_codec: codec encode_records decode_records batch_ok
proof unfold_locales
  fix xs r rest
  assume ok: "batch_ok xs" and un: "unread r = encode_records xs @ rest"
  let ?n = "of_nat (length xs) :: u16" and ?body = "concat (map (encode_record []) xs)"
  define r1 where "r1 = advance (length (to_be_bytes ?n)) r"
  note un' = un [unfolded encode_records_concat append_assoc]
  have n: "unat ?n = length xs" using ok by (simp add: batch_ok_def MAX_BATCH_def unat_of_nat_lt)
  have count: "reader_u16 r = Inr (?n, r1)"
    unfolding r1_def by (rule u16_codec.dec_enc [OF _ un']) simp
  have "unread r1 = ?body @ rest" by (simp add: r1_def unread_advance un')
  with ok have "decode_loop decode_record (length xs) [] r1 = Inr ([] @ xs, advance (length ?body) r1)"
    by (intro record_codec.loop_dec_enc) (simp_all add: batch_ok_def)
  moreover have "advance (length ?body) r1 = advance (length (encode_records xs)) r"
    by (simp add: r1_def encode_records_concat)
  ultimately show "decode_records r = Inr (xs, advance (length (encode_records xs)) r)"
    using ok n by (simp add: decode_records_def count batch_ok_def)
next
  fix r ys r' assume "decode_records r = Inr (ys, r')"
  then obtain n r1 where count: "reader_u16 r = Inr (n, r1)"
    and n: "1 \<le> unat n" "unat n \<le> MAX_BATCH"
    and loop: "decode_loop decode_record (unat n) [] r1 = Inr (ys, r')"
    by (auto simp: decode_records_def and_then_eq_Inr split: if_splits)
  from record_codec.loop_enc_dec [OF loop] have len: "length ys = unat n"
    and ys: "list_all record_ok ys" "r' = advance (length (concat (map (encode_record []) ys))) r1"
      "unread r1 = concat (map (encode_record []) ys) @ unread r'"
    by auto
  have "of_nat (length ys) = n" using len by simp
  then show "batch_ok ys \<and> r' = advance (length (encode_records ys)) r
      \<and> unread r = encode_records ys @ unread r'"
    using n len ys u16_codec.enc_dec [OF count] by (simp add: batch_ok_def encode_records_concat)
qed

section \<open>Requests\<close>

text \<open>
  The documented layout of every request (docs/PROTOCOL.md, docs/RPC-PROTOCOL.md): its opcode,
  its body and the limits its fields obey. \<open>decode_request\<close> is shown to be exactly the inverse.
\<close>

fun request_opcode :: "request \<Rightarrow> u8" where
  "request_opcode (Hello _ _) = 1"
| "request_opcode (Publish _) = 2"
| "request_opcode (Fetch _) = 3"
| "request_opcode Stats = 4"
| "request_opcode Ping = 5"
| "request_opcode (Register _ _ _) = 6"
| "request_opcode (Rpc _ _ _) = 7"
| "request_opcode (Take _) = 8"
| "request_opcode (Complete _ _ _) = 9"

fun request_body :: "request \<Rightarrow> bytes" where
  "request_body (Hello version token) = to_be_bytes version @ put_string [] token"
| "request_body (Publish records) = encode_records records"
| "request_body (Fetch f) =
     put_string [] (fetch_topic f) @ to_be_bytes (fetch_after f)
     @ to_be_bytes (of_nat (fetch_limit f) :: u16) @ to_be_bytes (of_nat (fetch_max_bytes f) :: u32)
     @ [if fetch_latest f then 1 else 0]"
| "request_body Stats = []"
| "request_body Ping = []"
| "request_body (Register route concurrency queue_limit) =
     put_string [] route @ to_be_bytes (of_nat concurrency :: u16)
     @ to_be_bytes (of_nat queue_limit :: u16)"
| "request_body (Rpc route timeout_ms payload) =
     put_string [] route @ to_be_bytes timeout_ms
     @ to_be_bytes (of_nat (length payload) :: u32) @ payload"
| "request_body (Take wait_ms) = to_be_bytes wait_ms"
| "request_body (Complete call_id failed payload) =
     to_be_bytes call_id @ [if failed then 1 else 0]
     @ to_be_bytes (of_nat (length payload) :: u32) @ payload"

fun request_ok :: "request \<Rightarrow> bool" where
  "request_ok (Hello version token) = string_ok 65535 token"
| "request_ok (Publish records) = batch_ok records"
| "request_ok (Fetch f) =
     ((fetch_topic f = str ''*'' \<or> valid_topic (fetch_topic f))
      \<and> 1 \<le> fetch_limit f \<and> fetch_limit f \<le> MAX_BATCH
      \<and> 1 \<le> fetch_max_bytes f \<and> fetch_max_bytes f \<le> MAX_FETCH_BYTES)"
| "request_ok Stats = True"
| "request_ok Ping = True"
| "request_ok (Register route concurrency queue_limit) =
     (valid_topic route \<and> 1 \<le> concurrency \<and> concurrency \<le> 256
      \<and> 1 \<le> queue_limit \<and> queue_limit \<le> 4096)"
| "request_ok (Rpc route timeout_ms payload) =
     (valid_topic route \<and> 1 \<le> timeout_ms \<and> timeout_ms \<le> 30000
      \<and> length payload \<le> MAX_PAYLOAD)"
| "request_ok (Take wait_ms) = (1 \<le> wait_ms \<and> wait_ms \<le> 1000)"
| "request_ok (Complete call_id failed payload) =
     (length payload \<le> (if failed then 4096 else MAX_PAYLOAD) \<and> (failed \<longrightarrow> utf8_valid payload))"

text \<open>Reading a field: what a successful read says of the bytes, and how a read evaluates.\<close>

lemma reader_take_dec: "reader_take n r = Inr (bs, r') \<Longrightarrow> n = length bs \<and> unread r = bs @ unread r'"
  using reader_take_enc_dec by simp

lemma reader_take_step:
  assumes "reader_ok r" and "unread r = bs @ rest" and "n = length bs"
  obtains r' where "reader_take n r = Inr (bs, r')" and "unread r' = rest" and "reader_ok r'"
proof
  show "reader_take n r = Inr (bs, advance n r)"
    using assms by (simp add: reader_take_unread)
  show "unread (advance n r) = rest" using assms by (simp add: unread_advance)
  show "reader_ok (advance n r)" using assms by (intro reader_ok_advance) simp_all
qed

lemmas field_dec =
  u8_codec.dec_unread u16_codec.dec_unread u32_codec.dec_unread u64_codec.dec_unread
  string_codec.dec_unread batch_codec.dec_unread reader_take_dec

lemma byte_flag: "\<not> 1 < (m :: byte) \<Longrightarrow> m = (if m = 1 then 1 else 0)"
  by (auto simp: word_less_nat_alt word_unat_eq_iff)

lemma string_ok_wildcard: "string_ok 255 (str ''*'')"
  by (simp add: string_ok_def str_def utf8_valid_ascii)

lemma from_utf8_eq_None: "from_utf8 bs = None \<longleftrightarrow> \<not> utf8_valid bs"
  by (simp add: from_utf8_def)

lemma decode_hello_dec:
  "decode_hello r = Inr (q, r') \<Longrightarrow>
     request_opcode q = 1 \<and> request_ok q \<and> unread r = request_body q @ unread r'"
  by (auto simp: decode_hello_def and_then_eq_Inr dest!: field_dec)

lemma decode_register_dec:
  "decode_register r = Inr (q, r') \<Longrightarrow>
     request_opcode q = 6 \<and> request_ok q \<and> unread r = request_body q @ unread r'"
  by (auto simp: decode_register_def and_then_eq_Inr validate_topic_strict
      dest!: field_dec split: if_splits)

lemma decode_rpc_dec:
  "decode_rpc r = Inr (q, r') \<Longrightarrow>
     request_opcode q = 7 \<and> request_ok q \<and> unread r = request_body q @ unread r'"
  by (auto simp: decode_rpc_def and_then_eq_Inr validate_topic_strict
      dest!: field_dec dest: sym [of "unat _"] split: if_splits)

lemma decode_take_dec:
  "decode_take r = Inr (q, r') \<Longrightarrow>
     request_opcode q = 8 \<and> request_ok q \<and> unread r = request_body q @ unread r'"
  by (auto simp: decode_take_def and_then_eq_Inr dest!: field_dec split: if_splits)

lemma decode_complete_dec:
  assumes "decode_complete r = Inr (q, r')"
  shows "request_opcode q = 9 \<and> request_ok q \<and> unread r = request_body q @ unread r'"
proof -
  from assms obtain cid r1 status r2 len r3 p
    where f: "reader_u64 r = Inr (cid, r1)" "reader_u8 r1 = Inr (status, r2)"
      "reader_u32 r2 = Inr (len, r3)" "reader_take (unat len) r3 = Inr (p, r')"
    and status: "\<not> 1 < status" and len: "\<not> (MAX_PAYLOAD < unat len \<or> status = 1 \<and> 4096 < unat len)"
    and utf8: "\<not> (status = 1 \<and> from_utf8 p = None)" and q: "q = Complete cid (status = 1) p"
    by (auto simp: decode_complete_def and_then_eq_Inr split: if_splits)
  from byte_flag [OF status] have "status = (if status = 1 then 1 else 0)" .
  moreover have "length p = unat len" using field_dec(7) [OF f(4)] by simp
  then have "of_nat (length p) = len" by simp
  ultimately show ?thesis
    using field_dec(4) [OF f(1)] field_dec(1) [OF f(2)] field_dec(3) [OF f(3)] field_dec(7) [OF f(4)] len utf8
    by (auto simp: q from_utf8_eq_None)
qed

lemma decode_fetch_dec:
  assumes "decode_fetch r = Inr (q, r')"
  shows "request_opcode q = 3 \<and> request_ok q \<and> unread r = request_body q @ unread r'"
proof -
  from assms obtain t r1 after r2 limit r3 mx r4 mode
    where f: "reader_string 255 r = Inr (t, r1)" "reader_u64 r1 = Inr (after, r2)"
      "reader_u16 r2 = Inr (limit, r3)" "reader_u32 r3 = Inr (mx, r4)" "reader_u8 r4 = Inr (mode, r')"
    and t: "validate_topic t True = Inr ()" and mode: "\<not> 1 < mode"
    and lim: "1 \<le> unat limit" "unat limit \<le> MAX_BATCH" "1 \<le> unat mx" "unat mx \<le> MAX_FETCH_BYTES"
    and q: "q = Fetch \<lparr>fetch_topic = t, fetch_after = after, fetch_limit = unat limit,
                        fetch_max_bytes = unat mx, fetch_latest = (mode = 1)\<rparr>"
    by (auto simp: decode_fetch_def and_then_eq_Inr split: if_splits)
  from byte_flag [OF mode] have "mode = (if mode = 1 then 1 else 0)" .
  then show ?thesis
    using field_dec(5) [OF f(1)] field_dec(4) [OF f(2)] field_dec(2) [OF f(3)] field_dec(3) [OF f(4)]
      field_dec(1) [OF f(5)] t lim
    by (auto simp: q validate_topic_wildcard)
qed

lemma decode_hello_enc:
  assumes "reader_ok r" and "unread r = request_body (Hello version token) @ rest"
    and "request_ok (Hello version token)"
  obtains r' where "decode_hello r = Inr (Hello version token, r')" "unread r' = rest" "reader_ok r'"
proof -
  obtain r1 where r1: "reader_u16 r = Inr (version, r1)" "unread r1 = put_string [] token @ rest" "reader_ok r1"
    using u16_codec.dec_step [OF assms(1), of version] assms(2) by auto
  obtain r2 where "reader_string 65535 r1 = Inr (token, r2)" "unread r2 = rest" "reader_ok r2"
    using string_codec.dec_step [OF r1(3,2)] assms(3) by auto
  then show thesis using r1 by (intro that [of r2]) (simp_all add: decode_hello_def)
qed

lemma decode_register_enc:
  assumes "reader_ok r" and "unread r = request_body (Register route c n) @ rest"
    and "request_ok (Register route c n)"
  obtains r' where "decode_register r = Inr (Register route c n, r')" "unread r' = rest" "reader_ok r'"
proof -
  from assms(3) have ok: "valid_topic route" "1 \<le> c" "c \<le> 256" "1 \<le> n" "n \<le> 4096" by simp_all
  let ?c = "of_nat c :: u16" and ?n = "of_nat n :: u16"
  obtain r1 where r1: "reader_string 255 r = Inr (route, r1)"
    "unread r1 = to_be_bytes ?c @ to_be_bytes ?n @ rest" "reader_ok r1"
    using string_codec.dec_step [OF assms(1) _ string_ok_topic [OF ok(1)]] assms(2) by auto
  obtain r2 where r2: "reader_u16 r1 = Inr (?c, r2)" "unread r2 = to_be_bytes ?n @ rest" "reader_ok r2"
    using u16_codec.dec_step [OF r1(3,2)] by auto
  obtain r3 where "reader_u16 r2 = Inr (?n, r3)" "unread r3 = rest" "reader_ok r3"
    using u16_codec.dec_step [OF r2(3,2)] by auto
  then show thesis using r1 r2 ok validate_topic_strict [of route]
    by (intro that [of r3]) (simp_all add: decode_register_def unat_of_nat_lt)
qed

lemma decode_rpc_enc:
  assumes "reader_ok r" and "unread r = request_body (Rpc route t p) @ rest"
    and "request_ok (Rpc route t p)"
  obtains r' where "decode_rpc r = Inr (Rpc route t p, r')" "unread r' = rest" "reader_ok r'"
proof -
  from assms(3) have ok: "valid_topic route" "1 \<le> t" "t \<le> 30000" "length p \<le> MAX_PAYLOAD" by simp_all
  let ?n = "of_nat (length p) :: u32"
  have n: "unat ?n = length p" using ok(4) by (simp add: MAX_PAYLOAD_def unat_of_nat_lt)
  obtain r1 where r1: "reader_string 255 r = Inr (route, r1)"
    "unread r1 = to_be_bytes t @ to_be_bytes ?n @ p @ rest" "reader_ok r1"
    using string_codec.dec_step [OF assms(1) _ string_ok_topic [OF ok(1)]] assms(2) by auto
  obtain r2 where r2: "reader_u32 r1 = Inr (t, r2)" "unread r2 = to_be_bytes ?n @ p @ rest" "reader_ok r2"
    using u32_codec.dec_step [OF r1(3,2)] by auto
  obtain r3 where r3: "reader_u32 r2 = Inr (?n, r3)" "unread r3 = p @ rest" "reader_ok r3"
    using u32_codec.dec_step [OF r2(3,2)] by auto
  obtain r4 where "reader_take (length p) r3 = Inr (p, r4)" "unread r4 = rest" "reader_ok r4"
    using reader_take_step [OF r3(3,2) refl] by auto
  then show thesis using r1 r2 r3 n ok validate_topic_strict [of route]
    by (intro that [of r4]) (simp_all add: decode_rpc_def)
qed

lemma decode_take_enc:
  assumes "reader_ok r" and "unread r = request_body (Take w) @ rest" and "request_ok (Take w)"
  obtains r' where "decode_take r = Inr (Take w, r')" "unread r' = rest" "reader_ok r'"
proof -
  obtain r1 where "reader_u32 r = Inr (w, r1)" "unread r1 = rest" "reader_ok r1"
    using u32_codec.dec_step [OF assms(1), of w] assms(2) by auto
  then show thesis using assms(3) by (intro that [of r1]) (simp_all add: decode_take_def)
qed

lemma decode_complete_enc:
  assumes "reader_ok r" and "unread r = request_body (Complete cid failed p) @ rest"
    and "request_ok (Complete cid failed p)"
  obtains r' where "decode_complete r = Inr (Complete cid failed p, r')" "unread r' = rest" "reader_ok r'"
proof -
  let ?s = "(if failed then 1 else 0) :: byte" and ?n = "of_nat (length p) :: u32"
  have le: "length p \<le> MAX_PAYLOAD" using assms(3) by (cases failed) (simp_all add: MAX_PAYLOAD_def)
  then have n: "unat ?n = length p" by (simp add: MAX_PAYLOAD_def unat_of_nat_lt)
  obtain r1 where r1: "reader_u64 r = Inr (cid, r1)"
    "unread r1 = [?s] @ to_be_bytes ?n @ p @ rest" "reader_ok r1"
    using u64_codec.dec_step [OF assms(1), of cid] assms(2) by auto
  obtain r2 where r2: "reader_u8 r1 = Inr (?s, r2)" "unread r2 = to_be_bytes ?n @ p @ rest" "reader_ok r2"
    using u8_codec.dec_step [OF r1(3,2)] by auto
  obtain r3 where r3: "reader_u32 r2 = Inr (?n, r3)" "unread r3 = p @ rest" "reader_ok r3"
    using u32_codec.dec_step [OF r2(3,2)] by auto
  obtain r4 where "reader_take (length p) r3 = Inr (p, r4)" "unread r4 = rest" "reader_ok r4"
    using reader_take_step [OF r3(3,2) refl] by auto
  then show thesis using r1 r2 r3 n le assms(3)
    by (intro that [of r4]) (cases failed, simp_all add: decode_complete_def from_utf8_eq_None)
qed

lemma decode_fetch_enc:
  assumes "reader_ok r" and "unread r = request_body (Fetch f) @ rest" and "request_ok (Fetch f)"
  obtains r' where "decode_fetch r = Inr (Fetch f, r')" "unread r' = rest" "reader_ok r'"
proof -
  let ?t = "fetch_topic f" and ?l = "of_nat (fetch_limit f) :: u16"
    and ?m = "of_nat (fetch_max_bytes f) :: u32" and ?mode = "(if fetch_latest f then 1 else 0) :: byte"
  have t: "string_ok 255 ?t" "validate_topic ?t True = Inr ()"
    using assms(3) string_ok_wildcard string_ok_topic by (auto simp: validate_topic_wildcard)
  have l: "unat ?l = fetch_limit f" and m: "unat ?m = fetch_max_bytes f"
    using assms(3) by (simp_all add: MAX_BATCH_def MAX_FETCH_BYTES_def unat_of_nat_lt)
  obtain r1 where r1: "reader_string 255 r = Inr (?t, r1)"
    "unread r1 = to_be_bytes (fetch_after f) @ to_be_bytes ?l @ to_be_bytes ?m @ [?mode] @ rest" "reader_ok r1"
    using string_codec.dec_step [OF assms(1), of ?t] assms(2) t by auto
  obtain r2 where r2: "reader_u64 r1 = Inr (fetch_after f, r2)"
    "unread r2 = to_be_bytes ?l @ to_be_bytes ?m @ [?mode] @ rest" "reader_ok r2"
    using u64_codec.dec_step [OF r1(3,2)] by auto
  obtain r3 where r3: "reader_u16 r2 = Inr (?l, r3)" "unread r3 = to_be_bytes ?m @ [?mode] @ rest" "reader_ok r3"
    using u16_codec.dec_step [OF r2(3,2)] by auto
  obtain r4 where r4: "reader_u32 r3 = Inr (?m, r4)" "unread r4 = [?mode] @ rest" "reader_ok r4"
    using u32_codec.dec_step [OF r3(3,2)] by auto
  obtain r5 where "reader_u8 r4 = Inr (?mode, r5)" "unread r5 = rest" "reader_ok r5"
    using u8_codec.dec_step [OF r4(3,2)] by auto
  then show thesis using r1 r2 r3 r4 l m t assms(3)
    by (intro that [of r5]) (simp_all add: decode_fetch_def)
qed

section \<open>The request decoder inverts the documented layout\<close>

lemma decode_request_dec:
  assumes "decode_request op body = Inr q"
  shows "op = request_opcode q \<and> body = request_body q \<and> request_ok q"
proof -
  have fin: "unread r' = []" if "reader_finish r' = Inr ()" for r'
    using that by (simp add: reader_finish_def unread_def split: if_splits)
  from assms consider
      r' where "op = 1" "decode_hello (reader_new body) = Inr (q, r')" "reader_finish r' = Inr ()"
    | records r' where "op = 2" "decode_records (reader_new body) = Inr (records, r')"
        "q = Publish records" "reader_finish r' = Inr ()"
    | r' where "op = 3" "decode_fetch (reader_new body) = Inr (q, r')" "reader_finish r' = Inr ()"
    | "op = 4" "q = Stats" "reader_finish (reader_new body) = Inr ()"
    | "op = 5" "q = Ping" "reader_finish (reader_new body) = Inr ()"
    | r' where "op = 6" "decode_register (reader_new body) = Inr (q, r')" "reader_finish r' = Inr ()"
    | r' where "op = 7" "decode_rpc (reader_new body) = Inr (q, r')" "reader_finish r' = Inr ()"
    | r' where "op = 8" "decode_take (reader_new body) = Inr (q, r')" "reader_finish r' = Inr ()"
    | r' where "op = 9" "decode_complete (reader_new body) = Inr (q, r')" "reader_finish r' = Inr ()"
    by (auto simp: decode_request_def and_then_eq_Inr Let_def split: if_splits)
  then show ?thesis
  proof cases
    case 1
    then show ?thesis using decode_hello_dec [OF 1(2)] fin by simp
  next
    case 2
    then show ?thesis using batch_codec.dec_unread [OF 2(2)] fin by simp
  next
    case 3
    then show ?thesis using decode_fetch_dec [OF 3(2)] fin by simp
  next
    case 4
    then show ?thesis using fin [OF 4(3)] by simp
  next
    case 5
    then show ?thesis using fin [OF 5(3)] by simp
  next
    case 6
    then show ?thesis using decode_register_dec [OF 6(2)] fin by simp
  next
    case 7
    then show ?thesis using decode_rpc_dec [OF 7(2)] fin by simp
  next
    case 8
    then show ?thesis using decode_take_dec [OF 8(2)] fin by simp
  next
    case 9
    then show ?thesis using decode_complete_dec [OF 9(2)] fin by simp
  qed
qed

lemma decode_request_enc:
  assumes "request_ok q"
  shows "decode_request (request_opcode q) (request_body q) = Inr q"
proof -
  have fin: "reader_finish r' = Inr ()" if "unread r' = []" "reader_ok r'" for r'
    using that by (simp add: reader_finish_iff)
  have un: "unread (reader_new (request_body q)) = request_body q @ []" for q by simp
  note start = reader_new_simps(2) un
  show ?thesis
  proof (cases q)
    case (Hello v t)
    show ?thesis
      by (rule decode_hello_enc [OF start assms [unfolded Hello]]) (simp add: decode_request_def Hello fin)
  next
    case (Publish rs)
    with assms have "batch_ok rs" by simp
    show ?thesis
      by (rule batch_codec.dec_step [OF start(1) _ \<open>batch_ok rs\<close>, of "encode_records rs" "[]"])
        (simp_all add: decode_request_def Publish fin)
  next
    case (Fetch f)
    show ?thesis
      by (rule decode_fetch_enc [OF start assms [unfolded Fetch]]) (simp add: decode_request_def Fetch fin)
  next
    case (Register a b c)
    show ?thesis
      by (rule decode_register_enc [OF start assms [unfolded Register]]) (simp add: decode_request_def Register fin)
  next
    case (Rpc a b c)
    show ?thesis
      by (rule decode_rpc_enc [OF start assms [unfolded Rpc]]) (simp add: decode_request_def Rpc fin)
  next
    case (Take w)
    show ?thesis
      by (rule decode_take_enc [OF start assms [unfolded Take]]) (simp add: decode_request_def Take fin)
  next
    case (Complete a b c)
    show ?thesis
      by (rule decode_complete_enc [OF start assms [unfolded Complete]]) (simp add: decode_request_def Complete fin)
  qed (simp_all add: decode_request_def fin)
qed

text \<open>Bytes left over after a complete request are refused, whatever they are.\<close>

lemma decode_request_trailing:
  assumes "request_ok q" and "extra \<noteq> []"
  shows "decode_request (request_opcode q) (request_body q @ extra)
    = Inl (error_new PROTOCOL (str ''unexpected trailing bytes''))"
proof -
  have fin: "reader_finish r' = Inl (error_new PROTOCOL (str ''unexpected trailing bytes''))"
    if "unread r' = extra" for r'
    using that assms(2) by (auto simp: reader_finish_def unread_def)
  have un: "unread (reader_new (request_body q @ extra)) = request_body q @ extra" for q by simp
  note start = reader_new_simps(2) un
  show ?thesis
  proof (cases q)
    case (Hello v t)
    show ?thesis
      by (rule decode_hello_enc [OF start assms(1) [unfolded Hello]]) (simp add: decode_request_def Hello fin)
  next
    case (Publish rs)
    with assms have "batch_ok rs" by simp
    show ?thesis
      by (rule batch_codec.dec_step [OF start(1) _ \<open>batch_ok rs\<close>, of "encode_records rs @ extra" "extra"])
        (simp_all add: decode_request_def Publish fin)
  next
    case (Fetch f)
    show ?thesis
      by (rule decode_fetch_enc [OF start assms(1) [unfolded Fetch]]) (simp add: decode_request_def Fetch fin)
  next
    case (Register a b c)
    show ?thesis
      by (rule decode_register_enc [OF start assms(1) [unfolded Register]]) (simp add: decode_request_def Register fin)
  next
    case (Rpc a b c)
    show ?thesis
      by (rule decode_rpc_enc [OF start assms(1) [unfolded Rpc]]) (simp add: decode_request_def Rpc fin)
  next
    case (Take w)
    show ?thesis
      by (rule decode_take_enc [OF start assms(1) [unfolded Take]]) (simp add: decode_request_def Take fin)
  next
    case (Complete a b c)
    show ?thesis
      by (rule decode_complete_enc [OF start assms(1) [unfolded Complete]]) (simp add: decode_request_def Complete fin)
  qed (simp_all add: decode_request_def fin)
qed

section \<open>Which errors decoding reports\<close>

definition decode_error :: "error \<Rightarrow> bool" where
  "decode_error e = (err_code e = PROTOCOL \<or> err_code e = INVALID \<or> err_code e = LIMIT)"

lemma decode_error_new:
  "decode_error (error_new PROTOCOL m)" "decode_error (error_new INVALID m)"
  "decode_error (error_new LIMIT m)"
  by (simp_all add: decode_error_def)

lemma reader_take_error: "reader_take n r = Inl e \<Longrightarrow> decode_error e"
  by (auto simp: reader_take_def decode_error_new split: if_splits)

lemma integer_error:
  "reader_u8 r = Inl e \<Longrightarrow> decode_error e" "reader_u16 r = Inl e \<Longrightarrow> decode_error e"
  "reader_u32 r = Inl e \<Longrightarrow> decode_error e" "reader_u64 r = Inl e \<Longrightarrow> decode_error e"
  by (auto simp: reader_u8_def reader_u16_def reader_u32_def reader_u64_def and_then_eq_Inl
      dest: reader_take_error)

lemma reader_string_error: "reader_string mx r = Inl e \<Longrightarrow> decode_error e"
  by (auto simp: reader_string_def and_then_eq_Inl decode_error_new
      dest: reader_take_error integer_error split: if_splits option.splits)

lemma validate_topic_error: "validate_topic t w = Inl e \<Longrightarrow> decode_error e"
  by (auto simp: validate_topic_def decode_error_new split: if_splits)

lemmas field_error =
  reader_take_error integer_error reader_string_error validate_topic_error

lemma decode_record_error: "decode_record r = Inl e \<Longrightarrow> decode_error e"
  by (auto simp: decode_record_def and_then_eq_Inl decode_error_new dest: field_error split: if_splits)

lemma decode_loop_error:
  "decode_loop decode_record n acc r = Inl e \<Longrightarrow> decode_error e"
  by (induction n arbitrary: acc r) (auto simp: and_then_eq_Inl dest: decode_record_error)

lemma decode_records_error: "decode_records r = Inl e \<Longrightarrow> decode_error e"
  by (auto simp: decode_records_def and_then_eq_Inl decode_error_new
      dest: field_error decode_loop_error split: if_splits)

lemma decode_body_error:
  "decode_hello r = Inl e \<Longrightarrow> decode_error e"
  "decode_fetch r = Inl e \<Longrightarrow> decode_error e"
  "decode_register r = Inl e \<Longrightarrow> decode_error e"
  "decode_rpc r = Inl e \<Longrightarrow> decode_error e"
  "decode_take r = Inl e \<Longrightarrow> decode_error e"
  "decode_complete r = Inl e \<Longrightarrow> decode_error e"
  by (auto simp: decode_hello_def decode_fetch_def decode_register_def decode_rpc_def decode_take_def
      decode_complete_def and_then_eq_Inl decode_error_new dest: field_error split: if_splits)

lemma decode_request_error: "decode_request op body = Inl e \<Longrightarrow> decode_error e"
  by (auto simp: decode_request_def Let_def and_then_eq_Inl decode_error_new reader_finish_def
      dest: decode_body_error decode_records_error split: if_splits)

section \<open>Properties\<close>

text \<open>
  C25. The request decoder is exactly the inverse of the documented wire layout: a body decodes
  to a request if and only if the opcode is that request's, the bytes are its encoding, and every
  field obeys its documented bounds.
\<close>

theorem decode_request_exact:
  "decode_request op body = Inr q \<longleftrightarrow>
     op = request_opcode q \<and> body = request_body q \<and> request_ok q"
  using decode_request_dec decode_request_enc by blast

text \<open>
  Decoding is strict: whatever nonempty bytes follow a well-formed request body, the request
  is refused with a PROTOCOL error, so no byte of a frame is ever ignored.
\<close>

theorem decode_request_rejects_trailing:
  assumes "decode_request op body = Inr q" and "extra \<noteq> []"
  shows "decode_request op (body @ extra)
    = Inl (error_new PROTOCOL (str ''unexpected trailing bytes''))"
  using decode_request_dec [OF assms(1)] decode_request_trailing [OF _ assms(2)] by blast

lemma decode_request_rejects_trailing_witness:
  "decode_request 5 ([] @ [7]) = Inl (error_new PROTOCOL (str ''unexpected trailing bytes''))"
proof (rule decode_request_rejects_trailing)
  show "decode_request 5 [] = Inr Ping"
    by (simp add: decode_request_def reader_new_def reader_finish_def)
qed simp

text \<open>
  A request that does not decode is refused with PROTOCOL, INVALID or LIMIT, and with no
  other code.
\<close>

theorem decode_request_error_codes:
  assumes "decode_request op body = Inl e"
  shows "err_code e = PROTOCOL \<or> err_code e = INVALID \<or> err_code e = LIMIT"
  using decode_request_error [OF assms] by (simp add: decode_error_def)

lemma decode_request_error_codes_witness:
  "\<exists>e. decode_request 77 [] = Inl e
     \<and> (err_code e = PROTOCOL \<or> err_code e = INVALID \<or> err_code e = LIMIT)"
proof -
  have "decode_request 77 [] = Inl (error_new PROTOCOL (str ''unknown opcode''))"
    by (simp add: decode_request_def Let_def)
  from this decode_request_error_codes [OF this] show ?thesis by blast
qed

end
