(* ===== verification/Wal.thy ===== *)
theory Wal
  imports Codec
begin

text \<open>
  The write-ahead log, \<open>crates/velobus/src/wal.rs\<close>: the file it keeps, the framing of a batch,
  \<open>open\<close> with its replay loop and tail truncation, the capacity check and \<open>append\<close>. Every
  system call may fail: the outcomes are an argument of the operations. The checksum of the
  crate \<open>crc32fast\<close> is a parameter \<open>crc\<close>.
\<close>

section \<open>Files and the outcomes of system calls\<close>

text \<open>
  \<open>content\<close> is what reads return, \<open>synced\<close> what the last completed \<open>sync_all\<close> made durable and
  \<open>cursor\<close> the position of the handle.
\<close>

record wal_file =
  content :: bytes
  synced :: bytes
  cursor :: nat

datatype syscall =
    CreateDir "rstring list" | SyncDir "rstring list"
  | OpenFile | LockFile | Metadata | WriteMagic | SyncMagic | SyncDirectory | SeekStart | ReadMagic
  | ReadHeader nat | ReadBody nat | Truncate nat | SyncTruncate nat | SeekEnd
  | WriteFrame | SyncFrame

text \<open>
  \<open>fault env c\<close> is the error text when the call \<open>c\<close> fails; of a failing \<open>write_all\<close>, the first
  \<open>short_write env\<close> bytes have reached the file. \<open>raced env p\<close>: another process creates the
  directory \<open>p\<close> just before this one does, so that creating it fails with \<open>AlreadyExists\<close>.
\<close>

record io_env =
  fault :: "syscall \<Rightarrow> rstring option"
  short_write :: nat
  raced :: "rstring list \<Rightarrow> bool"

definition no_faults :: io_env where
  "no_faults = \<lparr>fault = (\<lambda>_. None), short_write = 0, raced = (\<lambda>_. False)\<rparr>"

definition storage :: "rstring \<Rightarrow> error" where
  "storage msg = error_new STORAGE (str ''WAL I/O: '' @ msg)"

definition syscall :: "io_env \<Rightarrow> syscall \<Rightarrow> error + unit" where
  "syscall env c = (case fault env c of Some msg \<Rightarrow> Inl (storage msg) | None \<Rightarrow> Inr ())"

lemma fault_no_faults [simp]: "fault no_faults c = None" "\<not> raced no_faults p"
  by (simp_all add: no_faults_def)

lemma syscall_no_faults [simp]: "syscall no_faults c = Inr ()"
  by (simp add: syscall_def no_faults_def)

definition overwrite :: "nat \<Rightarrow> bytes \<Rightarrow> bytes \<Rightarrow> bytes" where
  "overwrite pos bs old = take pos old @ bs @ drop (pos + length bs) old"

definition file_write_all :: "io_env \<Rightarrow> syscall \<Rightarrow> bytes \<Rightarrow> wal_file \<Rightarrow> (error + unit) \<times> wal_file" where
  "file_write_all env c bs f =
     (let done = (if fault env c = None then bs else take (short_write env) bs)
      in (syscall env c,
          f\<lparr>content := overwrite (cursor f) done (content f), cursor := cursor f + length done\<rparr>))"

definition file_sync_all :: "io_env \<Rightarrow> syscall \<Rightarrow> wal_file \<Rightarrow> (error + unit) \<times> wal_file" where
  "file_sync_all env c f =
     (syscall env c, if fault env c = None then f\<lparr>synced := content f\<rparr> else f)"

definition file_set_len :: "io_env \<Rightarrow> syscall \<Rightarrow> nat \<Rightarrow> wal_file \<Rightarrow> (error + unit) \<times> wal_file" where
  "file_set_len env c n f =
     (syscall env c,
      if fault env c = None
      then f\<lparr>content := take n (content f) @ replicate (n - length (content f)) 0\<rparr> else f)"

definition file_read_exact :: "io_env \<Rightarrow> syscall \<Rightarrow> nat \<Rightarrow> wal_file \<Rightarrow> (rstring + bytes) \<times> wal_file" where
  "file_read_exact env c n f =
     (case fault env c of
        Some msg \<Rightarrow> (Inl msg, f)
      | None \<Rightarrow>
          if length (content f) - cursor f < n
          then (Inl (str ''failed to fill whole buffer''), f\<lparr>cursor := length (content f)\<rparr>)
          else (Inr (take n (drop (cursor f) (content f))), f\<lparr>cursor := cursor f + n\<rparr>))"

section \<open>Directories\<close>

text \<open>
  A path is its list of components below the directory the process runs in (or the root), which
  exists; \<open>dirs\<close> is the set of directories. The path is given last component first, so that the
  parent is its tail.
\<close>

fun ensure_directory :: "io_env \<Rightarrow> rstring list \<Rightarrow> rstring list set \<Rightarrow> (error + unit) \<times> rstring list set" where
  "ensure_directory env [] dirs = (Inr (), dirs)"
| "ensure_directory env (name # parent) dirs =
     (if name # parent \<in> dirs then (Inr (), dirs)
      else case ensure_directory env parent dirs of
        (Inl e, dirs) \<Rightarrow> (Inl e, dirs)
      | (Inr _, dirs) \<Rightarrow>
          (case (if raced env (name # parent) then Inr () else syscall env (CreateDir (name # parent))) of
            Inl e \<Rightarrow> (Inl e, dirs)
          | Inr _ \<Rightarrow>
              (let dirs = insert (name # parent) dirs in
               case syscall env (SyncDir parent) of
                 Inl e \<Rightarrow> (Inl e, dirs)
               | Inr _ \<Rightarrow> (syscall env (SyncDir (name # parent)), dirs))))"

section \<open>Batches on disk\<close>

definition MAGIC :: bytes where "MAGIC = str ''VLOWAL01''"

definition HEADER_BYTES :: nat where "HEADER_BYTES = 12"

type_synonym batch = "u64 \<times> log_record list"

text \<open>The bytes \<open>append\<close> writes for a batch: header checksum, body length and body checksum first.\<close>

definition wal_body :: "u64 \<Rightarrow> log_record list \<Rightarrow> bytes" where
  "wal_body first records = to_be_bytes first @ encode_records records"

definition wal_header :: "(bytes \<Rightarrow> u32) \<Rightarrow> bytes \<Rightarrow> bytes" where
  "wal_header crc body =
     (let frame = to_be_bytes (of_nat (length body) :: u32);
          frame = frame @ to_be_bytes (crc body)
      in frame @ to_be_bytes (crc frame))"

definition wal_frame :: "(bytes \<Rightarrow> u32) \<Rightarrow> batch \<Rightarrow> bytes" where
  "wal_frame crc b = (case b of (first, records) \<Rightarrow>
     (let body = wal_body first records in wal_header crc body @ body))"

definition decode_wal_body :: "bytes \<Rightarrow> error + batch" where
  "decode_wal_body body =
     map_err (\<lambda>e. storage (err_message e))
       (and_then (reader_u64 (reader_new body)) (\<lambda>(first, r).
        and_then (decode_records r) (\<lambda>(records, r).
        and_then (reader_finish r) (\<lambda>_. Inr (first, records)))))"

section \<open>Opening the log\<close>

record wal =
  wal_handle :: wal_file
  wal_bytes :: u64
  wal_max_bytes :: u64

definition truncate_tail :: "io_env \<Rightarrow> nat \<Rightarrow> wal_file \<Rightarrow> (error + unit) \<times> wal_file" where
  "truncate_tail env len f =
     (case file_set_len env (Truncate len) len f of
        (Inl e, f) \<Rightarrow> (Inl e, f)
      | (Inr _, f) \<Rightarrow> file_sync_all env (SyncTruncate len) f)"

definition header_mismatch :: "nat \<Rightarrow> error" where
  "header_mismatch pos = error_new STORAGE (str ''WAL header checksum mismatch at byte '' @ decimal pos)"

definition invalid_length :: "nat \<Rightarrow> error" where
  "invalid_length pos = error_new STORAGE (str ''invalid WAL batch length at byte '' @ decimal pos)"

definition batch_mismatch :: "nat \<Rightarrow> error" where
  "batch_mismatch pos = error_new STORAGE (str ''WAL batch checksum mismatch at byte '' @ decimal pos)"

text \<open>
  The replay loop of \<open>open\<close>: \<open>len\<close> is the length of the file, \<open>pos\<close> the position; \<open>replay\<close> is the
  closure of the caller, acting on the caller's state. The result is the valid length.
\<close>

function open_loop ::
  "io_env \<Rightarrow> (bytes \<Rightarrow> u32) \<Rightarrow> (u64 \<Rightarrow> log_record list \<Rightarrow> 's \<Rightarrow> error + 's)
    \<Rightarrow> nat \<Rightarrow> nat \<Rightarrow> wal_file \<Rightarrow> 's \<Rightarrow> (error + nat \<times> 's) \<times> wal_file" where
  "open_loop env crc replay len pos f s =
     (if \<not> pos < len then (Inr (len, s), f)
      else if len - pos < HEADER_BYTES then
        (case truncate_tail env pos f of
           (Inl e, f) \<Rightarrow> (Inl e, f)
         | (Inr _, f) \<Rightarrow> (Inr (pos, s), f))
      else case file_read_exact env (ReadHeader pos) HEADER_BYTES f of
        (Inl msg, f) \<Rightarrow> (Inl (storage msg), f)
      | (Inr header, f) \<Rightarrow>
          (let header_crc = from_be_bytes (take 4 (drop 8 header)) :: u32;
               body_length = unat (from_be_bytes (take 4 header) :: u32);
               expected_crc = from_be_bytes (take 4 (drop 4 header)) :: u32;
               end_pos = pos + HEADER_BYTES + body_length
           in if crc (take 8 header) \<noteq> header_crc then (Inl (header_mismatch pos), f)
              else if \<not> (19 \<le> body_length \<and> body_length \<le> MAX_FRAME + 3)
              then (Inl (invalid_length pos), f)
              else if end_pos > len then
                (case truncate_tail env pos f of
                   (Inl e, f) \<Rightarrow> (Inl e, f)
                 | (Inr _, f) \<Rightarrow> (Inr (pos, s), f))
              else case file_read_exact env (ReadBody pos) body_length f of
                (Inl msg, f) \<Rightarrow> (Inl (storage msg), f)
              | (Inr body, f) \<Rightarrow>
                  if crc body \<noteq> expected_crc then (Inl (batch_mismatch pos), f)
                  else case decode_wal_body body of
                    Inl e \<Rightarrow> (Inl e, f)
                  | Inr (first, records) \<Rightarrow>
                      (case replay first records s of
                        Inl e \<Rightarrow> (Inl e, f)
                      | Inr s \<Rightarrow> open_loop env crc replay len end_pos f s)))"
  by pat_completeness auto
termination
  by (relation "measure (\<lambda>(env, crc, replay, len, pos, f, s). len - pos)")
    (auto simp: HEADER_BYTES_def)

declare open_loop.simps [simp del]

text \<open>
  \<open>wal_open\<close> runs on the file at \<open>directory/events.wal\<close>, \<open>None\<close> when it does not exist yet, and
  returns the file it leaves behind also when it fails. The lock fails when another process
  holds it.
\<close>

definition wal_open ::
  "io_env \<Rightarrow> (bytes \<Rightarrow> u32) \<Rightarrow> u64 \<Rightarrow> (u64 \<Rightarrow> log_record list \<Rightarrow> 's \<Rightarrow> error + 's)
    \<Rightarrow> rstring list \<Rightarrow> rstring list set \<Rightarrow> wal_file option \<Rightarrow> 's
    \<Rightarrow> (error + wal \<times> 's) \<times> rstring list set \<times> wal_file option" where
  "wal_open env crc max_bytes replay directory dirs file s =
     (case ensure_directory env directory dirs of
        (Inl e, dirs) \<Rightarrow> (Inl e, dirs, file)
      | (Inr _, dirs) \<Rightarrow>
     (case syscall env OpenFile of
        Inl e \<Rightarrow> (Inl e, dirs, file)
      | Inr _ \<Rightarrow>
     (let f = (case file of
                 None \<Rightarrow> \<lparr>content = [], synced = [], cursor = 0\<rparr>
               | Some f \<Rightarrow> f\<lparr>cursor := 0\<rparr>)
      in if fault env LockFile \<noteq> None
         then (Inl (error_new STORAGE (str ''data directory is already locked by another process'')),
               dirs, Some f)
         else case syscall env Metadata of
           Inl e \<Rightarrow> (Inl e, dirs, Some f)
         | Inr _ \<Rightarrow>
             (let len = length (content f)
              in if len > unat max_bytes
                 then (Inl (error_new CAPACITY (str ''existing WAL exceeds configured max-wal-bytes'')),
                       dirs, Some f)
                 else case
                   (if len = 0 then
                      case file_write_all env WriteMagic MAGIC f of
                        (Inl e, f) \<Rightarrow> (Inl e, f)
                      | (Inr _, f) \<Rightarrow>
                          (case file_sync_all env SyncMagic f of
                             (Inl e, f) \<Rightarrow> (Inl e, f)
                           | (Inr _, f) \<Rightarrow> (Inr (length MAGIC), f))
                    else (Inr len, f)) of
                   (Inl e, f) \<Rightarrow> (Inl e, dirs, Some f)
                 | (Inr len, f) \<Rightarrow>
             (case and_then (syscall env SyncDirectory) (\<lambda>_. syscall env SeekStart) of
                Inl e \<Rightarrow> (Inl e, dirs, Some f)
              | Inr _ \<Rightarrow>
             (case file_read_exact env ReadMagic 8 (f\<lparr>cursor := 0\<rparr>) of
                (Inl _, f) \<Rightarrow> (Inl (error_new STORAGE (str ''incomplete WAL file header'')), dirs, Some f)
              | (Inr magic, f) \<Rightarrow>
                  if magic \<noteq> MAGIC
                  then (Inl (error_new STORAGE (str ''invalid WAL file header'')), dirs, Some f)
                  else case open_loop env crc replay len (length MAGIC) f s of
                    (Inl e, f) \<Rightarrow> (Inl e, dirs, Some f)
                  | (Inr (len, s), f) \<Rightarrow>
                      (case syscall env SeekEnd of
                         Inl e \<Rightarrow> (Inl e, dirs, Some f)
                       | Inr _ \<Rightarrow>
                           (let f = f\<lparr>cursor := len\<rparr>
                            in (Inr (\<lparr>wal_handle = f, wal_bytes = of_nat len, wal_max_bytes = max_bytes\<rparr>, s),
                                dirs, Some f)))))))))"

section \<open>Appending\<close>

definition batch_bytes :: "log_record list \<Rightarrow> u64" where
  "batch_bytes records =
     of_nat HEADER_BYTES + 8 + 2 + sum_list (map (\<lambda>r. of_nat (wire_bytes r - 8)) records)"

definition wal_check_capacity :: "wal \<Rightarrow> log_record list \<Rightarrow> error + unit" where
  "wal_check_capacity w records =
     (if batch_bytes records > saturating_sub (wal_max_bytes w) (wal_bytes w)
      then Inl (error_new CAPACITY (str ''WAL capacity reached; batch was not written''))
      else Inr ())"

definition wal_append ::
  "io_env \<Rightarrow> (bytes \<Rightarrow> u32) \<Rightarrow> u64 \<Rightarrow> log_record list \<Rightarrow> wal \<Rightarrow> (error + unit) \<times> wal" where
  "wal_append env crc first records w =
     (case wal_check_capacity w records of
        Inl e \<Rightarrow> (Inl e, w)
      | Inr _ \<Rightarrow>
          (let frame = wal_frame crc (first, records)
           in case file_write_all env WriteFrame frame (wal_handle w) of
                (Inl e, f) \<Rightarrow> (Inl e, w\<lparr>wal_handle := f\<rparr>)
              | (Inr _, f) \<Rightarrow>
                  (case file_sync_all env SyncFrame f of
                     (Inl e, f) \<Rightarrow> (Inl e, w\<lparr>wal_handle := f\<rparr>)
                   | (Inr _, f) \<Rightarrow>
                       (Inr (), w\<lparr>wal_handle := f, wal_bytes := wal_bytes w + of_nat (length frame)\<rparr>))))"

end
