(* ===== verification/Wal_Recovery.thy ===== *)
theory Wal_Recovery
  imports Wal
begin

text \<open>
  Recovery of the write-ahead log. A log on disk is \<open>MAGIC\<close>, the frames of its batches and a
  tail; \<open>open_loop\<close> replays exactly the batches, truncates exactly a torn tail and refuses
  everything else without touching the file.
\<close>

section \<open>Frames\<close>

text \<open>What \<open>append\<close> is given by a decoded PUBLISH request: a batch whose body fits a request frame.\<close>

definition batch_fits :: "batch \<Rightarrow> bool" where
  "batch_fits b = (batch_ok (snd b) \<and> length (encode_records (snd b)) \<le> MAX_FRAME - 5)"

definition wal_layout :: "(bytes \<Rightarrow> u32) \<Rightarrow> batch list \<Rightarrow> bytes" where
  "wal_layout crc bs = MAGIC @ concat (map (wal_frame crc) bs)"

text \<open>A torn tail: part of a header, or a whole checked header whose body is incomplete.\<close>

definition torn :: "(bytes \<Rightarrow> u32) \<Rightarrow> bytes \<Rightarrow> bool" where
  "torn crc tail =
     (tail \<noteq> [] \<and>
      (length tail < HEADER_BYTES \<or>
       (let n = unat (from_be_bytes (take 4 tail) :: u32)
        in crc (take 8 tail) = from_be_bytes (take 4 (drop 8 tail))
           \<and> 19 \<le> n \<and> n \<le> MAX_FRAME + 3 \<and> length tail < HEADER_BYTES + n)))"

lemma length_MAGIC [simp]: "length MAGIC = 8"
  by (simp add: MAGIC_def str_def)

lemma length_wal_header [simp]: "length (wal_header crc body) = HEADER_BYTES"
  by (simp add: wal_header_def Let_def HEADER_BYTES_def)

lemma length_wal_body [simp]: "length (wal_body first rs) = 8 + length (encode_records rs)"
  by (simp add: wal_body_def)

lemma wal_frame_split: "wal_frame crc (first, rs) = wal_header crc (wal_body first rs) @ wal_body first rs"
  by (simp add: wal_frame_def Let_def)

lemma length_wal_frame [simp]:
  "length (wal_frame crc (first, rs)) = HEADER_BYTES + 8 + length (encode_records rs)"
  by (simp add: wal_frame_split)

lemma wal_header_fields:
  "take 8 (wal_header crc body) = to_be_bytes (of_nat (length body) :: u32) @ to_be_bytes (crc body)"
  "take 4 (wal_header crc body) = to_be_bytes (of_nat (length body) :: u32)"
  "take 4 (drop 4 (wal_header crc body)) = to_be_bytes (crc body)"
  "take 4 (drop 8 (wal_header crc body))
     = to_be_bytes (crc (to_be_bytes (of_nat (length body) :: u32) @ to_be_bytes (crc body)))"
  by (simp_all add: wal_header_def Let_def)

text \<open>A header is determined by its fields: twelve bytes that pass the checks are a header.\<close>

lemma wal_header_exact:
  assumes "length h = HEADER_BYTES"
    and "crc (take 8 h) = from_be_bytes (take 4 (drop 8 h))"
    and "unat (from_be_bytes (take 4 h) :: u32) = length body"
    and "crc body = from_be_bytes (take 4 (drop 4 h))"
  shows "h = wal_header crc body"
proof -
  have "of_nat (length body) = (from_be_bytes (take 4 h) :: u32)"
    by (simp flip: assms(3))
  then have 1: "to_be_bytes (of_nat (length body) :: u32) = take 4 h"
    using assms(1) by (simp add: to_from_be_bytes HEADER_BYTES_def)
  have 2: "to_be_bytes (crc body) = take 4 (drop 4 h)"
    using assms(1) by (simp add: assms(4) to_from_be_bytes HEADER_BYTES_def)
  have 3: "take 4 h @ take 4 (drop 4 h) = take 8 h"
    by (simp flip: take_add)
  have 4: "to_be_bytes (crc (take 8 h)) = take 4 (drop 8 h)"
    using assms(1) by (simp add: assms(2) to_from_be_bytes HEADER_BYTES_def)
  have "take 8 h @ take 4 (drop 8 h) = h"
    using assms(1) by (simp add: HEADER_BYTES_def flip: take_add)
  then show ?thesis
    by (simp only: wal_header_def Let_def 1 2 3 4)
qed

lemma encode_records_length_ge: "batch_ok rs \<Longrightarrow> 11 \<le> length (encode_records rs)"
proof -
  assume ok: "batch_ok rs"
  then obtain x xs where rs: "rs = x # xs" by (cases rs) (auto simp: batch_ok_def)
  with ok have "rec_topic x \<noteq> []" by (simp add: batch_ok_def record_ok_def valid_topic_def)
  then show ?thesis
    by (cases "rec_topic x") (simp_all add: rs encode_records_concat length_encode_record wire_bytes_def)
qed

lemma batch_fits_length:
  assumes "batch_fits (first, rs)"
  shows "19 \<le> length (wal_body first rs)" and "length (wal_body first rs) \<le> MAX_FRAME + 3"
    and "unat (of_nat (length (wal_body first rs)) :: u32) = length (wal_body first rs)"
proof -
  have "11 \<le> length (encode_records rs)" "length (encode_records rs) \<le> MAX_FRAME - 5"
    using assms encode_records_length_ge by (auto simp: batch_fits_def)
  then show "19 \<le> length (wal_body first rs)" "length (wal_body first rs) \<le> MAX_FRAME + 3"
    by (simp_all add: MAX_FRAME_def)
  then show "unat (of_nat (length (wal_body first rs)) :: u32) = length (wal_body first rs)"
    by (simp only: MAX_FRAME_def) (subst unat_of_nat_lt; simp)
qed

lemma decode_wal_body_exact:
  "decode_wal_body body = Inr (first, rs) \<longleftrightarrow> batch_ok rs \<and> body = wal_body first rs"
proof
  assume "decode_wal_body body = Inr (first, rs)"
  then obtain r r' where "reader_u64 (reader_new body) = Inr (first, r)"
    and "decode_records r = Inr (rs, r')" and fin: "reader_finish r' = Inr ()"
    by (auto simp: decode_wal_body_def and_then_eq_Inr)
  moreover have "unread r' = []"
    using fin by (simp add: reader_finish_def unread_def split: if_splits)
  ultimately show "batch_ok rs \<and> body = wal_body first rs"
    using u64_codec.dec_unread batch_codec.dec_unread by (fastforce simp: wal_body_def)
next
  assume ok: "batch_ok rs \<and> body = wal_body first rs"
  then have "unread (reader_new body) = to_be_bytes first @ encode_records rs @ []"
    by (simp add: wal_body_def)
  then obtain r where r: "reader_u64 (reader_new body) = Inr (first, r)"
    and un: "unread r = encode_records rs @ []" "reader_ok r"
    using u64_codec.dec_step [OF reader_new_simps(2), of body first "encode_records rs @ []"] by auto
  then obtain r' where "decode_records r = Inr (rs, r')" "unread r' = []" "reader_ok r'"
    using batch_codec.dec_step [OF un(2,1)] ok by auto
  then show "decode_wal_body body = Inr (first, rs)"
    using reader_finish_iff [of r'] by (simp add: decode_wal_body_def r)
qed

section \<open>The replay loop\<close>

fun replay_all :: "(u64 \<Rightarrow> log_record list \<Rightarrow> 's \<Rightarrow> error + 's) \<Rightarrow> batch list \<Rightarrow> 's \<Rightarrow> error + 's" where
  "replay_all replay [] s = Inr s"
| "replay_all replay (b # bs) s = and_then (replay (fst b) (snd b) s) (replay_all replay bs)"

lemma file_read_exact_no_faults:
  "file_read_exact no_faults c n f =
     (if length (content f) - cursor f < n
      then (Inl (str ''failed to fill whole buffer''), f\<lparr>cursor := length (content f)\<rparr>)
      else (Inr (take n (drop (cursor f) (content f))), f\<lparr>cursor := cursor f + n\<rparr>))"
  by (simp add: file_read_exact_def no_faults_def)

lemma truncate_tail_no_faults:
  "n \<le> length (content f) \<Longrightarrow> truncate_tail no_faults n f
     = (Inr (), f\<lparr>content := take n (content f), synced := take n (content f)\<rparr>)"
  by (simp add: truncate_tail_def file_set_len_def file_sync_all_def no_faults_def syscall_def)

lemma open_loop_end [simp]:
  "\<not> pos < len \<Longrightarrow> open_loop env crc replay len pos f s = (Inr (len, s), f)"
  by (simp add: open_loop.simps)

lemma open_loop_step:
  assumes "pos + HEADER_BYTES \<le> len"
    and "file_read_exact env (ReadHeader pos) HEADER_BYTES f = (Inr h, f1)"
    and "crc (take 8 h) = from_be_bytes (take 4 (drop 8 h))"
    and "n = unat (from_be_bytes (take 4 h) :: u32)" and "19 \<le> n" and "n \<le> MAX_FRAME + 3"
    and "pos + HEADER_BYTES + n \<le> len"
    and "file_read_exact env (ReadBody pos) n f1 = (Inr body, f2)"
    and "crc body = from_be_bytes (take 4 (drop 4 h))"
    and "decode_wal_body body = Inr (first, rs)"
  shows "open_loop env crc replay len pos f s =
    (case replay first rs s of
       Inl e \<Rightarrow> (Inl e, f2)
     | Inr s \<Rightarrow> open_loop env crc replay len (pos + HEADER_BYTES + n) f2 s)"
proof -
  have "pos < len" "\<not> len - pos < HEADER_BYTES" using assms(1) by (simp_all add: HEADER_BYTES_def)
  with assms(2,3,5-) show ?thesis
    by (subst open_loop.simps) (simp add: Let_def assms(4) [symmetric])
qed

lemma open_loop_frame:
  assumes fits: "batch_fits (first, rs)"
    and f: "content f = pre @ wal_frame crc (first, rs) @ rest" "cursor f = length pre"
    and len: "len = length (content f)"
  shows "open_loop no_faults crc replay len (length pre) f s =
    (let f2 = f\<lparr>cursor := length (pre @ wal_frame crc (first, rs))\<rparr>
     in case replay first rs s of
          Inl e \<Rightarrow> (Inl e, f2)
        | Inr s \<Rightarrow> open_loop no_faults crc replay len (length (pre @ wal_frame crc (first, rs))) f2 s)"
proof -
  let ?b = "wal_body first rs" and ?f1 = "f\<lparr>cursor := length pre + HEADER_BYTES\<rparr>"
  let ?n = "length ?b"
  note n = batch_fits_length [OF fits]
  have lens: "len = length pre + HEADER_BYTES + ?n + length rest"
    by (simp add: len f)
  have h: "file_read_exact no_faults (ReadHeader (length pre)) HEADER_BYTES f
      = (Inr (wal_header crc ?b), ?f1)"
    by (simp add: file_read_exact_no_faults f wal_frame_split)
  have b: "file_read_exact no_faults (ReadBody (length pre)) ?n ?f1
      = (Inr ?b, f\<lparr>cursor := length pre + HEADER_BYTES + ?n\<rparr>)"
    by (simp add: file_read_exact_no_faults f wal_frame_split)
  have len_field: "?n = unat (from_be_bytes (take 4 (wal_header crc ?b)) :: u32)"
    using n(3) by (simp only: wal_header_fields from_to_be_bytes) (simp add: from_to_be_bytes)
  have checks: "crc (take 8 (wal_header crc ?b)) = from_be_bytes (take 4 (drop 8 (wal_header crc ?b)))"
    "crc ?b = from_be_bytes (take 4 (drop 4 (wal_header crc ?b)))"
    by (simp_all only: wal_header_fields) (simp_all add: from_to_be_bytes)
  have body: "decode_wal_body ?b = Inr (first, rs)"
    using fits by (simp add: decode_wal_body_exact batch_fits_def)
  have "length (pre @ wal_frame crc (first, rs)) = length pre + HEADER_BYTES + ?n" by simp
  then show ?thesis
    unfolding Let_def
    by (simp only:) (rule open_loop_step [OF _ h checks(1) len_field n(1,2) _ b checks(2) body];
      simp add: lens)
qed

text \<open>A torn tail is cut off and made durable, whatever its bytes.\<close>

lemma open_loop_torn:
  assumes f: "content f = pre @ tail" "cursor f = length pre"
    and len: "len = length (content f)" and torn: "torn crc tail"
  shows "\<exists>c. open_loop no_faults crc replay len (length pre) f s
    = (Inr (length pre, s), f\<lparr>content := pre, synced := pre, cursor := c\<rparr>)"
proof (cases "length tail < HEADER_BYTES")
  case True
  have "open_loop no_faults crc replay len (length pre) f s
    = (Inr (length pre, s), f\<lparr>content := pre, synced := pre\<rparr>)"
    using True torn by (subst open_loop.simps) (simp add: torn_def len f truncate_tail_no_faults)
  then show ?thesis by (intro exI [of _ "cursor f"]) simp
next
  case False
  let ?h = "take HEADER_BYTES tail" and ?f1 = "f\<lparr>cursor := length pre + HEADER_BYTES\<rparr>"
  define n where "n = unat (from_be_bytes (take 4 ?h) :: u32)"
  have fields: "take 4 ?h = take 4 tail" "take 8 ?h = take 8 tail" "take 4 (drop 8 ?h) = take 4 (drop 8 tail)"
    by (simp_all add: HEADER_BYTES_def drop_take)
  from torn False have ok: "crc (take 8 ?h) = from_be_bytes (take 4 (drop 8 ?h))"
    and n: "19 \<le> n" "n \<le> MAX_FRAME + 3" "length tail < HEADER_BYTES + n"
    unfolding fields n_def by (simp_all add: torn_def Let_def)
  have h: "file_read_exact no_faults (ReadHeader (length pre)) HEADER_BYTES f = (Inr ?h, ?f1)"
    using False by (simp add: file_read_exact_no_faults f)
  have "open_loop no_faults crc replay len (length pre) f s
    = (Inr (length pre, s), ?f1\<lparr>content := pre, synced := pre\<rparr>)"
    using False n torn
    by (subst open_loop.simps)
      (simp add: len f h [unfolded f] ok [symmetric] n_def [symmetric] truncate_tail_no_faults torn_def
        del: take_take drop_take split del: if_split cong: if_cong)
  then show ?thesis by (intro exI [of _ "length pre + HEADER_BYTES"]) simp
qed

text \<open>
  Completeness of recovery: a log of well-formed batches followed by nothing or by a torn tail is
  replayed batch by batch, in order, and then holds exactly its batches.
\<close>

lemma open_loop_layout:
  assumes "list_all batch_fits bs" and "tail = [] \<or> torn crc tail"
    and "content f = pre @ concat (map (wal_frame crc) bs) @ tail" and "cursor f = length pre"
    and "len = length (content f)"
  shows "case replay_all replay bs s of
      Inl e \<Rightarrow> \<exists>f'. open_loop no_faults crc replay len (length pre) f s = (Inl e, f')
        \<and> content f' = content f \<and> synced f' = synced f
    | Inr s' \<Rightarrow> \<exists>f'. open_loop no_faults crc replay len (length pre) f s =
          (Inr (length (pre @ concat (map (wal_frame crc) bs)), s'), f')
        \<and> content f' = pre @ concat (map (wal_frame crc) bs)
        \<and> synced f' = (if tail = [] then synced f else content f')"
  using assms
proof (induction bs arbitrary: pre f s)
  case Nil
  show ?case
  proof (cases "tail = []")
    case False
    with Nil.prems(2) have torn: "torn crc tail" by simp
    from Nil.prems(3) have f: "content f = pre @ tail" by simp
    from open_loop_torn [OF f Nil.prems(4,5) torn, of replay s] False show ?thesis by auto
  qed (use Nil in simp)
next
  case (Cons b bs)
  obtain first rs where b: "b = (first, rs)" by fastforce
  let ?pre = "pre @ wal_frame crc (first, rs)" and ?rest = "concat (map (wal_frame crc) bs) @ tail"
  let ?f = "f\<lparr>cursor := length ?pre\<rparr>"
  have fits: "batch_fits (first, rs)" and f: "content f = pre @ wal_frame crc (first, rs) @ ?rest"
    using Cons.prems by (simp_all add: b)
  note step = open_loop_frame [OF fits f Cons.prems(4,5), of replay s, unfolded Let_def]
  show ?case
  proof (cases "replay first rs s")
    case (Inl e)
    then show ?thesis by (simp add: b step)
  next
    case (Inr s1)
    have "open_loop no_faults crc replay len (length pre) f s
        = open_loop no_faults crc replay len (length ?pre) ?f s1"
      by (simp add: step Inr)
    then show ?thesis
      using Cons.IH [of ?f ?pre s1] Cons.prems f Inr
      by (simp add: b split: sum.splits split del: if_split cong: if_cong)
  qed
qed

text \<open>
  Soundness of recovery, under any outcomes of the system calls: when the loop succeeds, what it
  read was a sequence of well-formed frames and at most a torn tail; the caller's state is the
  replay of exactly those batches, and the file holds exactly those frames.
\<close>

lemma file_read_exact_Inr:
  assumes "file_read_exact env c n f = (Inr bs, f')"
  shows "cursor f + n \<le> length (content f) \<or> n = 0" and "bs = take n (drop (cursor f) (content f))"
    and "f' = f\<lparr>cursor := cursor f + n\<rparr>"
  using assms by (auto simp: file_read_exact_def split: option.splits if_splits)

lemma truncate_tail_Inr:
  assumes "truncate_tail env n f = (Inr u, f')" and "n \<le> length (content f)"
  shows "content f' = take n (content f)"
  using assms by (auto simp: truncate_tail_def file_set_len_def file_sync_all_def syscall_def
      split: option.splits prod.splits sum.splits)

lemma open_loop_sound:
  assumes "open_loop env crc replay len pos f s = (Inr (n, s'), f')"
    and "cursor f = pos" and "pos \<le> len" and "len = length (content f)"
  shows "\<exists>bs tail. drop pos (content f) = concat (map (wal_frame crc) bs) @ tail
    \<and> list_all batch_fits bs \<and> (tail = [] \<or> torn crc tail)
    \<and> replay_all replay bs s = Inr s'
    \<and> n = pos + length (concat (map (wal_frame crc) bs)) \<and> content f' = take n (content f)"
  using assms
proof (induction "len - pos" arbitrary: pos f s rule: less_induct)
  case less
  let ?tail = "drop pos (content f)"
  have cut: ?case if "torn crc ?tail" "n = pos" "s' = s" "content f' = take pos (content f)"
    using that by (intro exI [of _ "[]"] exI [of _ ?tail]) simp
  show ?case
  proof (cases "pos < len")
    case False
    with less.prems show ?thesis by (intro exI [of _ "[]"]) auto
  next
    case True
    show ?thesis
    proof (cases "len - pos < HEADER_BYTES")
      case short: True
      with less.prems(1) True obtain u where "truncate_tail env pos f = (Inr u, f')" "n = pos" "s' = s"
        by (subst (asm) open_loop.simps) (auto split: prod.splits sum.splits)
      moreover have "torn crc ?tail" using short True less.prems by (simp add: torn_def)
      ultimately show ?thesis using truncate_tail_Inr [of env pos f u f'] less.prems by (intro cut) simp_all
    next
      case False
      with less.prems(1) True obtain h f1 where h: "file_read_exact env (ReadHeader pos) HEADER_BYTES f = (Inr h, f1)"
        by (subst (asm) open_loop.simps) (auto split: prod.splits sum.splits)
      note h' = file_read_exact_Inr [OF h]
      define k where "k = unat (from_be_bytes (take 4 h) :: u32)"
      have fields: "take 4 h = take 4 ?tail" "take 8 h = take 8 ?tail" "take 4 (drop 8 h) = take 4 (drop 8 ?tail)"
        using h'(2) less.prems(2) by (simp_all add: HEADER_BYTES_def drop_take)
      from less.prems(1) True False h have crc_h: "crc (take 8 h) = from_be_bytes (take 4 (drop 8 h))"
        and k: "19 \<le> k" "k \<le> MAX_FRAME + 3"
        by (subst (asm) open_loop.simps, simp add: Let_def k_def split: if_splits)+
      show ?thesis
      proof (cases "pos + HEADER_BYTES + k > len")
        case long: True
        with less.prems(1) True False h crc_h k
        obtain u where "truncate_tail env pos f1 = (Inr u, f')" "n = pos" "s' = s"
          by (subst (asm) open_loop.simps) (auto simp: Let_def k_def [symmetric] split: prod.splits sum.splits)
        moreover have "torn crc ?tail"
          using True False long k crc_h less.prems(4) by (simp add: torn_def Let_def k_def fields)
        ultimately show ?thesis
          using truncate_tail_Inr [of env pos f1 u f'] h'(3) less.prems by (intro cut) simp_all
      next
        case fits: False
        with less.prems(1) True False h crc_h k
        obtain body f2 where body: "file_read_exact env (ReadBody pos) k f1 = (Inr body, f2)"
          and crc_b: "crc body = from_be_bytes (take 4 (drop 4 h))"
          by (subst (asm) open_loop.simps)
            (auto simp: Let_def k_def [symmetric] split: prod.splits sum.splits if_splits)
        from less.prems(1) True False h crc_h k fits body crc_b
        obtain first rs where dec: "decode_wal_body body = Inr (first, rs)"
          by (subst (asm) open_loop.simps)
            (auto simp: Let_def k_def [symmetric] split: prod.splits sum.splits if_splits)
        have "pos + HEADER_BYTES \<le> len" using fits by simp
        from open_loop_step [where replay = replay and s = s, OF this h crc_h k_def k _ body crc_b dec] fits less.prems(1)
        obtain s1 where s1: "replay first rs s = Inr s1"
          and rest: "open_loop env crc replay len (pos + HEADER_BYTES + k) f2 s1 = (Inr (n, s'), f')"
          by (auto split: sum.splits)
        have pos2: "drop (cursor f1) (content f1) = drop HEADER_BYTES ?tail"
          using h'(3) less.prems(2) by (simp add: add.commute)
        note b' = file_read_exact_Inr [OF body, unfolded pos2]
        have len_tail: "HEADER_BYTES + k \<le> length ?tail" using fits less.prems(4) by simp
        then have len_body: "length body = k" and len_h: "length h = HEADER_BYTES"
          using b'(2) h'(2) less.prems(2) by simp_all
        have frame: "h = wal_header crc body"
          by (rule wal_header_exact [OF len_h crc_h _ crc_b]) (simp add: k_def [symmetric] len_body)
        have ok: "batch_ok rs" and bodyeq: "body = wal_body first rs"
          using dec by (simp_all add: decode_wal_body_exact)
        have "batch_fits (first, rs)"
          using ok len_body k(2) by (simp add: batch_fits_def bodyeq)
        moreover have tail: "?tail = wal_frame crc (first, rs) @ drop (pos + HEADER_BYTES + k) (content f)"
        proof -
          have "?tail = take HEADER_BYTES ?tail @ take k (drop HEADER_BYTES ?tail) @ drop k (drop HEADER_BYTES ?tail)"
            by (simp only: append_take_drop_id)
          then show ?thesis
            using h'(2) b'(2) less.prems(2) frame
            by (simp add: wal_frame_split bodyeq [symmetric] add.commute add.left_commute)
        qed
        moreover have "content f2 = content f" "cursor f2 = pos + HEADER_BYTES + k"
          using b'(3) h'(3) less.prems(2) by simp_all
        moreover have "len - (pos + HEADER_BYTES + k) < len - pos"
          using True by (simp add: HEADER_BYTES_def)
        moreover have "length (wal_frame crc (first, rs)) = HEADER_BYTES + k"
          using len_body by (simp add: bodyeq)
        ultimately obtain bs t where "drop (pos + HEADER_BYTES + k) (content f) = concat (map (wal_frame crc) bs) @ t"
          "list_all batch_fits bs" "t = [] \<or> torn crc t" "replay_all replay bs s1 = Inr s'"
          "n = pos + HEADER_BYTES + k + length (concat (map (wal_frame crc) bs))" "content f' = take n (content f)"
          using less.hyps [of "pos + HEADER_BYTES + k" f2 s1] rest fits less.prems(4) by auto
        then show ?thesis
          using tail s1 \<open>batch_fits (first, rs)\<close> \<open>length (wal_frame crc (first, rs)) = HEADER_BYTES + k\<close>
          by (intro exI [of _ "(first, rs) # bs"] exI [of _ t]) (simp add: add.assoc)
      qed
    qed
  qed
qed

text \<open>A log that is refused is left as it was: only a torn tail is ever removed.\<close>

lemma file_read_exact_content:
  "file_read_exact env c n f = (res, f') \<Longrightarrow> content f' = content f \<and> synced f' = synced f"
  by (auto simp: file_read_exact_def split: option.splits if_splits)

lemma truncate_tail_no_error: "truncate_tail no_faults n f \<noteq> (Inl e, f')"
  by (simp add: truncate_tail_def file_set_len_def file_sync_all_def split: prod.splits)

lemma open_loop_refuses:
  assumes "open_loop no_faults crc replay len pos f s = (Inl e, f')"
  shows "content f' = content f \<and> synced f' = synced f"
  using assms
proof (induction "len - pos" arbitrary: pos f s rule: less_induct)
  case less
  have IH: "content f' = content f1 \<and> synced f' = synced f1"
    if "open_loop no_faults crc replay len (pos + HEADER_BYTES + n) f1 s1 = (Inl e, f')" "pos < len" for n f1 s1
    using that by (intro less.hyps) (auto simp: HEADER_BYTES_def)
  show ?case
    using less.prems by (subst (asm) open_loop.simps)
      (auto simp: Let_def truncate_tail_no_error dest!: file_read_exact_content IH
        split: if_splits sum.splits prod.splits)
qed

section \<open>Opening\<close>

lemma ensure_directory_no_faults: "\<exists>dirs'. ensure_directory no_faults path dirs = (Inr (), dirs')"
  by (induction path arbitrary: dirs) (auto simp: Let_def split: prod.splits sum.splits, (metis prod.inject sum.distinct(1))+)

text \<open>
  The handle of a log that holds the batches \<open>bs\<close>: the file is their layout, the cursor is at
  its end and the byte count is exact and within the budget.
\<close>

definition wal_ok :: "(bytes \<Rightarrow> u32) \<Rightarrow> wal \<Rightarrow> batch list \<Rightarrow> bool" where
  "wal_ok crc w bs =
     (list_all batch_fits bs \<and> content (wal_handle w) = wal_layout crc bs
      \<and> cursor (wal_handle w) = length (wal_layout crc bs)
      \<and> unat (wal_bytes w) = length (wal_layout crc bs) \<and> wal_bytes w \<le> wal_max_bytes w)"

lemma length_wal_layout_ge: "8 \<le> length (wal_layout crc bs)"
  by (simp add: wal_layout_def)

lemma wal_open_layout:
  assumes bs: "list_all batch_fits bs" and tail: "tail = [] \<or> torn crc tail"
    and f: "content f = wal_layout crc bs @ tail" and max: "length (content f) \<le> unat max_bytes"
  shows "case replay_all replay bs s of
      Inl e \<Rightarrow> \<exists>dirs' f'. wal_open no_faults crc max_bytes replay directory dirs (Some f) s
        = (Inl e, dirs', Some f') \<and> content f' = content f \<and> synced f' = synced f
    | Inr s' \<Rightarrow> \<exists>dirs' w. wal_open no_faults crc max_bytes replay directory dirs (Some f) s
          = (Inr (w, s'), dirs', Some (wal_handle w))
        \<and> wal_ok crc w bs \<and> wal_max_bytes w = max_bytes
        \<and> synced (wal_handle w) = (if tail = [] then synced f else wal_layout crc bs)"
proof -
  obtain dirs' where dirs: "ensure_directory no_faults directory dirs = (Inr (), dirs')"
    using ensure_directory_no_faults by blast
  let ?f = "f\<lparr>cursor := 8\<rparr>" and ?open = "wal_open no_faults crc max_bytes replay directory dirs (Some f) s"
  have f': "content ?f = MAGIC @ concat (map (wal_frame crc) bs) @ tail" "cursor ?f = length MAGIC"
    by (simp_all add: f wal_layout_def)
  have magic: "file_read_exact no_faults ReadMagic 8 (f\<lparr>cursor := 0\<rparr>) = (Inr MAGIC, ?f)"
    using f' by (simp add: file_read_exact_no_faults)
  have loop: "?open = (case open_loop no_faults crc replay (length (content ?f)) (length MAGIC) ?f s of
        (Inl e, f) \<Rightarrow> (Inl e, dirs', Some f)
      | (Inr (len, s), f) \<Rightarrow>
          (Inr (\<lparr>wal_handle = f\<lparr>cursor := len\<rparr>, wal_bytes = of_nat len, wal_max_bytes = max_bytes\<rparr>, s),
           dirs', Some (f\<lparr>cursor := len\<rparr>)))"
    using max f' by (simp add: wal_open_def dirs Let_def magic split: prod.splits sum.splits)
  note ll = open_loop_layout [OF bs tail f' refl, of replay s]
  show ?thesis
  proof (cases "replay_all replay bs s")
    case (Inl e)
    with ll obtain f1 where "open_loop no_faults crc replay (length (content ?f)) (length MAGIC) ?f s = (Inl e, f1)"
      "content f1 = content f" "synced f1 = synced f" by auto
    then show ?thesis using Inl loop by simp
  next
    case (Inr s')
    let ?n = "length (wal_layout crc bs)"
    from Inr ll obtain f1 where f1: "open_loop no_faults crc replay (length (content ?f)) (length MAGIC) ?f s
        = (Inr (?n, s'), f1)" "content f1 = wal_layout crc bs"
      "synced f1 = (if tail = [] then synced f else wal_layout crc bs)"
      by (auto simp: wal_layout_def split: if_splits)
    have "?n \<le> unat max_bytes" using max by (simp add: f)
    moreover from this have "unat (of_nat ?n :: u64) = ?n"
      using unat_lt [of max_bytes] by (intro unat_of_nat_lt) simp
    ultimately show ?thesis
      using Inr f1 bs by (simp add: loop wal_ok_def word_le_nat_alt)
  qed
qed

text \<open>A missing or empty file becomes an empty log, synchronized before it is used.\<close>

lemma wal_open_fresh:
  assumes "8 \<le> unat max_bytes" and "file = None \<or> (\<exists>f. file = Some f \<and> content f = [])"
  shows "\<exists>dirs' w. wal_open no_faults crc max_bytes replay directory dirs file s
      = (Inr (w, s), dirs', Some (wal_handle w))
    \<and> wal_ok crc w [] \<and> wal_max_bytes w = max_bytes \<and> synced (wal_handle w) = wal_layout crc []"
proof -
  obtain dirs' where dirs: "ensure_directory no_faults directory dirs = (Inr (), dirs')"
    using ensure_directory_no_faults by blast
  have len: "unat (8 :: u64) = 8" by simp
  show ?thesis
    using assms(2)
    by (auto simp: wal_open_def dirs Let_def file_write_all_def file_sync_all_def overwrite_def
        file_read_exact_no_faults wal_ok_def wal_layout_def word_le_nat_alt assms(1))
qed

section \<open>Appending\<close>

lemma batch_bytes_frame:
  assumes "batch_fits (first, rs)"
  shows "unat (batch_bytes rs) = length (wal_frame crc (first, rs))"
proof -
  have sum: "length (concat (map (encode_record []) rs)) = sum_list (map (\<lambda>r. wire_bytes r - 8) rs)"
    by (induction rs) (simp_all add: length_encode_record)
  have "batch_bytes rs = of_nat (HEADER_BYTES + 8 + 2 + sum_list (map (\<lambda>r. wire_bytes r - 8) rs))"
    by (simp add: batch_bytes_def of_nat_sum_list)
  also have "\<dots> = of_nat (length (wal_frame crc (first, rs)))"
    by (simp add: encode_records_concat sum)
  finally have eq: "batch_bytes rs = of_nat (length (wal_frame crc (first, rs)))" .
  have "length (wal_frame crc (first, rs)) < 2 ^ LENGTH(64)"
    using assms by (simp add: batch_fits_def HEADER_BYTES_def MAX_FRAME_def)
  then show ?thesis unfolding eq by (rule unat_of_nat_lt)
qed

lemma wal_layout_snoc: "wal_layout crc (bs @ [b]) = wal_layout crc bs @ wal_frame crc b"
  by (simp add: wal_layout_def)

lemma overwrite_end: "overwrite (length old) bs old = old @ bs"
  by (simp add: overwrite_def)

text \<open>
  The three outcomes of \<open>append\<close>: a batch beyond the budget is refused and nothing is written;
  a batch that is written and synchronized is in the log, durably; after a failing write or
  synchronization the file ends in a prefix of the frame and nothing more is durable.
\<close>

lemma wal_append_refused:
  "wal_check_capacity w rs = Inl e \<Longrightarrow> wal_append env crc first rs w = (Inl e, w)"
  by (simp add: wal_append_def)

lemma wal_append_Inr:
  assumes ok: "wal_ok crc w bs" and fits: "batch_fits (first, rs)"
    and append: "wal_append env crc first rs w = (Inr u, w')"
  shows "wal_ok crc w' (bs @ [(first, rs)])"
    and "synced (wal_handle w') = wal_layout crc (bs @ [(first, rs)])"
    and "wal_max_bytes w' = wal_max_bytes w"
proof -
  let ?frame = "wal_frame crc (first, rs)" and ?f = "wal_handle w"
  from append have "wal_check_capacity w rs = Inr ()"
    by (auto simp: wal_append_def split: sum.splits)
  then have "\<not> saturating_sub (wal_max_bytes w) (wal_bytes w) < batch_bytes rs"
    by (simp add: wal_check_capacity_def split: if_splits)
  moreover have "wal_bytes w \<le> wal_max_bytes w" using ok by (simp add: wal_ok_def)
  ultimately have admitted: "unat (wal_bytes w + batch_bytes rs) = unat (wal_bytes w) + unat (batch_bytes rs)"
      "wal_bytes w + batch_bytes rs \<le> wal_max_bytes w"
    by (rule admitted_fits)+
  then have fit: "unat (wal_bytes w + batch_bytes rs) = unat (wal_bytes w) + length ?frame"
      "wal_bytes w + batch_bytes rs \<le> wal_max_bytes w"
    by (simp_all only: batch_bytes_frame [OF fits, of crc])
  have len: "of_nat (length ?frame) = batch_bytes rs"
    by (simp only: batch_bytes_frame [OF fits, of crc, symmetric] of_nat_unat ucast_id)
  have w': "w' = w\<lparr>wal_handle := ?f\<lparr>content := wal_layout crc bs @ ?frame,
      cursor := length (wal_layout crc bs @ ?frame), synced := wal_layout crc bs @ ?frame\<rparr>,
      wal_bytes := wal_bytes w + batch_bytes rs\<rparr>"
    using append ok
    by (auto simp: wal_append_def Let_def file_write_all_def file_sync_all_def wal_ok_def syscall_def
        overwrite_end len simp del: length_wal_frame split: sum.splits option.splits if_splits)
  show "wal_ok crc w' (bs @ [(first, rs)])"
    using ok fits fit by (simp add: w' wal_ok_def wal_layout_snoc del: length_wal_frame)
  show "synced (wal_handle w') = wal_layout crc (bs @ [(first, rs)])" "wal_max_bytes w' = wal_max_bytes w"
    by (simp_all add: w' wal_layout_snoc)
qed

lemma wal_append_Inl:
  assumes ok: "wal_ok crc w bs" and append: "wal_append env crc first rs w = (Inl e, w')"
  shows "\<exists>k. content (wal_handle w') = wal_layout crc bs @ take k (wal_frame crc (first, rs))
    \<and> synced (wal_handle w') = synced (wal_handle w)"
proof -
  let ?frame = "wal_frame crc (first, rs)"
  from append ok consider "w' = w"
    | k where "content (wal_handle w') = wal_layout crc bs @ take k ?frame" "synced (wal_handle w') = synced (wal_handle w)"
    | "content (wal_handle w') = wal_layout crc bs @ ?frame" "synced (wal_handle w') = synced (wal_handle w)"
    by (fastforce simp: wal_append_def Let_def file_write_all_def file_sync_all_def wal_ok_def syscall_def
        overwrite_end split: sum.splits option.splits if_splits)
  then show ?thesis
  proof cases
    case 1
    then show ?thesis using ok by (intro exI [of _ 0]) (simp add: wal_ok_def)
  next
    case 3
    then show ?thesis by (intro exI [of _ "length ?frame"]) simp
  qed blast
qed

section \<open>Loss of power\<close>

text \<open>
  After a loss of power the file holds what was synchronized and some prefix (of \<open>k\<close> bytes) of
  what was written after that.
\<close>

definition crash :: "nat \<Rightarrow> wal_file \<Rightarrow> wal_file" where
  "crash k f = (let img = synced f @ take k (drop (length (synced f)) (content f))
     in \<lparr>content = img, synced = img, cursor = 0\<rparr>)"

lemma torn_take_frame:
  assumes "batch_fits (first, rs)" and "0 < k" and "k < length (wal_frame crc (first, rs))"
  shows "torn crc (take k (wal_frame crc (first, rs)))"
proof -
  let ?b = "wal_body first rs" and ?t = "take k (wal_frame crc (first, rs))"
  note n = batch_fits_length [OF assms(1)]
  have len: "length ?t = k" using assms(3) by simp
  with assms(2) have nonempty: "?t \<noteq> []" by (auto simp del: length_take)
  show ?thesis
  proof (cases "k < HEADER_BYTES")
    case False
    then have t: "?t = wal_header crc ?b @ take (k - HEADER_BYTES) ?b"
      by (simp add: wal_frame_split)
    have fields: "take 4 ?t = take 4 (wal_header crc ?b)" "take 8 ?t = take 8 (wal_header crc ?b)"
      "take 4 (drop 8 ?t) = take 4 (drop 8 (wal_header crc ?b))"
      unfolding t by (simp_all add: HEADER_BYTES_def)
    have "unat (from_be_bytes (take 4 ?t) :: u32) = length ?b"
      using n(3) by (simp only: fields wal_header_fields) (simp add: from_to_be_bytes)
    moreover have "crc (take 8 ?t) = from_be_bytes (take 4 (drop 8 ?t))"
      by (simp only: fields wal_header_fields) (simp add: from_to_be_bytes)
    moreover have "length ?t < HEADER_BYTES + length ?b" using assms(3) len by simp
    ultimately show ?thesis using n nonempty by (simp only: torn_def Let_def simp_thms)
  qed (use nonempty len in \<open>simp add: torn_def\<close>)
qed

lemma wal_crash_acknowledged:
  assumes "content f = wal_layout crc bs" and "synced f = wal_layout crc bs"
  shows "content (crash k f) = wal_layout crc bs"
  using assms by (simp add: crash_def Let_def)

lemma wal_crash_uncertain:
  assumes "batch_fits b" and "content f = wal_layout crc bs @ take n (wal_frame crc b)"
    and "synced f = wal_layout crc bs"
  shows "content (crash k f) = wal_layout crc (bs @ [b])
    \<or> (\<exists>tail. content (crash k f) = wal_layout crc bs @ tail \<and> (tail = [] \<or> torn crc tail))"
proof -
  obtain first rs where b: "b = (first, rs)" by fastforce
  let ?frame = "wal_frame crc b" and ?j = "min n k"
  have img: "content (crash k f) = wal_layout crc bs @ take ?j ?frame"
    using assms(2,3) by (simp add: crash_def Let_def min.commute)
  consider "?j = 0" | "0 < ?j" "?j < length ?frame" | "length ?frame \<le> ?j" by linarith
  then show ?thesis
  proof cases
    case 2
    then show ?thesis using torn_take_frame [of first rs ?j crc] assms(1) img by (auto simp: b)
  qed (simp_all add: img wal_layout_snoc)
qed

section \<open>What a successful open has read\<close>

lemma wal_open_sound:
  assumes "wal_open env crc max_bytes replay directory dirs (Some f) s = (Inr (w, s'), dirs', file')"
    and "content f \<noteq> []"
  shows "\<exists>bs tail. content f = wal_layout crc bs @ tail \<and> (tail = [] \<or> torn crc tail)
    \<and> replay_all replay bs s = Inr s' \<and> wal_ok crc w bs \<and> file' = Some (wal_handle w)"
proof -
  let ?f = "f\<lparr>cursor := 8\<rparr>" and ?len = "length (content f)"
  have len0: "?len \<noteq> 0" using assms(2) by simp
  from assms(1) obtain u dirs1 where dirs: "ensure_directory env directory dirs = (Inr u, dirs1)"
    by (auto simp: wal_open_def split: prod.splits sum.splits)
  from assms(1) have calls: "syscall env OpenFile = Inr ()" "fault env LockFile = None"
      "syscall env Metadata = Inr ()" "syscall env SyncDirectory = Inr ()" "syscall env SeekStart = Inr ()"
    and max: "\<not> ?len > unat max_bytes"
    using len0 by (auto simp: wal_open_def dirs Let_def and_then_def syscall_def
        split: sum.splits if_splits option.splits)
  obtain r f0 where r: "file_read_exact env ReadMagic 8 (f\<lparr>cursor := 0\<rparr>) = (r, f0)" by fastforce
  from assms(1) have r': "r = Inr MAGIC"
    using len0 by (auto simp: wal_open_def dirs Let_def calls max r split: sum.splits if_splits)
  have f0: "f0 = ?f" using file_read_exact_Inr [OF r [unfolded r']] by simp
  have magic: "file_read_exact env ReadMagic 8 (f\<lparr>cursor := 0\<rparr>) = (Inr MAGIC, ?f)"
    using r r' f0 by simp
  obtain lr f1 where lr: "open_loop env crc replay ?len 8 ?f s = (lr, f1)" by fastforce
  have "(case lr of Inl e \<Rightarrow> (Inl e, dirs1, Some f1)
      | Inr (n, s) \<Rightarrow> (case syscall env SeekEnd of Inl e \<Rightarrow> (Inl e, dirs1, Some f1)
        | Inr _ \<Rightarrow> (Inr (\<lparr>wal_handle = f1\<lparr>cursor := n\<rparr>, wal_bytes = of_nat n, wal_max_bytes = max_bytes\<rparr>, s),
            dirs1, Some (f1\<lparr>cursor := n\<rparr>)))) = (Inr (w, s'), dirs', file')"
    using assms(1) by (simp add: wal_open_def dirs Let_def calls max magic lr len0 assms(2)
        split: sum.splits prod.splits)
  then obtain n where "lr = Inr (n, s')"
    and w: "w = \<lparr>wal_handle = f1\<lparr>cursor := n\<rparr>, wal_bytes = of_nat n, wal_max_bytes = max_bytes\<rparr>"
      "file' = Some (f1\<lparr>cursor := n\<rparr>)"
    by (auto split: sum.splits prod.splits)
  with lr have loop: "open_loop env crc replay ?len 8 ?f s = (Inr (n, s'), f1)" by simp
  have "8 \<le> ?len" and head: "take 8 (content f) = MAGIC"
    using file_read_exact_Inr [OF magic] by simp_all
  have sel: "content ?f = content f" "cursor ?f = 8" by simp_all
  have "?len = length (content ?f)" by simp
  note sound = open_loop_sound [OF loop sel(2) \<open>8 \<le> ?len\<close> this, unfolded sel(1)]
  obtain bs tail where bs: "drop 8 (content f) = concat (map (wal_frame crc) bs) @ tail"
    "list_all batch_fits bs" "tail = [] \<or> torn crc tail" "replay_all replay bs s = Inr s'"
    "n = 8 + length (concat (map (wal_frame crc) bs))" "content f1 = take n (content f)"
    using sound by blast
  have f: "content f = wal_layout crc bs @ tail"
    using append_take_drop_id [of 8 "content f"] by (simp add: wal_layout_def head bs(1))
  have n: "n = length (wal_layout crc bs)" by (simp add: wal_layout_def bs(5))
  have "n \<le> unat max_bytes" using max by (simp add: f n)
  moreover from this have "unat (of_nat n :: u64) = n"
    using unat_lt [of max_bytes] by (intro unat_of_nat_lt) simp
  ultimately have "wal_ok crc w bs"
    using bs by (simp add: wal_ok_def w f n [symmetric] word_le_nat_alt)
  then show ?thesis using f bs w by auto
qed

lemma wal_open_refuses:
  assumes "wal_open no_faults crc max_bytes replay directory dirs (Some f) s = (Inl e, dirs', file')"
    and "content f \<noteq> []"
  shows "\<exists>f'. file' = Some f' \<and> content f' = content f \<and> synced f' = synced f"
proof -
  obtain dirs1 where dirs: "ensure_directory no_faults directory dirs = (Inr (), dirs1)"
    using ensure_directory_no_faults by blast
  show ?thesis
    using assms
    by (auto simp: wal_open_def dirs Let_def dest!: file_read_exact_content open_loop_refuses
        split: prod.splits sum.splits if_splits)
qed

text \<open>A body that fails its checksum stops recovery at that batch.\<close>

lemma open_loop_corrupt_body:
  assumes "list_all batch_fits bs"
    and f: "content f = pre @ concat (map (wal_frame crc) bs) @ wal_header crc body @ body' @ rest"
      "cursor f = length pre"
    and len: "len = length (content f)" and same: "length body' = length body"
    and size: "19 \<le> length body" "length body \<le> MAX_FRAME + 3" and bad: "crc body' \<noteq> crc body"
    and replay: "replay_all replay bs s = Inr s'"
  shows "\<exists>f'. open_loop no_faults crc replay len (length pre) f s
    = (Inl (batch_mismatch (length (pre @ concat (map (wal_frame crc) bs)))), f')"
  using assms(1) f len replay
proof (induction bs arbitrary: pre f s)
  case Nil
  let ?h = "wal_header crc body"
  have n: "unat (from_be_bytes (take 4 ?h) :: u32) = length body"
    using size by (simp only: wal_header_fields from_to_be_bytes) (simp add: from_to_be_bytes unat_of_nat_lt MAX_FRAME_def)
  have c: "crc (take 8 ?h) = from_be_bytes (take 4 (drop 8 ?h))" "from_be_bytes (take 4 (drop 4 ?h)) = crc body"
    by (simp_all only: wal_header_fields) (simp_all add: from_to_be_bytes)
  have h: "file_read_exact no_faults (ReadHeader (length pre)) HEADER_BYTES f
      = (Inr ?h, f\<lparr>cursor := length pre + HEADER_BYTES\<rparr>)"
    using Nil by (simp add: file_read_exact_no_faults)
  have b: "file_read_exact no_faults (ReadBody (length pre)) (length body) (f\<lparr>cursor := length pre + HEADER_BYTES\<rparr>)
      = (Inr body', f\<lparr>cursor := length pre + HEADER_BYTES + length body\<rparr>)"
    using Nil same by (simp add: file_read_exact_no_faults)
  have "length pre < len" "\<not> len - length pre < HEADER_BYTES"
    "\<not> length pre + HEADER_BYTES + length body > len"
    using Nil same size by (auto simp: HEADER_BYTES_def)
  then show ?case
    using size bad by (subst open_loop.simps) (simp add: h b n c Let_def)
next
  case (Cons b bs)
  obtain first rs where b: "b = (first, rs)" by fastforce
  let ?pre = "pre @ wal_frame crc (first, rs)"
  let ?rest = "concat (map (wal_frame crc) bs) @ wal_header crc body @ body' @ rest"
  from Cons.prems obtain s1 where s1: "replay first rs s = Inr s1" and more: "replay_all replay bs s1 = Inr s'"
    by (auto simp: b and_then_eq_Inr)
  have fits: "batch_fits (first, rs)" and f: "content f = pre @ wal_frame crc (first, rs) @ ?rest"
    using Cons.prems by (simp_all add: b)
  have "open_loop no_faults crc replay len (length pre) f s
      = open_loop no_faults crc replay len (length ?pre) (f\<lparr>cursor := length ?pre\<rparr>) s1"
    using open_loop_frame [OF fits f Cons.prems(3,4), of replay s] by (simp add: Let_def s1)
  moreover have "\<exists>f'. open_loop no_faults crc replay len (length ?pre) (f\<lparr>cursor := length ?pre\<rparr>) s1
      = (Inl (batch_mismatch (length (?pre @ concat (map (wal_frame crc) bs)))), f')"
    using Cons.prems f more by (intro Cons.IH) simp_all
  ultimately show ?case by (simp add: b)
qed

section \<open>The contract of an append-only log\<close>

text \<open>
  What a client of the log relies on: an acknowledged batch is at the end of the log, and after a
  loss of power a restart finds the acknowledged batches and at most the one batch whose append
  failed.
\<close>

locale append_log =
  fixes append :: "'e \<Rightarrow> u64 \<Rightarrow> log_record list \<Rightarrow> 'w \<Rightarrow> (error + unit) \<times> 'w"
    and holds :: "'w \<Rightarrow> batch list \<Rightarrow> bool"
    and survives :: "'w \<Rightarrow> batch list \<Rightarrow> bool"
    and fits :: "batch \<Rightarrow> bool"
  assumes append_Inr: "holds w bs \<Longrightarrow> fits (first, rs) \<Longrightarrow> append env first rs w = (Inr u, w')
      \<Longrightarrow> holds w' (bs @ [(first, rs)])"
    and append_Inl: "holds w bs \<Longrightarrow> fits (first, rs) \<Longrightarrow> append env first rs w = (Inl e, w')
      \<Longrightarrow> survives w' bs' \<Longrightarrow> bs' = bs \<or> bs' = bs @ [(first, rs)]"
    and holds_survives: "holds w bs \<Longrightarrow> survives w bs' \<Longrightarrow> bs' = bs"
begin

text \<open>A run of appends up to the first one that fails: the acknowledged batches survive.\<close>

primrec appends :: "('e \<times> batch) list \<Rightarrow> 'w \<Rightarrow> batch list \<times> 'w" where
  "appends [] w = ([], w)"
| "appends (x # xs) w =
     (case append (fst x) (fst (snd x)) (snd (snd x)) w of
        (Inl e, w) \<Rightarrow> ([], w)
      | (Inr _, w) \<Rightarrow> (case appends xs w of (acked, w) \<Rightarrow> (snd x # acked, w)))"

lemma appends_durable:
  assumes "holds w bs" and "\<forall>x\<in>set xs. fits (snd x)" and "appends xs w = (acked, w')" and "survives w' bs'"
  shows "\<exists>m\<in>{length acked, Suc (length acked)}. bs' = bs @ map snd (take m xs) \<and> acked = map snd (take (length acked) xs)"
  using assms
proof (induction xs arbitrary: w bs acked)
  case Nil
  then show ?case using holds_survives [of w' bs bs'] by auto
next
  case (Cons x xs)
  obtain env first rs where x: "x = (env, first, rs)" by (cases x) auto
  show ?case
  proof (cases "append env first rs w")
    case (Pair res w1)
    show ?thesis
    proof (cases res)
      case (Inl e)
      with Cons.prems Pair x have "acked = []" "w' = w1" by auto
      with append_Inl [of w bs first rs env e w1 bs'] Cons.prems Pair Inl x show ?thesis by auto
    next
      case (Inr u)
      from Cons.prems(3) Pair Inr x obtain acked1 where rest: "appends xs w1 = (acked1, w')"
        and acked: "acked = (first, rs) # acked1" by (auto split: prod.splits)
      have "holds w1 (bs @ [(first, rs)])"
        using append_Inr [of w bs first rs env u w1] Cons.prems Pair Inr x by simp
      from Cons.IH [OF this _ rest Cons.prems(4)] Cons.prems(2) show ?thesis
        by (auto simp: x acked)
    qed
  qed
qed

end

section \<open>The WAL meets the contract\<close>

text \<open>
  \<open>survives\<close>: what replaying the file gives after a loss of power. The replay collects the
  batches, as the store's closure collects their records.
\<close>

definition collect_batch :: "u64 \<Rightarrow> log_record list \<Rightarrow> batch list \<Rightarrow> error + batch list" where
  "collect_batch first records acc = Inr (acc @ [(first, records)])"

lemma replay_all_collect: "replay_all collect_batch bs acc = Inr (acc @ bs)"
  by (induction bs arbitrary: acc) (simp_all add: collect_batch_def)

definition wal_survives :: "(bytes \<Rightarrow> u32) \<Rightarrow> wal \<Rightarrow> batch list \<Rightarrow> bool" where
  "wal_survives crc w bs = (\<exists>k max_bytes directory dirs w' dirs' file'.
     wal_open no_faults crc max_bytes collect_batch directory dirs (Some (crash k (wal_handle w))) []
       = (Inr (w', bs), dirs', file'))"

definition wal_durable :: "(bytes \<Rightarrow> u32) \<Rightarrow> wal \<Rightarrow> batch list \<Rightarrow> bool" where
  "wal_durable crc w bs = (wal_ok crc w bs \<and> synced (wal_handle w) = wal_layout crc bs)"

lemma wal_open_max:
  "wal_open env crc max_bytes replay directory dirs (Some f) s = (Inr r, dirs', file')
    \<Longrightarrow> length (content f) \<le> unat max_bytes"
  by (auto simp: wal_open_def Let_def split: prod.splits sum.splits if_splits)

lemma wal_open_collect:
  assumes "list_all batch_fits bs" and "tail = [] \<or> torn crc tail"
    and "content f = wal_layout crc bs @ tail"
    and "wal_open no_faults crc max_bytes collect_batch directory dirs (Some f) [] = (Inr (w, bs'), dirs', file')"
  shows "bs' = bs"
  using wal_open_layout [OF assms(1-3) wal_open_max [OF assms(4)], where replay = collect_batch and s = "[]"
      and directory = directory and dirs = dirs] assms(4)
  by (auto simp: replay_all_collect)

interpretation wal_log: append_log "\<lambda>env. wal_append env crc" "wal_durable crc" "wal_survives crc" batch_fits
  for crc
proof unfold_locales
  fix w bs first rs u env w'
  assume "wal_durable crc w bs" "batch_fits (first, rs)" "wal_append env crc first rs w = (Inr u, w')"
  then show "wal_durable crc w' (bs @ [(first, rs)])"
    using wal_append_Inr by (auto simp: wal_durable_def)
next
  fix w bs first rs env e w' bs'
  assume w: "wal_durable crc w bs" and fits: "batch_fits (first, rs)"
    and err: "wal_append env crc first rs w = (Inl e, w')" and surv: "wal_survives crc w' bs'"
  from w have ok: "wal_ok crc w bs" and bs: "list_all batch_fits bs" by (simp_all add: wal_durable_def wal_ok_def)
  from wal_append_Inl [OF ok err] w obtain k
    where "content (wal_handle w') = wal_layout crc bs @ take k (wal_frame crc (first, rs))"
      "synced (wal_handle w') = wal_layout crc bs" by (auto simp: wal_durable_def)
  note img = wal_crash_uncertain [OF fits this]
  from surv obtain k mx dir dirs w1 dirs' file' where reopen:
    "wal_open no_faults crc mx collect_batch dir dirs (Some (crash k (wal_handle w'))) [] = (Inr (w1, bs'), dirs', file')"
    by (auto simp: wal_survives_def)
  from img [of k] consider
      "content (crash k (wal_handle w')) = wal_layout crc (bs @ [(first, rs)]) @ []"
    | tail where "content (crash k (wal_handle w')) = wal_layout crc bs @ tail" "tail = [] \<or> torn crc tail"
    by auto
  then show "bs' = bs \<or> bs' = bs @ [(first, rs)]"
  proof cases
    case 1
    then show ?thesis using wal_open_collect [OF _ _ 1 reopen] bs fits by simp
  next
    case 2
    then show ?thesis using wal_open_collect [OF bs 2(2,1) reopen] by simp
  qed
next
  fix w bs bs'
  assume w: "wal_durable crc w bs" and "wal_survives crc w bs'"
  then obtain k mx dir dirs w1 dirs' file' where reopen:
    "wal_open no_faults crc mx collect_batch dir dirs (Some (crash k (wal_handle w))) [] = (Inr (w1, bs'), dirs', file')"
    by (auto simp: wal_survives_def)
  have "content (crash k (wal_handle w)) = wal_layout crc bs @ []"
    using w wal_crash_acknowledged by (simp add: wal_durable_def wal_ok_def)
  from wal_open_collect [OF _ _ this reopen] w show "bs' = bs"
    by (simp add: wal_durable_def wal_ok_def)
qed

end
