(* ===== verification/Store.thy ===== *)
theory Store
  imports Wal_Recovery
begin

text \<open>
  The event history, \<open>crates/velobus/src/store.rs\<close>: the in-memory log of events with its byte
  budget and optional WAL, \<open>publish\<close>, the bounded and coalescing \<open>fetch\<close>, the statistics and the
  encodings of the replies. A result \<open>None\<close> is a panic of the source (an index out of range or
  an arithmetic underflow); the properties show that it does not occur.
\<close>

section \<open>State\<close>

record store =
  events :: "event list"
  st_retained_bytes :: u64
  st_max_retained_bytes :: u64
  st_max_wal_bytes :: u64
  st_wal :: "wal option"
  poisoned :: bool
  published_records :: u64
  fetched_records :: u64
  coalesced_records :: u64
  started :: nat

definition store_memory :: "nat \<Rightarrow> u64 \<Rightarrow> u64 \<Rightarrow> store" where
  "store_memory now max_retained max_wal =
     \<lparr>events = [], st_retained_bytes = 0, st_max_retained_bytes = max_retained,
      st_max_wal_bytes = max_wal, st_wal = None, poisoned = False, published_records = 0,
      fetched_records = 0, coalesced_records = 0, started = now\<rparr>"

definition last_sequence :: "store \<Rightarrow> u64" where
  "last_sequence s = of_nat (length (events s))"

definition check_retained_capacity :: "store \<Rightarrow> log_record list \<Rightarrow> error + u64" where
  "check_retained_capacity s records =
     (let bytes = sum_list (map retained_bytes records)
      in if bytes > saturating_sub (st_max_retained_bytes s) (st_retained_bytes s)
         then Inl (error_new CAPACITY (str ''retained history capacity reached; batch was not written''))
         else Inr bytes)"

definition stamp :: "u64 \<Rightarrow> log_record list \<Rightarrow> event list" where
  "stamp first records =
     map (\<lambda>(index, r). \<lparr>ev_sequence = first + of_nat index, ev_record = r\<rparr>) (enumerate 0 records)"

definition commit :: "u64 \<Rightarrow> log_record list \<Rightarrow> u64 \<Rightarrow> store \<Rightarrow> store" where
  "commit first records bytes s =
     s\<lparr>events := events s @ stamp first records, st_retained_bytes := st_retained_bytes s + bytes\<rparr>"

text \<open>The closure \<open>disk\<close> passes to \<open>Wal::open\<close>, and \<open>disk\<close> itself.\<close>

definition store_replay :: "u64 \<Rightarrow> log_record list \<Rightarrow> store \<Rightarrow> error + store" where
  "store_replay first records s =
     (if first \<noteq> last_sequence s + 1
      then Inl (error_new STORAGE (str ''nonconsecutive sequence numbers in WAL''))
      else and_then (check_retained_capacity s records)
        (\<lambda>bytes. Inr (commit first records bytes s)))"

definition store_disk ::
  "io_env \<Rightarrow> (bytes \<Rightarrow> u32) \<Rightarrow> nat \<Rightarrow> rstring list \<Rightarrow> rstring list set \<Rightarrow> wal_file option
    \<Rightarrow> u64 \<Rightarrow> u64 \<Rightarrow> (error + store) \<times> rstring list set \<times> wal_file option" where
  "store_disk env crc now directory dirs file max_retained max_wal =
     (case wal_open env crc max_wal store_replay directory dirs file
             (store_memory now max_retained max_wal) of
        (Inl e, dirs, file) \<Rightarrow> (Inl e, dirs, file)
      | (Inr (w, s), dirs, file) \<Rightarrow> (Inr (s\<lparr>st_wal := Some w\<rparr>), dirs, file))"

section \<open>Publishing\<close>

definition receipt :: "u64 \<Rightarrow> u64 \<Rightarrow> u64 \<Rightarrow> bool \<Rightarrow> bytes" where
  "receipt first last_seq count durable =
     to_be_bytes first @ to_be_bytes last_seq @ to_be_bytes (ucast count :: u16)
     @ [if durable then 1 else 0]"

definition publish ::
  "io_env \<Rightarrow> (bytes \<Rightarrow> u32) \<Rightarrow> log_record list \<Rightarrow> store \<Rightarrow> (error + bytes) \<times> store" where
  "publish env crc records s =
     (if poisoned s
      then (Inl (error_new STORAGE
              (str ''store is read-only after uncertain disk I/O; restart required'')), s)
      else case check_retained_capacity s records of
        Inl e \<Rightarrow> (Inl e, s)
      | Inr bytes \<Rightarrow>
          (let count = of_nat (length records) :: u64
           in case checked_add (last_sequence s) count of
                None \<Rightarrow> (Inl (error_new CAPACITY (str ''sequence range exhausted'')), s)
              | Some last_seq \<Rightarrow>
                  (let first = last_sequence s + 1;
                       finish = (\<lambda>s.
                         let s = commit first records bytes s;
                             s = s\<lparr>published_records := saturating_add (published_records s) count\<rparr>
                         in (Inr (receipt first last_seq count (st_wal s \<noteq> None)), s))
                   in case st_wal s of
                        None \<Rightarrow> finish s
                      | Some w \<Rightarrow>
                          (case wal_check_capacity w records of
                             Inl e \<Rightarrow> (Inl e, s)
                           | Inr _ \<Rightarrow>
                               (case wal_append env crc first records w of
                                  (Inl e, w) \<Rightarrow> (Inl e, s\<lparr>st_wal := Some w, poisoned := True\<rparr>)
                                | (Inr _, w) \<Rightarrow> finish (s\<lparr>st_wal := Some w\<rparr>))))))"

section \<open>Fetching\<close>

record fetch_result =
  fr_cursor :: u64
  fr_events :: "event list"
  fr_has_more :: bool

definition fetch_result_encode :: "fetch_result \<Rightarrow> bytes" where
  "fetch_result_encode fr =
     foldl (\<lambda>out ev. encode_record (out @ to_be_bytes (ev_sequence ev)) (ev_record ev))
       (to_be_bytes (fr_cursor fr) @ to_be_bytes (of_nat (length (fr_events fr)) :: u16)
        @ [if fr_has_more fr then 1 else 0])
       (fr_events fr)"

text \<open>The local variables of the scan.\<close>

record scan =
  sc_cursor :: u64
  selected :: "event list"
  positions :: "rstring \<times> rstring \<rightharpoonup> nat"
  sc_wire_bytes :: nat
  sc_coalesced :: u64

definition event_key :: "event \<Rightarrow> rstring \<times> rstring" where
  "event_key ev = (rec_topic (ev_record ev), rec_key (ev_record ev))"

definition event_bytes :: "event \<Rightarrow> nat" where
  "event_bytes ev = wire_bytes (ev_record ev)"

definition topic_matches :: "fetch_request \<Rightarrow> event \<Rightarrow> bool" where
  "topic_matches rq ev =
     (\<not> (fetch_topic rq \<noteq> str ''*'' \<and> fetch_topic rq \<noteq> rec_topic (ev_record ev)))"

definition coalesces :: "fetch_request \<Rightarrow> event \<Rightarrow> bool" where
  "coalesces rq ev = (fetch_latest rq \<and> rec_key (ev_record ev) \<noteq> [])"

fun fetch_loop :: "fetch_request \<Rightarrow> event list \<Rightarrow> scan \<Rightarrow> (error + scan) option" where
  "fetch_loop rq [] sc = Some (Inr sc)"
| "fetch_loop rq (ev # evs) sc =
     (if \<not> topic_matches rq ev then fetch_loop rq evs (sc\<lparr>sc_cursor := ev_sequence ev\<rparr>)
      else
        let replace = (if coalesces rq ev then positions sc (event_key ev) else None)
        in case (case replace of
                   None \<Rightarrow> Some 0
                 | Some i \<Rightarrow> if i < length (selected sc) then Some (event_bytes (selected sc ! i)) else None) of
             None \<Rightarrow> None
           | Some previous_bytes \<Rightarrow>
               if sc_wire_bytes sc < previous_bytes then None
               else
                 let candidate_bytes = sc_wire_bytes sc - previous_bytes + event_bytes ev
                 in if candidate_bytes > fetch_max_bytes rq
                       \<or> (replace = None \<and> length (selected sc) = fetch_limit rq)
                    then
                      (if selected sc = [] \<and> event_bytes ev > fetch_max_bytes rq
                       then Some (Inl (error_new LIMIT
                         (str ''first eligible event exceeds maxBytes; increase the fetch budget'')))
                       else Some (Inr sc))
                    else
                      let sc = sc\<lparr>sc_wire_bytes := candidate_bytes\<rparr>;
                          sc = (case replace of
                              Some i \<Rightarrow> sc\<lparr>selected := (selected sc)[i := ev],
                                           sc_coalesced := sc_coalesced sc + 1\<rparr>
                            | None \<Rightarrow>
                                (let sc = (if coalesces rq ev
                                     then sc\<lparr>positions := (positions sc)(event_key ev \<mapsto> length (selected sc))\<rparr>
                                     else sc)
                                 in sc\<lparr>selected := selected sc @ [ev]\<rparr>))
                      in fetch_loop rq evs (sc\<lparr>sc_cursor := ev_sequence ev\<rparr>))"

definition fetch :: "fetch_request \<Rightarrow> store \<Rightarrow> ((error + fetch_result) \<times> store) option" where
  "fetch rq s =
     (let last_seq = last_sequence s
      in if fetch_after rq > last_seq
         then Some (Inl (error_new CURSOR (str ''cursor is beyond this log's high-water mark'')), s)
         else case fetch_loop rq (take MAX_SCAN (drop (unat (fetch_after rq)) (events s)))
                \<lparr>sc_cursor = fetch_after rq, selected = [], positions = Map.empty,
                 sc_wire_bytes = 0, sc_coalesced = 0\<rparr> of
             None \<Rightarrow> None
           | Some (Inl e) \<Rightarrow> Some (Inl e, s)
           | Some (Inr sc) \<Rightarrow>
               (let evs = sort_key ev_sequence (selected sc);
                    s = s\<lparr>fetched_records := saturating_add (fetched_records s) (of_nat (length evs)),
                          coalesced_records := saturating_add (coalesced_records s) (sc_coalesced sc)\<rparr>
                in Some (Inr \<lparr>fr_cursor = sc_cursor sc, fr_events = evs,
                              fr_has_more = sc_cursor sc < last_seq\<rparr>, s)))"

section \<open>Statistics\<close>

text \<open>
  The JSON value \<open>stats\<close> builds; \<open>JSeconds d\<close> is the number of seconds in a duration of \<open>d\<close>
  nanoseconds. Turning a value into bytes is the crate \<open>serde_json\<close>.
\<close>

datatype json =
    JString rstring | JNumber nat | JSeconds nat | JBool bool | JArray "json list"
  | JObject "(rstring \<times> json) list"

definition store_stats :: "nat \<Rightarrow> nat \<Rightarrow> store \<Rightarrow> json" where
  "store_stats now connections s = JObject
     [(str ''version'', JString (str ''0.3.0'')),
      (str ''mode'', JString (if st_wal s \<noteq> None then str ''disk'' else str ''memory'')),
      (str ''records'', JNumber (length (events s))),
      (str ''retainedBytes'', JNumber (unat (st_retained_bytes s))),
      (str ''maxRetainedBytes'', JNumber (unat (st_max_retained_bytes s))),
      (str ''walBytes'', JNumber (case st_wal s of None \<Rightarrow> 0 | Some w \<Rightarrow> unat (wal_bytes w))),
      (str ''maxWalBytes'', JNumber (unat (st_max_wal_bytes s))),
      (str ''lastSequence'', JString (decimal (unat (last_sequence s)))),
      (str ''publishedRecords'', JNumber (unat (published_records s))),
      (str ''fetchedRecords'', JNumber (unat (fetched_records s))),
      (str ''coalescedRecords'', JNumber (unat (coalesced_records s))),
      (str ''connections'', JNumber connections),
      (str ''uptimeSeconds'', JSeconds (now - started s)),
      (str ''writePoisoned'', JBool (poisoned s))]"

end
