(* ===== verification/Store_Log.thy ===== *)
theory Store_Log
  imports Store
begin

text \<open>
  The store as a log: its abstraction is the list of published records, numbered from 1. The
  lemmas show that \<open>publish\<close> appends to that list or leaves it alone, that the byte accounting
  is exact, and that a store on disk recovers its acknowledged records after a loss of power.
\<close>

section \<open>The abstraction\<close>

definition history :: "store \<Rightarrow> log_record list" where
  "history s = map ev_record (events s)"

definition record_cost :: "log_record \<Rightarrow> nat" where
  "record_cost r = 256 + 2 * length (rec_topic r) + 2 * length (rec_key r) + length (rec_payload r)"

definition total_cost :: "log_record list \<Rightarrow> nat" where
  "total_cost rs = sum_list (map record_cost rs)"

definition with_history :: "log_record list \<Rightarrow> store \<Rightarrow> store" where
  "with_history h s = s\<lparr>events := stamp 1 h, st_retained_bytes := of_nat (total_cost h)\<rparr>"

text \<open>The invariant: the events are the history numbered from 1, and the accounting is exact.\<close>

definition store_ok :: "store \<Rightarrow> bool" where
  "store_ok s =
     (s = with_history (history s) s \<and> list_all record_ok (history s)
      \<and> total_cost (history s) \<le> unat (st_max_retained_bytes s))"

lemma stamp_Nil [simp]: "stamp first [] = []"
  by (simp add: stamp_def)

lemma length_stamp [simp]: "length (stamp first rs) = length rs"
  by (simp add: stamp_def)

lemma stamp_nth: "i < length rs \<Longrightarrow>
    stamp first rs ! i = \<lparr>ev_sequence = first + of_nat i, ev_record = rs ! i\<rparr>"
  by (simp add: stamp_def nth_enumerate_eq)

lemma stamp_records [simp]: "map ev_record (stamp first rs) = rs"
  by (rule nth_equalityI) (simp_all add: stamp_nth)

lemma stamp_append: "stamp first (rs @ rs') = stamp first rs @ stamp (first + of_nat (length rs)) rs'"
  by (rule nth_equalityI) (auto simp: stamp_nth nth_append)

lemma total_cost_simps [simp]:
  "total_cost [] = 0" "total_cost (r # rs) = record_cost r + total_cost rs"
  "total_cost (rs @ rs') = total_cost rs + total_cost rs'"
  by (simp_all add: total_cost_def)

lemma total_cost_length: "256 * length rs \<le> total_cost rs"
  by (induction rs) (simp_all add: record_cost_def)

lemma history_with_history [simp]: "history (with_history h s) = h"
  by (simp add: history_def with_history_def)

lemma history_update [simp]:
  "history (s\<lparr>st_wal := w\<rparr>) = history s" "history (s\<lparr>poisoned := p\<rparr>) = history s"
  "history (s\<lparr>fetched_records := n\<rparr>) = history s" "history (s\<lparr>coalesced_records := n\<rparr>) = history s"
  by (simp_all add: history_def)

lemma with_history_simps [simp]:
  "events (with_history h s) = stamp 1 h"
  "st_retained_bytes (with_history h s) = of_nat (total_cost h)"
  "st_max_retained_bytes (with_history h s) = st_max_retained_bytes s"
  "st_max_wal_bytes (with_history h s) = st_max_wal_bytes s"
  "st_wal (with_history h s) = st_wal s"
  "poisoned (with_history h s) = poisoned s"
  "published_records (with_history h s) = published_records s"
  "with_history h (with_history h' s) = with_history h s"
  by (simp_all add: with_history_def)

text \<open>\<open>store_ok\<close> in terms of the fields: updates of the counters and of the WAL keep it.\<close>

lemma store_ok_fields:
  "store_ok s \<longleftrightarrow>
     events s = stamp 1 (history s) \<and> st_retained_bytes s = of_nat (total_cost (history s))
     \<and> list_all record_ok (history s) \<and> total_cost (history s) \<le> unat (st_max_retained_bytes s)"
proof -
  have "s = with_history (history s) s \<longleftrightarrow>
      events s = stamp 1 (history s) \<and> st_retained_bytes s = of_nat (total_cost (history s))"
    by (cases s) (auto simp: with_history_def)
  then show ?thesis by (auto simp: store_ok_def)
qed

lemma store_ok_cong:
  "\<lbrakk>store_ok s; events s' = events s; st_retained_bytes s' = st_retained_bytes s;
    st_max_retained_bytes s' = st_max_retained_bytes s\<rbrakk> \<Longrightarrow> store_ok s'"
  by (simp add: store_ok_fields history_def)

lemma store_ok_with_history:
  "store_ok s \<Longrightarrow> list_all record_ok h \<Longrightarrow> total_cost h \<le> unat (st_max_retained_bytes s)
    \<Longrightarrow> store_ok (with_history h s)"
  by (simp add: store_ok_fields)

lemma store_memory_ok: "store_ok (store_memory now max_retained max_wal)"
  by (simp add: store_ok_fields store_memory_def history_def)

lemma store_ok_retained:
  assumes "store_ok s"
  shows "unat (st_retained_bytes s) = total_cost (history s)"
    and "st_retained_bytes s \<le> st_max_retained_bytes s"
proof -
  from assms have le: "total_cost (history s) \<le> unat (st_max_retained_bytes s)"
    and eq: "st_retained_bytes s = of_nat (total_cost (history s))" by (simp_all add: store_ok_fields)
  then show "unat (st_retained_bytes s) = total_cost (history s)"
    using unat_lt [of "st_max_retained_bytes s"] by (simp add: unat_of_nat_lt)
  with le show "st_retained_bytes s \<le> st_max_retained_bytes s" by (simp add: word_le_nat_alt)
qed

lemma store_ok_last_sequence:
  assumes "store_ok s"
  shows "unat (last_sequence s) = length (events s)" and "length (events s) < 2 ^ 56"
proof -
  have "256 * length (events s) \<le> unat (st_retained_bytes s)"
    using store_ok_retained(1) [OF assms] total_cost_length [of "history s"] by (simp add: history_def)
  also have "\<dots> < 2 ^ 64" using unat_lt [of "st_retained_bytes s"] by simp
  finally show "length (events s) < 2 ^ 56" by simp
  then show "unat (last_sequence s) = length (events s)"
    unfolding last_sequence_def by (intro unat_of_nat_lt) simp
qed

lemma store_ok_numbers:
  assumes ok: "store_ok s" and i: "i < length (events s)"
  shows "unat (ev_sequence (events s ! i)) = Suc i"
proof -
  have ev: "events s = stamp 1 (history s)" using ok by (simp add: store_ok_fields)
  have "i < length (history s)" using i by (simp add: history_def)
  then have "ev_sequence (events s ! i) = of_nat (Suc i)" by (subst ev) (simp add: stamp_nth)
  also have "unat (of_nat (Suc i) :: u64) = Suc i"
    using i store_ok_last_sequence(2) [OF ok] by (intro unat_of_nat_lt) simp
  finally show ?thesis .
qed

section \<open>Capacity of the retained history\<close>

lemma retained_bytes_cost: "retained_bytes r = of_nat (record_cost r)"
  by (simp add: retained_bytes_def record_cost_def)

lemma sum_retained_bytes: "sum_list (map retained_bytes rs) = of_nat (total_cost rs)"
  by (induction rs) (simp_all add: retained_bytes_cost)

lemma record_cost_max: "record_ok r \<Longrightarrow> record_cost r \<le> 266000"
  by (simp add: record_ok_def valid_topic_def record_cost_def MAX_PAYLOAD_def)

lemma batch_cost_max:
  assumes "batch_ok rs"
  shows "total_cost rs < 2 ^ 27"
proof -
  have "list_all record_ok rs \<Longrightarrow> total_cost rs \<le> 266000 * length rs" for rs
    by (induction rs) (auto dest: record_cost_max)
  with assms have "total_cost rs \<le> 266000 * length rs" by (simp add: batch_ok_def)
  also have "\<dots> \<le> 266000 * 256" using assms by (simp add: batch_ok_def MAX_BATCH_def)
  finally show ?thesis by simp
qed

lemma check_retained_capacity_eq:
  assumes ok: "store_ok s" and rs: "batch_ok rs"
  shows "check_retained_capacity s rs =
     (if total_cost (history s @ rs) \<le> unat (st_max_retained_bytes s)
      then Inr (of_nat (total_cost rs))
      else Inl (error_new CAPACITY (str ''retained history capacity reached; batch was not written'')))"
proof -
  have "unat (of_nat (total_cost rs) :: u64) = total_cost rs"
    using batch_cost_max [OF rs] by (intro unat_of_nat_lt) simp
  then have "saturating_sub (st_max_retained_bytes s) (st_retained_bytes s) < of_nat (total_cost rs)
      \<longleftrightarrow> \<not> total_cost (history s @ rs) \<le> unat (st_max_retained_bytes s)"
    using store_ok_retained [OF ok]
    by (auto simp: word_less_nat_alt unat_saturating_sub word_le_nat_alt)
  then show ?thesis by (simp add: check_retained_capacity_def sum_retained_bytes)
qed

lemma commit_history:
  assumes "store_ok s"
  shows "commit (last_sequence s + 1) rs (of_nat (total_cost rs)) s = with_history (history s @ rs) s"
  using assms
  by (simp add: commit_def with_history_def store_ok_fields stamp_append last_sequence_def history_def
      add.commute)

section \<open>Publishing\<close>

text \<open>
  Everything \<open>publish\<close> can do to a well-formed store: reject without a trace, append the batch
  to the history, or fail in the WAL, which poisons the store and leaves the history alone.
\<close>

definition next_batch :: "store \<Rightarrow> log_record list \<Rightarrow> batch" where
  "next_batch s rs = (last_sequence s + 1, rs)"

definition publish_receipt :: "store \<Rightarrow> log_record list \<Rightarrow> bytes" where
  "publish_receipt s rs =
     receipt (last_sequence s + 1) (last_sequence s + of_nat (length rs)) (of_nat (length rs))
       (st_wal s \<noteq> None)"

definition published :: "store \<Rightarrow> log_record list \<Rightarrow> store" where
  "published s rs = (with_history (history s @ rs) s)
     \<lparr>published_records := saturating_add (published_records s) (of_nat (length rs))\<rparr>"

lemma published_simps [simp]:
  "history (published s rs) = history s @ rs"
  "st_wal (published s rs) = st_wal s" "poisoned (published s rs) = poisoned s"
  "st_max_retained_bytes (published s rs) = st_max_retained_bytes s"
  "st_max_wal_bytes (published s rs) = st_max_wal_bytes s"
  by (simp_all add: published_def history_def)

lemma published_ok:
  assumes "store_ok s" and "batch_ok rs" and "total_cost (history s @ rs) \<le> unat (st_max_retained_bytes s)"
  shows "store_ok (published s rs)"
proof -
  have "store_ok (with_history (history s @ rs) s)"
    using assms by (intro store_ok_with_history) (auto simp: store_ok_def batch_ok_def)
  then show ?thesis by (rule store_ok_cong) (simp_all add: published_def)
qed

lemma sequence_range:
  assumes "store_ok s" and "batch_ok rs"
  shows "checked_add (last_sequence s) (of_nat (length rs)) = Some (last_sequence s + of_nat (length rs))"
proof -
  have "length rs \<le> 256" using assms(2) by (simp add: batch_ok_def MAX_BATCH_def)
  then have "unat (of_nat (length rs) :: u64) \<le> 256" by (simp add: unat_of_nat_lt)
  then show ?thesis
    using store_ok_last_sequence [OF assms(1)] by (simp add: checked_add_def)
qed

lemma publish_eq:
  assumes ok: "store_ok s" and rs: "batch_ok rs" and live: "\<not> poisoned s"
    and room: "total_cost (history s @ rs) \<le> unat (st_max_retained_bytes s)"
  shows "publish env crc rs s =
     (case st_wal s of
        None \<Rightarrow> (Inr (publish_receipt s rs), published s rs)
      | Some w \<Rightarrow>
          (case wal_check_capacity w rs of
             Inl e \<Rightarrow> (Inl e, s)
           | Inr _ \<Rightarrow>
               (case wal_append env crc (last_sequence s + 1) rs w of
                  (Inl e, w) \<Rightarrow> (Inl e, s\<lparr>st_wal := Some w, poisoned := True\<rparr>)
                | (Inr _, w) \<Rightarrow>
                    (Inr (publish_receipt s rs), published (s\<lparr>st_wal := Some w\<rparr>) rs))))"
proof -
  have log: "commit (last_sequence s + 1) rs (of_nat (total_cost rs)) (s\<lparr>st_wal := w\<rparr>)
      = with_history (history s @ rs) (s\<lparr>st_wal := w\<rparr>)" for w
  proof -
    have "store_ok (s\<lparr>st_wal := w\<rparr>)" using ok by (rule store_ok_cong) simp_all
    from commit_history [OF this] show ?thesis by (simp add: last_sequence_def history_def)
  qed
  have here: "commit (last_sequence s + 1) rs (of_nat (total_cost rs)) s = with_history (history s @ rs) s"
    using ok by (rule commit_history)
  have cap: "check_retained_capacity s rs = Inr (of_nat (total_cost rs))"
    using check_retained_capacity_eq [OF ok rs] room by simp
  show ?thesis
    unfolding publish_def Let_def
    by (simp add: live cap sequence_range [OF ok rs] log here published_def publish_receipt_def history_def
        split: option.splits sum.splits prod.splits)
qed

lemma publish_full:
  assumes "store_ok s" and "batch_ok rs" and "\<not> poisoned s"
    and "\<not> total_cost (history s @ rs) \<le> unat (st_max_retained_bytes s)"
  shows "publish env crc rs s =
    (Inl (error_new CAPACITY (str ''retained history capacity reached; batch was not written'')), s)"
  using assms by (simp add: publish_def check_retained_capacity_eq)

lemma publish_poisoned:
  "poisoned s \<Longrightarrow> publish env crc rs s =
     (Inl (error_new STORAGE (str ''store is read-only after uncertain disk I/O; restart required'')), s)"
  by (simp add: publish_def)

text \<open>The four ways a publish ends, with what each leaves behind.\<close>

lemma publish_cases:
  assumes ok: "store_ok s" and rs: "batch_ok rs" and run: "publish env crc rs s = (res, s')"
  obtains (rejected) e where "res = Inl e" "s' = s"
  | (memory) "res = Inr (publish_receipt s rs)" "s' = published s rs" "st_wal s = None" "\<not> poisoned s"
      "total_cost (history s @ rs) \<le> unat (st_max_retained_bytes s)"
  | (durable) w w' where "res = Inr (publish_receipt s rs)" "st_wal s = Some w" "\<not> poisoned s"
      "wal_check_capacity w rs = Inr ()" "wal_append env crc (last_sequence s + 1) rs w = (Inr (), w')"
      "s' = published (s\<lparr>st_wal := Some w'\<rparr>) rs"
      "total_cost (history s @ rs) \<le> unat (st_max_retained_bytes s)"
  | (uncertain) e w w' where "res = Inl e" "st_wal s = Some w" "\<not> poisoned s"
      "wal_check_capacity w rs = Inr ()" "wal_append env crc (last_sequence s + 1) rs w = (Inl e, w')"
      "s' = s\<lparr>st_wal := Some w', poisoned := True\<rparr>"
      "total_cost (history s @ rs) \<le> unat (st_max_retained_bytes s)"
proof -
  show thesis
  proof (cases "poisoned s \<or> \<not> total_cost (history s @ rs) \<le> unat (st_max_retained_bytes s)")
    case True
    then show thesis
      using run publish_poisoned publish_full [OF ok rs] by (metis Pair_inject rejected)
  next
    case False
    then have live: "\<not> poisoned s" and room: "total_cost (history s @ rs) \<le> unat (st_max_retained_bytes s)"
      by simp_all
    note eq = publish_eq [OF ok rs live room, of env crc, unfolded run]
    show thesis
    proof (cases "st_wal s")
      case None
      with eq live room show thesis by (intro memory) simp_all
    next
      case (Some w)
      obtain a w' where ap: "wal_append env crc (last_sequence s + 1) rs w = (a, w')" by fastforce
      show thesis
      proof (cases "wal_check_capacity w rs")
        case (Inl e)
        with eq Some show thesis by (intro rejected) simp_all
      next
        case (Inr u)
        with eq Some ap live room show thesis
          by (cases a) (auto intro: durable uncertain)
      qed
    qed
  qed
qed

end
