(* ===== verification/Store_Disk.thy ===== *)
theory Store_Disk
  imports Store_Log
begin

text \<open>
  The store on disk: replaying a WAL into a store, the invariant that ties the in-memory history
  to the bytes of the WAL file, and recovery after a loss of power.
\<close>

section \<open>Replay\<close>

text \<open>Batches whose sequence numbers continue from \<open>n\<close> without a gap.\<close>

fun numbered :: "u64 \<Rightarrow> batch list \<Rightarrow> bool" where
  "numbered n [] = True"
| "numbered n ((first, rs) # bs) = (first = n + 1 \<and> numbered (n + of_nat (length rs)) bs)"

definition batch_records :: "batch list \<Rightarrow> log_record list" where
  "batch_records bs = concat (map snd bs)"

lemma batch_records_simps [simp]:
  "batch_records [] = []" "batch_records ((first, rs) # bs) = rs @ batch_records bs"
  "batch_records (bs @ [(first, rs)]) = batch_records bs @ rs"
  by (simp_all add: batch_records_def)

lemma numbered_snoc:
  "numbered n (bs @ [(first, rs)]) \<longleftrightarrow>
     numbered n bs \<and> first = n + of_nat (length (batch_records bs)) + 1"
proof (induction bs arbitrary: n)
  case (Cons b bs)
  then show ?case by (cases b) (simp add: algebra_simps)
qed simp

lemma last_sequence_with_history [simp]: "last_sequence (with_history h s) = of_nat (length h)"
  by (simp add: last_sequence_def)

lemma last_sequence_history: "last_sequence s = of_nat (length (history s))"
  by (simp add: last_sequence_def history_def)

lemma store_replay_iff:
  assumes "store_ok s" and "batch_ok rs"
  shows "store_replay first rs s = Inr s' \<longleftrightarrow>
    first = last_sequence s + 1 \<and> total_cost (history s @ rs) \<le> unat (st_max_retained_bytes s)
    \<and> s' = with_history (history s @ rs) s"
  using commit_history [OF assms(1), of rs] assms
  by (auto simp: store_replay_def check_retained_capacity_eq)

text \<open>
  A WAL replays into a store exactly when its batches are numbered consecutively and fit the
  history budget; the result holds their records in order.
\<close>

lemma store_replay_all:
  assumes "store_ok s" and "list_all batch_fits bs"
  shows "replay_all store_replay bs s = Inr s' \<longleftrightarrow>
    numbered (last_sequence s) bs
    \<and> total_cost (history s @ batch_records bs) \<le> unat (st_max_retained_bytes s)
    \<and> s' = with_history (history s @ batch_records bs) s"
  using assms
proof (induction bs arbitrary: s)
  case Nil
  then have "s = with_history (history s) s" and "total_cost (history s) \<le> unat (st_max_retained_bytes s)"
    by (simp_all add: store_ok_def)
  then show ?case by auto
next
  case (Cons b bs)
  obtain first rs where b: "b = (first, rs)" by fastforce
  have rs: "batch_ok rs" using Cons.prems by (simp add: b batch_fits_def)
  let ?s1 = "with_history (history s @ rs) s"
  have IH: "replay_all store_replay bs ?s1 = Inr s' \<longleftrightarrow>
      numbered (last_sequence s + of_nat (length rs)) bs
      \<and> total_cost (history s @ rs @ batch_records bs) \<le> unat (st_max_retained_bytes s)
      \<and> s' = with_history (history s @ rs @ batch_records bs) s"
    if "total_cost (history s @ rs) \<le> unat (st_max_retained_bytes s)"
  proof -
    have "store_ok ?s1" using Cons.prems(1) rs that
      by (intro store_ok_with_history) (auto simp: store_ok_def batch_ok_def)
    with Cons show ?thesis by (simp add: last_sequence_history add.assoc)
  qed
  have "replay_all store_replay (b # bs) s = Inr s' \<longleftrightarrow>
      first = last_sequence s + 1 \<and> total_cost (history s @ rs) \<le> unat (st_max_retained_bytes s)
      \<and> replay_all store_replay bs ?s1 = Inr s'"
    using store_replay_iff [OF Cons.prems(1) rs, of first] by (auto simp: b and_then_eq_Inr)
  then show ?case using IH by (auto simp: b)
qed

section \<open>The file behind a store\<close>

text \<open>
  The WAL file holds the history of the store, durably. After a failed append \<open>unc\<close> is the batch
  whose fate is unknown: some prefix of its frame follows.
\<close>

definition disk_state :: "(bytes \<Rightarrow> u32) \<Rightarrow> store \<Rightarrow> log_record list option \<Rightarrow> bool" where
  "disk_state crc s unc = (\<exists>w bs.
     st_wal s = Some w \<and> wal_max_bytes w = st_max_wal_bytes s
     \<and> numbered 0 bs \<and> list_all batch_fits bs \<and> batch_records bs = history s
     \<and> synced (wal_handle w) = wal_layout crc bs
     \<and> (case unc of
          None \<Rightarrow> \<not> poisoned s \<and> wal_ok crc w bs
        | Some rs \<Rightarrow> poisoned s \<and> batch_fits (next_batch s rs)
            \<and> total_cost (history s @ rs) \<le> unat (st_max_retained_bytes s)
            \<and> length (wal_layout crc (bs @ [next_batch s rs])) \<le> unat (st_max_wal_bytes s)
            \<and> (\<exists>n. content (wal_handle w) = wal_layout crc bs @ take n (wal_frame crc (next_batch s rs)))))"

lemma wal_check_capacity_fits:
  assumes "wal_check_capacity w rs = Inr ()" and "wal_ok crc w bs" and "batch_fits (first, rs)"
  shows "length (wal_layout crc (bs @ [(first, rs)])) \<le> unat (wal_max_bytes w)"
proof -
  have bytes: "unat (wal_bytes w) = length (wal_layout crc bs)" "wal_bytes w \<le> wal_max_bytes w"
    using assms(2) by (simp_all add: wal_ok_def)
  have cap: "\<not> saturating_sub (wal_max_bytes w) (wal_bytes w) < batch_bytes rs"
    using assms(1) by (simp add: wal_check_capacity_def split: if_splits)
  have "length (wal_layout crc (bs @ [(first, rs)])) = unat (wal_bytes w) + unat (batch_bytes rs)"
    by (simp only: wal_layout_snoc length_append bytes(1) batch_bytes_frame [OF assms(3), of crc])
  also have "\<dots> = unat (wal_bytes w + batch_bytes rs)"
    using admitted_fits(1) [OF cap bytes(2)] by simp
  also have "\<dots> \<le> unat (wal_max_bytes w)"
    using admitted_fits(2) [OF cap bytes(2)] by (simp only: word_le_nat_alt)
  finally show ?thesis .
qed

lemma publish_disk_state:
  assumes disk: "disk_state crc s unc" and ok: "store_ok s"
    and fits: "batch_fits (next_batch s rs)" and run: "publish env crc rs s = (res, s')"
  shows "store_ok s'"
    and "disk_state crc s' (if poisoned s' \<and> \<not> poisoned s then Some rs else unc)"
    and "history s' = (case res of Inl e \<Rightarrow> history s | Inr reply \<Rightarrow> history s @ rs)"
    and "poisoned s \<Longrightarrow> \<exists>e. res = Inl e"
    and "poisoned s' \<and> \<not> poisoned s \<Longrightarrow> \<exists>e. res = Inl e"
    and "st_max_retained_bytes s' = st_max_retained_bytes s" "st_max_wal_bytes s' = st_max_wal_bytes s"
proof -
  have rs: "batch_ok rs" using fits by (simp add: batch_fits_def next_batch_def)
  obtain w bs where w: "st_wal s = Some w" "wal_max_bytes w = st_max_wal_bytes s"
      "numbered 0 bs" "list_all batch_fits bs" "batch_records bs = history s"
      "synced (wal_handle w) = wal_layout crc bs"
    and live: "\<not> poisoned s \<Longrightarrow> unc = None \<and> wal_ok crc w bs"
    using disk by (auto simp: disk_state_def split: option.splits)
  have "store_ok s' \<and> disk_state crc s' (if poisoned s' \<and> \<not> poisoned s then Some rs else unc)
    \<and> history s' = (case res of Inl e \<Rightarrow> history s | Inr reply \<Rightarrow> history s @ rs)
    \<and> (poisoned s \<longrightarrow> (\<exists>e. res = Inl e)) \<and> (poisoned s' \<and> \<not> poisoned s \<longrightarrow> (\<exists>e. res = Inl e))
    \<and> st_max_retained_bytes s' = st_max_retained_bytes s \<and> st_max_wal_bytes s' = st_max_wal_bytes s"
    using ok rs run
  proof (cases rule: publish_cases)
    case (rejected e)
    then show ?thesis using disk ok by auto
  next
    case memory
    with w show ?thesis by simp
  next
    case (durable w1 w')
    let ?b = "(last_sequence s + 1, rs)"
    from durable w live have unc: "unc = None" and wok: "wal_ok crc w bs" and w1: "w1 = w" by simp_all
    note app = wal_append_Inr [OF wok fits [unfolded next_batch_def] durable(5) [unfolded w1]]
    have ok': "store_ok (s\<lparr>st_wal := Some w'\<rparr>)" using ok by (rule store_ok_cong) simp_all
    have "store_ok s'" unfolding durable(6)
      by (rule published_ok [OF ok' rs]) (use durable in simp)
    moreover have "numbered 0 (bs @ [?b])"
      using w by (simp add: numbered_snoc last_sequence_history add.commute)
    moreover have "list_all batch_fits (bs @ [?b])" using w fits by (simp add: next_batch_def)
    ultimately show ?thesis
      using durable app w unc
      by (auto simp: disk_state_def intro!: exI [of _ "bs @ [?b]"])
  next
    case (uncertain e w1 w')
    let ?b = "next_batch s rs"
    from uncertain w live have wok: "wal_ok crc w bs" and w1: "w1 = w" by simp_all
    have "st_max_wal_bytes s = wal_max_bytes w" using w by simp
    then have room: "length (wal_layout crc (bs @ [?b])) \<le> unat (st_max_wal_bytes s)"
      using wal_check_capacity_fits [OF uncertain(4) [unfolded w1] wok fits [unfolded next_batch_def]]
      by (simp add: next_batch_def)
    have max: "wal_max_bytes w' = wal_max_bytes w"
      using uncertain(5) w1
      by (auto simp: wal_append_def Let_def split: sum.splits prod.splits)
    have ok': "store_ok s'" using ok unfolding uncertain(6) by (rule store_ok_cong) simp_all
    obtain n where n: "content (wal_handle w') = wal_layout crc bs @ take n (wal_frame crc ?b)"
      "synced (wal_handle w') = synced (wal_handle w)"
      using wal_append_Inl [OF wok uncertain(5) [unfolded w1]] by (auto simp: next_batch_def)
    have sel: "history s' = history s" "\<And>x. next_batch s' x = next_batch s x" "st_max_retained_bytes s' = st_max_retained_bytes s"
      "st_max_wal_bytes s' = st_max_wal_bytes s" "st_wal s' = Some w'" "poisoned s'"
      by (simp_all add: uncertain(6) history_def next_batch_def last_sequence_def)
    have "disk_state crc s' (Some rs)"
      unfolding disk_state_def using w max n room fits uncertain(7)
      by (intro exI [of _ w'] exI [of _ bs]) (auto simp: sel)
    then show ?thesis using ok' sel uncertain by simp
  qed
  then show "store_ok s'" "disk_state crc s' (if poisoned s' \<and> \<not> poisoned s then Some rs else unc)"
    "history s' = (case res of Inl e \<Rightarrow> history s | Inr reply \<Rightarrow> history s @ rs)"
    "poisoned s \<Longrightarrow> \<exists>e. res = Inl e" "poisoned s' \<and> \<not> poisoned s \<Longrightarrow> \<exists>e. res = Inl e"
    "st_max_retained_bytes s' = st_max_retained_bytes s" "st_max_wal_bytes s' = st_max_wal_bytes s"
    by simp_all
qed

section \<open>Restart\<close>

text \<open>Opening a log that holds \<open>bs\<close>, followed by at most a torn tail, with room in both budgets.\<close>

lemma store_disk_layout:
  assumes bs: "list_all batch_fits bs" "numbered 0 bs" and tail: "tail = [] \<or> torn crc tail"
    and f: "content f = wal_layout crc bs @ tail" "length (content f) \<le> unat max_wal"
    and synced: "tail = [] \<Longrightarrow> synced f = content f"
    and room: "total_cost (batch_records bs) \<le> unat max_retained"
  shows "\<exists>s' dirs' f'. store_disk no_faults crc now directory dirs (Some f) max_retained max_wal
      = (Inr s', dirs', Some f')
    \<and> store_ok s' \<and> disk_state crc s' None \<and> history s' = batch_records bs
    \<and> st_max_retained_bytes s' = max_retained \<and> st_max_wal_bytes s' = max_wal"
proof -
  let ?s0 = "store_memory now max_retained max_wal"
  let ?s1 = "with_history (batch_records bs) ?s0"
  have s0: "store_ok ?s0" "last_sequence ?s0 = 0" "history ?s0 = []"
    "st_max_retained_bytes ?s0 = max_retained" "st_max_wal_bytes ?s0 = max_wal" "\<not> poisoned ?s0"
    by (simp_all add: store_memory_ok) (simp_all add: store_memory_def last_sequence_def history_def)
  have replay: "replay_all store_replay bs ?s0 = Inr ?s1"
    using bs room s0 by (simp add: store_replay_all)
  obtain dirs' w where w: "wal_open no_faults crc max_wal store_replay directory dirs (Some f) ?s0
        = (Inr (w, ?s1), dirs', Some (wal_handle w))"
    "wal_ok crc w bs" "wal_max_bytes w = max_wal"
    "synced (wal_handle w) = (if tail = [] then synced f else wal_layout crc bs)"
    using wal_open_layout [OF bs(1) tail f, where replay = store_replay and s = ?s0
        and directory = directory and dirs = dirs] replay by auto
  let ?s = "?s1\<lparr>st_wal := Some w\<rparr>"
  have "list_all record_ok (batch_records bs)"
    using bs(1) by (induction bs) (auto simp: batch_fits_def batch_ok_def)
  then have "store_ok ?s1" using s0 room by (intro store_ok_with_history) simp_all
  then have "store_ok ?s" by (rule store_ok_cong) simp_all
  moreover have "disk_state crc ?s None"
    using w bs s0 synced f by (auto simp: disk_state_def)
  moreover have "store_disk no_faults crc now directory dirs (Some f) max_retained max_wal
      = (Inr ?s, dirs', Some (wal_handle w))"
    by (simp add: store_disk_def w)
  ultimately show ?thesis using s0 by auto
qed

lemma store_disk_fresh:
  assumes "8 \<le> unat max_wal" and "file = None \<or> (\<exists>f. file = Some f \<and> content f = [])"
  shows "\<exists>s' dirs' f'. store_disk no_faults crc now directory dirs file max_retained max_wal
      = (Inr s', dirs', Some f')
    \<and> store_ok s' \<and> disk_state crc s' None \<and> history s' = []
    \<and> st_max_retained_bytes s' = max_retained \<and> st_max_wal_bytes s' = max_wal"
proof -
  let ?s0 = "store_memory now max_retained max_wal"
  obtain dirs' w where w: "wal_open no_faults crc max_wal store_replay directory dirs file ?s0
        = (Inr (w, ?s0), dirs', Some (wal_handle w))"
    "wal_ok crc w []" "wal_max_bytes w = max_wal" "synced (wal_handle w) = wal_layout crc []"
    using wal_open_fresh [OF assms, where replay = store_replay and s = ?s0 and crc = crc
        and directory = directory and dirs = dirs] by blast
  let ?s = "?s0\<lparr>st_wal := Some w\<rparr>"
  have "store_ok ?s" using store_memory_ok by (rule store_ok_cong) simp_all
  moreover have "disk_state crc ?s None"
    using w by (auto simp: disk_state_def store_memory_def history_def intro!: exI [of _ "[]"])
  moreover have "store_disk no_faults crc now directory dirs file max_retained max_wal
      = (Inr ?s, dirs', Some (wal_handle w))"
    by (simp add: store_disk_def w)
  ultimately show ?thesis by (auto simp: store_memory_def history_def)
qed

text \<open>
  After a loss of power, a restart with the same budgets succeeds; it recovers the history and
  possibly the one batch whose append had failed.
\<close>

lemma store_restart:
  assumes ok: "store_ok s" and disk: "disk_state crc s unc" and w: "st_wal s = Some w"
  shows "\<exists>s' dirs' f'. store_disk no_faults crc now directory dirs (Some (crash k (wal_handle w)))
        (st_max_retained_bytes s) (st_max_wal_bytes s) = (Inr s', dirs', Some f')
    \<and> store_ok s' \<and> disk_state crc s' None
    \<and> (history s' = history s \<or> (\<exists>rs. unc = Some rs \<and> history s' = history s @ rs))"
proof -
  obtain bs where bs: "numbered 0 bs" "list_all batch_fits bs" "batch_records bs = history s"
      "synced (wal_handle w) = wal_layout crc bs" "wal_max_bytes w = st_max_wal_bytes s"
    and unc: "case unc of
          None \<Rightarrow> \<not> poisoned s \<and> wal_ok crc w bs
        | Some rs \<Rightarrow> poisoned s \<and> batch_fits (next_batch s rs)
            \<and> total_cost (history s @ rs) \<le> unat (st_max_retained_bytes s)
            \<and> length (wal_layout crc (bs @ [next_batch s rs])) \<le> unat (st_max_wal_bytes s)
            \<and> (\<exists>n. content (wal_handle w) = wal_layout crc bs @ take n (wal_frame crc (next_batch s rs)))"
    using disk w by (auto simp: disk_state_def)
  let ?f = "crash k (wal_handle w)"
  have img: "synced ?f = content ?f" by (simp add: crash_def Let_def)
  have cost: "total_cost (history s) \<le> unat (st_max_retained_bytes s)"
    using ok by (simp add: store_ok_def)
  have opens: "?thesis" if "list_all batch_fits bs'" "numbered 0 bs'" "tail = [] \<or> torn crc tail"
    "content ?f = wal_layout crc bs' @ tail" "length (content ?f) \<le> unat (st_max_wal_bytes s)"
    "total_cost (batch_records bs') \<le> unat (st_max_retained_bytes s)"
    "batch_records bs' = history s \<or> (\<exists>rs. unc = Some rs \<and> batch_records bs' = history s @ rs)"
    for bs' tail
    using store_disk_layout [OF that(1-5) _ that(6), of now directory dirs] img that(7) by auto
  show ?thesis
  proof (cases unc)
    case None
    with unc have wok: "wal_ok crc w bs" by simp
    then have f: "content ?f = wal_layout crc bs @ []"
      using wal_crash_acknowledged bs(4) by (simp add: wal_ok_def)
    have "length (content ?f) \<le> unat (st_max_wal_bytes s)"
      using wok bs(5) by (simp add: f wal_ok_def word_le_nat_alt)
    then show ?thesis using bs cost f by (intro opens [of bs "[]"]) simp_all
  next
    case (Some rs)
    let ?b = "next_batch s rs"
    from unc Some obtain n where fits: "batch_fits ?b"
      and more: "total_cost (history s @ rs) \<le> unat (st_max_retained_bytes s)"
      and len: "length (wal_layout crc (bs @ [?b])) \<le> unat (st_max_wal_bytes s)"
      and cont: "content (wal_handle w) = wal_layout crc bs @ take n (wal_frame crc ?b)" by auto
    have short: "length (content ?f) \<le> unat (st_max_wal_bytes s)"
      using len by (simp add: crash_def Let_def cont bs(4) wal_layout_snoc min_def)
    from wal_crash_uncertain [OF fits cont bs(4), of k] show ?thesis
    proof
      assume all: "content ?f = wal_layout crc (bs @ [?b])"
      show ?thesis
      proof (rule opens [of "bs @ [?b]" "[]"])
        show "numbered 0 (bs @ [?b])"
          using bs by (simp add: next_batch_def numbered_snoc last_sequence_history add.commute)
      qed (use all bs fits short more Some in \<open>simp_all add: next_batch_def\<close>)
    next
      assume "\<exists>tail. content ?f = wal_layout crc bs @ tail \<and> (tail = [] \<or> torn crc tail)"
      then obtain tail where "content ?f = wal_layout crc bs @ tail" "tail = [] \<or> torn crc tail" by blast
      then show ?thesis using bs cost short by (intro opens [of bs tail]) simp_all
    qed
  qed
qed

text \<open>
  Whatever the outcomes of the system calls: a store that opens on a nonempty file holds exactly
  the records of the consecutively numbered batches the file begins with.
\<close>

lemma store_disk_sound:
  assumes "store_disk env crc now directory dirs (Some f) max_retained max_wal = (Inr s', dirs', file')"
    and "content f \<noteq> []"
  shows "store_ok s' \<and> \<not> poisoned s' \<and> st_max_retained_bytes s' = max_retained
    \<and> (\<exists>bs tail w. content f = wal_layout crc bs @ tail
    \<and> (tail = [] \<or> torn crc tail) \<and> numbered 0 bs \<and> history s' = batch_records bs
    \<and> st_wal s' = Some w \<and> wal_ok crc w bs)"
proof -
  let ?s0 = "store_memory now max_retained max_wal"
  have s0: "store_ok ?s0" "last_sequence ?s0 = 0" "history ?s0 = []" "\<not> poisoned ?s0"
    "st_max_retained_bytes ?s0 = max_retained"
    by (simp_all add: store_memory_ok) (simp_all add: store_memory_def last_sequence_def history_def)
  from assms(1) obtain w s1 where open_ok: "wal_open env crc max_wal store_replay directory dirs (Some f) ?s0
      = (Inr (w, s1), dirs', file')" and s': "s' = s1\<lparr>st_wal := Some w\<rparr>"
    by (auto simp: store_disk_def split: prod.splits sum.splits)
  from wal_open_sound [OF open_ok assms(2)] obtain bs tail where bs: "content f = wal_layout crc bs @ tail"
    "tail = [] \<or> torn crc tail" "replay_all store_replay bs ?s0 = Inr s1" "wal_ok crc w bs" by blast
  have fits: "list_all batch_fits bs" using bs(4) by (simp add: wal_ok_def)
  have s1: "numbered 0 bs" "total_cost (batch_records bs) \<le> unat (st_max_retained_bytes ?s0)"
    "s1 = with_history (batch_records bs) ?s0"
    using store_replay_all [OF s0(1) fits, of s1] bs(3) s0 by simp_all
  have "list_all record_ok (batch_records bs)"
    using fits by (induction bs) (auto simp: batch_fits_def batch_ok_def)
  then have "store_ok s1" unfolding s1(3) by (rule store_ok_with_history [OF s0(1) _ s1(2)])
  then have "store_ok s'" unfolding s' by (rule store_ok_cong) simp_all
  then show ?thesis using bs s1 s0 by (auto simp: s')
qed

end
