(* ===== verification/Store_Fetch.thy ===== *)
theory Store_Fetch
  imports Store_Log "HOL-Library.Multiset"
begin

text \<open>
  The specification of a fetch, and the proof that the scan with its position map, its
  replacements and its byte accounting implements it: the scan takes the window event by event
  while the result stays within the budgets, and the result is the matching events that no
  later event of the same topic and key in the scanned part replaces.
\<close>

section \<open>Specification\<close>

definition superseded :: "fetch_request \<Rightarrow> event \<Rightarrow> event list \<Rightarrow> bool" where
  "superseded rq ev evs = (coalesces rq ev \<and> (\<exists>x\<in>set evs. event_key x = event_key ev))"

fun visible :: "fetch_request \<Rightarrow> event list \<Rightarrow> event list" where
  "visible rq [] = []"
| "visible rq (ev # evs) =
     (if topic_matches rq ev \<and> \<not> superseded rq ev evs then ev # visible rq evs else visible rq evs)"

definition total_bytes :: "event list \<Rightarrow> nat" where
  "total_bytes evs = sum_list (map event_bytes evs)"

definition fits_budget :: "fetch_request \<Rightarrow> event list \<Rightarrow> bool" where
  "fits_budget rq evs = (length (visible rq evs) \<le> fetch_limit rq \<and> total_bytes (visible rq evs) \<le> fetch_max_bytes rq)"

fun scanned :: "fetch_request \<Rightarrow> event list \<Rightarrow> event list \<Rightarrow> event list" where
  "scanned rq seen [] = seen"
| "scanned rq seen (ev # evs) = (if fits_budget rq (seen @ [ev]) then scanned rq (seen @ [ev]) evs else seen)"

definition scan_result :: "fetch_request \<Rightarrow> event list \<Rightarrow> error + event list" where
  "scan_result rq window =
     (let seen = scanned rq [] window
      in if visible rq seen = [] \<and> length seen < length window
         then Inl (error_new LIMIT (str ''first eligible event exceeds maxBytes; increase the fetch budget''))
         else Inr seen)"

section \<open>Visible events\<close>

lemma coalesces_key: "coalesces rq x \<Longrightarrow> event_key x = event_key ev \<Longrightarrow> coalesces rq ev"
  by (simp add: coalesces_def event_key_def)

lemma topic_matches_key: "topic_matches rq x \<Longrightarrow> event_key x = event_key ev \<Longrightarrow> topic_matches rq ev"
  by (simp add: topic_matches_def event_key_def)

lemma visible_set: "x \<in> set (visible rq evs) \<Longrightarrow> x \<in> set evs \<and> topic_matches rq x"
  by (induction evs) (auto split: if_splits)

lemma superseded_snoc:
  "superseded rq x (evs @ [ev]) \<longleftrightarrow> superseded rq x evs \<or> (coalesces rq x \<and> event_key x = event_key ev)"
  by (auto simp: superseded_def)

lemma visible_snoc:
  "visible rq (evs @ [ev]) =
     (if topic_matches rq ev
      then filter (\<lambda>x. \<not> (coalesces rq x \<and> event_key x = event_key ev)) (visible rq evs) @ [ev]
      else visible rq evs)"
proof (induction evs)
  case Nil
  then show ?case by (simp add: superseded_def)
next
  case (Cons x evs)
  show ?case
  proof (cases "topic_matches rq ev")
    case True
    with Cons show ?thesis by (auto simp: superseded_snoc)
  next
    case False
    then have "\<not> (topic_matches rq x \<and> event_key x = event_key ev)" using topic_matches_key by blast
    with Cons False show ?thesis by (auto simp: superseded_snoc)
  qed
qed


lemma sorted_visible: "sorted_wrt R evs \<Longrightarrow> sorted_wrt R (visible rq evs)"
proof (induction evs)
  case (Cons ev evs)
  then show ?case using visible_set by (auto split: if_splits)
qed simp

text \<open>Without coalescing, the visible events are the matching ones.\<close>

lemma visible_all: "\<not> fetch_latest rq \<Longrightarrow> visible rq evs = filter (topic_matches rq) evs"
  by (induction evs) (simp_all add: superseded_def coalesces_def)

section \<open>The scan invariant\<close>

definition positions_ok :: "fetch_request \<Rightarrow> scan \<Rightarrow> bool" where
  "positions_ok rq sc = (\<forall>k i. positions sc k = Some i \<longleftrightarrow>
     i < length (selected sc) \<and> coalesces rq (selected sc ! i) \<and> event_key (selected sc ! i) = k)"

definition scan_ok :: "fetch_request \<Rightarrow> event list \<Rightarrow> scan \<Rightarrow> bool" where
  "scan_ok rq seen sc =
     (mset (selected sc) = mset (visible rq seen)
      \<and> sc_wire_bytes sc = total_bytes (selected sc)
      \<and> positions_ok rq sc
      \<and> fits_budget rq seen)"

lemma total_bytes_simps [simp]:
  "total_bytes [] = 0" "total_bytes (x # xs) = event_bytes x + total_bytes xs"
  "total_bytes (xs @ ys) = total_bytes xs + total_bytes ys"
  by (simp_all add: total_bytes_def)

lemma total_bytes_mset: "mset xs = mset ys \<Longrightarrow> total_bytes xs = total_bytes ys"
  unfolding total_bytes_def by (metis mset_map sum_mset_sum_list)

lemma total_bytes_update:
  "i < length xs \<Longrightarrow> total_bytes (xs[i := x]) + event_bytes (xs ! i) = total_bytes xs + event_bytes x"
  by (induction xs arbitrary: i) (auto split: nat.splits)

lemma total_bytes_nth: "i < length xs \<Longrightarrow> event_bytes (xs ! i) \<le> total_bytes xs"
  unfolding total_bytes_def by (simp add: elem_le_sum_list [of i "map event_bytes xs", simplified])

text \<open>Dropping the one element that fails a test and appending another is replacing it.\<close>

lemma mset_replace:
  assumes "i < length xs" and "\<And>j. j < length xs \<Longrightarrow> P (xs ! j) \<longleftrightarrow> j \<noteq> i"
  shows "mset (filter P xs @ [x]) = mset (xs[i := x])"
proof -
  have xs: "xs = take i xs @ xs ! i # drop (Suc i) xs" using assms(1) by (simp add: id_take_nth_drop)
  have "\<forall>y\<in>set (take i xs). P y" using assms by (auto simp: in_set_conv_nth)
  moreover have "\<forall>y\<in>set (drop (Suc i) xs). P y" using assms by (auto simp: in_set_conv_nth)
  moreover have "\<not> P (xs ! i)" using assms by simp
  ultimately have "filter P xs = take i xs @ drop (Suc i) xs"
    by (subst xs) (simp add: filter_id_conv)
  then show ?thesis using assms(1) by (simp add: upd_conv_take_nth_drop)
qed

lemma scan_ok_filter:
  assumes "scan_ok rq seen sc"
  shows "mset (filter P (visible rq seen)) = mset (filter P (selected sc))"
  using assms by (metis scan_ok_def mset_filter)

text \<open>What the loop looks up is the one selected event that the new event supersedes.\<close>

lemma scan_ok_replace:
  assumes sc: "scan_ok rq seen sc" and m: "topic_matches rq ev"
    and r: "(if coalesces rq ev then positions sc (event_key ev) else None) = Some i"
  shows "i < length (selected sc)"
    and "mset (visible rq (seen @ [ev])) = mset ((selected sc)[i := ev])"
    and "event_bytes (selected sc ! i) \<le> sc_wire_bytes sc"
    and "total_bytes (visible rq (seen @ [ev])) = sc_wire_bytes sc - event_bytes (selected sc ! i) + event_bytes ev"
proof -
  let ?P = "\<lambda>x. \<not> (coalesces rq x \<and> event_key x = event_key ev)"
  from r have pos: "positions sc (event_key ev) = Some i" by (auto split: if_splits)
  have ok: "positions_ok rq sc" using sc by (simp add: scan_ok_def)
  show i: "i < length (selected sc)" using ok pos unfolding positions_ok_def by blast
  have uniq: "?P (selected sc ! j) \<longleftrightarrow> j \<noteq> i" if "j < length (selected sc)" for j
    using ok pos that unfolding positions_ok_def by (metis option.inject)
  have "mset (visible rq (seen @ [ev])) = mset (filter ?P (selected sc) @ [ev])"
    using m scan_ok_filter [OF sc, of ?P] by (simp add: visible_snoc)
  also have "\<dots> = mset ((selected sc)[i := ev])" using i uniq by (rule mset_replace)
  finally show vis: "mset (visible rq (seen @ [ev])) = mset ((selected sc)[i := ev])" .
  have wire: "sc_wire_bytes sc = total_bytes (selected sc)" using sc by (simp add: scan_ok_def)
  show "event_bytes (selected sc ! i) \<le> sc_wire_bytes sc" using i by (simp add: wire total_bytes_nth)
  then show "total_bytes (visible rq (seen @ [ev])) = sc_wire_bytes sc - event_bytes (selected sc ! i) + event_bytes ev"
    using total_bytes_mset [OF vis] total_bytes_update [OF i, of ev] by (simp add: wire)
qed

lemma scan_ok_append:
  assumes sc: "scan_ok rq seen sc" and m: "topic_matches rq ev"
    and r: "(if coalesces rq ev then positions sc (event_key ev) else None) = None"
  shows "mset (visible rq (seen @ [ev])) = mset (selected sc @ [ev])"
    and "total_bytes (visible rq (seen @ [ev])) = sc_wire_bytes sc + event_bytes ev"
proof -
  let ?P = "\<lambda>x. \<not> (coalesces rq x \<and> event_key x = event_key ev)"
  have ok: "positions_ok rq sc" using sc by (simp add: scan_ok_def)
  have "?P x" if "x \<in> set (selected sc)" for x
  proof
    assume x: "coalesces rq x \<and> event_key x = event_key ev"
    then have "coalesces rq ev" using coalesces_key by blast
    with r have none: "positions sc (event_key ev) = None" by simp
    from that obtain j where "j < length (selected sc)" "selected sc ! j = x" by (auto simp: in_set_conv_nth)
    with ok x have "positions sc (event_key ev) = Some j" unfolding positions_ok_def by blast
    with none show False by simp
  qed
  then have "filter ?P (selected sc) = selected sc" by (simp add: filter_id_conv)
  then show vis: "mset (visible rq (seen @ [ev])) = mset (selected sc @ [ev])"
    using m scan_ok_filter [OF sc, of ?P] by (simp add: visible_snoc)
  then show "total_bytes (visible rq (seen @ [ev])) = sc_wire_bytes sc + event_bytes ev"
    using total_bytes_mset [OF vis] sc by (simp add: scan_ok_def)
qed

section \<open>The loop implements the specification\<close>

text \<open>The state after the loop body took the event, in both branches.\<close>

definition scan_take :: "fetch_request \<Rightarrow> event \<Rightarrow> nat option \<Rightarrow> nat \<Rightarrow> scan \<Rightarrow> scan" where
  "scan_take rq ev replace bytes sc =
     (case replace of
        Some i \<Rightarrow> sc\<lparr>sc_wire_bytes := bytes, selected := (selected sc)[i := ev],
                    sc_coalesced := sc_coalesced sc + 1, sc_cursor := ev_sequence ev\<rparr>
      | None \<Rightarrow> sc\<lparr>sc_wire_bytes := bytes,
                   positions := (if coalesces rq ev
                     then (positions sc)(event_key ev \<mapsto> length (selected sc)) else positions sc),
                   selected := selected sc @ [ev], sc_cursor := ev_sequence ev\<rparr>)"

lemma scan_take_ok:
  assumes sc: "scan_ok rq seen sc" and m: "topic_matches rq ev" and fits: "fits_budget rq (seen @ [ev])"
    and r: "r = (if coalesces rq ev then positions sc (event_key ev) else None)"
    and b: "b = total_bytes (visible rq (seen @ [ev]))"
  shows "scan_ok rq (seen @ [ev]) (scan_take rq ev r b sc)"
proof -
  have ok: "positions_ok rq sc" using sc by (simp add: scan_ok_def)
  show ?thesis
  proof (cases r)
    case None
    note vis = scan_ok_append [OF sc m r [unfolded None, symmetric]]
    have "positions_ok rq (scan_take rq ev r b sc)"
      unfolding positions_ok_def
    proof (intro allI)
      fix k i
      show "positions (scan_take rq ev r b sc) k = Some i \<longleftrightarrow>
          i < length (selected (scan_take rq ev r b sc)) \<and> coalesces rq (selected (scan_take rq ev r b sc) ! i)
          \<and> event_key (selected (scan_take rq ev r b sc) ! i) = k"
        using ok [unfolded positions_ok_def, rule_format, of k i] r None
        by (cases "i = length (selected sc)") (auto simp: scan_take_def nth_append split: if_splits)
    qed
    then show ?thesis
      using vis fits total_bytes_mset [OF vis(1)] by (simp add: scan_ok_def scan_take_def None b)
  next
    case (Some i)
    note vis = scan_ok_replace [OF sc m r [unfolded Some, symmetric]]
    have c: "coalesces rq ev" and pos: "positions sc (event_key ev) = Some i"
      using r Some by (auto split: if_splits)
    have key: "event_key (selected sc ! i) = event_key ev" "coalesces rq (selected sc ! i)"
      using ok pos unfolding positions_ok_def by blast+
    have "positions_ok rq (scan_take rq ev r b sc)"
      unfolding positions_ok_def
    proof (intro allI)
      fix k j
      show "positions (scan_take rq ev r b sc) k = Some j \<longleftrightarrow>
          j < length (selected (scan_take rq ev r b sc)) \<and> coalesces rq (selected (scan_take rq ev r b sc) ! j)
          \<and> event_key (selected (scan_take rq ev r b sc) ! j) = k"
        using ok [unfolded positions_ok_def, rule_format, of k j] key c vis(1)
        by (cases "j = i") (auto simp: scan_take_def Some)
    qed
    then show ?thesis
      using vis fits total_bytes_mset [OF vis(2)] by (simp add: scan_ok_def scan_take_def Some b)
  qed
qed

lemma fetch_loop_take:
  assumes sc: "scan_ok rq seen sc" and m: "topic_matches rq ev"
    and r: "r = (if coalesces rq ev then positions sc (event_key ev) else None)"
  shows "fetch_loop rq (ev # evs) sc =
    (if fits_budget rq (seen @ [ev])
     then fetch_loop rq evs (scan_take rq ev r (total_bytes (visible rq (seen @ [ev]))) sc)
     else if selected sc = [] \<and> event_bytes ev > fetch_max_bytes rq
     then Some (Inl (error_new LIMIT (str ''first eligible event exceeds maxBytes; increase the fetch budget'')))
     else Some (Inr sc))"
proof -
  have len: "length (visible rq seen) = length (selected sc)"
    using sc unfolding scan_ok_def by (metis size_mset)
  have lim: "length (selected sc) \<le> fetch_limit rq" using sc len by (simp add: scan_ok_def fits_budget_def)
  show ?thesis
  proof (cases r)
    case None
    note vis = scan_ok_append [OF sc m r [unfolded None, symmetric]]
    have "length (visible rq (seen @ [ev])) = Suc (length (selected sc))"
      using vis(1) by (metis size_mset length_append_singleton)
    then have fits: "fits_budget rq (seen @ [ev]) \<longleftrightarrow>
        \<not> (sc_wire_bytes sc + event_bytes ev > fetch_max_bytes rq \<or> length (selected sc) = fetch_limit rq)"
      using lim vis(2) by (auto simp: fits_budget_def)
    show ?thesis
      using m r None by (simp add: fits vis(2) scan_take_def)
  next
    case (Some i)
    note vis = scan_ok_replace [OF sc m r [unfolded Some, symmetric]]
    have c: "coalesces rq ev" and pos: "positions sc (event_key ev) = Some i"
      using r Some by (auto split: if_splits)
    have "length (visible rq (seen @ [ev])) = length (selected sc)"
      using vis(2) by (metis size_mset length_list_update)
    then have fits: "fits_budget rq (seen @ [ev]) \<longleftrightarrow>
        \<not> sc_wire_bytes sc - event_bytes (selected sc ! i) + event_bytes ev > fetch_max_bytes rq"
      using lim vis(4) by (auto simp: fits_budget_def)
    have ne: "selected sc \<noteq> []" using vis(1) by auto
    show ?thesis
      using m c pos vis(1,3) ne by (simp add: Some fits vis(4) scan_take_def Let_def not_less)
  qed
qed

lemma fetch_loop_skip:
  assumes "scan_ok rq seen sc" and "\<not> topic_matches rq ev"
  shows "fetch_loop rq (ev # evs) sc = fetch_loop rq evs (sc\<lparr>sc_cursor := ev_sequence ev\<rparr>)"
    and "scan_ok rq (seen @ [ev]) (sc\<lparr>sc_cursor := ev_sequence ev\<rparr>)"
  using assms by (simp_all add: scan_ok_def positions_ok_def fits_budget_def visible_snoc)

text \<open>Where the cursor stands after scanning \<open>seen\<close>.\<close>

definition cursor_after :: "u64 \<Rightarrow> event list \<Rightarrow> u64" where
  "cursor_after after seen = (if seen = [] then after else ev_sequence (last seen))"

lemma cursor_after_snoc [simp]: "cursor_after after (seen @ [ev]) = ev_sequence ev"
  by (simp add: cursor_after_def)

lemma scan_take_cursor [simp]: "sc_cursor (scan_take rq ev r b sc) = ev_sequence ev"
  by (simp add: scan_take_def split: option.splits)

lemma scanned_prefix: "\<exists>rest. scanned rq seen evs @ rest = seen @ evs"
proof (induction evs arbitrary: seen)
  case (Cons ev evs)
  then show ?case using Cons.IH [of "seen @ [ev]"] by auto
qed simp

lemma length_scanned: "length (scanned rq seen evs) \<le> length seen + length evs"
  using scanned_prefix [of rq seen evs] by (metis le_add1 length_append)

lemma fetch_loop_spec:
  assumes "scan_ok rq seen sc" and "sc_cursor sc = cursor_after after seen" and "0 < fetch_limit rq"
  shows "let seen' = scanned rq seen evs in
    if visible rq seen' = [] \<and> length seen' < length (seen @ evs)
    then fetch_loop rq evs sc =
      Some (Inl (error_new LIMIT (str ''first eligible event exceeds maxBytes; increase the fetch budget'')))
    else \<exists>sc'. fetch_loop rq evs sc = Some (Inr sc') \<and> scan_ok rq seen' sc'
      \<and> sc_cursor sc' = cursor_after after seen'"
  using assms
proof (induction evs arbitrary: seen sc)
  case Nil
  then show ?case by (simp add: Let_def)
next
  case (Cons ev evs)
  show ?case
  proof (cases "topic_matches rq ev")
    case False
    have "fits_budget rq (seen @ [ev])"
      using Cons.prems(1) False by (simp add: scan_ok_def fits_budget_def visible_snoc)
    then show ?thesis
      using Cons.IH [OF fetch_loop_skip(2) [OF Cons.prems(1) False] _ Cons.prems(3)]
      by (simp add: Let_def fetch_loop_skip(1) [OF Cons.prems(1) False] del: fetch_loop.simps)
  next
    case True
    define r where "r = (if coalesces rq ev then positions sc (event_key ev) else None)"
    note step = fetch_loop_take [OF Cons.prems(1) True r_def, of evs]
    show ?thesis
    proof (cases "fits_budget rq (seen @ [ev])")
      case fits: True
      show ?thesis
        using Cons.IH [OF scan_take_ok [OF Cons.prems(1) True fits r_def refl] _ Cons.prems(3)] step fits
        by (simp add: Let_def del: fetch_loop.simps)
    next
      case full: False
      have empty: "selected sc = [] \<longleftrightarrow> visible rq seen = []"
        using Cons.prems(1) unfolding scan_ok_def by (metis mset_zero_iff)
      have "event_bytes ev > fetch_max_bytes rq" if "visible rq seen = []"
        using full Cons.prems(3) True that by (auto simp: fits_budget_def visible_snoc)
      then show ?thesis using step full empty Cons.prems by (auto simp: Let_def simp del: fetch_loop.simps)
    qed
  qed
qed

section \<open>The whole fetch\<close>

lemma stamp_take: "take n (stamp first rs) = stamp first (take n rs)"
  by (rule nth_equalityI) (auto simp: stamp_nth)

lemma stamp_drop: "drop n (stamp first rs) = stamp (first + of_nat n) (drop n rs)"
  by (rule nth_equalityI) (auto simp: stamp_nth add.assoc)

definition increasing :: "event list \<Rightarrow> bool" where
  "increasing evs = sorted_wrt (\<lambda>x y. ev_sequence x < ev_sequence y) evs"

lemma increasing_events:
  assumes "store_ok s"
  shows "increasing (events s)"
proof -
  have ev: "events s = stamp 1 (history s)" using assms by (simp add: store_ok_fields)
  have len: "length (history s) < 2 ^ 56"
    using store_ok_last_sequence(2) [OF assms] by (simp add: history_def)
  have num: "unat (of_nat (Suc i) :: u64) = Suc i" if "i < length (history s)" for i
    using that len by (intro unat_of_nat_lt) simp
  have "(1 :: u64) + of_nat i < 1 + of_nat j" if "i < j" "j < length (history s)" for i j
    using num [of i] num [of j] that by (simp add: word_less_nat_alt)
  then show ?thesis
    unfolding ev increasing_def by (simp add: sorted_wrt_iff_nth_less stamp_nth)
qed

lemma increasing_take_drop: "increasing evs \<Longrightarrow> increasing (take n (drop m evs))"
  unfolding increasing_def by (intro sorted_wrt_take sorted_wrt_drop)

lemma increasing_map: "increasing evs \<longleftrightarrow> sorted_wrt (<) (map ev_sequence evs)"
  by (simp add: increasing_def sorted_wrt_map)

lemma increasing_visible: "increasing evs \<Longrightarrow> increasing (visible rq evs)"
  unfolding increasing_def by (rule sorted_visible)

text \<open>Sorting the selected events by sequence number restores the order of the log.\<close>

lemma sort_key_increasing:
  assumes "mset xs = mset ys" and "increasing ys"
  shows "sort_key ev_sequence xs = ys"
proof (rule properties_for_sort_key)
  show "mset ys = mset xs" using assms(1) by simp
  have dist: "distinct (map ev_sequence ys)" and sorted: "sorted (map ev_sequence ys)"
    using assms(2) by (simp_all add: increasing_map strict_sorted_iff)
  show "sorted (map ev_sequence ys)" by (rule sorted)
  fix k assume k: "k \<in> set ys"
  have inj: "inj_on ev_sequence (set ys)" and ys: "distinct ys" using dist by (auto simp: distinct_map)
  have set_eq: "set xs = set ys" using assms(1) by (metis set_mset_mset)
  have xs: "distinct xs" using assms(1) ys by (metis mset_eq_imp_distinct_iff)
  have one: "filter (\<lambda>x. ev_sequence k = ev_sequence x) zs = [k]" if zs: "distinct zs" "set zs = set ys" for zs
  proof -
    have "set (filter (\<lambda>x. ev_sequence k = ev_sequence x) zs) = {k}"
      using zs(2) k inj by (auto simp: inj_on_def)
    moreover have "distinct (filter (\<lambda>x. ev_sequence k = ev_sequence x) zs)" using zs(1) by simp
    ultimately show ?thesis
      by (metis distinct_card card_1_singleton_iff One_nat_def length_0_conv length_Suc_conv list.simps(15)
          list.set(1) singleton_iff list.set_intros(1))
  qed
  show "filter (\<lambda>x. ev_sequence k = ev_sequence x) ys = filter (\<lambda>x. ev_sequence k = ev_sequence x) xs"
    using one [OF ys refl] one [OF xs set_eq] by simp
qed

text \<open>The part of the history a fetch scans.\<close>

definition window :: "fetch_request \<Rightarrow> store \<Rightarrow> event list" where
  "window rq s = take MAX_SCAN (drop (unat (fetch_after rq)) (events s))"

lemma cursor_after_window:
  assumes ok: "store_ok s" and after: "fetch_after rq \<le> last_sequence s"
    and seen: "seen @ rest = window rq s"
  shows "cursor_after (fetch_after rq) seen = fetch_after rq + of_nat (length seen)"
    and "unat (cursor_after (fetch_after rq) seen) = unat (fetch_after rq) + length seen"
    and "unat (fetch_after rq) + length seen \<le> length (events s)"
proof -
  let ?a = "unat (fetch_after rq)"
  have ev: "events s = stamp 1 (history s)" using ok by (simp add: store_ok_fields)
  have le: "?a \<le> length (events s)"
    using after store_ok_last_sequence(1) [OF ok] by (simp add: word_le_nat_alt)
  have "seen = take (length seen) (window rq s)" using seen by (metis append_eq_conv_conj)
  then have st: "seen = stamp (1 + fetch_after rq) (take (length seen) (take MAX_SCAN (drop ?a (history s))))"
    by (simp add: window_def ev stamp_take stamp_drop)
  show sum: "cursor_after (fetch_after rq) seen = fetch_after rq + of_nat (length seen)"
  proof (cases seen rule: rev_cases)
    case (snoc xs x)
    let ?rs = "take (length seen) (take MAX_SCAN (drop ?a (history s)))"
    have n: "length ?rs = Suc (length xs)" using st snoc by (metis length_stamp length_append_singleton)
    have "x = seen ! length xs" by (simp add: snoc)
    also have "\<dots> = stamp (1 + fetch_after rq) ?rs ! length xs" using st by simp
    finally have "ev_sequence x = 1 + fetch_after rq + of_nat (length xs)"
      using n by (simp add: stamp_nth)
    then show ?thesis by (simp add: snoc cursor_after_def)
  qed (simp add: cursor_after_def)
  have "length seen \<le> length (window rq s)" using seen by (metis le_add1 length_append)
  then show bound: "?a + length seen \<le> length (events s)" using le by (simp add: window_def) linarith
  then have "?a + length seen < 2 ^ 56" using store_ok_last_sequence(2) [OF ok] by simp
  then have "?a + unat (of_nat (length seen) :: u64) < 2 ^ LENGTH(64)"
    and "unat (of_nat (length seen) :: u64) = length seen" by (simp_all add: unat_of_nat_lt)
  then show "unat (cursor_after (fetch_after rq) seen) = ?a + length seen"
    unfolding sum by (simp only: unat_add_lt)
qed

definition fetched :: "store \<Rightarrow> u64 \<Rightarrow> u64 \<Rightarrow> store" where
  "fetched s n m = s\<lparr>fetched_records := saturating_add (fetched_records s) n,
                     coalesced_records := saturating_add (coalesced_records s) m\<rparr>"

text \<open>What a fetch answers, as a function of the request and the window.\<close>

definition fetch_spec :: "fetch_request \<Rightarrow> store \<Rightarrow> error + fetch_result" where
  "fetch_spec rq s =
     (if fetch_after rq > last_sequence s
      then Inl (error_new CURSOR (str ''cursor is beyond this log's high-water mark''))
      else and_then (scan_result rq (window rq s)) (\<lambda>seen.
        let cursor = fetch_after rq + of_nat (length seen)
        in Inr \<lparr>fr_cursor = cursor, fr_events = visible rq seen, fr_has_more = cursor < last_sequence s\<rparr>))"

lemma fetch_eq:
  assumes ok: "store_ok s" and limit: "0 < fetch_limit rq"
  shows "\<exists>n m. fetch rq s = Some (fetch_spec rq s, case fetch_spec rq s of Inl _ \<Rightarrow> s | Inr _ \<Rightarrow> fetched s n m)"
proof (cases "fetch_after rq > last_sequence s")
  case True
  then show ?thesis by (simp add: fetch_def fetch_spec_def)
next
  case False
  let ?W = "window rq s"
  let ?sc0 = "\<lparr>sc_cursor = fetch_after rq, selected = [], positions = Map.empty, sc_wire_bytes = 0, sc_coalesced = 0\<rparr>"
  define seen where "seen = scanned rq [] ?W"
  from scanned_prefix [of rq "[]" ?W] obtain rest where rest: "seen @ rest = ?W" by (auto simp: seen_def)
  note cursor = cursor_after_window [OF ok _ rest, unfolded not_less [symmetric], OF False]
  have sc0: "scan_ok rq [] ?sc0" "sc_cursor ?sc0 = cursor_after (fetch_after rq) []"
    by (simp_all add: scan_ok_def positions_ok_def fits_budget_def cursor_after_def)
  note loop = fetch_loop_spec [OF sc0 limit, of ?W, folded seen_def, unfolded Let_def, simplified]
  have run: "fetch rq s = (case fetch_loop rq ?W ?sc0 of
      None \<Rightarrow> None
    | Some (Inl e) \<Rightarrow> Some (Inl e, s)
    | Some (Inr sc) \<Rightarrow>
        Some (Inr \<lparr>fr_cursor = sc_cursor sc, fr_events = sort_key ev_sequence (selected sc),
                   fr_has_more = sc_cursor sc < last_sequence s\<rparr>,
              fetched s (of_nat (length (selected sc))) (sc_coalesced sc)))"
    using False by (simp add: fetch_def window_def Let_def fetched_def split: option.splits sum.splits)
  show ?thesis
  proof (cases "visible rq seen = [] \<and> length seen < length ?W")
    case True
    then show ?thesis
      using loop False by (simp add: run fetch_spec_def scan_result_def Let_def seen_def [symmetric])
  next
    case budget: False
    then obtain sc where sc: "fetch_loop rq ?W ?sc0 = Some (Inr sc)" "scan_ok rq seen sc"
      "sc_cursor sc = cursor_after (fetch_after rq) seen" using loop by auto
    have "increasing (visible rq seen)"
    proof -
      have "increasing ?W" unfolding window_def by (rule increasing_take_drop [OF increasing_events [OF ok]])
      then have "increasing seen" using rest unfolding increasing_def by (metis sorted_wrt_append)
      then show ?thesis by (rule increasing_visible)
    qed
    moreover have "mset (selected sc) = mset (visible rq seen)" using sc(2) by (simp add: scan_ok_def)
    ultimately have sort: "sort_key ev_sequence (selected sc) = visible rq seen"
      by (intro sort_key_increasing)
    show ?thesis
      using False budget
      by (simp add: run sc sort cursor(1) fetch_spec_def scan_result_def Let_def seen_def [symmetric]) blast
  qed
qed

end
