(* ===== verification/Store_Service.thy ===== *)
theory Store_Service
  imports Store_Disk Store_Fetch
begin

text \<open>
  The store in service: the states reachable from an empty store or an opened WAL by publishing
  and fetching, what a reader that follows the cursor receives, and the properties of the store
  as a whole.
\<close>

section \<open>Reachable stores\<close>

inductive store_reachable :: "(bytes \<Rightarrow> u32) \<Rightarrow> store \<Rightarrow> bool" for crc where
  memory: "store_reachable crc (store_memory now max_retained max_wal)"
| disk: "store_disk env crc now directory dirs file max_retained max_wal = (Inr s, dirs', file')
    \<Longrightarrow> store_reachable crc s"
| publish: "store_reachable crc s \<Longrightarrow> batch_ok rs \<Longrightarrow> publish env crc rs s = (res, s')
    \<Longrightarrow> store_reachable crc s'"
| fetch: "store_reachable crc s \<Longrightarrow> 0 < fetch_limit rq \<Longrightarrow> fetch rq s = Some (ans, s')
    \<Longrightarrow> store_reachable crc s'"

lemma wal_open_fresh_state:
  assumes "wal_open env crc max_bytes replay directory dirs file s = (Inr (w, s'), dirs', file')"
    and "case file of None \<Rightarrow> True | Some f \<Rightarrow> content f = []"
  shows "s' = s"
  using assms by (auto simp: wal_open_def Let_def MAGIC_def str_def file_write_all_def
      split: prod.splits sum.splits option.splits if_splits)

lemma store_disk_ok:
  assumes "store_disk env crc now directory dirs file max_retained max_wal = (Inr s, dirs', file')"
  shows "store_ok s"
proof (cases "case file of None \<Rightarrow> True | Some f \<Rightarrow> content f = []")
  case True
  from assms obtain w s1 where "wal_open env crc max_wal store_replay directory dirs file
      (store_memory now max_retained max_wal) = (Inr (w, s1), dirs', file')" "s = s1\<lparr>st_wal := Some w\<rparr>"
    by (auto simp: store_disk_def split: prod.splits sum.splits)
  with wal_open_fresh_state [OF this(1) True] have s: "s = (store_memory now max_retained max_wal)\<lparr>st_wal := Some w\<rparr>" by simp
  show ?thesis unfolding s by (rule store_ok_cong [OF store_memory_ok]) simp_all
next
  case False
  then obtain f where f: "file = Some f" "content f \<noteq> []" by (auto split: option.splits)
  from store_disk_sound [OF assms [unfolded f(1)] f(2)] show ?thesis by simp
qed

lemma publish_store_ok:
  assumes "store_ok s" and "batch_ok rs" and "publish env crc rs s = (res, s')"
  shows "store_ok s'"
  using assms
proof (cases rule: publish_cases)
  case rejected
  then show ?thesis using assms by simp
next
  case memory
  then show ?thesis using published_ok assms by simp
next
  case (durable w w')
  have "store_ok (s\<lparr>st_wal := Some w'\<rparr>)" using assms(1) by (rule store_ok_cong) simp_all
  then show ?thesis unfolding durable(6) by (rule published_ok) (use assms durable in simp_all)
next
  case (uncertain e w w')
  show ?thesis unfolding uncertain(6) by (rule store_ok_cong [OF assms(1)]) simp_all
qed

lemma fetched_simps [simp]:
  "events (fetched s n m) = events s" "st_retained_bytes (fetched s n m) = st_retained_bytes s"
  "st_max_retained_bytes (fetched s n m) = st_max_retained_bytes s" "st_wal (fetched s n m) = st_wal s"
  "poisoned (fetched s n m) = poisoned s" "history (fetched s n m) = history s"
  "last_sequence (fetched s n m) = last_sequence s"
  by (simp_all add: fetched_def last_sequence_def)

lemma fetch_some:
  assumes "store_ok s" and "0 < fetch_limit rq" and "fetch rq s = Some (ans, s')"
  shows "ans = fetch_spec rq s \<and> (s' = s \<or> (\<exists>n m. s' = fetched s n m))"
  using fetch_eq [OF assms(1,2)] assms(3) by (cases "fetch_spec rq s") auto

lemma fetch_store_ok:
  assumes "store_ok s" and "0 < fetch_limit rq" and "fetch rq s = Some (ans, s')"
  shows "store_ok s'" and "events s' = events s"
  using fetch_some [OF assms] assms(1) by (auto intro: store_ok_cong)

lemma store_reachable_ok: "store_reachable crc s \<Longrightarrow> store_ok s"
  by (induction rule: store_reachable.induct)
    (auto simp: store_memory_ok intro: store_disk_ok publish_store_ok fetch_store_ok)

section \<open>One page\<close>

text \<open>What a successful answer of the specification contains.\<close>

lemma fetch_spec_Inr:
  assumes ok: "store_ok s" and ans: "fetch_spec rq s = Inr fr"
  obtains seen rest where "fetch_after rq \<le> last_sequence s" "seen @ rest = window rq s" "seen = scanned rq [] (window rq s)"
    "fr_events fr = visible rq seen" "unat (fr_cursor fr) = unat (fetch_after rq) + length seen"
    "fr_cursor fr = fetch_after rq + of_nat (length seen)"
    "fr_has_more fr \<longleftrightarrow> fr_cursor fr < last_sequence s" "visible rq seen = [] \<Longrightarrow> rest = []"
    "unat (fetch_after rq) + length seen \<le> length (events s)"
proof -
  have after: "fetch_after rq \<le> last_sequence s"
    using ans by (auto simp: fetch_spec_def split: if_splits)
  define seen where "seen = scanned rq [] (window rq s)"
  obtain rest where rest: "seen @ rest = window rq s"
    using scanned_prefix [of rq "[]"] by (auto simp: seen_def)
  note cur = cursor_after_window [OF ok after rest]
  have fr: "fr = \<lparr>fr_cursor = fetch_after rq + of_nat (length seen), fr_events = visible rq seen,
      fr_has_more = fetch_after rq + of_nat (length seen) < last_sequence s\<rparr>"
    and full: "\<not> (visible rq seen = [] \<and> length seen < length (window rq s))"
    using ans after by (auto simp: fetch_spec_def scan_result_def Let_def seen_def split: if_splits)
  have sel: "fr_cursor fr = fetch_after rq + of_nat (length seen)" "fr_events fr = visible rq seen"
    "fr_has_more fr \<longleftrightarrow> fr_cursor fr < last_sequence s" by (simp_all add: fr)
  have len: "length (window rq s) = length seen + length rest" using rest by (metis length_append)
  show thesis
  proof (rule that [OF after rest seen_def sel(2) _ sel(1,3) _ cur(3)])
    show "unat (fr_cursor fr) = unat (fetch_after rq) + length seen"
      using cur(1,2) sel(1) by simp
    show "visible rq seen = [] \<Longrightarrow> rest = []" using full len by simp
  qed
qed

lemma scanned_fits: "fits_budget rq seen \<Longrightarrow> fits_budget rq (scanned rq seen evs)"
  by (induction evs arbitrary: seen) auto

lemma fits_budget_Nil [simp]: "fits_budget rq []"
  by (simp add: fits_budget_def)

lemma visible_last:
  "x \<in> set evs \<Longrightarrow> topic_matches rq x \<Longrightarrow> \<exists>y\<in>set (visible rq evs). event_key y = event_key x"
proof (induction evs arbitrary: x)
  case (Cons e evs)
  show ?case
  proof (cases "x \<in> set evs")
    case True
    with Cons show ?thesis by auto
  next
    case False
    with Cons.prems have [simp]: "x = e" by simp
    show ?thesis
    proof (cases "superseded rq e evs")
      case True
      then obtain z where z: "z \<in> set evs" "event_key z = event_key e" by (auto simp: superseded_def)
      moreover have "topic_matches rq z" using Cons.prems(2) z(2) topic_matches_key by (metis \<open>x = e\<close>)
      ultimately show ?thesis using Cons.IH [of z] True by auto
    qed (use Cons.prems in simp)
  qed
qed simp

text \<open>An event of the scanned part is visible, or a later visible event has its topic and key.\<close>

lemma visible_or_superseded:
  assumes "increasing evs" and "ev \<in> set evs" and "topic_matches rq ev"
  shows "ev \<in> set (visible rq evs) \<or>
    (coalesces rq ev \<and> (\<exists>x\<in>set (visible rq evs). event_key x = event_key ev \<and> ev_sequence ev < ev_sequence x))"
  using assms
proof (induction evs)
  case (Cons y evs)
  then have inc: "increasing evs" and lt: "\<forall>x\<in>set evs. ev_sequence y < ev_sequence x"
    by (simp_all add: increasing_def)
  show ?case
  proof (cases "ev = y")
    case False
    with Cons.prems Cons.IH [OF inc] show ?thesis by auto
  next
    case True
    show ?thesis
    proof (cases "superseded rq ev evs")
      case False
      with Cons.prems(3) True show ?thesis by simp
    next
      case sup: True
      then obtain x where x: "x \<in> set evs" "event_key x = event_key ev" and c: "coalesces rq ev"
        by (auto simp: superseded_def)
      have m: "topic_matches rq x" using topic_matches_key [OF Cons.prems(3)] x(2) by metis
      have "\<exists>x\<in>set (visible rq evs). event_key x = event_key ev \<and> ev_sequence ev < ev_sequence x"
        using visible_last [OF x(1) m] visible_set lt True x(2) by metis
      then show ?thesis using c True sup by auto
    qed
  qed
qed simp

text \<open>Where a scan stops short, the next event does not fit the budgets.\<close>

lemma scanned_stop:
  "scanned rq seen evs @ rest = seen @ evs \<Longrightarrow> rest \<noteq> [] \<Longrightarrow> \<not> fits_budget rq (scanned rq seen evs @ [hd rest])"
proof (induction evs arbitrary: seen)
  case (Cons ev evs)
  show ?case
  proof (cases "fits_budget rq (seen @ [ev])")
    case True
    then show ?thesis using Cons.IH [of "seen @ [ev]"] Cons.prems by simp
  next
    case False
    with Cons.prems show ?thesis by (cases rest) auto
  qed
qed simp

lemma visible_Nil: "visible rq evs = [] \<Longrightarrow> ev \<in> set evs \<Longrightarrow> \<not> topic_matches rq ev"
  using visible_last by fastforce

text \<open>The LIMIT answer: the first matching event after the cursor is too large on its own.\<close>

lemma scan_result_Inl:
  assumes "scan_result rq evs = Inl e" and "0 < fetch_limit rq"
  shows "e = error_new LIMIT (str ''first eligible event exceeds maxBytes; increase the fetch budget'')
    \<and> (\<exists>seen ev rest. evs = seen @ ev # rest \<and> (\<forall>x\<in>set seen. \<not> topic_matches rq x)
        \<and> topic_matches rq ev \<and> fetch_max_bytes rq < event_bytes ev)"
proof -
  define seen where "seen = scanned rq [] evs"
  from scanned_prefix [of rq "[]" evs] obtain rest where rest: "seen @ rest = evs" by (auto simp: seen_def)
  from assms have e: "e = error_new LIMIT (str ''first eligible event exceeds maxBytes; increase the fetch budget'')"
    and none: "visible rq seen = []" and short: "length seen < length evs"
    by (auto simp: scan_result_def Let_def seen_def split: if_splits)
  from short rest obtain ev more where r: "rest = ev # more" by (cases rest) auto
  have "\<not> fits_budget rq (seen @ [ev])"
    using scanned_stop [of rq "[]" evs rest] rest r by (simp add: seen_def)
  then have "topic_matches rq ev \<and> fetch_max_bytes rq < event_bytes ev"
    using none assms(2) by (auto simp: fits_budget_def visible_snoc split: if_splits)
  then show ?thesis using e rest r visible_Nil [OF none] by blast
qed

lemma fetch_spec_progress:
  assumes "store_ok s" and "fetch_spec rq s = Inr fr" and "fetch_after rq < last_sequence s"
  shows "fetch_after rq < fr_cursor fr"
proof -
  obtain seen rest where sr: "seen @ rest = window rq s" "unat (fr_cursor fr) = unat (fetch_after rq) + length seen"
    "visible rq seen = [] \<Longrightarrow> rest = []" using fetch_spec_Inr [OF assms(1,2)] by metis
  have "window rq s \<noteq> []"
    using assms(3) store_ok_last_sequence(1) [OF assms(1)]
    by (simp add: window_def MAX_SCAN_def word_less_nat_alt)
  then have "seen \<noteq> []" using sr by auto
  then show ?thesis using sr(2) by (simp add: word_less_nat_alt)
qed

text \<open>The scanned part of a page is the range of the log between the two cursors.\<close>

lemma fetch_spec_range:
  assumes ok: "store_ok s" and spec: "fetch_spec rq s = Inr fr"
  obtains seen where "fr_events fr = visible rq seen" "increasing seen"
    "\<And>ev. ev \<in> set seen \<longleftrightarrow> ev \<in> set (events s) \<and> fetch_after rq < ev_sequence ev \<and> ev_sequence ev \<le> fr_cursor fr"
proof -
  let ?a = "unat (fetch_after rq)"
  obtain seen rest where page: "seen @ rest = window rq s" "fr_events fr = visible rq seen"
    "unat (fr_cursor fr) = ?a + length seen" "?a + length seen \<le> length (events s)"
    using fetch_spec_Inr [OF ok spec] by metis
  have inc: "increasing (window rq s)"
    unfolding window_def by (rule increasing_take_drop [OF increasing_events [OF ok]])
  then have "increasing seen" unfolding increasing_def page(1) [symmetric] by (simp add: sorted_wrt_append)
  moreover have "ev \<in> set seen \<longleftrightarrow> ev \<in> set (events s) \<and> fetch_after rq < ev_sequence ev \<and> ev_sequence ev \<le> fr_cursor fr" for ev
  proof -
    have nth: "seen ! i = events s ! (?a + i)" if "i < length seen" for i
    proof -
      have "i < length (window rq s)" using that page(1) by (metis length_append trans_less_add1)
      moreover have "seen ! i = window rq s ! i" using that page(1) by (metis nth_append)
      ultimately show ?thesis using page(4) that by (simp add: window_def)
    qed
    have num: "unat (ev_sequence (events s ! i)) = Suc i" if "i < length (events s)" for i
      by (rule store_ok_numbers [OF ok that])
    have "ev \<in> set seen \<longleftrightarrow> (\<exists>i<length (events s). events s ! i = ev \<and> ?a \<le> i \<and> i < ?a + length seen)"
    proof
      assume "ev \<in> set seen"
      then obtain i where "i < length seen" "seen ! i = ev" by (auto simp: in_set_conv_nth)
      with nth page(4) show "\<exists>i<length (events s). events s ! i = ev \<and> ?a \<le> i \<and> i < ?a + length seen"
        by (intro exI [of _ "?a + i"]) auto
    next
      assume "\<exists>i<length (events s). events s ! i = ev \<and> ?a \<le> i \<and> i < ?a + length seen"
      then obtain i where "events s ! i = ev" "?a \<le> i" "i < ?a + length seen" by blast
      with nth [of "i - ?a"] show "ev \<in> set seen" by (auto simp: in_set_conv_nth intro!: exI [of _ "i - ?a"])
    qed
    also have "\<dots> \<longleftrightarrow> (\<exists>i<length (events s). events s ! i = ev \<and> fetch_after rq < ev_sequence ev \<and> ev_sequence ev \<le> fr_cursor fr)"
      using num page(3) by (auto simp: word_less_nat_alt word_le_nat_alt less_Suc_eq_le Suc_le_eq)
    also have "\<dots> \<longleftrightarrow> ev \<in> set (events s) \<and> fetch_after rq < ev_sequence ev \<and> ev_sequence ev \<le> fr_cursor fr"
      by (auto simp: in_set_conv_nth)
    finally show ?thesis .
  qed
  ultimately show thesis using that page(2) by blast
qed

lemma fetch_result_encode_length:
  "length (fetch_result_encode fr) = 11 + total_bytes (fr_events fr)"
proof -
  have "length (foldl (\<lambda>out ev. encode_record (out @ to_be_bytes (ev_sequence ev)) (ev_record ev)) out evs)
      = length out + total_bytes evs" for out evs
  proof (induction evs arbitrary: out)
    case (Cons ev evs)
    have "length (encode_record (out @ to_be_bytes (ev_sequence ev)) (ev_record ev)) = length out + event_bytes ev"
      by (subst encode_record_out) (simp add: length_encode_record event_bytes_def wire_bytes_def)
    with Cons show ?case by simp
  qed simp
  then show ?thesis by (simp add: fetch_result_encode_def)
qed

section \<open>Following the cursor\<close>

text \<open>
  The loop of a reader: fetch from the cursor of the last answer until the answer says there is
  no more.
\<close>

fun drain :: "nat \<Rightarrow> fetch_request \<Rightarrow> store \<Rightarrow> (error + event list) option" where
  "drain 0 rq s = None"
| "drain (Suc n) rq s =
     (case fetch rq s of
        None \<Rightarrow> None
      | Some (Inl e, s) \<Rightarrow> Some (Inl e)
      | Some (Inr fr, s) \<Rightarrow>
          (if fr_has_more fr
           then map_option (\<lambda>r. and_then r (\<lambda>evs. Inr (fr_events fr @ evs)))
             (drain n (rq\<lparr>fetch_after := fr_cursor fr\<rparr>) s)
           else Some (Inr (fr_events fr))))"

text \<open>The view a reader builds: the latest event of every topic and key.\<close>

definition view_of :: "event list \<Rightarrow> rstring \<times> rstring \<rightharpoonup> event" where
  "view_of evs = foldl (\<lambda>m ev. m(event_key ev \<mapsto> ev)) Map.empty evs"

lemma view_of_append: "view_of (xs @ ys) = view_of xs ++ view_of ys"
proof (induction ys rule: rev_induct)
  case (snoc y ys)
  have "view_of (xs @ ys @ [y]) = (view_of (xs @ ys))(event_key y \<mapsto> y)" by (simp add: view_of_def)
  also have "\<dots> = view_of xs ++ (view_of ys)(event_key y \<mapsto> y)" using snoc by simp
  also have "(view_of ys)(event_key y \<mapsto> y) = view_of (ys @ [y])" by (simp add: view_of_def)
  finally show ?case .
qed (simp add: view_of_def)

lemma view_of_Cons: "view_of (x # xs) = [event_key x \<mapsto> x] ++ view_of xs"
  using view_of_append [of "[x]" xs] by (simp add: view_of_def)

lemma dom_view_of: "dom (view_of evs) = event_key ` set evs"
proof (induction evs)
  case (Cons x xs)
  then show ?case by (simp only: view_of_Cons dom_map_add) auto
qed (simp add: view_of_def)

lemma view_of_visible: "view_of (visible rq evs) = view_of (filter (topic_matches rq) evs)"
proof (induction evs)
  case (Cons ev evs)
  show ?case
  proof (cases "topic_matches rq ev \<and> superseded rq ev evs")
    case True
    then obtain x where "x \<in> set evs" "event_key x = event_key ev" by (auto simp: superseded_def)
    moreover from this True have "topic_matches rq x" using topic_matches_key by metis
    ultimately have "event_key ev \<in> dom (view_of (filter (topic_matches rq) evs))"
      unfolding dom_view_of by (metis (no_types, lifting) image_iff mem_Collect_eq set_filter)
    then have "view_of (filter (topic_matches rq) (ev # evs)) = view_of (filter (topic_matches rq) evs)"
      using True by (auto simp: view_of_Cons map_add_def fun_eq_iff split: option.splits)
    with True Cons show ?thesis by simp
  next
    case False
    with Cons show ?thesis by (auto simp: view_of_Cons)
  qed
qed simp

definition backlog :: "fetch_request \<Rightarrow> store \<Rightarrow> event list" where
  "backlog rq s = filter (topic_matches rq) (drop (unat (fetch_after rq)) (events s))"

lemma fetch_spec_no_error:
  assumes "fetch_after rq \<le> last_sequence s" and "0 < fetch_limit rq"
    and "\<forall>ev\<in>set (backlog rq s). event_bytes ev \<le> fetch_max_bytes rq"
  shows "\<exists>fr. fetch_spec rq s = Inr fr"
proof (cases "scan_result rq (window rq s)")
  case (Inl e)
  from scan_result_Inl [OF this assms(2)] obtain ev where "ev \<in> set (window rq s)"
    "topic_matches rq ev" "fetch_max_bytes rq < event_bytes ev" by (metis in_set_conv_decomp)
  moreover have "set (window rq s) \<subseteq> set (drop (unat (fetch_after rq)) (events s))"
    unfolding window_def by (rule set_take_subset)
  ultimately show ?thesis using assms(3) by (auto simp: backlog_def)
next
  case (Inr seen)
  with assms(1) show ?thesis by (simp add: fetch_spec_def Let_def)
qed

lemma drain_backlog:
  assumes "store_ok s" and "fetch_after rq \<le> last_sequence s" and "0 < fetch_limit rq"
    and "\<forall>ev\<in>set (backlog rq s). event_bytes ev \<le> fetch_max_bytes rq"
    and "length (events s) - unat (fetch_after rq) < n"
  shows "\<exists>evs. drain n rq s = Some (Inr evs) \<and> view_of evs = view_of (backlog rq s)
    \<and> (\<not> fetch_latest rq \<longrightarrow> evs = backlog rq s)"
  using assms
proof (induction n arbitrary: rq s)
  case (Suc n)
  note ok = Suc.prems(1)
  let ?a = "unat (fetch_after rq)"
  obtain fr where fr: "fetch_spec rq s = Inr fr" using fetch_spec_no_error Suc.prems by blast
  from fetch_eq [OF ok Suc.prems(3)] fr obtain k m where run: "fetch rq s = Some (Inr fr, fetched s k m)" by auto
  let ?s = "fetched s k m" and ?rq = "rq\<lparr>fetch_after := fr_cursor fr\<rparr>"
  obtain seen rest where page: "seen @ rest = window rq s" "fr_events fr = visible rq seen"
    "unat (fr_cursor fr) = ?a + length seen" "fr_has_more fr \<longleftrightarrow> fr_cursor fr < last_sequence s"
    "?a + length seen \<le> length (events s)"
    using fetch_spec_Inr [OF ok fr] by metis
  have seen: "seen = take (length seen) (drop ?a (events s))"
  proof -
    have "seen = take (length seen) (window rq s)" using page(1) by (metis append_eq_conv_conj)
    moreover have "length seen \<le> MAX_SCAN"
      using page(1) by (metis append_eq_conv_conj le_add1 length_append length_take min.boundedE window_def)
    ultimately show ?thesis by (simp add: window_def min_absorb1)
  qed
  have split: "backlog rq s = filter (topic_matches rq) seen @ filter (topic_matches rq) (drop (?a + length seen) (events s))"
    using arg_cong [OF append_take_drop_id [of "length seen" "drop ?a (events s)", symmetric], of "filter (topic_matches rq)"]
    by (simp add: backlog_def seen [symmetric] add.commute)
  have match: "topic_matches ?rq = topic_matches rq" by (simp add: topic_matches_def fun_eq_iff)
  have last: "unat (last_sequence s) = length (events s)" by (rule store_ok_last_sequence(1) [OF ok])
  show ?case
  proof (cases "fr_has_more fr")
    case False
    then have "drop (?a + length seen) (events s) = []"
      using page(3-5) last by (simp add: word_less_nat_alt)
    then have "backlog rq s = filter (topic_matches rq) seen" using split by simp
    then show ?thesis
      using run False page(2) view_of_visible visible_all by (simp del: filter_False)
  next
    case True
    have next_backlog: "backlog ?rq ?s = filter (topic_matches rq) (drop (?a + length seen) (events s))"
      by (simp add: backlog_def match page(3))
    have "fetch_after rq < last_sequence s"
      using True page(3,4) by (simp add: word_less_nat_alt)
    from fetch_spec_progress [OF ok fr this] have "0 < length seen" using page(3) by (simp add: word_less_nat_alt)
    have "\<exists>evs. drain n ?rq ?s = Some (Inr evs) \<and> view_of evs = view_of (backlog ?rq ?s)
        \<and> (\<not> fetch_latest ?rq \<longrightarrow> evs = backlog ?rq ?s)"
    proof (rule Suc.IH)
      show "store_ok ?s" using ok by (rule store_ok_cong) simp_all
      show "fetch_after ?rq \<le> last_sequence ?s" using page(3,5) last by (simp add: word_le_nat_alt)
      show "0 < fetch_limit ?rq" using Suc.prems(3) by simp
      show "\<forall>ev\<in>set (backlog ?rq ?s). event_bytes ev \<le> fetch_max_bytes ?rq"
        unfolding next_backlog using Suc.prems(4) split by auto
      show "length (events ?s) - unat (fetch_after ?rq) < n"
        using Suc.prems(5) page(3,5) \<open>0 < length seen\<close> by (simp del: length_greater_0_conv)
    qed
    then obtain evs where evs: "drain n ?rq ?s = Some (Inr evs)" "view_of evs = view_of (backlog ?rq ?s)"
      "\<not> fetch_latest rq \<longrightarrow> evs = backlog ?rq ?s" by auto
    then show ?thesis
      using run True page(2) split next_backlog
      by (simp add: view_of_append view_of_visible visible_all)
  qed
qed simp

text \<open>No event that a page covers is larger than the byte budget on its own.\<close>

lemma scanned_small:
  "ev \<in> set (scanned rq seen evs) \<Longrightarrow> topic_matches rq ev \<Longrightarrow> ev \<in> set seen \<or> event_bytes ev \<le> fetch_max_bytes rq"
proof (induction evs arbitrary: seen)
  case (Cons x evs)
  show ?case
  proof (cases "fits_budget rq (seen @ [x])")
    case True
    then have "topic_matches rq x \<Longrightarrow> event_bytes x \<le> fetch_max_bytes rq" by (auto simp: fits_budget_def visible_snoc)
    then show ?thesis using Cons.IH [of "seen @ [x]"] Cons.prems True by auto
  qed (use Cons.prems in simp)
qed simp

text \<open>A reader whose budget is too small for an event of the backlog is told so.\<close>

lemma drain_limit:
  assumes "store_ok s" and "fetch_after rq \<le> last_sequence s" and "0 < fetch_limit rq"
    and "\<exists>ev\<in>set (backlog rq s). fetch_max_bytes rq < event_bytes ev"
    and "length (events s) - unat (fetch_after rq) < n"
  shows "\<exists>e. drain n rq s = Some (Inl e) \<and> err_code e = LIMIT"
  using assms
proof (induction n arbitrary: rq s)
  case (Suc n)
  note ok = Suc.prems(1)
  let ?a = "unat (fetch_after rq)"
  show ?case
  proof (cases "fetch_spec rq s")
    case (Inl e)
    then have "scan_result rq (window rq s) = Inl e"
      using Suc.prems(2) by (auto simp: fetch_spec_def and_then_eq_Inl Let_def split: if_splits)
    from scan_result_Inl [OF this Suc.prems(3)] have "err_code e = LIMIT" by (simp add: error_new_def)
    moreover have "drain (Suc n) rq s = Some (Inl e)" using fetch_eq [OF ok Suc.prems(3)] Inl by auto
    ultimately show ?thesis by blast
  next
    case (Inr fr)
    from fetch_eq [OF ok Suc.prems(3)] Inr obtain k m where run: "fetch rq s = Some (Inr fr, fetched s k m)" by auto
    let ?s = "fetched s k m" and ?rq = "rq\<lparr>fetch_after := fr_cursor fr\<rparr>"
    obtain seen rest where page: "seen @ rest = window rq s" "seen = scanned rq [] (window rq s)"
      "unat (fr_cursor fr) = ?a + length seen" "fr_has_more fr \<longleftrightarrow> fr_cursor fr < last_sequence s"
      "?a + length seen \<le> length (events s)"
      using fetch_spec_Inr [OF ok Inr] by metis
    have "seen = take (length seen) (window rq s)" using page(1) by (metis append_eq_conv_conj)
    moreover have "length seen \<le> MAX_SCAN"
      using page(1) by (metis append_eq_conv_conj le_add1 length_append length_take min.boundedE window_def)
    ultimately have seen: "seen = take (length seen) (drop ?a (events s))" by (simp add: window_def min_absorb1)
    have split: "backlog rq s = filter (topic_matches rq) seen @ filter (topic_matches rq) (drop (?a + length seen) (events s))"
      using arg_cong [OF append_take_drop_id [of "length seen" "drop ?a (events s)", symmetric], of "filter (topic_matches rq)"]
      by (simp add: backlog_def seen [symmetric] add.commute)
    have match: "topic_matches ?rq = topic_matches rq" by (simp add: topic_matches_def fun_eq_iff)
    have next_backlog: "backlog ?rq ?s = filter (topic_matches rq) (drop (?a + length seen) (events s))"
      by (simp add: backlog_def match page(3))
    have "\<forall>ev\<in>set (filter (topic_matches rq) seen). event_bytes ev \<le> fetch_max_bytes rq"
      using scanned_small [of _ rq "[]" "window rq s"] page(2) by auto
    then have large: "\<exists>ev\<in>set (backlog ?rq ?s). fetch_max_bytes rq < event_bytes ev"
      using Suc.prems(4) unfolding split next_backlog by force
    then have "?a + length seen < length (events s)" unfolding next_backlog by (auto simp: not_le [symmetric])
    have last: "unat (last_sequence s) = length (events s)" by (rule store_ok_last_sequence(1) [OF ok])
    have more: "fr_has_more fr" using \<open>?a + length seen < length (events s)\<close> page(3,4) last by (simp add: word_less_nat_alt)
    have "fetch_after rq < last_sequence s" using \<open>?a + length seen < length (events s)\<close> last by (simp add: word_less_nat_alt)
    from fetch_spec_progress [OF ok Inr this] have "0 < length seen" using page(3) by (simp add: word_less_nat_alt)
    have "\<exists>e. drain n ?rq ?s = Some (Inl e) \<and> err_code e = LIMIT"
    proof (rule Suc.IH)
      show "store_ok ?s" using ok by (rule store_ok_cong) simp_all
      show "fetch_after ?rq \<le> last_sequence ?s" using page(3,5) last by (simp add: word_le_nat_alt)
      show "0 < fetch_limit ?rq" using Suc.prems(3) by simp
      show "\<exists>ev\<in>set (backlog ?rq ?s). fetch_max_bytes ?rq < event_bytes ev" using large by simp
      show "length (events ?s) - unat (fetch_after ?rq) < n"
        using Suc.prems(5) page(3,5) \<open>0 < length seen\<close> by (simp del: length_greater_0_conv)
    qed
    then obtain e where "drain n ?rq ?s = Some (Inl e)" "err_code e = LIMIT" by blast
    then show ?thesis using run more by simp
  qed
qed simp

section \<open>A run of publishes\<close>

primrec publish_all ::
  "(bytes \<Rightarrow> u32) \<Rightarrow> (io_env \<times> log_record list) list \<Rightarrow> store \<Rightarrow> (error + bytes) list \<times> store" where
  "publish_all crc [] s = ([], s)"
| "publish_all crc (op # ops) s =
     (case publish (fst op) crc (snd op) s of
        (res, s) \<Rightarrow> (case publish_all crc ops s of (results, s) \<Rightarrow> (res # results, s)))"

text \<open>The records of the batches whose publisher received a receipt.\<close>

fun acknowledged :: "(io_env \<times> log_record list) list \<Rightarrow> (error + bytes) list \<Rightarrow> log_record list" where
  "acknowledged (op # ops) (Inr reply # results) = snd op @ acknowledged ops results"
| "acknowledged (op # ops) (Inl e # results) = acknowledged ops results"
| "acknowledged _ _ = []"

definition publishable :: "log_record list \<Rightarrow> bool" where
  "publishable rs = (batch_ok rs \<and> length (encode_records rs) \<le> MAX_FRAME - 5)"

lemma publishable_fits: "batch_fits (next_batch s rs) \<longleftrightarrow> publishable rs"
  by (simp add: batch_fits_def next_batch_def publishable_def)

lemma publish_all_disk:
  assumes "disk_state crc s unc" and "store_ok s" and "\<forall>op\<in>set ops. publishable (snd op)"
    and "publish_all crc ops s = (results, s')"
  shows "store_ok s' \<and> history s' = history s @ acknowledged ops results
    \<and> st_max_retained_bytes s' = st_max_retained_bytes s \<and> st_max_wal_bytes s' = st_max_wal_bytes s
    \<and> length results = length ops
    \<and> (\<exists>unc'. disk_state crc s' unc' \<and> (unc' = unc \<or>
         (\<exists>i<length ops. unc' = Some (snd (ops ! i)) \<and> (\<exists>e. results ! i = Inl e))))"
  using assms
proof (induction ops arbitrary: s unc results)
  case (Cons op ops)
  obtain res s1 where one: "publish (fst op) crc (snd op) s = (res, s1)" by fastforce
  obtain results1 where rest: "publish_all crc ops s1 = (results1, s')" and results: "results = res # results1"
    using Cons.prems(4) one by (auto split: prod.splits)
  have "batch_fits (next_batch s (snd op))" using Cons.prems(3) by (simp add: publishable_fits)
  note step = publish_disk_state [OF Cons.prems(1,2) this one]
  let ?unc = "if poisoned s1 \<and> \<not> poisoned s then Some (snd op) else unc"
  from Cons.IH [OF step(2,1) _ rest] Cons.prems(3) obtain unc' where
    IH: "store_ok s'" "history s' = history s1 @ acknowledged ops results1"
      "st_max_retained_bytes s' = st_max_retained_bytes s1" "st_max_wal_bytes s' = st_max_wal_bytes s1"
      "length results1 = length ops" "disk_state crc s' unc'"
      "unc' = ?unc \<or> (\<exists>i<length ops. unc' = Some (snd (ops ! i)) \<and> (\<exists>e. results1 ! i = Inl e))"
    by auto
  have "unc' = unc \<or> (\<exists>i<length (op # ops). unc' = Some (snd ((op # ops) ! i)) \<and> (\<exists>e. results ! i = Inl e))"
    using IH(7)
  proof
    assume "unc' = ?unc"
    then show ?thesis using step(5) results by (cases "poisoned s1 \<and> \<not> poisoned s") (auto intro!: exI [of _ 0])
  next
    assume "\<exists>i<length ops. unc' = Some (snd (ops ! i)) \<and> (\<exists>e. results1 ! i = Inl e)"
    then obtain i where "i < length ops" "unc' = Some (snd (ops ! i))" "\<exists>e. results1 ! i = Inl e" by blast
    then have "Suc i < length (op # ops) \<and> unc' = Some (snd ((op # ops) ! Suc i)) \<and> (\<exists>e. results ! Suc i = Inl e)"
      by (simp add: results)
    then show ?thesis by blast
  qed
  moreover have "history s' = history s @ acknowledged (op # ops) results"
    using IH(2) step(3) results by (cases res) simp_all
  ultimately show ?case using IH(1,3-6) step(6,7) results by auto
qed simp

end
