(* ===== verification/Store_Settled.thy ===== *)
theory Store_Settled
  imports Store_Service
begin

text \<open>
  Opening a log that is on stable storage, under any outcomes of the system calls, and what a loss of
  power leaves of the store that serves it. A log is settled when the disk has what the process reads:
  after a loss of power it always is, as it is when no append or truncation has failed. A log whose last
  append failed to synchronize is not, and \<open>open\<close> does not synchronize it.
\<close>

definition settled :: "wal_file option \<Rightarrow> bool" where
  "settled file = (case file of None \<Rightarrow> True | Some f \<Rightarrow> synced f = content f)"

lemma settled_crash: "settled (Some (crash k f))"
  by (simp add: settled_def crash_def Let_def)

section \<open>What is opened is settled\<close>

lemma file_read_exact_same:
  assumes "file_read_exact env c n f = (r, f')"
  shows "content f' = content f \<and> synced f' = synced f"
  using assms by (auto simp: file_read_exact_def split: option.splits if_splits)

lemma truncate_tail_settled: "truncate_tail env n f = (Inr u, f') \<Longrightarrow> synced f' = content f'"
  by (auto simp: truncate_tail_def file_sync_all_def syscall_def split: option.splits prod.splits sum.splits)

lemma open_loop_settled:
  assumes "open_loop env crc replay len pos f s = (Inr r, f')" and "synced f = content f"
  shows "synced f' = content f'"
  using assms
proof (induction env crc replay len pos f s rule: open_loop.induct)
  case (1 env crc replay len pos f s)
  show ?case
  proof (cases "pos < len \<and> \<not> len - pos < HEADER_BYTES")
    case False
    then show ?thesis
      using 1(2,3) by (subst (asm) open_loop.simps) (auto split: if_splits prod.splits sum.splits dest: truncate_tail_settled)
  next
    case True
    then obtain h f1 where h: "file_read_exact env (ReadHeader pos) HEADER_BYTES f = (Inr h, f1)"
      using 1(2) by (subst (asm) open_loop.simps) (auto split: prod.splits sum.splits)
    define k where "k = unat (from_be_bytes (take 4 h) :: u32)"
    have good: "crc (take 8 h) = from_be_bytes (take 4 (drop 8 h))" "19 \<le> k" "k \<le> MAX_FRAME + 3"
      using 1(2) True h by (subst (asm) open_loop.simps, simp add: Let_def k_def split: if_splits)+
    have f1: "synced f1 = content f1" using file_read_exact_same [OF h] 1(3) by simp
    show ?thesis
    proof (cases "pos + HEADER_BYTES + k > len")
      case long: True
      then show ?thesis
        using 1(2) True h good
        by (subst (asm) open_loop.simps) (auto simp: Let_def k_def [symmetric] split: prod.splits sum.splits dest: truncate_tail_settled)
    next
      case fits: False
      then obtain body f2 where body: "file_read_exact env (ReadBody pos) k f1 = (Inr body, f2)"
          "crc body = from_be_bytes (take 4 (drop 4 h))"
        using 1(2) True h good
        by (subst (asm) open_loop.simps) (auto simp: Let_def k_def [symmetric] split: prod.splits sum.splits if_splits)
      then obtain first rs s1 where dec: "decode_wal_body body = Inr (first, rs)" "replay first rs s = Inr s1"
          and rest: "open_loop env crc replay len (pos + HEADER_BYTES + k) f2 s1 = (Inr r, f')"
        using 1(2) True h good fits
        by (subst (asm) open_loop.simps) (auto simp: Let_def k_def [symmetric] split: prod.splits sum.splits if_splits)
      have "synced f2 = content f2" using file_read_exact_same [OF body(1)] f1 by simp
      then show ?thesis
        using 1(1) [OF _ _ h [symmetric] refl refl refl refl refl] True good fits body dec rest
        by (simp add: k_def)
    qed
  qed
qed

lemma wal_open_settled:
  assumes "wal_open env crc max_bytes replay directory dirs file s = (Inr (w, s'), dirs', file')" and "settled file"
  shows "synced (wal_handle w) = content (wal_handle w) \<and> wal_max_bytes w = max_bytes"
proof -
  let ?f = "case file of None \<Rightarrow> \<lparr>content = [], synced = [], cursor = 0\<rparr> | Some f \<Rightarrow> f\<lparr>cursor := 0\<rparr>"
  have f: "synced ?f = content ?f" using assms(2) by (cases "file") (simp_all add: settled_def)
  show ?thesis
  proof (cases "content ?f = []")
    case True
    then show ?thesis
      using assms(1)
      by (cases "file")
        (auto simp: wal_open_def Let_def file_write_all_def file_sync_all_def file_read_exact_def syscall_def and_then_def
          split: prod.splits sum.splits option.splits if_splits)
  next
    case False
    then show ?thesis
      using assms(1) f
      by (cases "file")
        (auto simp: wal_open_def Let_def syscall_def and_then_def dest!: file_read_exact_same dest: open_loop_settled
          split: prod.splits sum.splits option.splits if_splits)
  qed
qed

text \<open>Under any outcomes of the system calls, an empty file that is opened holds no batch.\<close>

lemma wal_open_empty:
  assumes "wal_open env crc max_bytes replay directory dirs file s = (Inr (w, s'), dirs', file')"
    and "case file of None \<Rightarrow> True | Some f \<Rightarrow> content f = []" and "8 \<le> unat max_bytes"
  shows "wal_ok crc w []"
  using assms
  by (cases "file")
    (auto simp: wal_open_def Let_def file_write_all_def file_sync_all_def file_read_exact_def overwrite_def syscall_def
      and_then_def wal_ok_def wal_layout_def word_le_nat_alt MAGIC_def str_def split: prod.splits sum.splits option.splits if_splits)

lemma store_disk_settled:
  assumes run: "store_disk env crc now directory dirs file max_retained max_wal = (Inr s, dirs', file')"
    and set: "settled file" and max: "8 \<le> unat max_wal"
  shows "store_ok s" "disk_state crc s None" "st_max_retained_bytes s = max_retained" "st_max_wal_bytes s = max_wal"
proof -
  let ?s0 = "store_memory now max_retained max_wal"
  from run obtain w s1 where opened: "wal_open env crc max_wal store_replay directory dirs file ?s0 = (Inr (w, s1), dirs', file')"
    and s: "s = s1\<lparr>st_wal := Some w\<rparr>"
    by (auto simp: store_disk_def split: prod.splits sum.splits)
  note w = wal_open_settled [OF opened set]
  show ok: "store_ok s" by (rule store_disk_ok [OF run])
  have "disk_state crc s None \<and> st_max_retained_bytes s = max_retained \<and> st_max_wal_bytes s = max_wal"
  proof (cases "case file of None \<Rightarrow> True | Some f \<Rightarrow> content f = []")
    case True
    have "s1 = ?s0" by (rule wal_open_fresh_state [OF opened True])
    then show ?thesis
      using w wal_open_empty [OF opened True max]
      by (auto simp: s disk_state_def store_memory_def history_def wal_ok_def intro!: exI [of _ "[]"])
  next
    case False
    then obtain f where f: "file = Some f" "content f \<noteq> []" by (auto split: option.splits)
    from store_disk_sound [OF run [unfolded f(1)] f(2)] obtain bs where
      b: "\<not> poisoned s" "st_max_retained_bytes s = max_retained" "numbered 0 bs" "history s = batch_records bs" "wal_ok crc w bs"
      by (auto simp: s)
    from wal_open_sound [OF opened [unfolded f(1)] f(2)] obtain bs' where bs': "replay_all store_replay bs' ?s0 = Inr s1" "wal_ok crc w bs'"
      by blast
    then have "list_all batch_fits bs'" by (simp add: wal_ok_def)
    then have "st_max_wal_bytes s1 = max_wal"
      using bs'(1) by (simp add: store_replay_all store_memory_ok) (simp add: store_memory_def)
    then show ?thesis using b w by (auto simp: s disk_state_def wal_ok_def)
  qed
  then show "disk_state crc s None" "st_max_retained_bytes s = max_retained" "st_max_wal_bytes s = max_wal" by simp_all
qed

section \<open>A run of publishes, and a loss of power\<close>

lemma publish_all_restart:
  assumes opened: "store_disk env crc now directory dirs file max_retained max_wal = (Inr s0, dirs0, file0)"
    and set: "settled file" and max: "8 \<le> unat max_wal" and ops: "\<forall>op\<in>set ops. publishable (snd op)"
    and run: "publish_all crc ops s0 = (results, s)"
  shows "\<exists>w s1 dirs1 file1. st_wal s = Some w
    \<and> store_disk no_faults crc later directory' dirs' (Some (crash k (wal_handle w))) max_retained max_wal
        = (Inr s1, dirs1, file1)
    \<and> (history s1 = history s0 @ acknowledged ops results
       \<or> (\<exists>i<length ops. (\<exists>e. results ! i = Inl e) \<and> history s1 = history s0 @ acknowledged ops results @ snd (ops ! i)))"
proof -
  note s0 = store_disk_settled [OF opened set max]
  from publish_all_disk [OF s0(2,1) ops run] s0 obtain unc where s: "store_ok s" "history s = history s0 @ acknowledged ops results"
    "st_max_retained_bytes s = max_retained" "st_max_wal_bytes s = max_wal" "disk_state crc s unc"
    "unc = None \<or> (\<exists>i<length ops. unc = Some (snd (ops ! i)) \<and> (\<exists>e. results ! i = Inl e))" by auto
  from s(5) obtain w where w: "st_wal s = Some w" by (auto simp: disk_state_def)
  obtain s1 dirs1 file1 where again: "store_disk no_faults crc later directory' dirs' (Some (crash k (wal_handle w)))
      max_retained max_wal = (Inr s1, dirs1, Some file1)"
    "history s1 = history s \<or> (\<exists>rs. unc = Some rs \<and> history s1 = history s @ rs)"
    using store_restart [OF s(1,5) w, of later directory' dirs' k] s(3,4) by auto
  from again(2) s(2,6) have "history s1 = history s0 @ acknowledged ops results
      \<or> (\<exists>i<length ops. (\<exists>e. results ! i = Inl e) \<and> history s1 = history s0 @ acknowledged ops results @ snd (ops ! i))"
    by auto
  with w again(1) show ?thesis by blast
qed

end
