(* ===== verification/Wal_Properties.thy ===== *)
theory Wal_Properties
  imports Wal_Recovery
begin

text \<open>
  The properties of the write-ahead log: recovery is complete and sound, a refused file is not
  touched, a damaged batch is detected, and the three outcomes of an append. The witnesses run
  the model on a log of one batch, with a sum of the bytes as the checksum.
\<close>

section \<open>A concrete log for the witnesses\<close>

definition sample_record :: log_record where
  "sample_record = \<lparr>rec_topic = str ''a'', rec_key = [], rec_payload = [7]\<rparr>"

definition sample_crc :: "bytes \<Rightarrow> u32" where
  "sample_crc bs = sum_list (map ucast bs)"

lemma sample_record_ok: "record_ok sample_record"
  by (simp add: record_ok_def sample_record_def valid_topic_def str_def topic_byte_def
      is_ascii_alphanumeric_def utf8_valid.simps MAX_PAYLOAD_def)

lemma sample_batch_ok: "batch_ok [sample_record]"
  using sample_record_ok by (simp add: batch_ok_def MAX_BATCH_def)

lemma sample_encoded: "encode_records [sample_record] = [0, 1, 0, 1, 97, 0, 0, 0, 0, 0, 1, 7]"
  by (simp add: encode_records_def encode_record_def put_string_def sample_record_def str_def Let_def
      to_be_bytes_def codec_simps numeral_2_eq_2)

lemma sample_fits: "batch_fits (n, [sample_record])"
  using sample_batch_ok by (simp add: batch_fits_def sample_encoded MAX_FRAME_def)

section \<open>Damage\<close>

lemma wal_open_corrupt:
  assumes "list_all batch_fits bs"
    and f: "content f = wal_layout crc bs @ wal_header crc body @ body' @ rest"
    and max: "length (content f) \<le> unat max_bytes" and same: "length body' = length body"
    and size: "19 \<le> length body" "length body \<le> MAX_FRAME + 3" and bad: "crc body' \<noteq> crc body"
    and replay: "replay_all replay bs s = Inr s'"
  shows "\<exists>dirs' f'. wal_open no_faults crc max_bytes replay directory dirs (Some f) s
    = (Inl (batch_mismatch (length (wal_layout crc bs))), dirs', Some f')
    \<and> content f' = content f \<and> synced f' = synced f"
proof -
  obtain dirs1 where dirs: "ensure_directory no_faults directory dirs = (Inr (), dirs1)"
    using ensure_directory_no_faults by blast
  let ?f = "f\<lparr>cursor := 8\<rparr>" and ?len = "length (content f)"
  have head: "take 8 (content f) = MAGIC" and ge: "8 \<le> ?len" and ne: "content f \<noteq> []"
    by (simp_all add: f wal_layout_def) (simp add: MAGIC_def str_def)
  have magic: "file_read_exact no_faults ReadMagic 8 (f\<lparr>cursor := 0\<rparr>) = (Inr MAGIC, ?f)"
    using ge head by (simp add: file_read_exact_no_faults)
  have "content ?f = MAGIC @ concat (map (wal_frame crc) bs) @ wal_header crc body @ body' @ rest"
    by (simp add: f wal_layout_def)
  from open_loop_corrupt_body [OF assms(1) this _ _ same size bad replay, of ?len] obtain f' where
    loop: "open_loop no_faults crc replay ?len 8 ?f s = (Inl (batch_mismatch (length (wal_layout crc bs))), f')"
    by (auto simp: wal_layout_def)
  from open_loop_refuses [OF loop] have "content f' = content f \<and> synced f' = synced f" by simp
  moreover have "wal_open no_faults crc max_bytes replay directory dirs (Some f) s
      = (Inl (batch_mismatch (length (wal_layout crc bs))), dirs1, Some f')"
    using max ne by (simp add: wal_open_def dirs Let_def magic loop)
  ultimately show ?thesis by blast
qed

section \<open>Two limits of recovery\<close>

text \<open>
  A whole log is replayed as it is read, and what was not synchronized stays so: a batch whose
  \<open>sync_all\<close> failed is served after a restart, and a loss of power can still remove it until the
  next append synchronizes the file.
\<close>

lemma recovery_leaves_unsynced:
  assumes "list_all batch_fits bs" and "content f = wal_layout crc bs" and "length (content f) \<le> unat max_bytes"
    and "replay_all replay bs s = Inr s'"
  shows "\<exists>dirs' w. wal_open no_faults crc max_bytes replay directory dirs (Some f) s = (Inr (w, s'), dirs', Some (wal_handle w))
    \<and> synced (wal_handle w) = synced f"
  using wal_open_layout [OF assms(1), where tail = "[]" and crc = crc and f = f and replay = replay and s = s
      and max_bytes = max_bytes and directory = directory and dirs = dirs] assms(2-4) by auto

text \<open>A file that holds part of the magic number, as an interrupted creation leaves it, is refused.\<close>

lemma partial_magic_refused:
  assumes "content f = take k MAGIC" and "0 < k" and "k < 8" and "8 \<le> unat max_bytes"
  shows "\<exists>dirs' f'. wal_open no_faults crc max_bytes replay directory dirs (Some f) s
    = (Inl (error_new STORAGE (str ''incomplete WAL file header'')), dirs', Some f') \<and> content f' = content f"
proof -
  obtain dirs' where dirs: "ensure_directory no_faults directory dirs = (Inr (), dirs')"
    using ensure_directory_no_faults by blast
  have n: "length (content f) = k" using assms(1,3) by simp
  have "\<exists>e f1. file_read_exact no_faults ReadMagic 8 (f\<lparr>cursor := 0\<rparr>) = (Inl e, f1) \<and> content f1 = content f"
    using n assms(3) by (simp add: file_read_exact_def)
  then obtain e f1 where r: "file_read_exact no_faults ReadMagic 8 (f\<lparr>cursor := 0\<rparr>) = (Inl e, f1)" "content f1 = content f"
    by blast
  show ?thesis using n assms(2-4) r by (simp add: wal_open_def dirs Let_def)
qed

section \<open>Properties\<close>

text \<open>
  C18. Recovery is complete: a file that holds any sequence of well-formed batches, followed by
  nothing or by any torn tail, opens without error within its budget; exactly those batches are
  replayed, in order, and the file is left holding exactly their bytes.
\<close>

theorem wal_recovery_complete:
  assumes "list_all batch_fits bs" and "tail = [] \<or> torn crc tail"
    and "content f = wal_layout crc bs @ tail" and "length (content f) \<le> unat max_bytes"
    and "replay_all replay bs s = Inr s'"
  shows "\<exists>dirs' w. wal_open no_faults crc max_bytes replay directory dirs (Some f) s
        = (Inr (w, s'), dirs', Some (wal_handle w))
    \<and> content (wal_handle w) = wal_layout crc bs
    \<and> cursor (wal_handle w) = length (wal_layout crc bs)
    \<and> unat (wal_bytes w) = length (wal_layout crc bs) \<and> wal_bytes w \<le> wal_max_bytes w"
  using wal_open_layout [OF assms(1-4), where replay = replay and s = s and directory = directory and dirs = dirs] assms(5) by (auto simp: wal_ok_def)

lemma wal_recovery_complete_witness:
  "\<exists>dirs' w. wal_open no_faults sample_crc 1000 collect_batch [] {}
        (Some \<lparr>content = wal_layout sample_crc [(1, [sample_record])] @ [0, 0, 0], synced = [], cursor = 0\<rparr>) []
        = (Inr (w, [(1, [sample_record])]), dirs', Some (wal_handle w))
    \<and> content (wal_handle w) = wal_layout sample_crc [(1, [sample_record])]
    \<and> cursor (wal_handle w) = length (wal_layout sample_crc [(1, [sample_record])])
    \<and> unat (wal_bytes w) = length (wal_layout sample_crc [(1, [sample_record])])
    \<and> wal_bytes w \<le> wal_max_bytes w"
  by (rule wal_recovery_complete [where tail = "[0, 0, 0]"])
    (simp_all add: sample_fits torn_def HEADER_BYTES_def wal_layout_def sample_encoded replay_all_collect
      del: replay_all.simps)

text \<open>
  C26. Recovery is sound under every outcome of the system calls: when a nonempty file opens, it
  was a sequence of well-formed batches and at most a torn tail, the caller's state is the replay
  of exactly those batches, and only the tail was removed.
\<close>

theorem wal_recovery_sound:
  assumes "wal_open env crc max_bytes replay directory dirs (Some f) s = (Inr (w, s'), dirs', file')"
    and "content f \<noteq> []"
  shows "\<exists>bs tail. content f = wal_layout crc bs @ tail \<and> (tail = [] \<or> torn crc tail)
    \<and> list_all batch_fits bs \<and> replay_all replay bs s = Inr s'
    \<and> content (wal_handle w) = wal_layout crc bs \<and> file' = Some (wal_handle w)"
  using wal_open_sound [OF assms] by (auto simp: wal_ok_def)

lemma wal_recovery_sound_witness:
  "\<exists>bs tail w. MAGIC = wal_layout sample_crc bs @ tail \<and> (tail = [] \<or> torn sample_crc tail)
    \<and> list_all batch_fits bs \<and> replay_all collect_batch bs [] = Inr []
    \<and> content (wal_handle w) = wal_layout sample_crc bs"
proof -
  let ?f = "\<lparr>content = MAGIC, synced = MAGIC, cursor = 0\<rparr>"
  have "wal_open no_faults sample_crc 8 collect_batch [] {} (Some ?f) []
      = (Inr (\<lparr>wal_handle = \<lparr>content = MAGIC, synced = MAGIC, cursor = 8\<rparr>, wal_bytes = 8, wal_max_bytes = 8\<rparr>, []),
         {}, Some \<lparr>content = MAGIC, synced = MAGIC, cursor = 8\<rparr>)"
    by (simp add: wal_open_def file_read_exact_no_faults Let_def)
  from wal_recovery_sound [OF this] have "\<exists>bs tail. MAGIC = wal_layout sample_crc bs @ tail
      \<and> (tail = [] \<or> torn sample_crc tail) \<and> list_all batch_fits bs \<and> replay_all collect_batch bs [] = Inr []
      \<and> MAGIC = wal_layout sample_crc bs"
    by (simp add: length_greater_0_conv [symmetric] del: length_greater_0_conv)
  then show ?thesis by (metis wal.select_convs(1) wal_file.select_convs(1))
qed

text \<open>
  A file that recovery refuses (a bad header, a checksum that does not match, an invalid
  length, a batch the caller rejects) is left byte for byte as it was.
\<close>

theorem wal_refused_untouched:
  assumes "wal_open no_faults crc max_bytes replay directory dirs (Some f) s = (Inl e, dirs', file')"
    and "content f \<noteq> []"
  shows "\<exists>f'. file' = Some f' \<and> content f' = content f \<and> synced f' = synced f"
  by (rule wal_open_refuses [OF assms])

lemma wal_refused_untouched_witness:
  "\<exists>e f'. wal_open no_faults sample_crc 100 collect_batch [] {}
      (Some \<lparr>content = [1, 2, 3], synced = [], cursor = 0\<rparr>) [] = (Inl e, {}, Some f')
    \<and> content f' = [1, 2, 3]"
proof -
  let ?f = "\<lparr>content = [1, 2, 3], synced = [], cursor = 0\<rparr>"
  have run: "wal_open no_faults sample_crc 100 collect_batch [] {} (Some ?f) []
      = (Inl (error_new STORAGE (str ''incomplete WAL file header'')), {}, Some (?f\<lparr>cursor := 3\<rparr>))"
    by (simp add: wal_open_def file_read_exact_no_faults)
  from wal_refused_untouched [OF this] run show ?thesis by simp
qed

text \<open>
  C30. Damage to an acknowledged batch is detected: when the bytes of a batch's body differ from
  what was written and the checksum tells, opening fails with STORAGE at the position of that
  batch, even if intact batches follow, and no byte of the file is changed.
\<close>

theorem wal_damage_detected:
  assumes "list_all batch_fits (bs @ [(first, rs)])" and "length body' = length (wal_body first rs)"
    and "crc body' \<noteq> crc (wal_body first rs)"
    and "content f = wal_layout crc bs @ wal_header crc (wal_body first rs) @ body' @ rest"
    and "length (content f) \<le> unat max_bytes" and "replay_all replay bs s = Inr s'"
  shows "\<exists>dirs' f'. wal_open no_faults crc max_bytes replay directory dirs (Some f) s
    = (Inl (error_new STORAGE
        (str ''WAL batch checksum mismatch at byte '' @ decimal (length (wal_layout crc bs)))), dirs', Some f')
    \<and> content f' = content f"
proof -
  have "list_all batch_fits bs" and fits: "batch_fits (first, rs)" using assms(1) by simp_all
  from wal_open_corrupt [OF this(1) assms(4,5,2) batch_fits_length(1,2) [OF fits] assms(3,6), of directory dirs]
  show ?thesis by (auto simp: batch_mismatch_def)
qed

lemma wal_damage_detected_witness:
  "\<exists>dirs' f'. wal_open no_faults sample_crc 1000 collect_batch [] {}
      (Some \<lparr>content = wal_layout sample_crc [] @ wal_header sample_crc (wal_body 1 [sample_record])
         @ (to_be_bytes (1 :: u64) @ [0, 1, 0, 1, 97, 0, 0, 0, 0, 0, 1, 8]) @ [],
         synced = [], cursor = 0\<rparr>) []
    = (Inl (error_new STORAGE
        (str ''WAL batch checksum mismatch at byte '' @ decimal (length (wal_layout sample_crc [])))), dirs', Some f')
    \<and> content f' = wal_layout sample_crc [] @ wal_header sample_crc (wal_body 1 [sample_record])
         @ (to_be_bytes (1 :: u64) @ [0, 1, 0, 1, 97, 0, 0, 0, 0, 0, 1, 8])"
proof -
  let ?f = "\<lparr>content = wal_layout sample_crc [] @ wal_header sample_crc (wal_body 1 [sample_record])
         @ (to_be_bytes (1 :: u64) @ [0, 1, 0, 1, 97, 0, 0, 0, 0, 0, 1, 8]) @ [],
         synced = [], cursor = 0\<rparr>"
  have "\<exists>dirs' f'. wal_open no_faults sample_crc 1000 collect_batch [] {} (Some ?f) []
    = (Inl (error_new STORAGE
        (str ''WAL batch checksum mismatch at byte '' @ decimal (length (wal_layout sample_crc [])))), dirs', Some f')
    \<and> content f' = content ?f"
  proof (rule wal_damage_detected)
    show "sample_crc (to_be_bytes (1 :: u64) @ [0, 1, 0, 1, 97, 0, 0, 0, 0, 0, 1, 8])
        \<noteq> sample_crc (wal_body 1 [sample_record])"
      by (simp add: wal_body_def sample_encoded sample_crc_def to_be_bytes_def codec_simps)
  qed (simp_all add: sample_fits sample_encoded wal_layout_def HEADER_BYTES_def)
  then show ?thesis by simp
qed

text \<open>
  C29. The outcomes of an append to a log that holds \<open>bs\<close>. Success: the batch is at the end of the
  file and synchronized. A refusal for capacity: nothing is written. Any other failure: the file
  holds the old batches and a prefix of the new frame, and after a loss of power a restart
  recovers exactly the old batches or the old batches and the new one.
\<close>

theorem wal_append_outcomes:
  assumes "wal_durable crc w bs" and "batch_fits (first, rs)" and "wal_append env crc first rs w = (res, w')"
  shows "case res of
      Inr _ \<Rightarrow> wal_durable crc w' (bs @ [(first, rs)])
        \<and> (\<forall>bs'. wal_survives crc w' bs' \<longrightarrow> bs' = bs @ [(first, rs)])
    | Inl e \<Rightarrow> (e = error_new CAPACITY (str ''WAL capacity reached; batch was not written'') \<and> w' = w)
        \<or> ((\<exists>k. content (wal_handle w') = wal_layout crc bs @ take k (wal_frame crc (first, rs)))
           \<and> (\<forall>bs'. wal_survives crc w' bs' \<longrightarrow> bs' = bs \<or> bs' = bs @ [(first, rs)]))"
proof (cases res)
  case (Inr u)
  have "wal_durable crc w' (bs @ [(first, rs)])"
    using wal_log.append_Inr [OF assms(1,2)] assms(3) Inr by blast
  then show ?thesis using wal_log.holds_survives by (auto simp: Inr)
next
  case (Inl e)
  have ok: "wal_ok crc w bs" using assms(1) by (simp add: wal_durable_def)
  show ?thesis
    using wal_append_Inl [OF ok] wal_log.append_Inl [OF assms(1,2)] assms(3) Inl by auto
qed

lemma wal_append_outcomes_witness:
  "\<exists>w'. wal_append no_faults sample_crc 1 [sample_record]
       \<lparr>wal_handle = \<lparr>content = MAGIC, synced = MAGIC, cursor = 8\<rparr>, wal_bytes = 8, wal_max_bytes = 100\<rparr> = (Inr (), w')
     \<and> wal_durable sample_crc w' ([] @ [(1, [sample_record])])"
proof -
  let ?w = "\<lparr>wal_handle = \<lparr>content = MAGIC, synced = MAGIC, cursor = 8\<rparr>, wal_bytes = 8, wal_max_bytes = 100\<rparr>"
  have durable: "wal_durable sample_crc ?w []"
    by (simp add: wal_durable_def wal_ok_def wal_layout_def word_le_nat_alt)
  have "wal_check_capacity ?w [sample_record] = Inr ()"
    by (simp add: wal_check_capacity_def batch_bytes_def HEADER_BYTES_def wire_bytes_def sample_record_def
        str_def saturating_sub_def)
  then obtain w' where run: "wal_append no_faults sample_crc 1 [sample_record] ?w = (Inr (), w')"
    by (simp add: wal_append_def Let_def file_write_all_def file_sync_all_def)
  from wal_append_outcomes [OF durable sample_fits run] run show ?thesis by auto
qed

end
