(* ===== verification/Store_Properties.thy ===== *)
theory Store_Properties
  imports Store_Settled Wal_Properties
begin

text \<open>
  The properties of the event store: publishing is atomic and accounted for exactly, recovery
  restores the acknowledged history, and fetching implements its specification, stays within its
  budgets, makes progress and loses nothing.
\<close>

section \<open>Concrete stores for the witnesses\<close>

definition sample_store :: store where
  "sample_store = with_history [sample_record] (store_memory 0 1000 1000)"

definition sample_fetch :: fetch_request where
  "sample_fetch = \<lparr>fetch_topic = str ''*'', fetch_after = 0, fetch_limit = 10, fetch_max_bytes = 100,
                   fetch_latest = True\<rparr>"

lemma sample_cost: "total_cost [sample_record] = 259"
  by (simp add: record_cost_def sample_record_def str_def)

lemma sample_store_ok: "store_ok sample_store"
  unfolding sample_store_def
  by (rule store_ok_with_history [OF store_memory_ok])
    (simp_all only: sample_cost, simp_all add: sample_record_ok store_memory_def)

lemma sample_store_sel:
  "events sample_store = [\<lparr>ev_sequence = 1, ev_record = sample_record\<rparr>]" "history sample_store = [sample_record]"
  "last_sequence sample_store = 1" "\<not> poisoned sample_store"
  by (simp_all add: sample_store_def stamp_def) (simp add: store_memory_def)

lemma sample_publishable: "publishable [sample_record]"
  using sample_fits by (simp add: batch_fits_def publishable_def)

section \<open>Publishing\<close>

text \<open>
  C27. The accounting invariant: in every store reachable by opening, publishing and fetching,
  whatever system calls fail, the events carry the sequence numbers 1, 2, 3, ... without a gap,
  the retained-byte counter is exactly the sum of the records' costs, and it never exceeds the
  configured budget.
\<close>

theorem store_accounting:
  assumes "store_reachable crc s"
  shows "(\<forall>i<length (events s). unat (ev_sequence (events s ! i)) = Suc i)
    \<and> unat (last_sequence s) = length (events s)
    \<and> unat (st_retained_bytes s) = (\<Sum>ev\<leftarrow>events s. record_cost (ev_record ev))
    \<and> st_retained_bytes s \<le> st_max_retained_bytes s"
proof -
  have ok: "store_ok s" using assms by (rule store_reachable_ok)
  then show ?thesis
    using store_ok_numbers store_ok_last_sequence store_ok_retained
    by (simp add: total_cost_def history_def o_def)
qed

lemma store_accounting_witness:
  "unat (last_sequence (store_memory 0 1000 1000)) = length (events (store_memory 0 1000 1000))
    \<and> st_retained_bytes (store_memory 0 1000 1000) \<le> st_max_retained_bytes (store_memory 0 1000 1000)"
  using store_accounting [OF store_reachable.memory] by blast

text \<open>
  C28. A publish is all or nothing. On success the whole batch is appended with the next sequence
  numbers and the reply is the receipt with the first and last number, the count and the
  durability flag; on any error, a failing disk included, the history is unchanged.
\<close>

theorem publish_atomic:
  assumes "store_ok s" and "batch_ok rs" and "publish env crc rs s = (res, s')"
  shows "case res of
      Inl e \<Rightarrow> events s' = events s \<and> st_retained_bytes s' = st_retained_bytes s
    | Inr reply \<Rightarrow> events s' = events s @ stamp (last_sequence s + 1) rs
        \<and> unat (st_retained_bytes s') = unat (st_retained_bytes s) + total_cost rs
        \<and> reply = to_be_bytes (last_sequence s + 1) @ to_be_bytes (last_sequence s') @ to_be_bytes (of_nat (length rs) :: u16)
            @ [if st_wal s = None then 0 else 1]"
proof -
  have ok': "store_ok s'" using publish_store_ok [OF assms] .
  have ev: "events s = stamp 1 (history s)" using assms(1) by (simp add: store_ok_fields)
  have len: "of_nat (length (history s)) = last_sequence s" by (simp add: last_sequence_history)
  have "length rs < 2 ^ 16" using assms(2) by (simp add: batch_ok_def MAX_BATCH_def)
  then have count: "ucast (of_nat (length rs) :: u64) = (of_nat (length rs) :: u16)"
    by (simp add: unsigned_of_nat take_bit_nat_eq_self)
  have grown: ?thesis if "events s' = stamp 1 (history s @ rs)" "history s' = history s @ rs"
    "res = Inr (publish_receipt s rs)"
  proof -
    have "last_sequence s' = last_sequence s + of_nat (length rs)" using that by (simp add: last_sequence_history)
    then show ?thesis
      using that store_ok_retained(1) [OF ok'] store_ok_retained(1) [OF assms(1)]
      by (simp add: publish_receipt_def receipt_def count ev stamp_append len add.commute)
  qed
  show ?thesis
    using assms
  proof (cases rule: publish_cases)
    case memory
    then show ?thesis by (intro grown) (simp_all add: published_def history_def)
  next
    case (durable w w')
    then show ?thesis by (intro grown) (simp_all add: published_def history_def)
  qed simp_all
qed

lemma publish_atomic_witness:
  "\<exists>reply s'. publish no_faults sample_crc [sample_record] sample_store = (Inr reply, s')
     \<and> events s' = events sample_store @ stamp 2 [sample_record]"
proof -
  have "st_wal sample_store = None" "total_cost (history sample_store @ [sample_record]) \<le> unat (st_max_retained_bytes sample_store)"
    using sample_cost by (simp_all add: sample_store_def store_memory_def)
  with publish_eq [OF sample_store_ok sample_batch_ok sample_store_sel(4), of no_faults sample_crc]
  have "publish no_faults sample_crc [sample_record] sample_store
      = (Inr (publish_receipt sample_store [sample_record]), published sample_store [sample_record])" by simp
  from publish_atomic [OF sample_store_ok sample_batch_ok this] this show ?thesis by (simp add: sample_store_sel(3))
qed

text \<open>
  A publish is refused for want of space exactly when the history would exceed its budget,
  and a full store accepts no write and loses nothing: the capacity test involves no wrap-around.
\<close>

theorem publish_memory_capacity:
  assumes "store_ok s" and "batch_ok rs" and "\<not> poisoned s" and "st_wal s = None"
  shows "publish env crc rs s =
    (if unat (st_retained_bytes s) + total_cost rs \<le> unat (st_max_retained_bytes s)
     then (Inr (publish_receipt s rs), published s rs)
     else (Inl (error_new CAPACITY (str ''retained history capacity reached; batch was not written'')), s))"
  using publish_eq [OF assms(1-3), of env crc] publish_full [OF assms(1-3), of env crc] assms(4)
    store_ok_retained(1) [OF assms(1)] by auto

lemma publish_memory_capacity_witness:
  "publish no_faults sample_crc [sample_record] (store_memory 0 200 0)
    = (Inl (error_new CAPACITY (str ''retained history capacity reached; batch was not written'')), store_memory 0 200 0)"
  using publish_memory_capacity [OF store_memory_ok sample_batch_ok, of 0 200 0 no_faults sample_crc] sample_cost
  by (simp add: store_memory_def del: total_cost_simps)

text \<open>
  C10. Acknowledged publishes survive. Open the store on a new data directory, or on a log that is on
  stable storage (the disk has all that the file shows, as after a loss of power), publish any batches,
  all of it under any outcomes of the system calls, lose power at any moment (any prefix of the
  unsynchronized bytes reaches the disk) and restart with system calls that work: opening succeeds and
  the history is exactly what the store had been opened with and the records of the acknowledged
  batches, in order, possibly followed by the batch of one publish that returned an error. Nothing
  acknowledged is lost and nothing else appears. Without the condition on the file it does not hold: a
  log whose last append failed to synchronize is served as it is read.
\<close>

theorem acknowledged_survives:
  assumes "store_disk env crc now directory dirs file max_retained max_wal = (Inr s0, dirs0, file0)"
    and "case file of None \<Rightarrow> True | Some f \<Rightarrow> synced f = content f"
    and "8 \<le> unat max_wal" and "\<forall>op\<in>set ops. publishable (snd op)"
    and "publish_all crc ops s0 = (results, s)"
  shows "\<exists>w s1 dirs1 file1. st_wal s = Some w
    \<and> store_disk no_faults crc later directory' dirs' (Some (crash k (wal_handle w))) max_retained max_wal
        = (Inr s1, dirs1, file1)
    \<and> (history s1 = history s0 @ acknowledged ops results
       \<or> (\<exists>i<length ops. (\<exists>e. results ! i = Inl e) \<and> history s1 = history s0 @ acknowledged ops results @ snd (ops ! i)))"
  using publish_all_restart [OF assms(1) _ assms(3-5)] assms(2) unfolding settled_def by blast

text \<open>The witness: a publish, a loss of power, and another publish on what is left.\<close>

lemma acknowledged_survives_witness:
  "\<exists>s0 dirs0 f0 results s w s1 dirs1 f1 results1 s2 w2 s3 dirs3 file3.
    store_disk no_faults sample_crc 0 [] {} None 1000 1000 = (Inr s0, dirs0, Some f0)
    \<and> publish_all sample_crc [(no_faults, [sample_record])] s0 = (results, s) \<and> st_wal s = Some w
    \<and> store_disk no_faults sample_crc 0 [] {} (Some (crash 5 (wal_handle w))) 1000 1000 = (Inr s1, dirs1, f1)
    \<and> publish_all sample_crc [(no_faults, [sample_record])] s1 = (results1, s2) \<and> st_wal s2 = Some w2
    \<and> store_disk no_faults sample_crc 0 [] {} (Some (crash 5 (wal_handle w2))) 1000 1000 = (Inr s3, dirs3, file3)"
proof -
  obtain s0 dirs0 f0 where s0: "store_disk no_faults sample_crc 0 [] {} None 1000 1000 = (Inr s0, dirs0, Some f0)"
    using store_disk_fresh [of 1000 None sample_crc 0 "[]" "{}" 1000] by auto
  have fits: "\<forall>op\<in>set [(no_faults, [sample_record])]. publishable (snd op)" using sample_publishable by simp
  obtain results s where run: "publish_all sample_crc [(no_faults, [sample_record])] s0 = (results, s)" by fastforce
  from acknowledged_survives [OF s0 _ _ fits run, of 0 "[]" "{}" 5] obtain w s1 dirs1 f1 where
    s1: "st_wal s = Some w" "store_disk no_faults sample_crc 0 [] {} (Some (crash 5 (wal_handle w))) 1000 1000 = (Inr s1, dirs1, f1)"
    by auto
  obtain results1 s2 where run1: "publish_all sample_crc [(no_faults, [sample_record])] s1 = (results1, s2)" by fastforce
  have "synced (crash 5 (wal_handle w)) = content (crash 5 (wal_handle w))" by (simp add: crash_def Let_def)
  with acknowledged_survives [OF s1(2) _ _ fits run1, of 0 "[]" "{}" 5] obtain w2 s3 dirs3 file3 where
    "st_wal s2 = Some w2" "store_disk no_faults sample_crc 0 [] {} (Some (crash 5 (wal_handle w2))) 1000 1000 = (Inr s3, dirs3, file3)"
    by auto
  then show ?thesis using s0 run s1 run1 by blast
qed

text \<open>
  C31. A failed write or synchronization poisons the store: the publish reports the error, the
  history served to readers stays as it was, and every later publish is refused with STORAGE
  and changes nothing, so that no batch is ever written after an uncertain one.
\<close>

theorem failed_append_poisons:
  assumes "store_ok s" and "batch_ok rs" and "batch_ok rs'" and "\<not> poisoned s" and "st_wal s = Some w"
    and "wal_check_capacity w rs = Inr ()" and "wal_append env crc (last_sequence s + 1) rs w = (Inl e, w')"
    and "total_cost (history s @ rs) \<le> unat (st_max_retained_bytes s)"
  shows "\<exists>s'. publish env crc rs s = (Inl e, s') \<and> events s' = events s \<and> st_wal s' = Some w'
    \<and> publish env' crc rs' s' =
        (Inl (error_new STORAGE (str ''store is read-only after uncertain disk I/O; restart required'')), s')"
  using publish_eq [OF assms(1,2,4,8), of env crc] assms(5-7) by (simp add: publish_poisoned)

definition failing_disk :: io_env where
  "failing_disk = \<lparr>fault = (\<lambda>c. if c = SyncFrame then Some [] else None), short_write = 0, raced = (\<lambda>_. False)\<rparr>"

definition sample_wal :: wal where
  "sample_wal = \<lparr>wal_handle = \<lparr>content = MAGIC, synced = MAGIC, cursor = 8\<rparr>, wal_bytes = 8, wal_max_bytes = 100\<rparr>"

lemma failed_append_poisons_witness:
  "\<exists>e s'. publish failing_disk sample_crc [sample_record]
      ((store_memory 0 1000 100)\<lparr>st_wal := Some sample_wal\<rparr>) = (Inl e, s')
    \<and> publish no_faults sample_crc [sample_record] s' =
        (Inl (error_new STORAGE (str ''store is read-only after uncertain disk I/O; restart required'')), s')"
proof -
  let ?s = "(store_memory 0 1000 100)\<lparr>st_wal := Some sample_wal\<rparr>"
  have ok: "store_ok ?s" by (rule store_ok_cong [OF store_memory_ok]) simp_all
  have cap: "wal_check_capacity sample_wal [sample_record] = Inr ()"
    by (simp add: wal_check_capacity_def sample_wal_def batch_bytes_def HEADER_BYTES_def wire_bytes_def
        sample_record_def str_def saturating_sub_def)
  obtain w' where app: "wal_append failing_disk sample_crc (last_sequence ?s + 1) [sample_record] sample_wal
      = (Inl (storage []), w')"
    by (simp add: wal_append_def cap Let_def file_write_all_def file_sync_all_def syscall_def failing_disk_def)
  have "total_cost (history ?s @ [sample_record]) \<le> unat (st_max_retained_bytes ?s)" "\<not> poisoned ?s"
    using sample_cost by (simp_all add: store_memory_def history_def)
  from failed_append_poisons [OF ok sample_batch_ok sample_batch_ok this(2) _ cap app this(1), of no_faults]
  show ?thesis by auto
qed

section \<open>Recovery\<close>

text \<open>
  Whatever the system calls do, a store that opens on an existing file holds exactly the
  records of the batches in the file, and those batches are numbered 1, 2, 3, ... without a gap:
  a log with a gap, an overlap or more history than the budget is never served.
\<close>

theorem store_recovery_sound:
  assumes "store_disk env crc now directory dirs (Some f) max_retained max_wal = (Inr s, dirs', file')"
    and "content f \<noteq> []"
  shows "\<exists>bs tail. content f = wal_layout crc bs @ tail \<and> (tail = [] \<or> torn crc tail) \<and> numbered 0 bs
    \<and> events s = stamp 1 (batch_records bs) \<and> total_cost (batch_records bs) \<le> unat max_retained \<and> \<not> poisoned s"
proof -
  from store_disk_sound [OF assms] obtain bs tail where bs: "store_ok s" "\<not> poisoned s"
    "content f = wal_layout crc bs @ tail" "tail = [] \<or> torn crc tail" "numbered 0 bs" "history s = batch_records bs"
    "st_max_retained_bytes s = max_retained" by blast
  then show ?thesis by (auto simp: store_ok_fields)
qed

lemma store_recovery_sound_witness:
  "\<exists>s dirs' file' bs tail.
    store_disk no_faults sample_crc 0 [] {} (Some \<lparr>content = wal_layout sample_crc [(1, [sample_record])] @ [9],
      synced = [], cursor = 0\<rparr>) 1000 1000 = (Inr s, dirs', file')
    \<and> wal_layout sample_crc [(1, [sample_record])] @ [9] = wal_layout sample_crc bs @ tail
    \<and> events s = stamp 1 (batch_records bs)"
proof -
  let ?f = "\<lparr>content = wal_layout sample_crc [(1, [sample_record])] @ [9], synced = [], cursor = 0\<rparr>"
  have "\<exists>s' dirs' f'. store_disk no_faults sample_crc 0 [] {} (Some ?f) 1000 1000 = (Inr s', dirs', Some f')
    \<and> store_ok s' \<and> disk_state sample_crc s' None \<and> history s' = batch_records [(1, [sample_record])]
    \<and> st_max_retained_bytes s' = 1000 \<and> st_max_wal_bytes s' = 1000"
    by (rule store_disk_layout [where tail = "[9]"])
      (use sample_fits sample_cost in \<open>simp_all add: torn_def HEADER_BYTES_def wal_layout_def sample_encoded
        del: total_cost_simps(2)\<close>)
  then obtain s dirs' f' where run: "store_disk no_faults sample_crc 0 [] {} (Some ?f) 1000 1000 = (Inr s, dirs', Some f')"
    by blast
  from store_recovery_sound [OF this] run show ?thesis by auto
qed

section \<open>Fetching\<close>

text \<open>
  C5. The optimised scan (one pass, a position map, replacement in place, a running byte count and
  a final sort) computes exactly the specification, never indexes out of range and never
  underflows: the answer is determined by the events after the cursor alone, and only the
  counters of the store change.
\<close>

theorem fetch_implements_spec:
  assumes "store_ok s" and "0 < fetch_limit rq"
  shows "\<exists>s'. fetch rq s = Some (fetch_spec rq s, s') \<and> events s' = events s \<and> st_wal s' = st_wal s
    \<and> st_retained_bytes s' = st_retained_bytes s \<and> poisoned s' = poisoned s"
proof -
  obtain n m where run: "fetch rq s = Some (fetch_spec rq s, case fetch_spec rq s of Inl _ \<Rightarrow> s | Inr _ \<Rightarrow> fetched s n m)"
    using fetch_eq [OF assms] by blast
  then show ?thesis by (cases "fetch_spec rq s") auto
qed

lemma fetch_implements_spec_witness:
  "\<exists>s'. fetch sample_fetch sample_store = Some (fetch_spec sample_fetch sample_store, s')"
  using fetch_implements_spec [OF sample_store_ok, of sample_fetch] by (auto simp: sample_fetch_def)

text \<open>
  C33. A page obeys its budgets: at most \<open>limit\<close> events and \<open>maxBytes\<close> wire bytes, taken from at most
  4096 scanned events, in strictly increasing order of sequence number, and the encoded reply is
  at most eleven bytes longer than \<open>maxBytes\<close>, so that every page fits a frame.
\<close>

theorem fetch_page_bounds:
  assumes "store_ok s" and "0 < fetch_limit rq" and "fetch rq s = Some (Inr fr, s')"
  shows "length (fr_events fr) \<le> fetch_limit rq
    \<and> (\<Sum>ev\<leftarrow>fr_events fr. wire_bytes (ev_record ev)) \<le> fetch_max_bytes rq
    \<and> unat (fr_cursor fr) \<le> unat (fetch_after rq) + MAX_SCAN
    \<and> sorted_wrt (\<lambda>x y. ev_sequence x < ev_sequence y) (fr_events fr)
    \<and> length (fetch_result_encode fr) \<le> 11 + fetch_max_bytes rq"
proof -
  have spec: "fetch_spec rq s = Inr fr" using fetch_some [OF assms] by simp
  obtain seen rest where page: "seen @ rest = window rq s" "seen = scanned rq [] (window rq s)"
    "fr_events fr = visible rq seen" "unat (fr_cursor fr) = unat (fetch_after rq) + length seen"
    using fetch_spec_Inr [OF assms(1) spec] by metis
  have fits: "fits_budget rq seen" unfolding page(2) by (rule scanned_fits) simp
  have inc: "increasing (window rq s)"
    unfolding window_def by (rule increasing_take_drop [OF increasing_events [OF assms(1)]])
  then have "increasing seen" unfolding increasing_def page(1) [symmetric] by (simp add: sorted_wrt_append)
  then have "increasing (fr_events fr)" unfolding page(3) by (rule increasing_visible)
  moreover have "length seen \<le> length (window rq s)" using page(1) by (metis le_add1 length_append)
  moreover have "length (window rq s) \<le> MAX_SCAN" by (simp add: window_def)
  moreover have bytes: "total_bytes (fr_events fr) \<le> fetch_max_bytes rq" using fits by (simp add: fits_budget_def page(3))
  moreover have "length (fetch_result_encode fr) = 11 + total_bytes (fr_events fr)"
    by (simp add: fetch_result_encode_length)
  ultimately show ?thesis
    using fits page(3,4)
    by (simp add: fits_budget_def total_bytes_def event_bytes_def [abs_def] increasing_def)
qed

lemma sample_page:
  "fetch sample_fetch sample_store = Some (Inr \<lparr>fr_cursor = 1, fr_events = events sample_store, fr_has_more = False\<rparr>,
     fetched sample_store 1 0)"
  by (simp add: fetch_def sample_store_sel sample_fetch_def MAX_SCAN_def Let_def topic_matches_def coalesces_def
      event_bytes_def wire_bytes_def sample_record_def str_def fetched_def)

lemma fetch_page_bounds_witness:
  "length (fetch_result_encode \<lparr>fr_cursor = 1, fr_events = events sample_store, fr_has_more = False\<rparr>)
    \<le> 11 + fetch_max_bytes sample_fetch"
  using fetch_page_bounds [OF sample_store_ok _ sample_page] by (simp add: sample_fetch_def)

text \<open>
  C32. A page loses nothing and invents nothing: every event it returns is an event of the log
  between the request's cursor and the returned cursor whose topic matches, and every matching
  event of that range is returned unless the request asked for the latest and the page holds a
  later event of the same topic and nonempty key.
\<close>

theorem fetch_page_complete:
  assumes "store_ok s" and "0 < fetch_limit rq" and "fetch rq s = Some (Inr fr, s')"
  shows "(\<forall>ev\<in>set (fr_events fr). ev \<in> set (events s) \<and> topic_matches rq ev
        \<and> fetch_after rq < ev_sequence ev \<and> ev_sequence ev \<le> fr_cursor fr)
    \<and> (\<forall>ev\<in>set (events s). topic_matches rq ev \<and> fetch_after rq < ev_sequence ev \<and> ev_sequence ev \<le> fr_cursor fr \<longrightarrow>
        ev \<in> set (fr_events fr) \<or>
        (fetch_latest rq \<and> rec_key (ev_record ev) \<noteq> []
         \<and> (\<exists>x\<in>set (fr_events fr). event_key x = event_key ev \<and> ev_sequence ev < ev_sequence x)))"
proof -
  have spec: "fetch_spec rq s = Inr fr" using fetch_some [OF assms] by simp
  obtain seen where page: "fr_events fr = visible rq seen" "increasing seen"
    "\<And>ev. ev \<in> set seen \<longleftrightarrow> ev \<in> set (events s) \<and> fetch_after rq < ev_sequence ev \<and> ev_sequence ev \<le> fr_cursor fr"
    using fetch_spec_range [OF assms(1) spec] by metis
  show ?thesis
    using page(3) visible_set visible_or_superseded [OF page(2)] unfolding page(1) coalesces_def by metis
qed

lemma fetch_page_complete_witness:
  "topic_matches sample_fetch \<lparr>ev_sequence = 1, ev_record = sample_record\<rparr>
    \<and> (1 :: u64) \<le> fr_cursor \<lparr>fr_cursor = 1, fr_events = events sample_store, fr_has_more = False\<rparr>"
  using fetch_page_complete [OF sample_store_ok _ sample_page] by (simp add: sample_fetch_def sample_store_sel)

text \<open>
  A reader is never stuck: while its cursor is behind the log, a fetch moves the cursor
  forward, or answers LIMIT because the first matching event after the cursor is on its own
  larger than the byte budget of the request. \<open>has_more\<close> says exactly whether the returned cursor is still
  behind the log, and only a cursor beyond the log is refused with CURSOR.
\<close>

theorem fetch_progress:
  assumes "store_ok s" and "0 < fetch_limit rq" and "fetch rq s = Some (ans, s')"
  shows "case ans of
      Inr fr \<Rightarrow> fetch_after rq \<le> last_sequence s \<and> (fetch_after rq < last_sequence s \<longrightarrow> fetch_after rq < fr_cursor fr)
        \<and> fr_cursor fr \<le> last_sequence s \<and> (fr_has_more fr \<longleftrightarrow> fr_cursor fr \<noteq> last_sequence s)
    | Inl e \<Rightarrow> (e = error_new CURSOR (str ''cursor is beyond this log's high-water mark'')
          \<and> last_sequence s < fetch_after rq)
        \<or> (e = error_new LIMIT (str ''first eligible event exceeds maxBytes; increase the fetch budget'')
          \<and> (\<exists>skipped ev rest. drop (unat (fetch_after rq)) (events s) = skipped @ ev # rest
              \<and> (\<forall>x\<in>set skipped. \<not> topic_matches rq x) \<and> topic_matches rq ev
              \<and> fetch_max_bytes rq < wire_bytes (ev_record ev)))"
proof (cases ans)
  case (Inr fr)
  then have spec: "fetch_spec rq s = Inr fr" using fetch_some [OF assms] by simp
  obtain seen rest where page: "fetch_after rq \<le> last_sequence s" "seen @ rest = window rq s" "unat (fr_cursor fr) = unat (fetch_after rq) + length seen"
    "fr_has_more fr \<longleftrightarrow> fr_cursor fr < last_sequence s" "unat (fetch_after rq) + length seen \<le> length (events s)"
    using fetch_spec_Inr [OF assms(1) spec] by metis
  then have "fr_cursor fr \<le> last_sequence s"
    using store_ok_last_sequence(1) [OF assms(1)] by (simp add: word_le_nat_alt)
  then show ?thesis
    using page(1,4) fetch_spec_progress [OF assms(1) spec] by (auto simp: Inr)
next
  case (Inl e)
  then have spec: "fetch_spec rq s = Inl e" using fetch_some [OF assms] by simp
  show ?thesis
  proof (cases "last_sequence s < fetch_after rq")
    case True
    then show ?thesis using spec by (simp add: Inl fetch_spec_def)
  next
    case False
    with spec have "scan_result rq (window rq s) = Inl e"
      by (auto simp: fetch_spec_def and_then_eq_Inl Let_def)
    from scan_result_Inl [OF this assms(2)] obtain seen ev rest where
      e: "e = error_new LIMIT (str ''first eligible event exceeds maxBytes; increase the fetch budget'')"
      "window rq s = seen @ ev # rest" "\<forall>x\<in>set seen. \<not> topic_matches rq x" "topic_matches rq ev"
      "fetch_max_bytes rq < event_bytes ev" by blast
    have "drop (unat (fetch_after rq)) (events s)
        = seen @ ev # rest @ drop MAX_SCAN (drop (unat (fetch_after rq)) (events s))"
      using append_take_drop_id [of MAX_SCAN "drop (unat (fetch_after rq)) (events s)"] e(2)
      unfolding window_def by (metis append_Cons append_assoc)
    then show ?thesis using e False by (auto simp: Inl event_bytes_def)
  qed
qed

lemma fetch_progress_witness:
  "fetch_after sample_fetch < fr_cursor \<lparr>fr_cursor = 1, fr_events = events sample_store, fr_has_more = False\<rparr>"
  using fetch_progress [OF sample_store_ok _ sample_page] by (simp add: sample_fetch_def sample_store_sel)

text \<open>
  C9. Following the cursor delivers the log: a reader that fetches until \<open>has_more\<close> is false, from
  any cursor that is not ahead of the log and with any limit of at least one, terminates; the number of fetches is bounded by the number of events
  behind the cursor. If every matching event behind the cursor fits its byte budget \<open>maxBytes\<close> on its
  own, it gets each of them exactly once and in order; in the latest mode it ends with the same latest
  event for every topic and key as a reader of all events. If one does not fit, it ends with LIMIT.
\<close>

theorem drain_delivers:
  assumes "store_ok s" and "fetch_after rq \<le> last_sequence s" and "0 < fetch_limit rq"
    and "length (events s) - unat (fetch_after rq) < n"
  shows "if \<forall>ev\<in>set (filter (topic_matches rq) (drop (unat (fetch_after rq)) (events s))).
        wire_bytes (ev_record ev) \<le> fetch_max_bytes rq
    then \<exists>evs. drain n rq s = Some (Inr evs)
      \<and> (\<not> fetch_latest rq \<longrightarrow> evs = filter (topic_matches rq) (drop (unat (fetch_after rq)) (events s)))
      \<and> view_of evs = view_of (filter (topic_matches rq) (drop (unat (fetch_after rq)) (events s)))
    else \<exists>e. drain n rq s = Some (Inl e) \<and> err_code e = LIMIT"
proof (cases "\<forall>ev\<in>set (backlog rq s). event_bytes ev \<le> fetch_max_bytes rq")
  case True
  then show ?thesis using drain_backlog [OF assms(1-3) True assms(4)] by (auto simp: backlog_def event_bytes_def)
next
  case False
  then have "\<exists>ev\<in>set (backlog rq s). fetch_max_bytes rq < event_bytes ev" by (simp add: not_le)
  from drain_limit [OF assms(1-3) this assms(4)] show ?thesis
    using False unfolding backlog_def event_bytes_def by (simp only: if_False)
qed

lemma drain_delivers_witness:
  "\<exists>evs. drain 2 sample_fetch sample_store = Some (Inr evs) \<and> view_of evs = view_of (events sample_store)"
proof -
  have "fetch_after sample_fetch \<le> last_sequence sample_store" "0 < fetch_limit sample_fetch"
    "length (events sample_store) - unat (fetch_after sample_fetch) < 2"
    by (simp_all add: sample_fetch_def sample_store_sel)
  from drain_delivers [OF sample_store_ok this] show ?thesis
    by (simp add: sample_fetch_def sample_store_sel topic_matches_def wire_bytes_def sample_record_def str_def split: if_splits)
qed

end
