(* ===== verification/Hash_Map.thy ===== *)
theory Hash_Map
  imports Prelude "HOL-Library.AList"
begin

text \<open>
  \<open>std::collections::HashMap\<close> as rpc.rs uses it: lookup, insertion, removal and iteration. The
  locale \<open>hash_map\<close> is what the program relies on, and says nothing of the iteration order; the
  model's maps are association lists, which interpret it. Sums over the values are what the
  invariants of the scheduler count.
\<close>

section \<open>The contract\<close>

locale hash_map =
  fixes get :: "'m \<Rightarrow> 'k \<Rightarrow> 'v option"
    and put :: "'k \<Rightarrow> 'v \<Rightarrow> 'm \<Rightarrow> 'm"
    and remove :: "'k \<Rightarrow> 'm \<Rightarrow> 'm"
    and entries :: "'m \<Rightarrow> ('k \<times> 'v) list"
    and ok :: "'m \<Rightarrow> bool"
  assumes get_put: "get (put k v m) = (get m)(k \<mapsto> v)"
    and get_remove: "get (remove k m) = (get m)(k := None)"
    and ok_put: "ok m \<Longrightarrow> ok (put k v m)"
    and ok_remove: "ok m \<Longrightarrow> ok (remove k m)"
    and entries_get: "ok m \<Longrightarrow> (k, v) \<in> set (entries m) \<longleftrightarrow> get m k = Some v"
    and entries_distinct: "ok m \<Longrightarrow> distinct (map fst (entries m))"
begin

definition total :: "('v \<Rightarrow> nat) \<Rightarrow> 'm \<Rightarrow> nat" where
  "total f m = (\<Sum>x\<leftarrow>entries m. f (snd x))"

lemma finite_dom: "ok m \<Longrightarrow> finite (dom (get m))"
proof -
  assume ok: "ok m"
  then have "dom (get m) = fst ` set (entries m)" using entries_get by force
  then show ?thesis by simp
qed

text \<open>A total is a sum over the domain: the iteration order does not matter.\<close>

lemma total_dom: "ok m \<Longrightarrow> total f m = (\<Sum>k\<in>dom (get m). f (the (get m k)))"
proof -
  assume ok: "ok m"
  have dist: "distinct (entries m)" using entries_distinct [OF ok] by (simp add: distinct_map)
  have inj: "inj_on fst (set (entries m))" using entries_distinct [OF ok] by (simp add: distinct_map)
  have dom: "dom (get m) = fst ` set (entries m)" using entries_get [OF ok] by force
  have "total f m = (\<Sum>x\<in>set (entries m). f (snd x))"
    unfolding total_def using dist by (rule sum_list_distinct_conv_sum_set)
  also have "\<dots> = (\<Sum>x\<in>set (entries m). f (the (get m (fst x))))"
    using entries_get [OF ok] by (intro sum.cong) auto
  also have "\<dots> = (\<Sum>k\<in>dom (get m). f (the (get m k)))"
    unfolding dom by (simp add: sum.reindex [OF inj])
  finally show ?thesis .
qed

lemma total_remove:
  assumes "ok m" and "get m k = Some v"
  shows "total f m = f v + total f (remove k m)"
proof -
  have "(\<Sum>j\<in>dom (get m). f (the (get m j)))
      = f (the (get m k)) + (\<Sum>j\<in>dom (get m) - {k}. f (the (get m j)))"
    using assms finite_dom by (intro sum.remove) auto
  also have "(\<Sum>j\<in>dom (get m) - {k}. f (the (get m j)))
      = (\<Sum>j\<in>dom (get (remove k m)). f (the (get (remove k m) j)))"
    by (intro sum.cong) (auto simp: get_remove)
  finally show ?thesis using assms by (simp add: total_dom ok_remove)
qed

lemma total_put_new:
  assumes "ok m" and "get m k = None"
  shows "total f (put k v m) = f v + total f m"
proof -
  have "total f (put k v m) = f v + total f (remove k (put k v m))"
    using assms by (intro total_remove) (simp_all add: ok_put get_put)
  also have "total f (remove k (put k v m)) = total f m"
  proof -
    have "get (remove k (put k v m)) = get m" using assms(2) by (auto simp: get_put get_remove)
    then show ?thesis using assms(1) by (simp add: total_dom ok_put ok_remove)
  qed
  finally show ?thesis .
qed

lemma total_put_old:
  assumes "ok m" and "get m k = Some v"
  shows "total f (put k v' m) + f v = f v' + total f m"
proof -
  have "total f (put k v' m) = f v' + total f (remove k (put k v' m))"
    using assms by (intro total_remove) (simp_all add: ok_put get_put)
  also have "total f (remove k (put k v' m)) = total f (remove k m)"
  proof -
    have "get (remove k (put k v' m)) = get (remove k m)" by (auto simp: get_put get_remove)
    then show ?thesis using assms(1) by (simp add: total_dom ok_put ok_remove)
  qed
  finally show ?thesis using total_remove [OF assms, of f] by simp
qed

text \<open>Dropping keys that do not count leaves the total.\<close>

lemma total_restrict:
  assumes "ok m" and "ok m'" and get': "\<And>k. get m' k = (if k \<in> K then None else get m k)"
    and zero: "\<And>k v. k \<in> K \<Longrightarrow> get m k = Some v \<Longrightarrow> f v = 0"
  shows "total f m' = total f m"
proof -
  have "(\<Sum>k\<in>dom (get m'). f (the (get m' k))) = (\<Sum>k\<in>dom (get m'). f (the (get m k)))"
    by (intro sum.cong) (auto simp: get' split: if_splits)
  also have "\<dots> = (\<Sum>k\<in>dom (get m). f (the (get m k)))"
    using zero finite_dom [OF assms(1)]
    by (intro sum.mono_neutral_left) (auto simp: get' split: if_splits)
  finally show ?thesis using assms(1,2) by (simp add: total_dom)
qed

lemma total_cong:
  "ok m \<Longrightarrow> (\<And>k v. get m k = Some v \<Longrightarrow> f v = g v) \<Longrightarrow> total f m = total g m"
  by (simp add: total_dom) (metis (mono_tags, lifting) domIff option.exhaust_sel sum.cong)

lemma total_one: "total (\<lambda>_. Suc 0) m = length (entries m)"
  by (simp add: total_def sum_list_triv)

lemma total_0: "ok m \<Longrightarrow> total f m = 0 \<longleftrightarrow> (\<forall>k v. get m k = Some v \<longrightarrow> f v = 0)"
  by (simp add: total_dom finite_dom) (metis domD domI option.sel)

lemma total_ge: "ok m \<Longrightarrow> get m k = Some v \<Longrightarrow> f v \<le> total f m"
  using total_remove [of m k v f] by simp

end

section \<open>The model's maps\<close>

type_synonym ('k, 'v) hash_table = "('k \<times> 'v) list"

definition hm_get :: "('k, 'v) hash_table \<Rightarrow> 'k \<Rightarrow> 'v option" where
  "hm_get m k = map_of m k"

definition hm_insert :: "'k \<Rightarrow> 'v \<Rightarrow> ('k, 'v) hash_table \<Rightarrow> ('k, 'v) hash_table" where
  "hm_insert k v m = AList.update k v m"

definition hm_remove :: "'k \<Rightarrow> ('k, 'v) hash_table \<Rightarrow> ('k, 'v) hash_table" where
  "hm_remove k m = AList.delete k m"

definition hm_ok :: "('k, 'v) hash_table \<Rightarrow> bool" where
  "hm_ok m = distinct (map fst m)"

interpretation hm: hash_map hm_get hm_insert hm_remove "\<lambda>m. m" hm_ok
proof unfold_locales
  fix k :: 'k and v :: 'v and m :: "('k, 'v) hash_table"
  show "hm_get (hm_insert k v m) = (hm_get m)(k \<mapsto> v)"
    by (rule ext) (simp add: hm_get_def hm_insert_def update_conv)
  show "hm_get (hm_remove k m) = (hm_get m)(k := None)"
    by (rule ext) (simp add: hm_get_def hm_remove_def delete_conv)
  show "hm_ok m \<Longrightarrow> hm_ok (hm_insert k v m)" by (simp add: hm_ok_def hm_insert_def distinct_update)
  show "hm_ok m \<Longrightarrow> hm_ok (hm_remove k m)" by (simp add: hm_ok_def hm_remove_def distinct_delete)
  show "hm_ok m \<Longrightarrow> (k, v) \<in> set m \<longleftrightarrow> hm_get m k = Some v" by (simp add: hm_ok_def hm_get_def)
  show "hm_ok m \<Longrightarrow> distinct (map fst m)" by (simp add: hm_ok_def)
qed

lemmas hm_simps [simp] = hm.get_put hm.get_remove hm.ok_put hm.ok_remove

lemma hm_empty [simp]: "hm_get [] k = None" "hm_ok []"
  by (simp_all add: hm_get_def hm_ok_def)

end
