(* ===== verification/Rpc.thy ===== *)
theory Rpc
  imports Protocol Hash_Map Store "HOL-Library.List_Lexorder"
begin

text \<open>
  The RPC scheduler, \<open>crates/velobus/src/rpc.rs\<close>: routes with their workers and queues, calls
  with deadlines and owners, admission, dispatch, completion, expiry, cancellation and
  disconnection. Every function of the source that holds the lock once is one state transformer;
  readings of the clock are arguments, in nanoseconds. A result \<open>None\<close> is a panic of the source
  (an \<open>expect\<close>, an \<open>unwrap\<close> or an index that fails).
\<close>

section \<open>State\<close>

text \<open>\<open>Reply\<close> is what travels through the oneshot channel of a call.\<close>

type_synonym reply = "error + bytes"

record route =
  route_workers :: "u64 list"
  route_queue :: "u64 list"
  route_queue_limit :: nat

record worker =
  worker_route :: rstring
  concurrency :: nat
  running :: nat
  pending_takes :: nat
  notify :: nat

record call =
  caller :: u64
  call_route :: rstring
  owner :: "u64 option"
  deadline :: nat
  call_payload :: bytes
  response :: bool
  call_retained_bytes :: u64

text \<open>
  A oneshot channel, as its receiver sees it: the sender is alive, it has sent, or it was dropped
  without sending. \<open>response c\<close> says whether the call still holds its sender.
\<close>

datatype channel = Open | Sent reply | Closed

text \<open>
  The fields of \<open>State\<close>, and two heaps for what the handles point to: the channel of every call,
  and for every \<open>Notify\<close> the number of times its waiters were woken.
\<close>

record state =
  connections :: "u64 set"
  routes :: "(rstring, route) hash_table"
  workers :: "(u64, worker) hash_table"
  calls :: "(u64, call) hash_table"
  next_id :: u64
  rpc_retained_bytes :: u64
  max_calls :: nat
  max_bytes :: u64
  accepted :: u64
  completed :: u64
  rejected :: u64
  timed_out :: u64
  channels :: "u64 \<rightharpoonup> channel"
  notifies :: "nat list"

definition rpc_new :: "nat \<Rightarrow> u64 \<Rightarrow> state" where
  "rpc_new n b =
     \<lparr>connections = {}, routes = [], workers = [], calls = [], next_id = 1, rpc_retained_bytes = 0,
      max_calls = n, max_bytes = b, accepted = 0, completed = 0, rejected = 0, timed_out = 0,
      channels = Map.empty, notifies = []\<rparr>"

definition deadline_error :: error where
  "deadline_error = error_new DEADLINE_EXCEEDED (str ''RPC deadline exceeded; started work may still finish'')"

section \<open>The handles\<close>

definition notify_waiters :: "nat \<Rightarrow> state \<Rightarrow> state" where
  "notify_waiters n s = s\<lparr>notifies := (notifies s)[n := Suc (notifies s ! n)]\<rparr>"

definition send :: "u64 \<Rightarrow> reply \<Rightarrow> state \<Rightarrow> state" where
  "send cid r s = s\<lparr>channels := (channels s)(cid \<mapsto> Sent r)\<rparr>"

definition drop_sender :: "u64 \<Rightarrow> state \<Rightarrow> state" where
  "drop_sender cid s = s\<lparr>channels := (channels s)(cid \<mapsto> Closed)\<rparr>"

text \<open>\<open>call.response.take()\<close> on a call of the map.\<close>

definition take_response :: "u64 \<Rightarrow> call \<Rightarrow> state \<Rightarrow> state" where
  "take_response cid c s = s\<lparr>calls := hm_insert cid (c\<lparr>response := False\<rparr>) (calls s)\<rparr>"

section \<open>Operations under the lock\<close>

definition remove :: "u64 \<Rightarrow> state \<Rightarrow> call option \<times> state" where
  "remove cid s =
     (case hm_get (calls s) cid of
        None \<Rightarrow> (None, s)
      | Some c \<Rightarrow>
          (let s = s\<lparr>calls := hm_remove cid (calls s),
                     rpc_retained_bytes := rpc_retained_bytes s - call_retained_bytes c\<rparr>;
               s = (case owner c of
                   Some w \<Rightarrow>
                     (case hm_get (workers s) w of
                        None \<Rightarrow> s
                      | Some wk \<Rightarrow>
                          notify_waiters (notify wk)
                            (s\<lparr>workers := hm_insert w (wk\<lparr>running := running wk - 1\<rparr>) (workers s)\<rparr>))
                 | None \<Rightarrow>
                     (case hm_get (routes s) (call_route c) of
                        None \<Rightarrow> s
                      | Some r \<Rightarrow>
                          s\<lparr>routes := hm_insert (call_route c)
                              (r\<lparr>route_queue := filter (\<lambda>queued. queued \<noteq> cid) (route_queue r)\<rparr>) (routes s)\<rparr>))
           in (Some c, s)))"

definition expire :: "u64 \<Rightarrow> state \<Rightarrow> state" where
  "expire cid s =
     (case hm_get (calls s) cid of
        None \<Rightarrow> s
      | Some c \<Rightarrow>
          (let s = (if response c
               then send cid (Inl deadline_error)
                 ((take_response cid c s)\<lparr>timed_out := saturating_add (timed_out s) 1\<rparr>)
               else s)
           in if owner c = None then snd (remove cid s) else s))"

definition expired_queue :: "rstring \<Rightarrow> nat \<Rightarrow> state \<Rightarrow> u64 list" where
  "expired_queue name now s =
     (case hm_get (routes s) name of
        None \<Rightarrow> []
      | Some r \<Rightarrow> filter (\<lambda>cid. case hm_get (calls s) cid of None \<Rightarrow> False | Some c \<Rightarrow> deadline c \<le> now) (route_queue r))"

definition expire_queued :: "rstring \<Rightarrow> nat \<Rightarrow> state \<Rightarrow> state" where
  "expire_queued name now s = fold expire (expired_queue name now s) s"

definition notify_worker :: "u64 \<Rightarrow> state \<Rightarrow> state" where
  "notify_worker cid s = (case hm_get (workers s) cid of None \<Rightarrow> s | Some w \<Rightarrow> notify_waiters (notify w) s)"

definition notify_route :: "rstring \<Rightarrow> state \<Rightarrow> state" where
  "notify_route name s =
     (case hm_get (routes s) name of None \<Rightarrow> s | Some r \<Rightarrow> fold notify_worker (route_workers r) s)"

section \<open>Connections and workers\<close>

definition connected :: "u64 \<Rightarrow> state \<Rightarrow> state" where
  "connected c s = s\<lparr>connections := insert c (connections s)\<rparr>"

definition register :: "u64 \<Rightarrow> rstring \<Rightarrow> nat \<Rightarrow> nat \<Rightarrow> state \<Rightarrow> (error + unit) \<times> state" where
  "register worker_id name conc queue_limit s =
     (if worker_id \<notin> connections s
      then (Inl (error_new SERVICE_UNAVAILABLE (str ''worker connection has closed'')), s)
      else if hm_get (workers s) worker_id \<noteq> None
      then (Inl (error_new INVALID (str ''connection already registered a route'')), s)
      else if (case hm_get (routes s) name of None \<Rightarrow> False | Some r \<Rightarrow> route_queue_limit r \<noteq> queue_limit)
      then (Inl (error_new INVALID (str ''workers for a route must agree on queueLimit'')), s)
      else
        (let r = (case hm_get (routes s) name of
               Some r \<Rightarrow> r
             | None \<Rightarrow> \<lparr>route_workers = [], route_queue = [], route_queue_limit = queue_limit\<rparr>);
             w = \<lparr>worker_route = name, concurrency = conc, running = 0, pending_takes = 0,
                  notify = length (notifies s)\<rparr>
         in (Inr (), s\<lparr>routes := hm_insert name (r\<lparr>route_workers := route_workers r @ [worker_id]\<rparr>) (routes s),
                       workers := hm_insert worker_id w (workers s),
                       notifies := notifies s @ [0]\<rparr>)))"

section \<open>Admission\<close>

record ticket =
  tk_call_id :: u64
  tk_deadline :: nat

definition request_cost :: "rstring \<Rightarrow> bytes \<Rightarrow> u64" where
  "request_cost route payload = 512 + 2 * of_nat (length route) + of_nat (length payload)"

text \<open>\<open>now1\<close> is read by \<open>expire_queued\<close>, \<open>now2\<close> when the deadline is computed.\<close>

definition request ::
  "u64 \<Rightarrow> rstring \<Rightarrow> u32 \<Rightarrow> bytes \<Rightarrow> nat \<Rightarrow> nat \<Rightarrow> state \<Rightarrow> ((error + ticket) \<times> state) option" where
  "request from name timeout_ms payload now1 now2 s =
     (if from \<notin> connections s
      then Some (Inl (error_new SERVICE_UNAVAILABLE (str ''caller connection has closed'')), s)
      else if hm_get (routes s) name = None
      then Some (Inl (error_new NO_SERVICE (str ''no worker registered for route'')),
                 s\<lparr>rejected := saturating_add (rejected s) 1\<rparr>)
      else
        let s = expire_queued name now1 s; cost = request_cost name payload
        in case hm_get (routes s) name of
             None \<Rightarrow> None
           | Some r \<Rightarrow>
               (if length (route_queue r) \<ge> route_queue_limit r
                   \<or> length (calls s) \<ge> max_calls s
                   \<or> cost > saturating_sub (max_bytes s) (rpc_retained_bytes s)
                then Some (Inl (error_new OVERLOADED
                       (str ''RPC admission budget is full; request was not accepted'')),
                     s\<lparr>rejected := saturating_add (rejected s) 1\<rparr>)
                else case checked_add (next_id s) 1 of
                  None \<Rightarrow> Some (Inl (error_new OVERLOADED (str ''RPC identifier space exhausted'')), s)
                | Some next \<Rightarrow>
                    (let cid = next_id s;
                         expires = now2 + unat timeout_ms * 1000000;
                         c = \<lparr>caller = from, call_route = name, owner = None, deadline = expires,
                              call_payload = payload, response = True, call_retained_bytes = cost\<rparr>;
                         s = s\<lparr>next_id := next, channels := (channels s)(cid \<mapsto> Open),
                              calls := hm_insert cid c (calls s),
                              routes := hm_insert name (r\<lparr>route_queue := route_queue r @ [cid]\<rparr>) (routes s),
                              rpc_retained_bytes := rpc_retained_bytes s + cost,
                              accepted := saturating_add (accepted s) 1\<rparr>
                     in Some (Inr \<lparr>tk_call_id = cid, tk_deadline = expires\<rparr>, notify_route name s))))"

section \<open>Dispatch\<close>

record job =
  job_call_id :: u64
  job_remaining_ms :: u32
  job_payload :: bytes

definition job_encode :: "job \<Rightarrow> bytes" where
  "job_encode j =
     [1] @ to_be_bytes (job_call_id j) @ to_be_bytes (job_remaining_ms j)
     @ to_be_bytes (of_nat (length (job_payload j)) :: u32) @ job_payload j"

text \<open>\<open>as_nanos().div_ceil(1_000_000).clamp(1, 30_000)\<close>.\<close>

definition remaining_ms :: "nat \<Rightarrow> nat \<Rightarrow> u32" where
  "remaining_ms expires now = of_nat (max 1 (min 30000 ((expires - now + 999999) div 1000000)))"

text \<open>
  One iteration of the loop of \<open>try_take\<close>: the lock is taken and released in each. \<open>now1\<close> is read
  by \<open>expire_queued\<close>, \<open>now2\<close> after the call is popped.
\<close>

datatype take_result = Refused error | Idle | Again | Dispatch job

definition try_take_once :: "u64 \<Rightarrow> nat \<Rightarrow> nat \<Rightarrow> state \<Rightarrow> (take_result \<times> state) option" where
  "try_take_once worker_id now1 now2 s =
     (case hm_get (workers s) worker_id of
        None \<Rightarrow> Some (Refused (error_new UNAUTHORIZED (str ''TAKE requires a registered worker'')), s)
      | Some w \<Rightarrow>
          (if running w \<ge> concurrency w then Some (Idle, s)
           else
             let name = worker_route w; s = expire_queued name now1 s
             in case hm_get (routes s) name of
                  None \<Rightarrow> Some (Idle, s)
                | Some r \<Rightarrow>
                    (case route_queue r of
                       [] \<Rightarrow> Some (Idle, s)
                     | cid # queue \<Rightarrow>
                         (let s = s\<lparr>routes := hm_insert name (r\<lparr>route_queue := queue\<rparr>) (routes s)\<rparr>
                          in case hm_get (calls s) cid of
                               None \<Rightarrow> None
                             | Some c \<Rightarrow>
                                 (if deadline c \<le> now2 then Some (Again, expire cid s)
                                  else
                                    let s = s\<lparr>calls := hm_insert cid (c\<lparr>owner := Some worker_id\<rparr>) (calls s)\<rparr>
                                    in case hm_get (workers s) worker_id of
                                         None \<Rightarrow> None
                                       | Some w \<Rightarrow>
                                           Some (Dispatch \<lparr>job_call_id = cid,
                                                   job_remaining_ms = remaining_ms (deadline c) now2,
                                                   job_payload = call_payload c\<rparr>,
                                                 s\<lparr>workers := hm_insert worker_id
                                                     (w\<lparr>running := running w + 1\<rparr>) (workers s)\<rparr>))))))"

text \<open>The loop, when nothing happens between its iterations, with the clock readings as a list.\<close>

fun try_take :: "u64 \<Rightarrow> (nat \<times> nat) list \<Rightarrow> state \<Rightarrow> ((error + job option) \<times> state) option" where
  "try_take worker_id [] s = None"
| "try_take worker_id ((now1, now2) # clock) s =
     (case try_take_once worker_id now1 now2 s of
        None \<Rightarrow> None
      | Some (Refused e, s) \<Rightarrow> Some (Inl e, s)
      | Some (Idle, s) \<Rightarrow> Some (Inr None, s)
      | Some (Dispatch j, s) \<Rightarrow> Some (Inr (Some j), s)
      | Some (Again, s) \<Rightarrow> try_take worker_id clock s)"

text \<open>The start of \<open>take\<close>: the result is the handle the waiter listens on.\<close>

definition take_begin :: "u64 \<Rightarrow> state \<Rightarrow> (error + nat) \<times> state" where
  "take_begin worker_id s =
     (case hm_get (workers s) worker_id of
        None \<Rightarrow> (Inl (error_new UNAUTHORIZED (str ''TAKE requires a registered worker'')), s)
      | Some w \<Rightarrow>
          (if pending_takes w \<ge> concurrency w
           then (Inl (error_new OVERLOADED (str ''worker TAKE waiter capacity reached'')), s)
           else (Inr (notify w),
                 s\<lparr>workers := hm_insert worker_id (w\<lparr>pending_takes := pending_takes w + 1\<rparr>) (workers s)\<rparr>)))"

definition take_guard_drop :: "u64 \<Rightarrow> state \<Rightarrow> state" where
  "take_guard_drop worker_id s =
     (case hm_get (workers s) worker_id of
        None \<Rightarrow> s
      | Some w \<Rightarrow> s\<lparr>workers := hm_insert worker_id (w\<lparr>pending_takes := pending_takes w - 1\<rparr>) (workers s)\<rparr>)"

section \<open>Completion\<close>

definition complete :: "u64 \<Rightarrow> u64 \<Rightarrow> bool \<Rightarrow> bytes \<Rightarrow> nat \<Rightarrow> state \<Rightarrow> ((error + unit) \<times> state) option" where
  "complete worker_id cid failed payload now s =
     (if hm_get (workers s) worker_id = None
      then Some (Inl (error_new UNAUTHORIZED (str ''COMPLETE requires a registered worker'')), s)
      else case hm_get (calls s) cid of
        None \<Rightarrow> Some (Inl (error_new INVALID (str ''unknown or already completed call'')), s)
      | Some c \<Rightarrow>
          (if owner c \<noteq> Some worker_id
           then Some (Inl (error_new UNAUTHORIZED (str ''call belongs to another worker'')), s)
           else case remove cid s of
             (None, s) \<Rightarrow> None
           | (Some c, s) \<Rightarrow>
               (let s = s\<lparr>completed := saturating_add (completed s) 1\<rparr>
                in Some (Inr (),
                     if response c
                     then if deadline c \<le> now
                       then send cid (Inl deadline_error) (s\<lparr>timed_out := saturating_add (timed_out s) 1\<rparr>)
                       else if failed
                       then send cid (Inl (error_new HANDLER_ERROR (from_utf8_lossy payload))) s
                       else send cid (Inr payload) s
                     else s))))"

section \<open>Cancellation and disconnection\<close>

definition cancel :: "u64 \<Rightarrow> state \<Rightarrow> state" where
  "cancel cid s =
     (case hm_get (calls s) cid of
        None \<Rightarrow> s
      | Some c \<Rightarrow>
          (let s = (if response c then drop_sender cid (take_response cid c s) else s)
           in if owner c = None then snd (remove cid s) else s))"

text \<open>The three loops of \<open>disconnect\<close>.\<close>

fun drop_calls :: "u64 list \<Rightarrow> state \<Rightarrow> state option" where
  "drop_calls [] s = Some s"
| "drop_calls (cid # cids) s =
     (case hm_get (calls s) cid of
        None \<Rightarrow> None
      | Some c \<Rightarrow>
          (let s = (if response c then drop_sender cid (take_response cid c s) else s)
           in drop_calls cids (if owner c = None then snd (remove cid s) else s)))"

definition fail_call :: "error \<Rightarrow> u64 \<Rightarrow> state \<Rightarrow> state" where
  "fail_call e cid s =
     (case remove cid s of
        (None, s) \<Rightarrow> s
      | (Some c, s) \<Rightarrow> if response c then send cid (Inl e) s else s)"

definition disconnect :: "u64 \<Rightarrow> state \<Rightarrow> state option" where
  "disconnect conn s =
     (let s = s\<lparr>connections := connections s - {conn}\<rparr>;
          caller_ids = map fst (filter (\<lambda>(cid, c). caller c = conn) (calls s))
      in case drop_calls caller_ids s of
        None \<Rightarrow> None
      | Some s \<Rightarrow>
          (case hm_get (workers s) conn of
             None \<Rightarrow> Some s
           | Some w \<Rightarrow>
               (let s = notify_waiters (notify w) (s\<lparr>workers := hm_remove conn (workers s)\<rparr>);
                    owned = map fst (filter (\<lambda>(cid, c). owner c = Some conn) (calls s));
                    s = fold (fail_call (error_new SERVICE_UNAVAILABLE
                          (str ''worker disconnected; call will not be replayed''))) owned s
                in case hm_get (routes s) (worker_route w) of
                     None \<Rightarrow> None
                   | Some r \<Rightarrow>
                       (let left = filter (\<lambda>cid. cid \<noteq> conn) (route_workers r);
                            s = s\<lparr>routes := hm_insert (worker_route w) (r\<lparr>route_workers := left\<rparr>) (routes s)\<rparr>
                        in if left = []
                           then case hm_get (routes s) (worker_route w) of
                             None \<Rightarrow> None
                           | Some r \<Rightarrow>
                               Some (fold (fail_call (error_new SERVICE_UNAVAILABLE
                                 (str ''last worker disconnected''))) (route_queue r)
                                 (s\<lparr>routes := hm_remove (worker_route w) (routes s)\<rparr>))
                           else Some (notify_route (worker_route w) s)))))"

section \<open>Tickets\<close>

text \<open>
  Polling \<open>Ticket::wait\<close> at time \<open>now\<close>: \<open>timeout_at\<close> polls the channel first. \<open>None\<close> is pending.
  A ticket that returns, or whose task is aborted, is dropped, which cancels its call.
\<close>

definition ticket_poll :: "nat \<Rightarrow> ticket \<Rightarrow> state \<Rightarrow> (reply \<times> state) option" where
  "ticket_poll now t s =
     (case channels s (tk_call_id t) of
        Some (Sent r) \<Rightarrow> Some (r, s)
      | Some Open \<Rightarrow>
          (if tk_deadline t \<le> now then Some (Inl deadline_error, expire (tk_call_id t) s) else None)
      | _ \<Rightarrow> Some (Inl (error_new SERVICE_UNAVAILABLE (str ''RPC response channel closed'')), s))"

section \<open>Statistics\<close>

definition route_stats :: "state \<Rightarrow> rstring \<times> route \<Rightarrow> json" where
  "route_stats s x = (case x of (name, r) \<Rightarrow>
     (let ws = List.map_filter (hm_get (workers s)) (route_workers r);
          (conc, busy) = fold (\<lambda>w (capacity, busy). (capacity + concurrency w, busy + running w)) ws (0, 0)
      in JObject
        [(str ''name'', JString name), (str ''workers'', JNumber (length (route_workers r))),
         (str ''concurrency'', JNumber conc), (str ''running'', JNumber busy),
         (str ''queued'', JNumber (length (route_queue r))),
         (str ''queueLimit'', JNumber (route_queue_limit r))]))"

definition rpc_stats :: "state \<Rightarrow> json" where
  "rpc_stats s =
     (let busy = length (filter (\<lambda>(cid, c). owner c \<noteq> None) (calls s))
      in JObject
        [(str ''queued'', JNumber (length (calls s) - busy)), (str ''running'', JNumber busy),
         (str ''retainedBytes'', JNumber (unat (rpc_retained_bytes s))),
         (str ''maxCalls'', JNumber (max_calls s)), (str ''maxBytes'', JNumber (unat (max_bytes s))),
         (str ''accepted'', JNumber (unat (accepted s))), (str ''completed'', JNumber (unat (completed s))),
         (str ''rejected'', JNumber (unat (rejected s))), (str ''timedOut'', JNumber (unat (timed_out s))),
         (str ''routes'', JArray (map (route_stats s) (sort_key fst (routes s))))])"

end
