(* ===== verification/Rpc_Inv.thy ===== *)
theory Rpc_Inv
  imports Rpc
begin

text \<open>
  The invariant of the scheduler: exact byte accounting, queues that hold exactly the waiting
  calls of their route, running counts that equal the calls a worker owns, and channels that are
  open exactly while their call holds the sender. Every operation under the lock preserves it.
\<close>

section \<open>The invariant\<close>

definition waiting_call :: "state \<Rightarrow> rstring \<Rightarrow> u64 \<Rightarrow> bool" where
  "waiting_call s name i = (\<exists>c. hm_get (calls s) i = Some c \<and> owner c = None \<and> call_route c = name)"

definition holds_sender :: "state \<Rightarrow> u64 \<Rightarrow> bool" where
  "holds_sender s i = (\<exists>c. hm_get (calls s) i = Some c \<and> response c)"

definition owned_calls :: "state \<Rightarrow> u64 \<Rightarrow> nat" where
  "owned_calls s w = hm.total (\<lambda>c. if owner c = Some w then 1 else 0) (calls s)"

definition call_cost :: "call \<Rightarrow> nat" where
  "call_cost c = unat (call_retained_bytes c)"

definition tables_ok :: "state \<Rightarrow> bool" where
  "tables_ok s = (hm_ok (routes s) \<and> hm_ok (workers s) \<and> hm_ok (calls s))"

definition budget_ok :: "state \<Rightarrow> bool" where
  "budget_ok s =
     (unat (rpc_retained_bytes s) = hm.total call_cost (calls s)
      \<and> rpc_retained_bytes s \<le> max_bytes s \<and> length (calls s) \<le> max_calls s)"

definition routes_ok :: "state \<Rightarrow> bool" where
  "routes_ok s = (\<forall>name r. hm_get (routes s) name = Some r \<longrightarrow>
     distinct (route_queue r) \<and> (\<forall>i. i \<in> set (route_queue r) \<longleftrightarrow> waiting_call s name i)
     \<and> length (route_queue r) \<le> route_queue_limit r
     \<and> route_workers r \<noteq> [] \<and> distinct (route_workers r)
     \<and> (\<forall>w. w \<in> set (route_workers r) \<longleftrightarrow> (\<exists>wk. hm_get (workers s) w = Some wk \<and> worker_route wk = name)))"

definition calls_ok :: "state \<Rightarrow> bool" where
  "calls_ok s = (\<forall>i c. hm_get (calls s) i = Some c \<longrightarrow>
     (owner c = None \<longrightarrow> hm_get (routes s) (call_route c) \<noteq> None)
     \<and> (\<forall>w. owner c = Some w \<longrightarrow> hm_get (workers s) w \<noteq> None)
     \<and> (response c \<longrightarrow> caller c \<in> connections s) \<and> 0 < i \<and> i < next_id s)"

definition workers_ok :: "state \<Rightarrow> bool" where
  "workers_ok s = (\<forall>w wk. hm_get (workers s) w = Some wk \<longrightarrow>
     hm_get (routes s) (worker_route wk) \<noteq> None
     \<and> running wk = owned_calls s w \<and> owned_calls s w \<le> concurrency wk \<and> pending_takes wk \<le> concurrency wk
     \<and> w \<in> connections s \<and> notify wk < length (notifies s))"

text \<open>\<open>X\<close>: calls in the middle of being answered.\<close>

definition channels_ok :: "u64 set \<Rightarrow> state \<Rightarrow> bool" where
  "channels_ok X s = (\<forall>i. (i \<notin> X \<longrightarrow> (channels s i = Some Open \<longleftrightarrow> holds_sender s i))
     \<and> (channels s i \<noteq> None \<longleftrightarrow> 0 < i \<and> i < next_id s))"

definition rpc_inv :: "u64 set \<Rightarrow> state \<Rightarrow> bool" where
  "rpc_inv X s = (tables_ok s \<and> budget_ok s \<and> routes_ok s \<and> calls_ok s \<and> workers_ok s \<and> channels_ok X s
     \<and> 0 < next_id s)"

abbreviation rpc_ok :: "state \<Rightarrow> bool" where
  "rpc_ok \<equiv> rpc_inv {}"

lemmas rpc_inv_defs = rpc_inv_def tables_ok_def budget_ok_def routes_ok_def calls_ok_def workers_ok_def channels_ok_def

lemma rpc_new_ok: "rpc_ok (rpc_new n b)"
  by (auto simp: rpc_inv_defs rpc_new_def hm.total_0 holds_sender_def hm.total_def)

text \<open>Updates of the counters keep the invariant.\<close>

lemma rpc_inv_counters [simp]:
  "rpc_inv X (s\<lparr>accepted := n\<rparr>) = rpc_inv X s" "rpc_inv X (s\<lparr>completed := n\<rparr>) = rpc_inv X s"
  "rpc_inv X (s\<lparr>rejected := n\<rparr>) = rpc_inv X s" "rpc_inv X (s\<lparr>timed_out := n\<rparr>) = rpc_inv X s"
  by (simp_all add: rpc_inv_defs waiting_call_def holds_sender_def owned_calls_def)

lemma notify_waiters_inv [simp]: "rpc_inv X (notify_waiters n s) = rpc_inv X s"
  by (simp add: rpc_inv_defs waiting_call_def holds_sender_def owned_calls_def notify_waiters_def)

lemma notify_worker_inv [simp]: "rpc_inv X (notify_worker w s) = rpc_inv X s"
  by (simp add: notify_worker_def split: option.splits)

lemma fold_notify_inv: "rpc_inv X (fold notify_worker ws s) = rpc_inv X s"
  by (induction ws arbitrary: s) simp_all

lemma notify_route_inv [simp]: "rpc_inv X (notify_route name s) = rpc_inv X s"
  by (simp add: notify_route_def fold_notify_inv split: option.splits)

section \<open>Answering a call\<close>

lemma replace_call_totals:
  assumes "hm_ok (calls s)" and "hm_get (calls s) i = Some c"
    and "owner c' = owner c" and "call_retained_bytes c' = call_retained_bytes c"
  shows "hm.total call_cost (hm_insert i c' (calls s)) = hm.total call_cost (calls s)"
    and "hm.total (\<lambda>c. if owner c = Some w then 1 else 0) (hm_insert i c' (calls s))
      = hm.total (\<lambda>c. if owner c = Some w then 1 else 0) (calls s)"
  using hm.total_put_old [OF assms(1,2), of call_cost c']
    hm.total_put_old [OF assms(1,2), of "\<lambda>c. if owner c = Some w then 1 else 0" c'] assms(3,4)
  by (simp_all add: call_cost_def)

lemma length_insert_old: "hm_ok m \<Longrightarrow> hm_get m k = Some v \<Longrightarrow> length (hm_insert k v' m) = length m"
  using hm.total_put_old [of m k v "\<lambda>_. Suc 0" v'] by (simp add: hm.total_one)

lemma length_insert_new: "hm_ok m \<Longrightarrow> hm_get m k = None \<Longrightarrow> length (hm_insert k v m) = Suc (length m)"
  using hm.total_put_new [of m k "\<lambda>_. Suc 0" v] by (simp add: hm.total_one)

lemma length_remove: "hm_ok m \<Longrightarrow> hm_get m k = Some v \<Longrightarrow> length m = Suc (length (hm_remove k m))"
  using hm.total_remove [of m k v "\<lambda>_. Suc 0"] by (simp add: hm.total_one)

text \<open>Taking the sender of a call and settling its channel, in either order of the source.\<close>

definition settle :: "u64 \<Rightarrow> call \<Rightarrow> channel \<Rightarrow> state \<Rightarrow> state" where
  "settle i c ch s = (take_response i c s)\<lparr>channels := (channels s)(i \<mapsto> ch)\<rparr>"

lemma send_take_response: "send i r (take_response i c s) = settle i c (Sent r) s"
  by (simp add: send_def settle_def take_response_def)

lemma drop_take_response: "drop_sender i (take_response i c s) = settle i c Closed s"
  by (simp add: drop_sender_def settle_def take_response_def)

lemma settle_inv:
  assumes inv: "rpc_inv X s" and c: "hm_get (calls s) i = Some c" and ch: "ch \<noteq> Open"
  shows "rpc_inv X (settle i c ch s)"
proof -
  have ok: "hm_ok (calls s)" using inv by (simp add: rpc_inv_def tables_ok_def)
  note tot = replace_call_totals [OF ok c, of "c\<lparr>response := False\<rparr>"]
  have own: "owned_calls (settle i c ch s) w = owned_calls s w" for w
    using tot(2) by (simp add: owned_calls_def settle_def take_response_def)
  have wait: "waiting_call (settle i c ch s) name j = waiting_call s name j" for name j
    using c by (auto simp: waiting_call_def settle_def take_response_def)
  have hold: "holds_sender (settle i c ch s) j = (j \<noteq> i \<and> holds_sender s j)" for j
    by (auto simp: holds_sender_def settle_def take_response_def)
  have fields: "routes (settle i c ch s) = routes s" "workers (settle i c ch s) = workers s"
    "connections (settle i c ch s) = connections s" "next_id (settle i c ch s) = next_id s"
    "rpc_retained_bytes (settle i c ch s) = rpc_retained_bytes s" "max_bytes (settle i c ch s) = max_bytes s"
    "max_calls (settle i c ch s) = max_calls s" "notifies (settle i c ch s) = notifies s"
    "calls (settle i c ch s) = hm_insert i (c\<lparr>response := False\<rparr>) (calls s)"
    "channels (settle i c ch s) = (channels s)(i \<mapsto> ch)"
    by (simp_all add: settle_def take_response_def)
  have known: "0 < i \<and> i < next_id s"
    using inv c by (simp add: rpc_inv_def calls_ok_def)
  show ?thesis
    unfolding rpc_inv_def
  proof (intro conjI)
    show "tables_ok (settle i c ch s)" using inv by (simp add: rpc_inv_def tables_ok_def fields)
    show "budget_ok (settle i c ch s)"
      using inv tot(1) length_insert_old [OF ok c] by (simp add: rpc_inv_def budget_ok_def fields)
    show "routes_ok (settle i c ch s)" using inv by (simp add: rpc_inv_def routes_ok_def fields wait)
    show "calls_ok (settle i c ch s)"
      using inv c by (auto simp: rpc_inv_def calls_ok_def fields split: option.splits)
    show "workers_ok (settle i c ch s)" using inv by (auto simp: rpc_inv_def workers_ok_def fields own)
    show "channels_ok X (settle i c ch s)"
      using inv ch known by (auto simp: rpc_inv_def channels_ok_def fields hold)
    show "0 < next_id (settle i c ch s)" using inv by (simp add: rpc_inv_def fields)
  qed
qed

section \<open>Removing a call\<close>

text \<open>The state without the call, before its worker or its queue is told.\<close>

definition without_call :: "u64 \<Rightarrow> call \<Rightarrow> state \<Rightarrow> state" where
  "without_call i c s = s\<lparr>calls := hm_remove i (calls s), rpc_retained_bytes := rpc_retained_bytes s - call_retained_bytes c\<rparr>"

lemma without_call_simps [simp]:
  "routes (without_call i c s) = routes s" "workers (without_call i c s) = workers s"
  "calls (without_call i c s) = hm_remove i (calls s)" "connections (without_call i c s) = connections s"
  "next_id (without_call i c s) = next_id s" "max_bytes (without_call i c s) = max_bytes s"
  "max_calls (without_call i c s) = max_calls s" "notifies (without_call i c s) = notifies s"
  "channels (without_call i c s) = channels s"
  by (simp_all add: without_call_def)

lemma without_call_budget:
  assumes inv: "hm_ok (calls s)" "unat (rpc_retained_bytes s) = hm.total call_cost (calls s)"
      "rpc_retained_bytes s \<le> max_bytes s" and c: "hm_get (calls s) i = Some c"
  shows "unat (rpc_retained_bytes (without_call i c s)) = hm.total call_cost (calls (without_call i c s))"
    and "rpc_retained_bytes (without_call i c s) \<le> max_bytes s"
proof -
  have tot: "unat (rpc_retained_bytes s) = call_cost c + hm.total call_cost (hm_remove i (calls s))"
    using hm.total_remove [OF inv(1) c, of call_cost] inv(2) by simp
  then have le: "call_retained_bytes c \<le> rpc_retained_bytes s" by (simp add: word_le_nat_alt call_cost_def)
  then have sub: "unat (rpc_retained_bytes (without_call i c s)) = unat (rpc_retained_bytes s) - call_cost c"
    by (simp add: without_call_def unat_sub call_cost_def)
  then show "unat (rpc_retained_bytes (without_call i c s)) = hm.total call_cost (calls (without_call i c s))"
    using tot by simp
  show "rpc_retained_bytes (without_call i c s) \<le> max_bytes s"
    using sub inv(3) by (simp add: word_le_nat_alt)
qed

lemma without_call_waiting:
  "waiting_call (s\<lparr>calls := hm_remove i (calls s)\<rparr>) name j \<longleftrightarrow> j \<noteq> i \<and> waiting_call s name j"
  by (simp add: waiting_call_def)

lemma owned_calls_remove:
  assumes "hm_ok (calls s)" and "hm_get (calls s) i = Some c"
  shows "owned_calls s w = (if owner c = Some w then 1 else 0)
    + hm.total (\<lambda>c. if owner c = Some w then 1 else 0) (hm_remove i (calls s))"
  using hm.total_remove [OF assms, of "\<lambda>c. if owner c = Some w then 1 else 0"]
  by (simp add: owned_calls_def)

text \<open>What \<open>remove\<close> does to a call that is in the map, in closed form.\<close>

lemma remove_waiting:
  assumes "hm_get (calls s) i = Some c" and "owner c = None" and "hm_get (routes s) (call_route c) = Some r"
  shows "remove i s = (Some c, (without_call i c s)\<lparr>routes := hm_insert (call_route c)
    (r\<lparr>route_queue := filter (\<lambda>j. j \<noteq> i) (route_queue r)\<rparr>) (routes s)\<rparr>)"
  using assms by (simp add: remove_def without_call_def)

lemma remove_running:
  assumes "hm_get (calls s) i = Some c" and "owner c = Some w" and "hm_get (workers s) w = Some wk"
  shows "remove i s = (Some c, notify_waiters (notify wk)
    ((without_call i c s)\<lparr>workers := hm_insert w (wk\<lparr>running := running wk - 1\<rparr>) (workers s)\<rparr>))"
  using assms by (simp add: remove_def without_call_def)

lemma remove_none: "hm_get (calls s) i = None \<Longrightarrow> remove i s = (None, s)"
  by (simp add: remove_def)

lemma remove_inv:
  assumes inv: "rpc_inv X s" and c: "hm_get (calls s) i = Some c" and X: "response c \<Longrightarrow> i \<in> X'" "X \<subseteq> X'"
  shows "fst (remove i s) = Some c \<and> rpc_inv X' (snd (remove i s))"
proof -
  have parts: "tables_ok s" "budget_ok s" "routes_ok s" "calls_ok s" "workers_ok s" "channels_ok X s" "0 < next_id s"
    using inv by (simp_all add: rpc_inv_def)
  have ok: "hm_ok (calls s)" using parts(1) by (simp add: tables_ok_def)
  have budget: "unat (rpc_retained_bytes (without_call i c s)) = hm.total call_cost (hm_remove i (calls s))"
      "rpc_retained_bytes (without_call i c s) \<le> max_bytes s" "length (hm_remove i (calls s)) \<le> max_calls s"
    using without_call_budget [OF ok _ _ c] parts(2) length_remove [OF ok c] by (simp_all add: budget_ok_def)
  have chans: "\<forall>j. (j \<notin> X' \<longrightarrow> (channels s j = Some Open \<longleftrightarrow> j \<noteq> i \<and> holds_sender s j))
      \<and> (channels s j \<noteq> None \<longleftrightarrow> 0 < j \<and> j < next_id s)"
    using parts(6) X c unfolding channels_ok_def holds_sender_def by (metis option.inject subsetD)
  show ?thesis
  proof (cases "owner c")
    case None
    then obtain r where r: "hm_get (routes s) (call_route c) = Some r"
      using parts(4) c by (fastforce simp: calls_ok_def)
    let ?s = "(without_call i c s)\<lparr>routes := hm_insert (call_route c)
      (r\<lparr>route_queue := filter (\<lambda>j. j \<noteq> i) (route_queue r)\<rparr>) (routes s)\<rparr>"
    have rm: "remove i s = (Some c, ?s)" using remove_waiting [OF c None r] .
    have wait: "waiting_call ?s name j \<longleftrightarrow> j \<noteq> i \<and> waiting_call s name j" for name j
      by (simp add: waiting_call_def)
    have own: "owned_calls ?s w = owned_calls s w" for w
      using owned_calls_remove [OF ok c, of w] None by (simp add: owned_calls_def)
    have hold: "holds_sender ?s j \<longleftrightarrow> j \<noteq> i \<and> holds_sender s j" for j by (simp add: holds_sender_def)
    have "routes_ok ?s"
      unfolding routes_ok_def
    proof (intro allI impI)
      fix name r' assume r': "hm_get (routes ?s) name = Some r'"
      show "distinct (route_queue r') \<and> (\<forall>j. j \<in> set (route_queue r') \<longleftrightarrow> waiting_call ?s name j)
        \<and> length (route_queue r') \<le> route_queue_limit r' \<and> route_workers r' \<noteq> [] \<and> distinct (route_workers r')
        \<and> (\<forall>w. w \<in> set (route_workers r') \<longleftrightarrow> (\<exists>wk. hm_get (workers ?s) w = Some wk \<and> worker_route wk = name))"
      proof (cases "name = call_route c")
        case True
        have r'_eq: "r' = r\<lparr>route_queue := filter (\<lambda>j. j \<noteq> i) (route_queue r)\<rparr>" using r' True by simp
        note old = parts(3) [unfolded routes_ok_def, rule_format, OF r, folded True]
        have "length (filter (\<lambda>j. j \<noteq> i) (route_queue r)) \<le> route_queue_limit r"
          by (rule le_trans [OF length_filter_le]) (use old in simp)
        then show ?thesis using old unfolding wait by (simp add: r'_eq conj_commute)
      next
        case False
        then have "\<not> waiting_call s name i" using c by (auto simp: waiting_call_def)
        then have "\<forall>j. waiting_call ?s name j \<longleftrightarrow> waiting_call s name j" by (metis wait)
        then show ?thesis
          using parts(3) r' False by (simp add: routes_ok_def)
      qed
    qed
    moreover have "calls_ok ?s" using parts(4) by (auto simp: calls_ok_def)
    moreover have "workers_ok ?s" using parts(5) by (auto simp: workers_ok_def own)
    ultimately show ?thesis
      using parts(1,7) budget chans rm
      by (simp add: rpc_inv_def tables_ok_def budget_ok_def channels_ok_def hold)
  next
    case (Some w)
    then obtain wk where wk: "hm_get (workers s) w = Some wk"
      using parts(4) c by (fastforce simp: calls_ok_def)
    define t where "t = (without_call i c s)\<lparr>workers := hm_insert w (wk\<lparr>running := running wk - 1\<rparr>) (workers s)\<rparr>"
    have rm: "remove i s = (Some c, notify_waiters (notify wk) t)" unfolding t_def using remove_running [OF c Some wk] .
    have fields: "routes t = routes s" "workers t = hm_insert w (wk\<lparr>running := running wk - 1\<rparr>) (workers s)"
      "calls t = hm_remove i (calls s)" "connections t = connections s" "next_id t = next_id s"
      "max_bytes t = max_bytes s" "max_calls t = max_calls s" "notifies t = notifies s" "channels t = channels s"
      "rpc_retained_bytes t = rpc_retained_bytes (without_call i c s)"
      by (simp_all add: t_def)
    have wait: "waiting_call t name j \<longleftrightarrow> waiting_call s name j" for name j
      using c Some by (auto simp: waiting_call_def fields)
    have own: "owned_calls s v = (if v = w then 1 else 0) + owned_calls t v" for v
      using owned_calls_remove [OF ok c, of v] Some by (auto simp: owned_calls_def fields)
    have hold: "holds_sender t j \<longleftrightarrow> j \<noteq> i \<and> holds_sender s j" for j by (simp add: holds_sender_def fields)
    have "routes_ok t" using parts(3) wk by (auto simp: routes_ok_def wait fields)
    moreover have "calls_ok t" using parts(4) by (auto simp: calls_ok_def fields)
    moreover have "workers_ok t"
      unfolding workers_ok_def
    proof (intro allI impI)
      fix v vk assume v: "hm_get (workers t) v = Some vk"
      show "hm_get (routes t) (worker_route vk) \<noteq> None \<and> running vk = owned_calls t v
        \<and> owned_calls t v \<le> concurrency vk \<and> pending_takes vk \<le> concurrency vk \<and> v \<in> connections t
        \<and> notify vk < length (notifies t)"
      proof (cases "v = w")
        case True
        with v have "vk = wk\<lparr>running := running wk - 1\<rparr>" by (simp add: fields)
        then show ?thesis
          using parts(5) [unfolded workers_ok_def, rule_format, OF wk] own [of v] True by (simp add: fields)
      next
        case False
        with v have "hm_get (workers s) v = Some vk" by (simp add: fields)
        from parts(5) [unfolded workers_ok_def, rule_format, OF this] show ?thesis
          using own [of v] False by (simp add: fields)
      qed
    qed
    ultimately have "rpc_inv X' t"
      using parts(1,7) budget chans
      by (simp add: rpc_inv_def tables_ok_def budget_ok_def channels_ok_def hold fields)
    then show ?thesis by (simp add: rm)
  qed
qed

text \<open>The answer that follows the removal closes the gap.\<close>

lemma send_inv:
  assumes "rpc_inv X s" and "\<not> holds_sender s i" and "0 < i" and "i < next_id s"
  shows "rpc_inv (X - {i}) (send i r s)"
proof -
  have eq: "waiting_call (send i r s) = waiting_call s" "holds_sender (send i r s) = holds_sender s"
    "owned_calls (send i r s) = owned_calls s"
    by (simp_all add: fun_eq_iff send_def waiting_call_def holds_sender_def owned_calls_def)
  have fields: "routes (send i r s) = routes s" "workers (send i r s) = workers s" "calls (send i r s) = calls s"
    "connections (send i r s) = connections s" "next_id (send i r s) = next_id s"
    "rpc_retained_bytes (send i r s) = rpc_retained_bytes s" "max_bytes (send i r s) = max_bytes s"
    "max_calls (send i r s) = max_calls s" "notifies (send i r s) = notifies s"
    "channels (send i r s) = (channels s)(i \<mapsto> Sent r)"
    by (simp_all add: send_def)
  have "channels_ok (X - {i}) (send i r s)"
    using assms by (auto simp: rpc_inv_def channels_ok_def fields eq)
  then show ?thesis
    using assms(1)
    by (simp add: rpc_inv_def tables_ok_def budget_ok_def routes_ok_def calls_ok_def workers_ok_def fields eq)
qed

section \<open>Expiry\<close>

lemma settle_simps [simp]:
  "routes (settle i c ch s) = routes s" "workers (settle i c ch s) = workers s"
  "connections (settle i c ch s) = connections s" "notifies (settle i c ch s) = notifies s"
  "next_id (settle i c ch s) = next_id s" "max_bytes (settle i c ch s) = max_bytes s"
  "max_calls (settle i c ch s) = max_calls s" "calls (settle i c ch s) = hm_insert i (c\<lparr>response := False\<rparr>) (calls s)"
  "channels (settle i c ch s) = (channels s)(i \<mapsto> ch)"
  by (simp_all add: settle_def take_response_def)

lemma counters_commute:
  "send i r (s\<lparr>timed_out := n\<rparr>) = (send i r s)\<lparr>timed_out := n\<rparr>"
  by (simp add: send_def)

lemma expire_eq:
  assumes "hm_get (calls s) i = Some c"
  shows "expire i s =
    (let s = (if response c
         then (settle i c (Sent (Inl deadline_error)) s)\<lparr>timed_out := saturating_add (timed_out s) 1\<rparr> else s)
     in if owner c = None then snd (remove i s) else s)"
  using assms by (simp add: expire_def counters_commute send_take_response)

lemma expire_none: "hm_get (calls s) i = None \<Longrightarrow> expire i s = s"
  by (simp add: expire_def)

lemma expire_inv: "rpc_ok s \<Longrightarrow> rpc_ok (expire i s)"
proof (cases "hm_get (calls s) i")
  case (Some c)
  assume inv: "rpc_ok s"
  show ?thesis
  proof (cases "response c")
    case True
    let ?s = "(settle i c (Sent (Inl deadline_error)) s)\<lparr>timed_out := saturating_add (timed_out s) 1\<rparr>"
    have ok: "rpc_ok ?s" using settle_inv [OF inv Some, of "Sent (Inl deadline_error)"] by simp
    have "hm_get (calls ?s) i = Some (c\<lparr>response := False\<rparr>)" by simp
    from remove_inv [OF ok this] show ?thesis using ok True by (simp add: expire_eq [OF Some] Let_def)
  next
    case False
    then show ?thesis using inv remove_inv [OF inv Some] by (simp add: expire_eq [OF Some] Let_def)
  qed
qed (simp add: expire_none)

text \<open>
  What expiry leaves alone: the workers and the connections, and of a route everything but its
  queue, which only shrinks.
\<close>

definition same_route :: "route \<Rightarrow> route \<Rightarrow> bool" where
  "same_route r r' = (route_workers r' = route_workers r \<and> route_queue_limit r' = route_queue_limit r
     \<and> (\<exists>P. route_queue r' = filter P (route_queue r)))"

definition queues_shrink :: "state \<Rightarrow> state \<Rightarrow> bool" where
  "queues_shrink s s' =
     (workers s' = workers s \<and> connections s' = connections s \<and> notifies s' = notifies s
      \<and> next_id s' = next_id s \<and> max_bytes s' = max_bytes s \<and> max_calls s' = max_calls s
      \<and> (\<forall>name. rel_option same_route (hm_get (routes s) name) (hm_get (routes s') name)))"

lemma same_route_refl: "same_route r r"
  by (auto simp: same_route_def intro!: exI [of _ "\<lambda>_. True"])

lemma same_route_trans: "same_route r r' \<Longrightarrow> same_route r' r'' \<Longrightarrow> same_route r r''"
  unfolding same_route_def by (metis filter_filter)

lemma queues_shrink_refl: "queues_shrink s s"
  by (simp add: queues_shrink_def option.rel_refl same_route_refl)

lemma queues_shrink_trans: "queues_shrink s s' \<Longrightarrow> queues_shrink s' s'' \<Longrightarrow> queues_shrink s s''"
  unfolding queues_shrink_def
  by (metis (mono_tags, lifting) option.rel_transp same_route_trans transpD transpI)

lemma queues_shrink_remove:
  assumes "hm_get (calls s) i = Some c" and "owner c = None"
  shows "queues_shrink s (snd (remove i s))"
proof -
  have shrink: "same_route r (r\<lparr>route_queue := filter P (route_queue r)\<rparr>)" for r P
    by (auto simp: same_route_def)
  show ?thesis
    using assms by (auto simp: remove_def Let_def queues_shrink_def option.rel_refl same_route_refl shrink
        split: option.splits)
qed

lemma queues_shrink_expire: "queues_shrink s (expire i s)"
proof (cases "hm_get (calls s) i")
  case (Some c)
  define t where "t = (if response c
      then (settle i c (Sent (Inl deadline_error)) s)\<lparr>timed_out := saturating_add (timed_out s) 1\<rparr> else s)"
  have st: "queues_shrink s t"
    by (simp add: t_def queues_shrink_refl) (simp add: queues_shrink_def option.rel_refl same_route_refl)
  obtain c' where c': "hm_get (calls t) i = Some c'" "owner c' = owner c"
    using Some by (cases "response c") (simp_all add: t_def)
  have ex: "expire i s = (if owner c = None then snd (remove i t) else t)"
    by (simp add: expire_eq [OF Some] t_def Let_def)
  show ?thesis
  proof (cases "owner c = None")
    case True
    then show ?thesis using ex queues_shrink_trans [OF st queues_shrink_remove [OF c'(1)]] c'(2) by simp
  next
    case False
    then have "expire i s = t" by (simp add: ex del: not_None_eq)
    then show ?thesis by (simp add: st)
  qed
qed (simp add: expire_none queues_shrink_refl)

lemma expire_queued_inv: "rpc_ok s \<Longrightarrow> rpc_ok (expire_queued name now s)"
proof -
  assume "rpc_ok s"
  then have "rpc_ok (fold expire is s)" for "is" by (induction "is" arbitrary: s) (simp_all add: expire_inv)
  then show ?thesis by (simp add: expire_queued_def)
qed

lemma queues_shrink_expire_queued: "queues_shrink s (expire_queued name now s)"
proof -
  have "queues_shrink s (fold expire is s)" for "is"
  proof (induction "is" arbitrary: s)
    case (Cons i "is")
    show ?case using queues_shrink_trans [OF queues_shrink_expire Cons.IH] by simp
  qed (simp add: queues_shrink_refl)
  then show ?thesis by (simp add: expire_queued_def)
qed

lemma queues_shrink_route:
  assumes "queues_shrink s s'" and "hm_get (routes s) name = Some r"
  obtains r' where "hm_get (routes s') name = Some r'" and "same_route r r'"
  using assms unfolding queues_shrink_def by (metis option.rel_cases option.distinct(1) option.inject)

end
