(* ===== verification/Rpc_Ops.thy ===== *)
theory Rpc_Ops
  imports Rpc_Inv
begin

text \<open>
  Every operation of the scheduler preserves its invariant and never panics: admission,
  registration, dispatch, completion, cancellation and disconnection, one lemma each.
\<close>

section \<open>Admission\<close>

definition admit :: "rstring \<Rightarrow> route \<Rightarrow> call \<Rightarrow> state \<Rightarrow> state" where
  "admit name r c s =
     s\<lparr>next_id := next_id s + 1, channels := (channels s)(next_id s \<mapsto> Open),
       calls := hm_insert (next_id s) c (calls s),
       routes := hm_insert name (r\<lparr>route_queue := route_queue r @ [next_id s]\<rparr>) (routes s),
       rpc_retained_bytes := rpc_retained_bytes s + call_retained_bytes c,
       accepted := saturating_add (accepted s) 1\<rparr>"

lemma fresh_call: "rpc_inv X s \<Longrightarrow> hm_get (calls s) (next_id s) = None"
  by (cases "hm_get (calls s) (next_id s)") (auto simp: rpc_inv_def calls_ok_def)

lemma admit_inv:
  assumes inv: "rpc_ok s" and r: "hm_get (routes s) name = Some r"
    and c: "owner c = None" "call_route c = name" "caller c \<in> connections s" "response c"
    and room: "length (route_queue r) < route_queue_limit r" "length (calls s) < max_calls s"
      "\<not> saturating_sub (max_bytes s) (rpc_retained_bytes s) < call_retained_bytes c"
    and ids: "checked_add (next_id s) 1 = Some nid"
  shows "rpc_ok (admit name r c s)"
proof -
  let ?t = "admit name r c s" and ?i = "next_id s"
  have parts: "tables_ok s" "budget_ok s" "routes_ok s" "calls_ok s" "workers_ok s" "channels_ok {} s" "0 < next_id s"
    using inv by (simp_all add: rpc_inv_def)
  have ok: "hm_ok (calls s)" using parts(1) by (simp add: tables_ok_def)
  note new = fresh_call [OF inv]
  have less: "j < ?i + 1 \<longleftrightarrow> j < ?i \<or> j = ?i" for j
    using checked_add_Some [OF ids] by (auto simp: word_less_nat_alt word_unat_eq_iff less_Suc_eq)
  have fields: "routes ?t = hm_insert name (r\<lparr>route_queue := route_queue r @ [?i]\<rparr>) (routes s)"
    "workers ?t = workers s" "calls ?t = hm_insert ?i c (calls s)" "connections ?t = connections s"
    "next_id ?t = ?i + 1" "max_bytes ?t = max_bytes s" "max_calls ?t = max_calls s" "notifies ?t = notifies s"
    "channels ?t = (channels s)(?i \<mapsto> Open)"
    "rpc_retained_bytes ?t = rpc_retained_bytes s + call_retained_bytes c"
    by (simp_all add: admit_def)
  have wait: "waiting_call ?t n j \<longleftrightarrow> waiting_call s n j \<or> (j = ?i \<and> n = name)" for n j
    using new c by (auto simp: waiting_call_def fields)
  have own: "owned_calls ?t w = owned_calls s w" for w
    using hm.total_put_new [OF ok new, of "\<lambda>c. if owner c = Some w then 1 else 0" c] c
    by (simp add: owned_calls_def fields)
  have hold: "holds_sender ?t j \<longleftrightarrow> holds_sender s j \<or> j = ?i" for j
    using new c by (auto simp: holds_sender_def fields)
  have notin: "?i \<notin> set (route_queue r)"
    using parts(3) r new by (auto simp: routes_ok_def waiting_call_def)
  have "budget_ok ?t"
  proof -
    have le: "rpc_retained_bytes s \<le> max_bytes s" using parts(2) by (simp add: budget_ok_def)
    show ?thesis
      using admitted_fits [OF room(3) le] parts(2) hm.total_put_new [OF ok new, of call_cost c]
        length_insert_new [OF ok new, of c] room(2)
      by (simp add: budget_ok_def fields call_cost_def)
  qed
  moreover have "routes_ok ?t"
    unfolding routes_ok_def
  proof (intro allI impI)
    fix n r' assume r': "hm_get (routes ?t) n = Some r'"
    show "distinct (route_queue r') \<and> (\<forall>j. j \<in> set (route_queue r') \<longleftrightarrow> waiting_call ?t n j)
      \<and> length (route_queue r') \<le> route_queue_limit r' \<and> route_workers r' \<noteq> [] \<and> distinct (route_workers r')
      \<and> (\<forall>w. w \<in> set (route_workers r') \<longleftrightarrow> (\<exists>wk. hm_get (workers ?t) w = Some wk \<and> worker_route wk = n))"
    proof (cases "n = name")
      case True
      then have r'_eq: "r' = r\<lparr>route_queue := route_queue r @ [?i]\<rparr>" using r' by (simp add: fields)
      note old = parts(3) [unfolded routes_ok_def, rule_format, OF r]
      show ?thesis unfolding wait using old notin room(1) True by (auto simp: r'_eq fields)
    next
      case False
      with r' have "hm_get (routes s) n = Some r'" by (simp add: fields)
      from parts(3) [unfolded routes_ok_def, rule_format, OF this] False show ?thesis
        unfolding wait by (simp add: fields)
    qed
  qed
  moreover have "calls_ok ?t"
    using parts(4,7) c r new by (auto simp: calls_ok_def fields less)
  moreover have "workers_ok ?t"
    using parts(5) by (auto simp: workers_ok_def fields own)
  moreover have "channels_ok {} ?t"
    using parts(6,7) by (auto simp: channels_ok_def fields hold less)
  moreover have "0 < next_id ?t"
    using checked_add_Some [OF ids] by (simp add: fields word_gt_0 word_unat_eq_iff)
  ultimately show ?thesis using parts(1) by (simp add: rpc_inv_def tables_ok_def fields)
qed

text \<open>The outcomes of a request: refused with a reason, or admitted.\<close>

lemma request_cases:
  assumes "rpc_ok s"
  obtains (closed) "who \<notin> connections s" "request who name ms p na nb s =
      Some (Inl (error_new SERVICE_UNAVAILABLE (str ''caller connection has closed'')), s)"
  | (unserved) "who \<in> connections s" "hm_get (routes s) name = None" "request who name ms p na nb s =
      Some (Inl (error_new NO_SERVICE (str ''no worker registered for route'')),
        s\<lparr>rejected := saturating_add (rejected s) 1\<rparr>)"
  | (full) t r where "who \<in> connections s" "t = expire_queued name na s" "hm_get (routes t) name = Some r"
      "route_queue_limit r \<le> length (route_queue r) \<or> max_calls t \<le> length (calls t)
        \<or> saturating_sub (max_bytes t) (rpc_retained_bytes t) < request_cost name p"
      "request who name ms p na nb s =
      Some (Inl (error_new OVERLOADED (str ''RPC admission budget is full; request was not accepted'')),
        t\<lparr>rejected := saturating_add (rejected t) 1\<rparr>)"
  | (exhausted) t where "t = expire_queued name na s" "checked_add (next_id t) 1 = None"
      "request who name ms p na nb s =
      Some (Inl (error_new OVERLOADED (str ''RPC identifier space exhausted'')), t)"
  | (admitted) t r c where "who \<in> connections s" "t = expire_queued name na s" "hm_get (routes t) name = Some r"
      "c = \<lparr>caller = who, call_route = name, owner = None, deadline = nb + unat ms * 1000000,
            call_payload = p, response = True, call_retained_bytes = request_cost name p\<rparr>"
      "length (route_queue r) < route_queue_limit r" "length (calls t) < max_calls t"
      "\<not> saturating_sub (max_bytes t) (rpc_retained_bytes t) < request_cost name p"
      "checked_add (next_id t) 1 = Some (next_id t + 1)"
      "request who name ms p na nb s =
        Some (Inr \<lparr>tk_call_id = next_id t, tk_deadline = deadline c\<rparr>, notify_route name (admit name r c t))"
proof -
  show thesis
  proof (cases "who \<in> connections s \<and> hm_get (routes s) name \<noteq> None")
    case False
    then show thesis using closed unserved by (auto simp: request_def)
  next
    case True
    define t where "t = expire_queued name na s"
    from True obtain r0 where r0: "hm_get (routes s) name = Some r0" by auto
    from queues_shrink_route [OF queues_shrink_expire_queued r0, of name na, folded t_def]
    obtain r where r: "hm_get (routes t) name = Some r" by metis
    consider "route_queue_limit r \<le> length (route_queue r) \<or> max_calls t \<le> length (calls t)
        \<or> saturating_sub (max_bytes t) (rpc_retained_bytes t) < request_cost name p"
      | "\<not> (route_queue_limit r \<le> length (route_queue r) \<or> max_calls t \<le> length (calls t)
        \<or> saturating_sub (max_bytes t) (rpc_retained_bytes t) < request_cost name p)" "checked_add (next_id t) 1 = None"
      | nid where "\<not> (route_queue_limit r \<le> length (route_queue r) \<or> max_calls t \<le> length (calls t)
        \<or> saturating_sub (max_bytes t) (rpc_retained_bytes t) < request_cost name p)" "checked_add (next_id t) 1 = Some nid"
      by fastforce
    then show thesis
    proof cases
      case 1
      then show thesis using True r r0
        by (intro full [OF _ t_def r]) (simp_all add: request_def t_def [symmetric] Let_def)
    next
      case 2
      then show thesis using True r r0
        by (intro exhausted [OF t_def]) (simp_all add: request_def t_def [symmetric] Let_def)
    next
      case 3
      then have "nid = next_id t + 1" using checked_add_Some by blast
      with 3 True r r0 show thesis
        by (intro admitted [OF _ t_def r refl])
          (simp_all add: request_def t_def [symmetric] Let_def admit_def)
    qed
  qed
qed

lemma request_inv:
  assumes "rpc_ok s"
  obtains ans t where "request who name ms p na nb s = Some (ans, t)" "rpc_ok t"
proof -
  have ex: "rpc_ok (expire_queued name na s)" by (rule expire_queued_inv [OF assms])
  show thesis
    using assms
  proof (cases rule: request_cases [where who = who and name = name and ms = ms and p = p
        and na = na and nb = nb])
    case (admitted t r c)
    have conn: "connections t = connections s"
      using queues_shrink_expire_queued [of s name na] admitted(2) by (simp add: queues_shrink_def)
    have "rpc_ok (admit name r c t)"
      by (rule admit_inv [OF _ admitted(3) _ _ _ _ admitted(5,6) _ admitted(8)])
        (use admitted ex conn in simp_all)
    then show thesis by (intro that [OF admitted(9)]) simp
  qed (use assms ex in \<open>auto intro: that\<close>)
qed

section \<open>Connections and registration\<close>

lemma connected_inv: "rpc_ok s \<Longrightarrow> rpc_ok (connected w s)"
  by (auto simp: rpc_inv_defs connected_def waiting_call_def holds_sender_def owned_calls_def)

text \<open>The invariant at one call.\<close>

lemma call_facts:
  assumes "rpc_inv X s" and "hm_get (calls s) i = Some c"
  shows "owner c = None \<Longrightarrow> hm_get (routes s) (call_route c) \<noteq> None"
    and "owner c = Some w \<Longrightarrow> hm_get (workers s) w \<noteq> None"
    and "response c \<Longrightarrow> caller c \<in> connections s" and "0 < i" and "i < next_id s"
  using assms unfolding rpc_inv_def calls_ok_def by blast+

lemma worker_bounds:
  "rpc_inv X s \<Longrightarrow> hm_get (workers s) w = Some wk \<Longrightarrow>
     pending_takes wk \<le> concurrency wk \<and> running wk \<le> concurrency wk \<and> running wk = owned_calls s w
     \<and> hm_get (routes s) (worker_route wk) \<noteq> None"
  by (auto simp: rpc_inv_def workers_ok_def)

lemma unregistered_owns_nothing:
  assumes "rpc_ok s" and "hm_get (workers s) w = None"
  shows "owned_calls s w = 0"
proof -
  have "hm_ok (calls s)" using assms(1) by (simp add: rpc_inv_def tables_ok_def)
  moreover have "owner c \<noteq> Some w" if "hm_get (calls s) i = Some c" for i c
    using call_facts(2) [OF assms(1) that] assms(2) by blast
  ultimately show ?thesis by (simp add: owned_calls_def hm.total_0)
qed

lemma register_inv:
  assumes inv: "rpc_ok s" and run: "register w name conc lim s = (res, s')"
  shows "rpc_ok s'"
proof (cases res)
  case (Inl e)
  then show ?thesis using run inv by (auto simp: register_def Let_def split: if_splits)
next
  case (Inr u)
  have parts: "tables_ok s" "budget_ok s" "routes_ok s" "calls_ok s" "workers_ok s" "channels_ok {} s" "0 < next_id s"
    using inv by (simp_all add: rpc_inv_def)
  define r where "r = (case hm_get (routes s) name of
      Some r \<Rightarrow> r | None \<Rightarrow> \<lparr>route_workers = [], route_queue = [], route_queue_limit = lim\<rparr>)"
  define wk where "wk = \<lparr>worker_route = name, concurrency = conc, running = 0, pending_takes = 0,
      notify = length (notifies s)\<rparr>"
  have new: "w \<in> connections s" "hm_get (workers s) w = None"
    and s': "s' = s\<lparr>routes := hm_insert name (r\<lparr>route_workers := route_workers r @ [w]\<rparr>) (routes s),
        workers := hm_insert w wk (workers s), notifies := notifies s @ [0]\<rparr>"
    using run Inr by (auto simp: register_def Let_def r_def wk_def split: if_splits)
  have fields: "routes s' = hm_insert name (r\<lparr>route_workers := route_workers r @ [w]\<rparr>) (routes s)"
    "workers s' = hm_insert w wk (workers s)" "notifies s' = notifies s @ [0]" "calls s' = calls s"
    "connections s' = connections s" "next_id s' = next_id s" "max_bytes s' = max_bytes s"
    "max_calls s' = max_calls s" "channels s' = channels s" "rpc_retained_bytes s' = rpc_retained_bytes s"
    by (simp_all add: s')
  have preds: "waiting_call s' = waiting_call s" "holds_sender s' = holds_sender s" "owned_calls s' = owned_calls s"
    by (simp_all add: fun_eq_iff waiting_call_def holds_sender_def owned_calls_def fields)
  have old: "distinct (route_queue r) \<and> (\<forall>j. j \<in> set (route_queue r) \<longleftrightarrow> waiting_call s name j)
      \<and> length (route_queue r) \<le> route_queue_limit r \<and> distinct (route_workers r)
      \<and> (\<forall>v. v \<in> set (route_workers r) \<longleftrightarrow> (\<exists>vk. hm_get (workers s) v = Some vk \<and> worker_route vk = name))"
  proof (cases "hm_get (routes s) name")
    case None
    then have "\<not> waiting_call s name j" for j using call_facts(1) [OF inv] unfolding waiting_call_def by blast
    moreover have "\<not> (\<exists>vk. hm_get (workers s) v = Some vk \<and> worker_route vk = name)" for v
      using worker_bounds [OF inv] None by blast
    ultimately show ?thesis by (auto simp: r_def None)
  next
    case (Some r1)
    then show ?thesis using parts(3) [unfolded routes_ok_def, rule_format, OF Some] by (simp add: r_def)
  qed
  have "routes_ok s'"
    unfolding routes_ok_def preds
  proof (intro allI impI)
    fix n r' assume r': "hm_get (routes s') n = Some r'"
    show "distinct (route_queue r') \<and> (\<forall>j. j \<in> set (route_queue r') \<longleftrightarrow> waiting_call s n j)
      \<and> length (route_queue r') \<le> route_queue_limit r' \<and> route_workers r' \<noteq> [] \<and> distinct (route_workers r')
      \<and> (\<forall>v. v \<in> set (route_workers r') \<longleftrightarrow> (\<exists>vk. hm_get (workers s') v = Some vk \<and> worker_route vk = n))"
    proof (cases "n = name")
      case True
      then have "r' = r\<lparr>route_workers := route_workers r @ [w]\<rparr>" using r' by (simp add: fields)
      then show ?thesis using old new True by (auto simp: fields wk_def)
    next
      case False
      with r' have "hm_get (routes s) n = Some r'" by (simp add: fields)
      from parts(3) [unfolded routes_ok_def, rule_format, OF this] False new show ?thesis
        by (auto simp: fields wk_def)
    qed
  qed
  moreover have "calls_ok s'" using parts(4) by (auto simp: calls_ok_def fields)
  moreover have "workers_ok s'"
    using parts(5) unregistered_owns_nothing [OF inv new(2)] new
    by (auto simp: workers_ok_def fields wk_def preds less_SucI)
  ultimately show ?thesis
    using parts by (simp add: rpc_inv_def tables_ok_def budget_ok_def channels_ok_def fields preds)
qed

section \<open>Waiting for work\<close>

text \<open>Changing the count of pending takes of a worker.\<close>

lemma pending_takes_inv:
  assumes inv: "rpc_ok s" and w: "hm_get (workers s) w = Some wk" and n: "n \<le> concurrency wk"
  shows "rpc_ok (s\<lparr>workers := hm_insert w (wk\<lparr>pending_takes := n\<rparr>) (workers s)\<rparr>)"
proof -
  let ?t = "s\<lparr>workers := hm_insert w (wk\<lparr>pending_takes := n\<rparr>) (workers s)\<rparr>"
  have parts: "tables_ok s" "budget_ok s" "routes_ok s" "calls_ok s" "workers_ok s" "channels_ok {} s" "0 < next_id s"
    using inv by (simp_all add: rpc_inv_def)
  have preds: "waiting_call ?t = waiting_call s" "holds_sender ?t = holds_sender s" "owned_calls ?t = owned_calls s"
    by (simp_all add: fun_eq_iff waiting_call_def holds_sender_def owned_calls_def)
  have "routes_ok ?t" using parts(3) w by (auto simp: routes_ok_def preds)
  moreover have "calls_ok ?t" using parts(4) w by (auto simp: calls_ok_def)
  moreover have "workers_ok ?t"
    using parts(5) [unfolded workers_ok_def, rule_format] w n unfolding workers_ok_def preds by auto
  ultimately show ?thesis
    using parts by (simp add: rpc_inv_def tables_ok_def budget_ok_def channels_ok_def preds)
qed

lemma take_begin_inv: "rpc_ok s \<Longrightarrow> rpc_ok (snd (take_begin w s))"
  using pending_takes_inv by (auto simp: take_begin_def split: option.splits)

lemma take_guard_drop_inv:
  assumes "rpc_ok s"
  shows "rpc_ok (take_guard_drop w s)"
proof (cases "hm_get (workers s) w")
  case (Some wk)
  have "pending_takes wk - 1 \<le> concurrency wk" using worker_bounds [OF assms Some] by linarith
  from pending_takes_inv [OF assms Some this] show ?thesis by (simp add: take_guard_drop_def Some)
qed (simp add: take_guard_drop_def assms)

section \<open>Dispatch\<close>

definition dispatched :: "u64 \<Rightarrow> worker \<Rightarrow> rstring \<Rightarrow> route \<Rightarrow> u64 list \<Rightarrow> u64 \<Rightarrow> call \<Rightarrow> state \<Rightarrow> state" where
  "dispatched w wk name r queue i c s =
     s\<lparr>routes := hm_insert name (r\<lparr>route_queue := queue\<rparr>) (routes s),
       calls := hm_insert i (c\<lparr>owner := Some w\<rparr>) (calls s),
       workers := hm_insert w (wk\<lparr>running := running wk + 1\<rparr>) (workers s)\<rparr>"

lemma dispatched_inv:
  assumes inv: "rpc_ok s" and r: "hm_get (routes s) name = Some r" "route_queue r = i # queue"
    and c: "hm_get (calls s) i = Some c" and w: "hm_get (workers s) w = Some wk" "running wk < concurrency wk"
  shows "rpc_ok (dispatched w wk name r queue i c s)"
proof -
  define t where "t = dispatched w wk name r queue i c s"
  have fields: "routes t = hm_insert name (r\<lparr>route_queue := queue\<rparr>) (routes s)"
    "calls t = hm_insert i (c\<lparr>owner := Some w\<rparr>) (calls s)"
    "workers t = hm_insert w (wk\<lparr>running := running wk + 1\<rparr>) (workers s)"
    "connections t = connections s" "next_id t = next_id s" "max_bytes t = max_bytes s" "max_calls t = max_calls s"
    "notifies t = notifies s" "channels t = channels s" "rpc_retained_bytes t = rpc_retained_bytes s"
    by (simp_all add: t_def dispatched_def)
  have parts: "tables_ok s" "budget_ok s" "routes_ok s" "calls_ok s" "workers_ok s" "channels_ok {} s" "0 < next_id s"
    using inv by (simp_all add: rpc_inv_def)
  have ok: "hm_ok (calls s)" using parts(1) by (simp add: tables_ok_def)
  note old = parts(3) [unfolded routes_ok_def, rule_format, OF r(1)]
  have "i \<in> set (route_queue r)" using r(2) by simp
  with old have "waiting_call s name i" by blast
  then have free: "owner c = None" "call_route c = name" using c by (auto simp: waiting_call_def)
  have wait: "waiting_call t n j \<longleftrightarrow> j \<noteq> i \<and> waiting_call s n j" for n j
    by (auto simp: waiting_call_def fields)
  have hold: "holds_sender t = holds_sender s" using c by (auto simp: fun_eq_iff holds_sender_def fields)
  have own: "owned_calls t v = (if v = w then 1 else 0) + owned_calls s v" for v
    using hm.total_put_old [OF ok c, of "\<lambda>c. if owner c = Some v then 1 else 0" "c\<lparr>owner := Some w\<rparr>"] free
    by (auto simp: owned_calls_def fields)
  have "budget_ok t"
    using parts(2) hm.total_put_old [OF ok c, of call_cost "c\<lparr>owner := Some w\<rparr>"] length_insert_old [OF ok c]
    by (simp add: budget_ok_def fields call_cost_def)
  moreover have "routes_ok t"
    unfolding routes_ok_def
  proof (intro allI impI)
    fix n r' assume r': "hm_get (routes t) n = Some r'"
    show "distinct (route_queue r') \<and> (\<forall>j. j \<in> set (route_queue r') \<longleftrightarrow> waiting_call t n j)
      \<and> length (route_queue r') \<le> route_queue_limit r' \<and> route_workers r' \<noteq> [] \<and> distinct (route_workers r')
      \<and> (\<forall>v. v \<in> set (route_workers r') \<longleftrightarrow> (\<exists>vk. hm_get (workers t) v = Some vk \<and> worker_route vk = n))"
    proof (cases "n = name")
      case True
      then have "r' = r\<lparr>route_queue := queue\<rparr>" using r' by (simp add: fields)
      then show ?thesis unfolding wait using old r(2) w True by (auto simp: fields)
    next
      case False
      then have "\<not> waiting_call s n i" using c free by (auto simp: waiting_call_def)
      moreover from False r' have "hm_get (routes s) n = Some r'" by (simp add: fields)
      ultimately show ?thesis
        using parts(3) [unfolded routes_ok_def, rule_format, of n r'] w unfolding wait by (auto simp: fields)
    qed
  qed
  moreover have "calls_ok t" using parts(4) c w by (auto simp: calls_ok_def fields)
  moreover have "workers_ok t"
    unfolding workers_ok_def
  proof (intro allI impI)
    fix v vk assume v: "hm_get (workers t) v = Some vk"
    show "hm_get (routes t) (worker_route vk) \<noteq> None \<and> running vk = owned_calls t v
      \<and> owned_calls t v \<le> concurrency vk \<and> pending_takes vk \<le> concurrency vk \<and> v \<in> connections t
      \<and> notify vk < length (notifies t)"
    proof (cases "v = w")
      case True
      with v have "vk = wk\<lparr>running := running wk + 1\<rparr>" by (simp add: fields)
      then show ?thesis
        using parts(5) [unfolded workers_ok_def, rule_format, OF w(1)] own [of v] True w(2) by (simp add: fields)
    next
      case False
      with v have "hm_get (workers s) v = Some vk" by (simp add: fields)
      from parts(5) [unfolded workers_ok_def, rule_format, OF this] show ?thesis
        using own [of v] False by (simp add: fields)
    qed
  qed
  moreover have "tables_ok t" using parts(1) by (simp add: tables_ok_def fields)
  moreover have "channels_ok {} t" using parts(6) by (simp add: channels_ok_def fields hold)
  ultimately show ?thesis using parts(7) fields(5) unfolding t_def rpc_inv_def by simp
qed

end
