(* ===== verification/Rpc_Finish.thy ===== *)
theory Rpc_Finish
  imports Rpc_Ops
begin

text \<open>
  The operations that end calls: an iteration of \<open>try_take\<close>, completion, cancellation and
  disconnection. They preserve the invariant, never panic, and answer every call they end.
\<close>

section \<open>One iteration of \<open>try_take\<close>\<close>

lemma hm_insert_twice: "hm_insert k v (hm_insert k v' m) = hm_insert k v m"
  unfolding hm_insert_def by (induction m) auto

text \<open>Popping the call first makes no difference to its expiry.\<close>

lemma expire_popped:
  assumes r: "hm_get (routes s) name = Some r" "route_queue r = i # queue" "i \<notin> set queue"
    and c: "hm_get (calls s) i = Some c" "owner c = None" "call_route c = name"
  shows "expire i (s\<lparr>routes := hm_insert name (r\<lparr>route_queue := queue\<rparr>) (routes s)\<rparr>) = expire i s"
proof -
  have "filter (\<lambda>j. j \<noteq> i) queue = queue" using r(3) by (auto simp: filter_id_conv)
  then show ?thesis
    using assms by (simp add: expire_def remove_def take_response_def send_def Let_def hm_insert_twice)
qed

text \<open>The outcomes of an iteration.\<close>

lemma try_take_once_cases:
  assumes inv: "rpc_ok s"
  obtains (refused) "hm_get (workers s) w = None" "try_take_once w na nb s =
      Some (Refused (error_new UNAUTHORIZED (str ''TAKE requires a registered worker'')), s)"
  | (busy) wk where "hm_get (workers s) w = Some wk" "concurrency wk \<le> running wk"
      "try_take_once w na nb s = Some (Idle, s)"
  | (idle) wk t r where "hm_get (workers s) w = Some wk" "running wk < concurrency wk"
      "t = expire_queued (worker_route wk) na s" "rpc_ok t" "hm_get (workers t) w = Some wk"
      "hm_get (routes t) (worker_route wk) = Some r" "route_queue r = []" "try_take_once w na nb s = Some (Idle, t)"
  | (again) wk t r i queue c where "hm_get (workers s) w = Some wk" "running wk < concurrency wk"
      "t = expire_queued (worker_route wk) na s" "rpc_ok t" "hm_get (routes t) (worker_route wk) = Some r"
      "route_queue r = i # queue" "hm_get (calls t) i = Some c" "owner c = None" "call_route c = worker_route wk"
      "deadline c \<le> nb" "try_take_once w na nb s = Some (Again, expire i t)"
  | (dispatch) wk t r i queue c where "hm_get (workers s) w = Some wk" "running wk < concurrency wk"
      "t = expire_queued (worker_route wk) na s" "rpc_ok t" "hm_get (workers t) w = Some wk"
      "hm_get (routes t) (worker_route wk) = Some r"
      "route_queue r = i # queue" "hm_get (calls t) i = Some c" "owner c = None" "call_route c = worker_route wk"
      "nb < deadline c"
      "try_take_once w na nb s = Some (Dispatch \<lparr>job_call_id = i, job_remaining_ms = remaining_ms (deadline c) nb,
         job_payload = call_payload c\<rparr>, dispatched w wk (worker_route wk) r queue i c t)"
proof (cases "hm_get (workers s) w")
  case None
  then show thesis by (intro refused) (simp_all add: try_take_once_def)
next
  case (Some wk)
  show thesis
  proof (cases "concurrency wk \<le> running wk")
    case True
    with Some show thesis by (intro busy) (simp_all add: try_take_once_def)
  next
    case False
    define t where "t = expire_queued (worker_route wk) na s"
    have ok: "rpc_ok t" unfolding t_def by (rule expire_queued_inv [OF inv])
    have shrink: "queues_shrink s t" unfolding t_def by (rule queues_shrink_expire_queued)
    then have wt: "hm_get (workers t) w = Some wk" using Some by (simp add: queues_shrink_def)
    then obtain r where r: "hm_get (routes t) (worker_route wk) = Some r" using worker_bounds [OF ok] by blast
    show thesis
    proof (cases "route_queue r")
      case Nil
      then show thesis using Some False ok wt r
        by (intro idle [OF _ _ t_def]) (simp_all add: try_take_once_def t_def [symmetric] Let_def)
    next
      case (Cons i queue)
      have rt: "distinct (route_queue r)" "\<And>j. j \<in> set (route_queue r) \<longleftrightarrow> waiting_call t (worker_route wk) j"
        using ok r by (auto simp: rpc_inv_def routes_ok_def)
      then have "waiting_call t (worker_route wk) i" using Cons by (metis list.set_intros(1))
      then obtain c where c: "hm_get (calls t) i = Some c" "owner c = None" "call_route c = worker_route wk"
        by (auto simp: waiting_call_def)
      have i: "i \<notin> set queue" using rt(1) Cons by simp
      show thesis
      proof (cases "deadline c \<le> nb")
        case True
        have "try_take_once w na nb s = Some (Again, expire i t)"
          using Some False r Cons c True expire_popped [OF r Cons i c]
          by (simp add: try_take_once_def t_def [symmetric] Let_def)
        then show thesis using Some False ok r Cons c True by (intro again [OF _ _ t_def]) simp_all
      next
        case late: False
        have "try_take_once w na nb s = Some (Dispatch \<lparr>job_call_id = i, job_remaining_ms = remaining_ms (deadline c) nb,
            job_payload = call_payload c\<rparr>, dispatched w wk (worker_route wk) r queue i c t)"
          using Some False r Cons c late wt
          by (simp add: try_take_once_def t_def [symmetric] Let_def dispatched_def)
        then show thesis using Some False ok wt r Cons c late by (intro dispatch [OF _ _ t_def]) simp_all
      qed
    qed
  qed
qed

lemma try_take_once_inv:
  assumes "rpc_ok s"
  obtains res t where "try_take_once w na nb s = Some (res, t)" "rpc_ok t"
  using assms
proof (cases rule: try_take_once_cases [where w = w and na = na and nb = nb])
  case (again wk t r i queue c)
  then show thesis using that expire_inv by blast
next
  case (dispatch wk t r i queue c)
  then show thesis using that dispatched_inv by blast
qed (use assms that in blast)+

section \<open>Completion\<close>

lemma expire_other: "j \<noteq> i \<Longrightarrow> hm_get (calls (expire i s)) j = hm_get (calls s) j"
  by (auto simp: expire_def remove_def take_response_def send_def notify_waiters_def Let_def split: option.splits)

text \<open>Removing a call and answering it.\<close>

lemma remove_calls:
  "hm_get (calls s) i = Some c \<Longrightarrow> calls (snd (remove i s)) = hm_remove i (calls s)
    \<and> next_id (snd (remove i s)) = next_id s \<and> channels (snd (remove i s)) = channels s
    \<and> connections (snd (remove i s)) = connections s"
  by (auto simp: remove_def Let_def notify_waiters_def split: option.splits)

lemma remove_send_inv:
  assumes inv: "rpc_ok s" and c: "hm_get (calls s) i = Some c"
  shows "rpc_ok (if response c then send i r (snd (remove i s)) else snd (remove i s))"
proof (cases "response c")
  case True
  have rm: "rpc_inv {i} (snd (remove i s))" using remove_inv [OF inv c, of "{i}"] by simp
  have "\<not> holds_sender (snd (remove i s)) i" using remove_calls [OF c] by (simp add: holds_sender_def)
  moreover have "0 < i" "i < next_id (snd (remove i s))" using call_facts(4,5) [OF inv c] remove_calls [OF c] by simp_all
  ultimately have "rpc_inv ({i} - {i}) (send i r (snd (remove i s)))" by (rule send_inv [OF rm])
  then show ?thesis using True by simp
next
  case False
  then show ?thesis using remove_inv [OF inv c, of "{}"] by simp
qed

text \<open>What a completion answers.\<close>

definition completion_reply :: "call \<Rightarrow> bool \<Rightarrow> bytes \<Rightarrow> nat \<Rightarrow> reply" where
  "completion_reply c failed payload now =
     (if deadline c \<le> now then Inl deadline_error
      else if failed then Inl (error_new HANDLER_ERROR (from_utf8_lossy payload)) else Inr payload)"

lemma complete_cases:
  obtains (unregistered) "hm_get (workers s) w = None" "complete w i failed p now s =
      Some (Inl (error_new UNAUTHORIZED (str ''COMPLETE requires a registered worker'')), s)"
  | (unknown) "hm_get (calls s) i = None" "complete w i failed p now s =
      Some (Inl (error_new INVALID (str ''unknown or already completed call'')), s)"
  | (foreign) c where "hm_get (calls s) i = Some c" "owner c \<noteq> Some w" "complete w i failed p now s =
      Some (Inl (error_new UNAUTHORIZED (str ''call belongs to another worker'')), s)"
  | (completed) c n m where "hm_get (calls s) i = Some c" "owner c = Some w" "complete w i failed p now s =
      Some (Inr (), (if response c then send i (completion_reply c failed p now) (snd (remove i s))
        else snd (remove i s))\<lparr>completed := n, timed_out := m\<rparr>)"
proof -
  have upd: "t\<lparr>completed := n\<rparr> = t\<lparr>completed := n, timed_out := timed_out t\<rparr>" for t n by simp
  show thesis
  proof (cases "hm_get (workers s) w = None")
    case True
    then show thesis by (intro unregistered) (simp_all add: complete_def)
  next
    case reg: False
    show thesis
    proof (cases "hm_get (calls s) i")
      case None
      from reg obtain wk where "hm_get (workers s) w = Some wk" by auto
      with None show thesis by (intro unknown) (simp_all add: complete_def)
    next
      case (Some c)
      show thesis
      proof (cases "owner c = Some w")
        case False
        from reg obtain wk where "hm_get (workers s) w = Some wk" by auto
        with Some False show thesis by (intro foreign) (simp_all add: complete_def)
      next
        case True
        have rm: "remove i s = (Some c, snd (remove i s))" using Some by (simp add: remove_def Let_def)
        show thesis
          using reg Some True rm
          by (intro completed [OF Some True, where n = "saturating_add (completed (snd (remove i s))) 1"
              and m = "if response c \<and> deadline c \<le> now then saturating_add (timed_out (snd (remove i s))) 1
               else timed_out (snd (remove i s))"])
            (cases "remove i s", auto simp: complete_def Let_def completion_reply_def send_def)
      qed
    qed
  qed
qed

lemma complete_inv:
  assumes "rpc_ok s"
  obtains res t where "complete w i failed p now s = Some (res, t)" "rpc_ok t"
proof (cases rule: complete_cases [of s w i failed p now])
  case (completed c n m)
  have "rpc_ok ((if response c then send i (completion_reply c failed p now) (snd (remove i s))
        else snd (remove i s))\<lparr>completed := n, timed_out := m\<rparr>)"
    using remove_send_inv [OF assms completed(1)] by simp
  then show thesis using completed(3) that by blast
qed (use assms that in blast)+

section \<open>Cancellation\<close>

lemma cancel_eq:
  assumes "hm_get (calls s) i = Some c"
  shows "cancel i s = (let s = (if response c then settle i c Closed s else s)
     in if owner c = None then snd (remove i s) else s)"
  using assms by (simp add: cancel_def drop_take_response)

lemma settle_remove_inv:
  assumes inv: "rpc_inv X s" and c: "hm_get (calls s) i = Some c"
  shows "rpc_inv X (let s = (if response c then settle i c Closed s else s)
     in if owner c = None then snd (remove i s) else s)"
proof (cases "response c")
  case True
  have ok: "rpc_inv X (settle i c Closed s)" using settle_inv [OF inv c, of Closed] by simp
  have "hm_get (calls (settle i c Closed s)) i = Some (c\<lparr>response := False\<rparr>)" by simp
  from remove_inv [OF ok this] ok True show ?thesis by (simp add: Let_def)
next
  case False
  then show ?thesis using inv remove_inv [OF inv c] by (simp add: Let_def)
qed

lemma cancel_inv: "rpc_ok s \<Longrightarrow> rpc_ok (cancel i s)"
proof (cases "hm_get (calls s) i")
  case (Some c)
  assume "rpc_ok s"
  from settle_remove_inv [OF this Some] show ?thesis by (simp only: cancel_eq [OF Some])
qed (simp add: cancel_def)

section \<open>Disconnection\<close>

text \<open>The first loop: the calls of a caller that has gone.\<close>

lemma drop_calls_step:
  assumes "hm_get (calls s) i = Some c"
  shows "drop_calls (i # is) s = drop_calls is (let s = (if response c then settle i c Closed s else s)
     in if owner c = None then snd (remove i s) else s)"
  using assms by (simp add: drop_take_response Let_def)

definition same_call :: "call \<Rightarrow> call \<Rightarrow> bool" where
  "same_call c c' = (caller c' = caller c \<and> call_route c' = call_route c \<and> owner c' = owner c
     \<and> deadline c' = deadline c \<and> (response c' \<longrightarrow> response c))"

lemma drop_calls_inv:
  assumes "rpc_ok s" and "distinct is" and "\<forall>i\<in>set is. hm_get (calls s) i \<noteq> None"
  shows "\<exists>t. drop_calls is s = Some t \<and> rpc_ok t \<and> queues_shrink s t
    \<and> (\<forall>j c. hm_get (calls t) j = Some c \<longrightarrow> (j \<in> set is \<longrightarrow> \<not> response c)
         \<and> (\<exists>c0. hm_get (calls s) j = Some c0 \<and> same_call c0 c))
    \<and> (\<forall>j c. hm_get (calls s) j = Some c \<and> (j \<notin> set is \<or> owner c \<noteq> None) \<longrightarrow>
         (\<exists>c'. hm_get (calls t) j = Some c' \<and> same_call c c'))"
  using assms
proof (induction "is" arbitrary: s)
  case Nil
  then show ?case by (auto simp: queues_shrink_refl same_call_def)
next
  case (Cons i "is")
  then obtain c where c: "hm_get (calls s) i = Some c" by auto
  define t where "t = (let s = (if response c then settle i c Closed s else s)
     in if owner c = None then snd (remove i s) else s)"
  have ok: "rpc_ok t" unfolding t_def by (rule settle_remove_inv [OF Cons.prems(1) c])
  have calls_t: "hm_get (calls t) j = (if j \<noteq> i then hm_get (calls s) j
      else if owner c = None then None else Some (c\<lparr>response := False\<rparr>))" for j
  proof -
    have "hm_get (calls (settle i c Closed s)) i = Some (c\<lparr>response := False\<rparr>)" by simp
    note rm = remove_calls [OF this] remove_calls [OF c]
    have "\<not> response c \<Longrightarrow> c\<lparr>response := False\<rparr> = c" by simp
    then show ?thesis using rm c by (auto simp: t_def Let_def)
  qed
  have shrink: "queues_shrink s t"
  proof -
    have s1: "queues_shrink s (settle i c Closed s)" by (simp add: queues_shrink_def option.rel_refl same_route_refl)
    have s2: "owner c = None \<Longrightarrow> queues_shrink (settle i c Closed s) (snd (remove i (settle i c Closed s)))"
      by (rule queues_shrink_remove [where c = "c\<lparr>response := False\<rparr>"]) simp_all
    show ?thesis
      using queues_shrink_trans [OF s1 s2] s1 queues_shrink_remove [OF c] queues_shrink_refl [of s]
      by (cases "response c"; cases "owner c") (simp_all add: t_def Let_def)
  qed
  have "\<forall>j\<in>set is. hm_get (calls t) j \<noteq> None" using Cons.prems(2,3) by (auto simp: calls_t)
  from Cons.IH [OF ok _ this] Cons.prems(2) obtain u where u: "drop_calls is t = Some u" "rpc_ok u" "queues_shrink t u"
    "\<And>j c. hm_get (calls u) j = Some c \<Longrightarrow> (j \<in> set is \<longrightarrow> \<not> response c)
         \<and> (\<exists>c0. hm_get (calls t) j = Some c0 \<and> same_call c0 c)"
    "\<And>j c. hm_get (calls t) j = Some c \<Longrightarrow> j \<notin> set is \<or> owner c \<noteq> None \<Longrightarrow>
         \<exists>c'. hm_get (calls u) j = Some c' \<and> same_call c c'" by auto
  have "drop_calls (i # is) s = Some u" using drop_calls_step [OF c, of "is"] u(1) by (simp add: t_def)
  moreover have "(j \<in> set (i # is) \<longrightarrow> \<not> response c') \<and> (\<exists>c0. hm_get (calls s) j = Some c0 \<and> same_call c0 c')"
    if "hm_get (calls u) j = Some c'" for j c'
    using u(4) [OF that] c by (auto simp: calls_t same_call_def split: if_splits)
  moreover have "\<exists>c'. hm_get (calls u) j = Some c' \<and> same_call c0 c'"
    if "hm_get (calls s) j = Some c0" "j \<notin> set (i # is) \<or> owner c0 \<noteq> None" for j c0
  proof (cases "j = i")
    case True
    then have "hm_get (calls t) j = Some (c\<lparr>response := False\<rparr>)" "c0 = c" using that c by (auto simp: calls_t)
    from u(5) [OF this(1)] this(2) that True show ?thesis by (auto simp: same_call_def)
  next
    case False
    then have "hm_get (calls t) j = Some c0" using that by (simp add: calls_t)
    from u(5) [OF this] that show ?thesis by auto
  qed
  ultimately show ?case using u(2) queues_shrink_trans [OF shrink u(3)] by blast
qed

lemma drop_calls_connections:
  "drop_calls is (s\<lparr>connections := C\<rparr>) = map_option (\<lambda>t. t\<lparr>connections := C\<rparr>) (drop_calls is s)"
proof (induction "is" arbitrary: s)
  case (Cons i "is")
  have rm: "snd (remove i (s\<lparr>connections := C\<rparr>)) = (snd (remove i s))\<lparr>connections := C\<rparr>" for s i
    by (auto simp: remove_def Let_def notify_waiters_def split: option.splits)
  have st: "settle i c ch (s\<lparr>connections := C\<rparr>) = (settle i c ch s)\<lparr>connections := C\<rparr>" for s c ch
    by (simp add: settle_def take_response_def)
  show ?case
  proof (cases "hm_get (calls s) i")
    case (Some c)
    then have "hm_get (calls (s\<lparr>connections := C\<rparr>)) i = Some c" by simp
    from drop_calls_step [OF this, of "is"] drop_calls_step [OF Some, of "is"] show ?thesis
      by (simp add: Let_def st rm Cons.IH del: drop_calls.simps)
  qed simp
qed simp

end
