(* ===== verification/Rpc_Evolve.thy ===== *)
theory Rpc_Evolve
  imports Rpc_Finish
begin

text \<open>
  How calls evolve: identifiers are never reused, a call keeps its caller, route, deadline and
  payload, an owner is never changed, a sender is never regained, and a settled channel keeps its
  answer. Every operation under the lock is such an evolution.
\<close>

definition call_evolves :: "call \<Rightarrow> call \<Rightarrow> bool" where
  "call_evolves c c' = (caller c' = caller c \<and> call_route c' = call_route c \<and> deadline c' = deadline c
     \<and> call_payload c' = call_payload c \<and> call_retained_bytes c' = call_retained_bytes c
     \<and> (owner c \<noteq> None \<longrightarrow> owner c' = owner c) \<and> (response c' \<longrightarrow> response c))"

definition evolves :: "state \<Rightarrow> state \<Rightarrow> bool" where
  "evolves s s' =
     (next_id s \<le> next_id s'
      \<and> (\<forall>i c'. hm_get (calls s') i = Some c' \<and> i < next_id s \<longrightarrow>
           (\<exists>c. hm_get (calls s) i = Some c \<and> call_evolves c c'))
      \<and> (\<forall>i ch. channels s i = Some ch \<and> ch \<noteq> Open \<longrightarrow> channels s' i = Some ch))"

lemma call_evolves_refl [simp]: "call_evolves c c"
  by (simp add: call_evolves_def)

lemma call_evolves_trans: "call_evolves c c' \<Longrightarrow> call_evolves c' c'' \<Longrightarrow> call_evolves c c''"
  by (auto simp: call_evolves_def)

lemma evolves_trans: "evolves s s' \<Longrightarrow> evolves s' s'' \<Longrightarrow> evolves s s''"
  unfolding evolves_def by (meson call_evolves_trans order_less_le_trans order_trans)

lemma evolves_same:
  "next_id s' = next_id s \<Longrightarrow> calls s' = calls s \<Longrightarrow> channels s' = channels s \<Longrightarrow> evolves s s'"
  by (simp add: evolves_def)

lemma evolves_refl: "evolves s s"
  by (rule evolves_same) simp_all

lemma evolves_settle:
  assumes "rpc_ok s" and "hm_get (calls s) i = Some c" and "response c"
  shows "evolves s (settle i c ch s)"
proof -
  have "channels s i = Some Open"
    using assms by (auto simp: rpc_inv_def channels_ok_def holds_sender_def)
  then show ?thesis using assms(2) by (auto simp: evolves_def call_evolves_def)
qed

lemma evolves_remove: "evolves s (snd (remove i s))"
proof (cases "hm_get (calls s) i")
  case (Some c)
  from remove_calls [OF this] show ?thesis by (auto simp: evolves_def split: if_splits)
qed (simp add: remove_none evolves_refl)

lemma evolves_settle_remove:
  assumes "rpc_ok s" and "hm_get (calls s) i = Some c"
  shows "evolves s (let s = (if response c then settle i c ch s else s) in if owner c = None then snd (remove i s) else s)"
proof (cases "response c")
  case True
  from evolves_settle [OF assms True] show ?thesis
    using evolves_trans evolves_remove True by (simp add: Let_def) blast
qed (simp add: Let_def evolves_remove evolves_refl)

lemma evolves_expire:
  assumes "rpc_ok s"
  shows "evolves s (expire i s)"
proof (cases "hm_get (calls s) i")
  case (Some c)
  show ?thesis
  proof (cases "response c")
    case True
    let ?t = "(settle i c (Sent (Inl deadline_error)) s)\<lparr>timed_out := saturating_add (timed_out s) 1\<rparr>"
    have "evolves (settle i c (Sent (Inl deadline_error)) s) ?t" by (rule evolves_same) simp_all
    then have "evolves s ?t" using evolves_trans evolves_settle [OF assms Some True] by blast
    from evolves_trans [OF this evolves_remove] this show ?thesis
      using True by (simp add: expire_eq [OF Some] Let_def)
  qed (simp add: expire_eq [OF Some] Let_def evolves_remove evolves_refl)
qed (simp add: expire_none evolves_refl)

lemma evolves_expire_queued:
  assumes "rpc_ok s"
  shows "evolves s (expire_queued name now s)"
proof -
  have "rpc_ok s \<Longrightarrow> evolves s (fold expire is s)" for "is"
  proof (induction "is" arbitrary: s)
    case (Cons i "is")
    show ?case
      using evolves_trans [OF evolves_expire [OF Cons.prems] Cons.IH [OF expire_inv [OF Cons.prems]]] by simp
  qed (simp add: evolves_refl)
  then show ?thesis using assms by (simp add: expire_queued_def)
qed

lemma notify_route_calls:
  "calls (notify_route name s) = calls s" "channels (notify_route name s) = channels s"
  "next_id (notify_route name s) = next_id s"
proof -
  have "calls (fold notify_worker ws s) = calls s \<and> channels (fold notify_worker ws s) = channels s
      \<and> next_id (fold notify_worker ws s) = next_id s" for ws
    by (induction ws arbitrary: s) (simp_all add: notify_worker_def notify_waiters_def split: option.split)
  then show "calls (notify_route name s) = calls s" "channels (notify_route name s) = channels s"
    "next_id (notify_route name s) = next_id s"
    by (simp_all add: notify_route_def split: option.split)
qed

lemma evolves_admit:
  assumes inv: "rpc_ok s" and ids: "checked_add (next_id s) 1 = Some nid"
  shows "evolves s (notify_route name (admit name r c s))"
proof -
  have "next_id s \<le> next_id s + 1" using checked_add_Some [OF ids] by (auto simp: word_le_nat_alt)
  moreover have "channels s (next_id s) = None"
    using inv unfolding rpc_inv_def channels_ok_def by (metis less_irrefl)
  ultimately show ?thesis
    by (auto simp: evolves_def notify_route_calls admit_def)
qed

lemma evolves_request:
  assumes "rpc_ok s" and "request who name ms p na nb s = Some (ans, t)"
  shows "evolves s t"
  using assms(1)
proof (cases rule: request_cases [where who = who and name = name and ms = ms and p = p and na = na and nb = nb])
  case (full t' r)
  have "evolves t' (t'\<lparr>rejected := saturating_add (rejected t') 1\<rparr>)" by (rule evolves_same) simp_all
  then show ?thesis using full assms evolves_trans [OF evolves_expire_queued] by simp
next
  case (exhausted t')
  then show ?thesis using assms evolves_expire_queued by simp
next
  case (admitted t' r c)
  have "rpc_ok t'" unfolding admitted(2) by (rule expire_queued_inv [OF assms(1)])
  from evolves_admit [OF this admitted(8)] evolves_expire_queued [OF assms(1), of name na, folded admitted(2)]
  show ?thesis using admitted(9) assms(2) evolves_trans by auto
qed (use assms(2) in \<open>auto intro: evolves_same evolves_refl\<close>)

lemma evolves_register: "register w name conc lim s = (res, s') \<Longrightarrow> evolves s s'"
  by (rule evolves_same) (auto simp: register_def Let_def split: if_splits)

lemma evolves_take_begin: "evolves s (snd (take_begin w s))"
  by (rule evolves_same) (simp_all add: take_begin_def split: option.split)

lemma evolves_take_guard_drop: "evolves s (take_guard_drop w s)"
  by (rule evolves_same) (simp_all add: take_guard_drop_def split: option.split)

lemma evolves_try_take_once:
  assumes inv: "rpc_ok s" and run: "try_take_once w na nb s = Some (res, t)"
  shows "evolves s t"
  using inv
proof (cases rule: try_take_once_cases [where w = w and na = na and nb = nb])
  case (idle wk t' r)
  then show ?thesis using run evolves_expire_queued [OF inv] by simp
next
  case (again wk t' r i queue c)
  then show ?thesis using run evolves_trans [OF evolves_expire_queued [OF inv] evolves_expire] by simp
next
  case (dispatch wk t' r i queue c)
  have "evolves t' (dispatched w wk (worker_route wk) r queue i c t')"
    using dispatch(8,9) by (auto simp: evolves_def dispatched_def call_evolves_def)
  then show ?thesis using run dispatch evolves_trans [OF evolves_expire_queued [OF inv]] by simp
qed (use run evolves_refl in auto)

lemma evolves_complete:
  assumes inv: "rpc_ok s" and run: "complete w i failed p now s = Some (res, t)"
  shows "evolves s t"
proof (cases rule: complete_cases [of s w i failed p now])
  case (completed c n m)
  have "channels s i = Some Open" if "response c"
    using inv completed(1) that by (auto simp: rpc_inv_def channels_ok_def holds_sender_def)
  then show ?thesis
    using run completed(3) remove_calls [OF completed(1)]
    by (auto simp: evolves_def send_def split: if_splits)
qed (use run evolves_refl in auto)

lemma evolves_cancel: "rpc_ok s \<Longrightarrow> evolves s (cancel i s)"
proof (cases "hm_get (calls s) i")
  case (Some c)
  assume "rpc_ok s"
  from evolves_settle_remove [OF this Some] show ?thesis by (simp only: cancel_eq [OF Some])
qed (simp add: cancel_def evolves_refl)

lemma drop_calls_cancel:
  "hm_get (calls s) i \<noteq> None \<Longrightarrow> drop_calls (i # is) s = drop_calls is (cancel i s)"
  by (cases "hm_get (calls s) i") (simp_all only: drop_calls_step cancel_eq, simp_all)

lemma evolves_drop_calls: "rpc_ok s \<Longrightarrow> drop_calls is s = Some t \<Longrightarrow> evolves s t"
proof (induction "is" arbitrary: s)
  case (Cons i "is")
  then have "hm_get (calls s) i \<noteq> None" by (cases "hm_get (calls s) i") auto
  then have "drop_calls is (cancel i s) = Some t" using Cons.prems(2) by (metis drop_calls_cancel)
  from evolves_trans [OF evolves_cancel [OF Cons.prems(1)] Cons.IH [OF cancel_inv [OF Cons.prems(1)] this]]
  show ?case .
qed (simp add: evolves_refl)

end
