(* ===== verification/Rpc_Disconnect.thy ===== *)
theory Rpc_Disconnect
  imports Rpc_Evolve
begin

text \<open>
  \<open>disconnect\<close>: the calls of the lost caller are dropped, the calls the lost worker was running
  are failed, and when it was the last worker of its route the waiting calls are failed too and
  the route disappears. The invariant holds again at the end, and no \<open>unwrap\<close> fails.
\<close>

section \<open>Failing a list of calls\<close>

text \<open>Between the two loops the table of calls and the channels are sound on their own.\<close>

definition calls_core :: "state \<Rightarrow> bool" where
  "calls_core s =
     (hm_ok (calls s) \<and> unat (rpc_retained_bytes s) = hm.total call_cost (calls s)
      \<and> rpc_retained_bytes s \<le> max_bytes s \<and> channels_ok {} s
      \<and> (\<forall>i c. hm_get (calls s) i = Some c \<longrightarrow> 0 < i \<and> i < next_id s))"

lemma rpc_inv_core: "rpc_ok s \<Longrightarrow> calls_core s"
  by (auto simp: calls_core_def rpc_inv_def tables_ok_def budget_ok_def calls_ok_def)

text \<open>A call is detached when its worker or its route is already gone.\<close>

definition detached :: "state \<Rightarrow> call \<Rightarrow> bool" where
  "detached s c = (case owner c of Some w \<Rightarrow> hm_get (workers s) w = None
                   | None \<Rightarrow> hm_get (routes s) (call_route c) = None)"

lemma fail_call_detached:
  assumes "hm_get (calls s) i = Some c" and "detached s c"
  shows "fail_call e i s = (if response c then send i (Inl e) (without_call i c s) else without_call i c s)"
proof -
  have "remove i s = (Some c, without_call i c s)"
    using assms by (cases "owner c") (simp_all add: remove_def detached_def without_call_def)
  then show ?thesis by (simp add: fail_call_def)
qed

lemma fail_call_core:
  assumes core: "calls_core s" and c: "hm_get (calls s) i = Some c" and d: "detached s c"
  shows "calls_core (fail_call e i s)"
proof -
  let ?t = "fail_call e i s"
  have parts: "hm_ok (calls s)" "unat (rpc_retained_bytes s) = hm.total call_cost (calls s)"
    "rpc_retained_bytes s \<le> max_bytes s" "channels_ok {} s"
    "\<And>j c. hm_get (calls s) j = Some c \<Longrightarrow> 0 < j \<and> j < next_id s"
    using core by (auto simp: calls_core_def)
  note budget = without_call_budget [OF parts(1-3) c]
  have t: "?t = (if response c then send i (Inl e) (without_call i c s) else without_call i c s)"
    by (rule fail_call_detached [OF c d])
  have fields: "calls ?t = hm_remove i (calls s)" "rpc_retained_bytes ?t = rpc_retained_bytes (without_call i c s)"
    "max_bytes ?t = max_bytes s" "next_id ?t = next_id s"
    "channels ?t = (if response c then (channels s)(i \<mapsto> Sent (Inl e)) else channels s)"
    by (simp_all add: t send_def)
  have "holds_sender ?t j \<longleftrightarrow> j \<noteq> i \<and> holds_sender s j" for j by (simp add: holds_sender_def fields)
  moreover have "holds_sender s i \<longleftrightarrow> response c" using c by (simp add: holds_sender_def)
  ultimately have "channels_ok {} ?t"
    using parts(4) parts(5) [OF c] by (auto simp: channels_ok_def fields)
  then show ?thesis
    using parts budget by (auto simp: calls_core_def fields)
qed

lemma fail_calls:
  fixes e :: error
  assumes "calls_core s" and "distinct is"
    and "\<forall>i\<in>set is. \<exists>c. hm_get (calls s) i = Some c \<and> detached s c"
  defines "t \<equiv> fold (fail_call e) is s"
  shows "calls_core t"
    and "hm_get (calls t) = (\<lambda>j. if j \<in> set is then None else hm_get (calls s) j)"
    and "length (calls t) \<le> length (calls s)"
    and "routes t = routes s" "workers t = workers s" "connections t = connections s" "next_id t = next_id s"
      "notifies t = notifies s" "max_bytes t = max_bytes s" "max_calls t = max_calls s"
    and "channels t = (\<lambda>j. if j \<in> set is \<and> holds_sender s j then Some (Sent (Inl e)) else channels s j)"
proof -
  have "calls_core t
    \<and> hm_get (calls t) = (\<lambda>j. if j \<in> set is then None else hm_get (calls s) j)
    \<and> length (calls t) \<le> length (calls s)
    \<and> routes t = routes s \<and> workers t = workers s \<and> connections t = connections s \<and> next_id t = next_id s
    \<and> notifies t = notifies s \<and> max_bytes t = max_bytes s \<and> max_calls t = max_calls s
    \<and> channels t = (\<lambda>j. if j \<in> set is \<and> holds_sender s j then Some (Sent (Inl e)) else channels s j)"
    using assms(1-3) unfolding t_def
  proof (induction "is" arbitrary: s)
    case (Cons i "is")
    then obtain c where c: "hm_get (calls s) i = Some c" "detached s c" by auto
    let ?s = "fail_call e i s"
    note t = fail_call_detached [OF c, of e]
    have ok: "hm_ok (calls s)" using Cons.prems(1) by (simp add: calls_core_def)
    have fields: "calls ?s = hm_remove i (calls s)" "routes ?s = routes s" "workers ?s = workers s"
      "connections ?s = connections s" "next_id ?s = next_id s" "notifies ?s = notifies s"
      "max_bytes ?s = max_bytes s" "max_calls ?s = max_calls s"
      "channels ?s = (if response c then (channels s)(i \<mapsto> Sent (Inl e)) else channels s)"
      by (simp_all add: t send_def)
    have hold: "holds_sender ?s j \<longleftrightarrow> j \<noteq> i \<and> holds_sender s j" for j by (simp add: holds_sender_def fields)
    have hold_i: "holds_sender s i \<longleftrightarrow> response c" using c by (simp add: holds_sender_def)
    have "\<forall>j\<in>set is. \<exists>c. hm_get (calls ?s) j = Some c \<and> detached ?s c"
    proof -
      have "detached ?s = detached s" by (simp add: fun_eq_iff detached_def fields split: option.split)
      then show ?thesis using Cons.prems(2,3) by (auto simp: fields)
    qed
    note IH = Cons.IH [OF fail_call_core [OF Cons.prems(1) c] _ this]
    have len: "length (calls ?s) \<le> length (calls s)" using length_remove [OF ok c(1)] by (simp add: fields)
    show ?case using IH Cons.prems(2) len by (auto simp: fun_eq_iff fields hold hold_i)
  qed simp
  then show "calls_core t"
    "hm_get (calls t) = (\<lambda>j. if j \<in> set is then None else hm_get (calls s) j)"
    "length (calls t) \<le> length (calls s)"
    "routes t = routes s" "workers t = workers s" "connections t = connections s" "next_id t = next_id s"
    "notifies t = notifies s" "max_bytes t = max_bytes s" "max_calls t = max_calls s"
    "channels t = (\<lambda>j. if j \<in> set is \<and> holds_sender s j then Some (Sent (Inl e)) else channels s j)"
    by blast+
qed

lemma fold_notify_fields:
  "routes (fold notify_worker ws s) = routes s" "workers (fold notify_worker ws s) = workers s"
  "calls (fold notify_worker ws s) = calls s" "connections (fold notify_worker ws s) = connections s"
  "channels (fold notify_worker ws s) = channels s" "next_id (fold notify_worker ws s) = next_id s"
  "max_bytes (fold notify_worker ws s) = max_bytes s" "max_calls (fold notify_worker ws s) = max_calls s"
  "length (notifies (fold notify_worker ws s)) = length (notifies s)"
  "rpc_retained_bytes (fold notify_worker ws s) = rpc_retained_bytes s"
  by (induction ws arbitrary: s) (simp_all add: notify_worker_def notify_waiters_def split: option.split)

lemma notify_route_fields:
  "routes (notify_route name s) = routes s" "workers (notify_route name s) = workers s"
  "calls (notify_route name s) = calls s" "connections (notify_route name s) = connections s"
  "channels (notify_route name s) = channels s" "next_id (notify_route name s) = next_id s"
  "max_bytes (notify_route name s) = max_bytes s" "max_calls (notify_route name s) = max_calls s"
  "length (notifies (notify_route name s)) = length (notifies s)"
  "rpc_retained_bytes (notify_route name s) = rpc_retained_bytes s"
  by (simp_all add: notify_route_def fold_notify_fields split: option.split)

section \<open>The state after a worker has gone\<close>

lemma departed_inv:
  assumes inv: "rpc_ok s" and wk: "hm_get (workers s) conn = Some wk"
    and r: "hm_get (routes s) (worker_route wk) = Some r"
    and left: "left = filter (\<lambda>v. v \<noteq> conn) (route_workers r)"
    and silent: "\<And>i c. hm_get (calls s) i = Some c \<Longrightarrow> caller c = conn \<Longrightarrow> \<not> response c"
    and K: "K = {i. \<exists>c. hm_get (calls s) i = Some c \<and>
        (owner c = Some conn \<or> (left = [] \<and> owner c = None \<and> call_route c = worker_route wk))}"
    and core: "calls_core u"
    and calls_u: "hm_get (calls u) = (\<lambda>j. if j \<in> K then None else hm_get (calls s) j)"
      "length (calls u) \<le> length (calls s)"
    and conns: "connections u = connections s - {conn}" and workers_u: "workers u = hm_remove conn (workers s)"
    and routes_u: "hm_ok (routes u)" "hm_get (routes u) = (hm_get (routes s))
        (worker_route wk := if left = [] then None else Some (r\<lparr>route_workers := left\<rparr>))"
    and same: "next_id u = next_id s" "length (notifies u) = length (notifies s)" "max_bytes u = max_bytes s"
      "max_calls u = max_calls s"
  shows "rpc_ok u"
proof -
  let ?name = "worker_route wk"
  have parts: "tables_ok s" "budget_ok s" "routes_ok s" "calls_ok s" "workers_ok s" "0 < next_id s"
    using inv by (simp_all add: rpc_inv_def)
  note route = parts(3) [unfolded routes_ok_def, rule_format]
  have get_workers: "hm_get (workers u) v = (if v = conn then None else hm_get (workers s) v)" for v
    by (simp add: workers_u)
  have wait: "waiting_call u n j \<longleftrightarrow> waiting_call s n j \<and> \<not> (left = [] \<and> n = ?name)" for n j
    by (auto simp: waiting_call_def calls_u K)
  have own: "owned_calls u v = owned_calls s v" if "v \<noteq> conn" for v
    unfolding owned_calls_def
  proof (rule hm.total_restrict [where K = K])
    show "hm_ok (calls s)" "hm_ok (calls u)" using parts(1) core by (simp_all add: tables_ok_def calls_core_def)
    show "hm_get (calls u) k = (if k \<in> K then None else hm_get (calls s) k)" for k by (simp add: calls_u)
    show "(if owner c = Some v then 1 else 0) = 0" if "k \<in> K" "hm_get (calls s) k = Some c" for k c
      using that \<open>v \<noteq> conn\<close> by (auto simp: K)
  qed
  have sole: "v = conn" if "left = []" "hm_get (workers s) v = Some vk" "worker_route vk = ?name" for v vk
  proof -
    have "v \<in> set (route_workers r)" using route [OF r] that by blast
    then show ?thesis using that(1) left by (auto simp: filter_empty_conv)
  qed
  have "budget_ok u"
    using core calls_u(2) parts(2) same by (simp add: budget_ok_def calls_core_def)
  moreover have "routes_ok u"
    unfolding routes_ok_def
  proof (intro allI impI)
    fix n r' assume r': "hm_get (routes u) n = Some r'"
    show "distinct (route_queue r') \<and> (\<forall>j. j \<in> set (route_queue r') \<longleftrightarrow> waiting_call u n j)
      \<and> length (route_queue r') \<le> route_queue_limit r' \<and> route_workers r' \<noteq> [] \<and> distinct (route_workers r')
      \<and> (\<forall>v. v \<in> set (route_workers r') \<longleftrightarrow> (\<exists>vk. hm_get (workers u) v = Some vk \<and> worker_route vk = n))"
    proof (cases "n = ?name")
      case True
      with r' have r'_eq: "r' = r\<lparr>route_workers := left\<rparr>" and ne: "left \<noteq> []"
        by (auto simp: routes_u split: if_splits)
      have "waiting_call u n j \<longleftrightarrow> waiting_call s ?name j" for j using ne True by (simp add: wait)
      moreover have "v \<in> set left \<longleftrightarrow> (\<exists>vk. hm_get (workers u) v = Some vk \<and> worker_route vk = n)" for v
        using route [OF r] True unfolding get_workers left by auto
      ultimately show ?thesis using route [OF r] ne left by (simp add: r'_eq)
    next
      case False
      with r' have old: "hm_get (routes s) n = Some r'" by (simp add: routes_u)
      have "(\<exists>vk. hm_get (workers u) v = Some vk \<and> worker_route vk = n)
          \<longleftrightarrow> (\<exists>vk. hm_get (workers s) v = Some vk \<and> worker_route vk = n)" for v
        using False wk by (auto simp: get_workers)
      then show ?thesis using route [OF old] False by (simp add: wait)
    qed
  qed
  moreover have "calls_ok u"
    unfolding calls_ok_def
  proof (intro allI impI)
    fix i c assume "hm_get (calls u) i = Some c"
    then have i: "i \<notin> K" "hm_get (calls s) i = Some c" by (auto simp: calls_u split: if_splits)
    have "owner c \<noteq> Some conn" "\<not> (left = [] \<and> owner c = None \<and> call_route c = ?name)"
      using i by (auto simp: K)
    then show "(owner c = None \<longrightarrow> hm_get (routes u) (call_route c) \<noteq> None)
        \<and> (\<forall>w. owner c = Some w \<longrightarrow> hm_get (workers u) w \<noteq> None)
        \<and> (response c \<longrightarrow> caller c \<in> connections u) \<and> 0 < i \<and> i < next_id u"
      using parts(4) [unfolded calls_ok_def, rule_format, OF i(2)] silent [OF i(2)]
      by (auto simp: routes_u get_workers conns same)
  qed
  moreover have "workers_ok u"
    unfolding workers_ok_def
  proof (intro allI impI)
    fix v vk assume "hm_get (workers u) v = Some vk"
    then have v: "v \<noteq> conn" "hm_get (workers s) v = Some vk" by (auto simp: get_workers split: if_splits)
    then have "\<not> (left = [] \<and> worker_route vk = ?name)" using sole by blast
    then show "hm_get (routes u) (worker_route vk) \<noteq> None \<and> running vk = owned_calls u v
      \<and> owned_calls u v \<le> concurrency vk \<and> pending_takes vk \<le> concurrency vk \<and> v \<in> connections u
      \<and> notify vk < length (notifies u)"
      using parts(5) [unfolded workers_ok_def, rule_format, OF v(2)] v(1) own [OF v(1)]
      by (auto simp: routes_u conns same)
  qed
  moreover have "tables_ok u" using parts(1) routes_u core by (simp add: tables_ok_def workers_u calls_core_def)
  moreover have "channels_ok {} u" using core by (simp add: calls_core_def)
  ultimately show ?thesis using parts(6) by (simp add: rpc_inv_def same)
qed

section \<open>The whole operation\<close>

text \<open>
  The first loop: what it does to the calls it goes through, and that it leaves the others, and
  their channels, as they are.
\<close>

lemma drop_calls_other:
  assumes "drop_calls is s = Some t" and "j \<notin> set is"
  shows "hm_get (calls t) j = hm_get (calls s) j \<and> channels t j = channels s j"
  using assms
proof (induction "is" arbitrary: s)
  case (Cons i "is")
  then obtain ci where ci: "hm_get (calls s) i = Some ci" by (cases "hm_get (calls s) i") auto
  let ?t = "let s = (if response ci then settle i ci Closed s else s) in if owner ci = None then snd (remove i s) else s"
  have "hm_get (calls (settle i ci Closed s)) i = Some (ci\<lparr>response := False\<rparr>)" by simp
  note rm = remove_calls [OF this] remove_calls [OF ci]
  have "hm_get (calls ?t) j = hm_get (calls s) j" "channels ?t j = channels s j"
    using Cons.prems(2) rm by (auto simp: Let_def)
  moreover have "drop_calls is ?t = Some t" using drop_calls_step [OF ci, of "is"] Cons.prems(1) by simp
  ultimately show ?case using Cons.IH [of ?t] Cons.prems(2) by auto
qed simp

lemma drop_calls_own:
  assumes "drop_calls is s = Some t" and "distinct is" and "j \<in> set is" and "hm_get (calls s) j = Some c"
  shows "hm_get (calls t) j = (if owner c = None then None else Some (c\<lparr>response := False\<rparr>))
    \<and> channels t j = (if response c then Some Closed else channels s j)"
  using assms
proof (induction "is" arbitrary: s)
  case (Cons i "is")
  then obtain ci where ci: "hm_get (calls s) i = Some ci" by (cases "hm_get (calls s) i") auto
  let ?t = "let s = (if response ci then settle i ci Closed s else s) in if owner ci = None then snd (remove i s) else s"
  have "hm_get (calls (settle i ci Closed s)) i = Some (ci\<lparr>response := False\<rparr>)" by simp
  note rm = remove_calls [OF this] remove_calls [OF ci]
  have rest: "drop_calls is ?t = Some t" using drop_calls_step [OF ci, of "is"] Cons.prems(1) by simp
  show ?case
  proof (cases "j = i")
    case True
    with Cons.prems(4) ci have "ci = c" by simp
    then have "hm_get (calls ?t) j = (if owner c = None then None else Some (c\<lparr>response := False\<rparr>))"
      "channels ?t j = (if response c then Some Closed else channels s j)"
      using True ci rm by (auto simp: Let_def)
    moreover have "j \<notin> set is" using True Cons.prems(2) by simp
    ultimately show ?thesis using drop_calls_other [OF rest] by simp
  next
    case False
    then have "hm_get (calls ?t) j = Some c" "channels ?t j = channels s j"
      using Cons.prems(4) rm by (auto simp: Let_def)
    then show ?thesis using Cons.IH [OF rest] Cons.prems(2,3) False by simp
  qed
qed simp

definition worker_lost :: error where
  "worker_lost = error_new SERVICE_UNAVAILABLE (str ''worker disconnected; call will not be replayed'')"

definition route_lost :: error where
  "route_lost = error_new SERVICE_UNAVAILABLE (str ''last worker disconnected'')"

lemma rpc_inv_connections:
  assumes inv: "rpc_ok s" and silent: "\<And>i c. hm_get (calls s) i = Some c \<Longrightarrow> caller c = conn \<Longrightarrow> \<not> response c"
    and none: "hm_get (workers s) conn = None"
  shows "rpc_ok (s\<lparr>connections := connections s - {conn}\<rparr>)"
proof -
  let ?t = "s\<lparr>connections := connections s - {conn}\<rparr>"
  have preds: "waiting_call ?t = waiting_call s" "holds_sender ?t = holds_sender s" "owned_calls ?t = owned_calls s"
    by (simp_all add: fun_eq_iff waiting_call_def holds_sender_def owned_calls_def)
  have "calls_ok ?t" using inv silent by (fastforce simp: rpc_inv_def calls_ok_def)
  moreover have "workers_ok ?t"
    using inv none unfolding rpc_inv_def workers_ok_def preds by auto
  ultimately show ?thesis
    using inv by (simp add: rpc_inv_def tables_ok_def budget_ok_def routes_ok_def channels_ok_def preds)
qed

text \<open>What \<open>disconnect\<close> leaves: nothing of the connection, and every call it ended answered.\<close>

lemma disconnect_worker:
  assumes inv: "rpc_ok t" and wk: "hm_get (workers t) conn = Some wk"
    and silent: "\<And>i c. hm_get (calls t) i = Some c \<Longrightarrow> caller c = conn \<Longrightarrow> \<not> response c"
    and t1: "t1 = notify_waiters (notify wk) (t\<lparr>connections := connections t - {conn}, workers := hm_remove conn (workers t)\<rparr>)"
    and t2: "t2 = fold (fail_call worker_lost) (map fst (filter (\<lambda>(i, c). owner c = Some conn) (calls t1))) t1"
  obtains r left u where
    "hm_get (routes t2) (worker_route wk) = Some r" "left = filter (\<lambda>v. v \<noteq> conn) (route_workers r)"
    "u = (let s = t2\<lparr>routes := hm_insert (worker_route wk) (r\<lparr>route_workers := left\<rparr>) (routes t2)\<rparr>
          in if left = []
             then fold (fail_call route_lost) (route_queue r) (s\<lparr>routes := hm_remove (worker_route wk) (routes s)\<rparr>)
             else notify_route (worker_route wk) s)"
    "rpc_ok u" "evolves t u" "connections u = connections t - {conn}" "hm_get (workers u) = (hm_get (workers t))(conn := None)"
    "hm_get (routes t) (worker_route wk) = Some r"
    "\<And>i. hm_get (calls t) i = None \<Longrightarrow> hm_get (calls u) i = None \<and> channels u i = channels t i"
    "\<And>i c. hm_get (calls t) i = Some c \<Longrightarrow> owner c = Some conn \<Longrightarrow>
       hm_get (calls u) i = None \<and> channels u i = (if response c then Some (Sent (Inl worker_lost)) else channels t i)"
    "\<And>i c. hm_get (calls t) i = Some c \<Longrightarrow> owner c = None \<Longrightarrow> call_route c = worker_route wk \<Longrightarrow> left = [] \<Longrightarrow>
       hm_get (calls u) i = None \<and> channels u i = (if response c then Some (Sent (Inl route_lost)) else channels t i)"
    "\<And>i c. hm_get (calls t) i = Some c \<Longrightarrow> owner c \<noteq> Some conn \<Longrightarrow>
       \<not> (left = [] \<and> owner c = None \<and> call_route c = worker_route wk) \<Longrightarrow>
       hm_get (calls u) i = Some c \<and> channels u i = channels t i"
proof -
  let ?name = "worker_route wk"
  let ?owned = "map fst (filter (\<lambda>(i, c). owner c = Some conn) (calls t1))"
  have ok: "hm_ok (calls t)" "hm_ok (routes t)" using inv by (simp_all add: rpc_inv_def tables_ok_def)
  have f1: "calls t1 = calls t" "routes t1 = routes t" "workers t1 = hm_remove conn (workers t)"
    "connections t1 = connections t - {conn}" "channels t1 = channels t" "next_id t1 = next_id t"
    "max_bytes t1 = max_bytes t" "max_calls t1 = max_calls t" "length (notifies t1) = length (notifies t)"
    "rpc_retained_bytes t1 = rpc_retained_bytes t"
    by (simp_all add: t1 notify_waiters_def)
  have core1: "calls_core t1"
    using rpc_inv_core [OF inv] by (simp add: calls_core_def channels_ok_def holds_sender_def f1)
  have owned: "i \<in> set ?owned \<longleftrightarrow> (\<exists>c. hm_get (calls t) i = Some c \<and> owner c = Some conn)" for i
    using hm.entries_get [OF ok(1)] by (force simp: f1)
  have "distinct (map fst (calls t))" using ok(1) by (rule hm.entries_distinct)
  then have dist: "distinct ?owned" by (simp add: f1 distinct_map_filter)
  have det: "\<forall>i\<in>set ?owned. \<exists>c. hm_get (calls t1) i = Some c \<and> detached t1 c"
  proof
    fix i assume "i \<in> set ?owned"
    then obtain c where "hm_get (calls t) i = Some c" "owner c = Some conn" unfolding owned by blast
    then show "\<exists>c. hm_get (calls t1) i = Some c \<and> detached t1 c" by (simp add: f1 detached_def)
  qed
  note f2 = fail_calls [OF core1 dist det, of worker_lost, folded t2]
  obtain r where r: "hm_get (routes t) ?name = Some r" using worker_bounds [OF inv wk] by blast
  define left where "left = filter (\<lambda>v. v \<noteq> conn) (route_workers r)"
  define K where "K = {i. \<exists>c. hm_get (calls t) i = Some c \<and>
        (owner c = Some conn \<or> (left = [] \<and> owner c = None \<and> call_route c = ?name))}"
  let ?s = "t2\<lparr>routes := hm_insert ?name (r\<lparr>route_workers := left\<rparr>) (routes t2)\<rparr>"
  have hold1: "holds_sender t1 i \<longleftrightarrow> (\<exists>c. hm_get (calls t) i = Some c \<and> response c)" for i
    by (simp add: holds_sender_def f1)
  have settled: "\<not> holds_sender t1 i" if "channels t i = Some ch" "ch \<noteq> Open" for i ch
  proof -
    have "channels t i = Some Open \<longleftrightarrow> holds_sender t i" using inv unfolding rpc_inv_def channels_ok_def by blast
    moreover have "holds_sender t1 i \<longleftrightarrow> holds_sender t i" by (simp add: holds_sender_def f1)
    ultimately show ?thesis using that by simp
  qed
  show thesis
  proof (cases "left = []")
    case False
    define u where "u = notify_route ?name ?s"
    have fu: "calls u = calls t2" "routes u = routes ?s" "workers u = workers t2" "connections u = connections t2"
      "channels u = channels t2" "next_id u = next_id t2" "max_bytes u = max_bytes t2" "max_calls u = max_calls t2"
      "length (notifies u) = length (notifies t2)" "rpc_retained_bytes u = rpc_retained_bytes t2"
      unfolding u_def by (simp_all add: notify_route_fields)
    have core: "calls_core u" using f2(1) by (simp add: calls_core_def channels_ok_def holds_sender_def fu)
    have K_owned: "j \<in> K \<longleftrightarrow> j \<in> set ?owned" for j unfolding owned K_def using False by blast
    have calls_u: "hm_get (calls u) = (\<lambda>j. if j \<in> K then None else hm_get (calls t) j)"
      unfolding K_owned fu(1) f2(2) f1(1) by simp
    have "rpc_ok u"
      by (rule departed_inv [OF inv wk r left_def silent K_def core calls_u])
        (use f1 f2(3-10) fu ok False in simp_all)
    have chan: "channels u i = (if i \<in> set ?owned \<and> holds_sender t1 i then Some (Sent (Inl worker_lost)) else channels t i)" for i
      by (simp add: fu f2(11) f1)
    show thesis
    proof (rule that [of r left u])
      show "hm_get (routes t2) ?name = Some r" using r by (simp add: f2(4) f1)
      show "left = filter (\<lambda>v. v \<noteq> conn) (route_workers r)" by (rule left_def)
      show "u = (let s = ?s in if left = []
             then fold (fail_call route_lost) (route_queue r) (s\<lparr>routes := hm_remove ?name (routes s)\<rparr>)
             else notify_route ?name s)"
        using False unfolding u_def Let_def by (rule if_not_P [symmetric])
      show "hm_get (workers u) = (hm_get (workers t))(conn := None)" "connections u = connections t - {conn}"
        using f2(5,6) fu f1 by simp_all
      show "evolves t u"
        using settled by (auto simp: evolves_def calls_u chan fu(6) f2(7) f1 split: if_splits)
      show "hm_get (calls u) i = None \<and> channels u i = channels t i" if "hm_get (calls t) i = None" for i
        using that unfolding calls_u K_owned chan hold1 by simp
      fix i c assume c: "hm_get (calls t) i = Some c"
      have o: "i \<in> set ?owned \<longleftrightarrow> owner c = Some conn" unfolding owned using c by auto
      have h: "holds_sender t1 i \<longleftrightarrow> response c" unfolding hold1 using c by auto
      { assume "owner c = Some conn"
        then show "hm_get (calls u) i = None
          \<and> channels u i = (if response c then Some (Sent (Inl worker_lost)) else channels t i)"
          using o h unfolding calls_u K_owned chan by simp }
      { assume "owner c \<noteq> Some conn"
        then show "hm_get (calls u) i = Some c \<and> channels u i = channels t i"
          using o h c unfolding calls_u K_owned chan by simp }
      { assume "left = []"
        then show "hm_get (calls u) i = None
          \<and> channels u i = (if response c then Some (Sent (Inl route_lost)) else channels t i)"
          using False by simp }
    qed (use \<open>rpc_ok u\<close> r in simp_all)
  next
    case True
    define s3 where "s3 = ?s\<lparr>routes := hm_remove ?name (routes ?s)\<rparr>"
    define u where "u = fold (fail_call route_lost) (route_queue r) s3"
    have f3: "calls s3 = calls t2" "hm_get (routes s3) = (hm_get (routes t))(?name := None)" "hm_ok (routes s3)"
      "workers s3 = workers t2" "connections s3 = connections t2" "channels s3 = channels t2" "next_id s3 = next_id t2"
      "max_bytes s3 = max_bytes t2" "max_calls s3 = max_calls t2" "notifies s3 = notifies t2"
      "rpc_retained_bytes s3 = rpc_retained_bytes t2"
      using ok(2) f2(4) f1(2) by (auto simp: s3_def)
    have core3: "calls_core s3" using f2(1) by (simp add: calls_core_def channels_ok_def holds_sender_def f3)
    have queue: "distinct (route_queue r)" "\<And>i. i \<in> set (route_queue r) \<longleftrightarrow> waiting_call t ?name i"
      using inv r by (auto simp: rpc_inv_def routes_ok_def)
    have get3: "hm_get (calls s3) i = (if i \<in> set ?owned then None else hm_get (calls t) i)" for i
      by (simp add: f3 f2(2) f1)
    have "\<forall>i\<in>set (route_queue r). \<exists>c. hm_get (calls s3) i = Some c \<and> detached s3 c"
    proof
      fix i assume "i \<in> set (route_queue r)"
      then obtain c where c: "hm_get (calls t) i = Some c" "owner c = None" "call_route c = ?name"
        unfolding queue(2) waiting_call_def by blast
      then have "i \<notin> set ?owned" unfolding owned by simp
      then have "hm_get (calls s3) i = Some c" using c(1) unfolding get3 by simp
      moreover have "detached s3 c" using c by (simp add: detached_def f3(2))
      ultimately show "\<exists>c. hm_get (calls s3) i = Some c \<and> detached s3 c" by blast
    qed
    note f4 = fail_calls [OF core3 queue(1) this, of route_lost, folded u_def]
    have K_iff: "j \<in> K \<longleftrightarrow> j \<in> set ?owned \<or> j \<in> set (route_queue r)" for j
      unfolding owned queue(2) K_def waiting_call_def using True by blast
    have calls_u: "hm_get (calls u) = (\<lambda>j. if j \<in> K then None else hm_get (calls t) j)"
      unfolding f4(2) get3 K_iff by auto
    have len: "length (calls u) \<le> length (calls t)" using f4(3) f2(3) by (simp add: f1 f3)
    have ok_u: "rpc_ok u"
      by (rule departed_inv [OF inv wk r left_def silent K_def f4(1) calls_u len])
        (use f1 f2(4-10) f3 f4(4-10) True in simp_all)
    have hold3: "holds_sender s3 i \<longleftrightarrow> i \<notin> set ?owned \<and> holds_sender t1 i" for i
      by (simp add: holds_sender_def get3 f1)
    have chan: "channels u i = (if i \<in> set (route_queue r) \<and> holds_sender s3 i then Some (Sent (Inl route_lost))
        else if i \<in> set ?owned \<and> holds_sender t1 i then Some (Sent (Inl worker_lost)) else channels t i)" for i
      by (simp add: f4(11) f3 f2(11) f1)
    show thesis
    proof (rule that [of r left u])
      show "hm_get (routes t2) ?name = Some r" using r by (simp add: f2(4) f1)
      show "left = filter (\<lambda>v. v \<noteq> conn) (route_workers r)" by (rule left_def)
      show "u = (let s = ?s in if left = []
             then fold (fail_call route_lost) (route_queue r) (s\<lparr>routes := hm_remove ?name (routes s)\<rparr>)
             else notify_route ?name s)"
        using True by (simp add: u_def s3_def Let_def)
      show "hm_get (workers u) = (hm_get (workers t))(conn := None)" "connections u = connections t - {conn}"
        using f4(5,6) f3 f2(5,6) f1 by simp_all
      show "evolves t u"
        using settled by (auto simp: evolves_def calls_u chan hold3 f4(7) f3 f2(7) f1 split: if_splits)
      show "hm_get (calls u) i = None \<and> channels u i = channels t i" if none: "hm_get (calls t) i = None" for i
      proof -
        have "\<not> holds_sender t1 i" using none by (simp add: hold1)
        then show ?thesis using none unfolding calls_u chan hold3 by simp
      qed
      fix i c assume c: "hm_get (calls t) i = Some c"
      have q: "i \<in> set (route_queue r) \<longleftrightarrow> owner c = None \<and> call_route c = ?name"
        unfolding queue(2) waiting_call_def using c by auto
      have o: "i \<in> set ?owned \<longleftrightarrow> owner c = Some conn" unfolding owned using c by auto
      have h: "holds_sender t1 i \<longleftrightarrow> response c" unfolding hold1 using c by auto
      { assume "owner c = Some conn"
        then show "hm_get (calls u) i = None
          \<and> channels u i = (if response c then Some (Sent (Inl worker_lost)) else channels t i)"
          using o q h unfolding calls_u K_iff chan by simp }
      { assume "owner c = None" "call_route c = ?name"
        then show "hm_get (calls u) i = None
          \<and> channels u i = (if response c then Some (Sent (Inl route_lost)) else channels t i)"
          using o q h unfolding calls_u K_iff chan hold3 by simp }
      { assume "owner c \<noteq> Some conn" "\<not> (left = [] \<and> owner c = None \<and> call_route c = ?name)"
        then have "i \<notin> set (route_queue r)" "i \<notin> set ?owned" using o q True by blast+
        then show "hm_get (calls u) i = Some c \<and> channels u i = channels t i"
          using c unfolding calls_u K_iff chan hold3 by simp }
    qed (use ok_u r in simp_all)
  qed
qed

text \<open>
  What is left of a call, and of the channel of a call that had a sender. The calls of the
  connection itself lose their sender: those that wait or that its own worker runs are removed, and
  those that another worker runs stay with it until it finishes. Of the calls of others, those its
  worker was running are answered \<open>worker_lost\<close>, and when it was the last worker of its route those
  that wait there are answered \<open>route_lost\<close>.
\<close>

definition lost_reply :: "state \<Rightarrow> u64 \<Rightarrow> call \<Rightarrow> error option" where
  "lost_reply s conn c =
     (case hm_get (workers s) conn of
        None \<Rightarrow> None
      | Some wk \<Rightarrow>
          if owner c = Some conn then Some worker_lost
          else if owner c = None \<and> call_route c = worker_route wk
            \<and> (\<exists>r. hm_get (routes s) (worker_route wk) = Some r \<and> filter (\<lambda>v. v \<noteq> conn) (route_workers r) = [])
          then Some route_lost
          else None)"

definition call_left :: "state \<Rightarrow> u64 \<Rightarrow> call \<Rightarrow> call option" where
  "call_left s conn c =
     (if caller c = conn
      then if owner c = None \<or> owner c = Some conn then None else Some (c\<lparr>response := False\<rparr>)
      else if lost_reply s conn c = None then Some c else None)"

definition channel_left :: "state \<Rightarrow> u64 \<Rightarrow> call \<Rightarrow> channel option \<Rightarrow> channel option" where
  "channel_left s conn c ch =
     (if \<not> response c then ch
      else if caller c = conn then Some Closed
      else case lost_reply s conn c of None \<Rightarrow> ch | Some e \<Rightarrow> Some (Sent (Inl e)))"

text \<open>The operation on a well-formed state: it returns, and every call and channel is as above.\<close>

lemma disconnect_spec:
  assumes inv: "rpc_ok s"
  obtains u where "disconnect conn s = Some u" "rpc_ok u" "evolves s u" "connections u = connections s - {conn}"
    "hm_get (workers u) = (hm_get (workers s))(conn := None)"
    "\<And>i. hm_get (calls s) i = None \<Longrightarrow> hm_get (calls u) i = None \<and> channels u i = channels s i"
    "\<And>i c. hm_get (calls s) i = Some c \<Longrightarrow>
       hm_get (calls u) i = call_left s conn c \<and> channels u i = channel_left s conn c (channels s i)"
proof -
  define ids where "ids = map fst (filter (\<lambda>(i, c). caller c = conn) (calls s))"
  have ok: "hm_ok (calls s)" using inv by (simp add: rpc_inv_def tables_ok_def)
  have ids: "i \<in> set ids \<longleftrightarrow> (\<exists>c. hm_get (calls s) i = Some c \<and> caller c = conn)" for i
    using hm.entries_get [OF ok] by (force simp: ids_def)
  have "distinct (map fst (calls s))" using ok by (rule hm.entries_distinct)
  then have dist: "distinct ids" by (simp add: ids_def distinct_map_filter)
  have "\<forall>i\<in>set ids. hm_get (calls s) i \<noteq> None" using ids by fastforce
  from drop_calls_inv [OF inv dist this] obtain t where t: "drop_calls ids s = Some t" "rpc_ok t" "queues_shrink s t"
    "\<And>j c. hm_get (calls t) j = Some c \<Longrightarrow> (j \<in> set ids \<longrightarrow> \<not> response c) \<and> (\<exists>c0. hm_get (calls s) j = Some c0 \<and> same_call c0 c)"
    "\<And>j c. hm_get (calls s) j = Some c \<Longrightarrow> j \<notin> set ids \<or> owner c \<noteq> None \<Longrightarrow> \<exists>c'. hm_get (calls t) j = Some c' \<and> same_call c c'"
    by blast
  let ?C = "connections s - {conn}"
  have drop: "drop_calls ids (s\<lparr>connections := ?C\<rparr>) = Some (t\<lparr>connections := ?C\<rparr>)"
    by (simp add: drop_calls_connections t(1))
  have ev: "evolves s t" by (rule evolves_drop_calls [OF inv t(1)])
  have conn_t: "connections t = connections s" and workers_t: "workers t = workers s"
    using t(3) by (simp_all add: queues_shrink_def)
  have silent: "\<not> response c" if "hm_get (calls t) i = Some c" "caller c = conn" for i c
    using t(4) [OF that(1)] that(2) by (auto simp: ids same_call_def)
  have absent: "hm_get (calls t) i = None \<and> channels t i = channels s i" if "hm_get (calls s) i = None" for i
    using drop_calls_other [OF t(1), of i] that by (auto simp: ids)
  have mine: "hm_get (calls t) i = (if owner c = None then None else Some (c\<lparr>response := False\<rparr>))"
    "channels t i = (if response c then Some Closed else channels s i)"
    if "hm_get (calls s) i = Some c" "caller c = conn" for i c
    using drop_calls_own [OF t(1) dist _ that(1)] that by (auto simp: ids)
  have others: "hm_get (calls t) i = Some c" "channels t i = channels s i"
    if "hm_get (calls s) i = Some c" "caller c \<noteq> conn" for i c
    using drop_calls_other [OF t(1), of i] that by (auto simp: ids)
  show thesis
  proof (cases "hm_get (workers s) conn")
    case None
    let ?u = "t\<lparr>connections := ?C\<rparr>"
    have "rpc_ok ?u"
      using rpc_inv_connections [OF t(2) silent] None by (simp add: conn_t workers_t)
    moreover have "disconnect conn s = Some ?u"
      using drop None by (simp add: disconnect_def Let_def ids_def workers_t)
    moreover have "owner c \<noteq> Some conn" if "hm_get (calls s) i = Some c" for i c
      using call_facts(2) [OF inv that] None by blast
    moreover have "lost_reply s conn c = None" for c using None by (simp add: lost_reply_def)
    ultimately have "hm_get (calls ?u) i = call_left s conn c \<and> channels ?u i = channel_left s conn c (channels s i)"
      if "hm_get (calls s) i = Some c" for i c
      using mine [OF that] others [OF that] that
      by (cases "caller c = conn") (auto simp: call_left_def channel_left_def)
    with \<open>rpc_ok ?u\<close> \<open>disconnect conn s = Some ?u\<close> show thesis
      using absent None evolves_trans [OF ev, of ?u] evolves_same [of ?u t]
      by (intro that [of ?u]) (auto simp: workers_t)
  next
    case (Some wk)
    then have wk: "hm_get (workers t) conn = Some wk" by (simp add: workers_t)
    define t1 where "t1 = notify_waiters (notify wk) (t\<lparr>connections := ?C, workers := hm_remove conn (workers t)\<rparr>)"
    define t2 where "t2 = fold (fail_call worker_lost) (map fst (filter (\<lambda>(i, c). owner c = Some conn) (calls t1))) t1"
    have t1': "t1 = notify_waiters (notify wk) (t\<lparr>connections := connections t - {conn}, workers := hm_remove conn (workers t)\<rparr>)"
      by (simp add: t1_def conn_t)
    show thesis
    proof (rule disconnect_worker [OF t(2) wk silent t1' t2_def])
      fix r left u
      assume r: "hm_get (routes t2) (worker_route wk) = Some r" and left: "left = filter (\<lambda>v. v \<noteq> conn) (route_workers r)"
        and u: "u = (let s = t2\<lparr>routes := hm_insert (worker_route wk) (r\<lparr>route_workers := left\<rparr>) (routes t2)\<rparr>
          in if left = []
             then fold (fail_call route_lost) (route_queue r) (s\<lparr>routes := hm_remove (worker_route wk) (routes s)\<rparr>)
             else notify_route (worker_route wk) s)"
        and ok_u: "rpc_ok u" and ev_u: "evolves t u" and con: "connections u = connections t - {conn}"
        and wu: "hm_get (workers u) = (hm_get (workers t))(conn := None)"
        and rt: "hm_get (routes t) (worker_route wk) = Some r"
        and gone: "\<And>i. hm_get (calls t) i = None \<Longrightarrow> hm_get (calls u) i = None \<and> channels u i = channels t i"
        and lost: "\<And>i c. hm_get (calls t) i = Some c \<Longrightarrow> owner c = Some conn \<Longrightarrow>
           hm_get (calls u) i = None \<and> channels u i = (if response c then Some (Sent (Inl worker_lost)) else channels t i)"
        and orphan: "\<And>i c. hm_get (calls t) i = Some c \<Longrightarrow> owner c = None \<Longrightarrow> call_route c = worker_route wk \<Longrightarrow> left = [] \<Longrightarrow>
           hm_get (calls u) i = None \<and> channels u i = (if response c then Some (Sent (Inl route_lost)) else channels t i)"
        and rest: "\<And>i c. hm_get (calls t) i = Some c \<Longrightarrow> owner c \<noteq> Some conn \<Longrightarrow>
           \<not> (left = [] \<and> owner c = None \<and> call_route c = worker_route wk) \<Longrightarrow>
           hm_get (calls u) i = Some c \<and> channels u i = channels t i"
      have "disconnect conn s = Some u"
        using drop wk r
        by (simp add: disconnect_def Let_def ids_def [symmetric] t1_def [symmetric] worker_lost_def [symmetric]
            route_lost_def [symmetric] t2_def [symmetric] left [symmetric] u)
      moreover have "connections u = connections s - {conn}" by (simp add: con conn_t)
      moreover have "hm_get (calls u) i = None \<and> channels u i = channels s i" if "hm_get (calls s) i = None" for i
        using absent [OF that] gone [of i] by simp
      moreover have "hm_get (calls u) i = call_left s conn c \<and> channels u i = channel_left s conn c (channels s i)"
        if c: "hm_get (calls s) i = Some c" for i c
      proof (cases "caller c = conn")
        case True
        note ct = mine [OF c True]
        show ?thesis
          using True ct gone [of i] lost [of i "c\<lparr>response := False\<rparr>"] rest [of i "c\<lparr>response := False\<rparr>"]
          by (auto simp: call_left_def channel_left_def)
      next
        case False
        note ct = others [OF c False]
        have "rel_option same_route (hm_get (routes s) (worker_route wk)) (hm_get (routes t) (worker_route wk))"
          using t(3) by (simp add: queues_shrink_def)
        then obtain r0 where "hm_get (routes s) (worker_route wk) = Some r0" "route_workers r0 = route_workers r"
          using rt by (cases "hm_get (routes s) (worker_route wk)") (auto simp: same_route_def)
        then have "(\<exists>r. hm_get (routes s) (worker_route wk) = Some r \<and> filter (\<lambda>v. v \<noteq> conn) (route_workers r) = []) \<longleftrightarrow> left = []"
          by (simp add: left)
        then show ?thesis
          using lost [OF ct(1)] orphan [OF ct(1)] rest [OF ct(1)] ct(2) Some False
          by (cases "left = []"; cases "owner c"; cases "call_route c = worker_route wk")
            (auto simp: lost_reply_def call_left_def channel_left_def)
      qed
      ultimately show thesis using ok_u wu evolves_trans [OF ev ev_u] by (intro that [of u]) (simp_all add: workers_t)
    qed
  qed
qed

end
