(* ===== verification/Rpc_Wake.thy ===== *)
theory Rpc_Wake
  imports Rpc_Disconnect
begin

text \<open>
  Notifications. A worker is quiet when there is nothing it could take: it runs as many calls as
  it may, or the queue of its route is empty. The lemmas show of every operation that a worker
  that stops being quiet, or is removed, has had its waiters woken.
\<close>

section \<open>Quiet workers\<close>

definition quiet :: "state \<Rightarrow> u64 \<Rightarrow> nat \<Rightarrow> bool" where
  "quiet s w n = (\<exists>wk r. hm_get (workers s) w = Some wk \<and> notify wk = n
     \<and> hm_get (routes s) (worker_route wk) = Some r
     \<and> (concurrency wk \<le> running wk \<or> route_queue r = []))"

definition wakes :: "state \<Rightarrow> state \<Rightarrow> bool" where
  "wakes s s' = (length (notifies s) \<le> length (notifies s')
     \<and> (\<forall>n<length (notifies s). notifies s ! n \<le> notifies s' ! n
          \<and> (notifies s' ! n = notifies s ! n \<longrightarrow> (\<forall>w. quiet s w n \<longrightarrow> quiet s' w n))))"

lemma wakesI:
  assumes "notifies s' = notifies s" and "\<And>w n. quiet s w n \<Longrightarrow> quiet s' w n"
  shows "wakes s s'"
  using assms by (simp add: wakes_def)

lemma wakes_refl: "wakes s s"
  by (simp add: wakes_def)

lemma wakes_trans: "wakes s s' \<Longrightarrow> wakes s' s'' \<Longrightarrow> wakes s s''"
  unfolding wakes_def by (smt (verit) le_antisym le_trans order_less_le_trans)

lemma wakes_fold: "(\<And>x s. wakes s (f x s)) \<Longrightarrow> wakes s (fold f xs s)"
proof (induction xs arbitrary: s)
  case (Cons x xs)
  show ?case using wakes_trans [OF Cons.prems Cons.IH [OF Cons.prems]] by simp
qed (simp add: wakes_refl)

text \<open>Operations that leave workers, routes and notifications alone.\<close>

lemma wakes_same:
  "workers s' = workers s \<Longrightarrow> routes s' = routes s \<Longrightarrow> notifies s' = notifies s \<Longrightarrow> wakes s s'"
  by (rule wakesI) (simp_all add: quiet_def)

lemma wakes_notify: "wakes s (notify_waiters n s)"
proof -
  have "notifies s ! m \<le> (notifies s)[n := Suc (notifies s ! n)] ! m" if "m < length (notifies s)" for m
    using that by (cases "m = n") simp_all
  then show ?thesis by (simp add: wakes_def notify_waiters_def quiet_def)
qed

lemma wakes_notify_worker: "wakes s (notify_worker w s)"
  by (simp add: notify_worker_def wakes_notify wakes_refl split: option.split)

lemma wakes_notify_route: "wakes s (notify_route name s)"
  by (simp add: notify_route_def wakes_fold wakes_notify_worker wakes_refl split: option.split)

lemma notify_route_wakes:
  assumes r: "hm_get (routes s) name = Some r" and w: "w \<in> set (route_workers r)"
    and wk: "hm_get (workers s) w = Some wk" and n: "notify wk < length (notifies s)"
  shows "notifies s ! notify wk < notifies (notify_route name s) ! notify wk"
proof -
  have mono: "n < length (notifies s) \<Longrightarrow> notifies s ! n \<le> notifies (fold notify_worker ws s) ! n" for ws s n
    using wakes_fold [of notify_worker s ws, OF wakes_notify_worker] by (simp add: wakes_def)
  have "notifies s ! notify wk < notifies (fold notify_worker ws s) ! notify wk" if "w \<in> set ws"
    "hm_get (workers s) w = Some wk" "notify wk < length (notifies s)" for ws s
    using that
  proof (induction ws arbitrary: s)
    case (Cons v ws)
    have f: "workers (notify_worker v s) = workers s" "length (notifies (notify_worker v s)) = length (notifies s)"
      by (simp_all add: notify_worker_def notify_waiters_def split: option.split)
    show ?case
    proof (cases "v = w")
      case True
      then have "notifies (notify_worker v s) ! notify wk = Suc (notifies s ! notify wk)"
        using Cons.prems by (simp add: notify_worker_def notify_waiters_def)
      moreover have "notifies (notify_worker v s) ! notify wk
          \<le> notifies (fold notify_worker ws (notify_worker v s)) ! notify wk"
        using mono [of "notify wk" "notify_worker v s" ws] Cons.prems f by simp
      ultimately show ?thesis by simp
    next
      case False
      have "notifies s ! notify wk \<le> notifies (notify_worker v s) ! notify wk"
        using wakes_notify_worker [of s v] Cons.prems by (simp add: wakes_def)
      moreover have "notifies (notify_worker v s) ! notify wk
          < notifies (fold notify_worker ws (notify_worker v s)) ! notify wk"
        using Cons.IH [of "notify_worker v s"] Cons.prems False f by simp
      ultimately show ?thesis by simp
    qed
  qed simp
  from this [OF w wk n] show ?thesis by (simp add: notify_route_def r)
qed

section \<open>The operations\<close>

text \<open>A shorter queue, the same worker.\<close>

lemma wakes_shrink:
  assumes "queues_shrink s s'"
  shows "wakes s s'"
proof (rule wakesI)
  show "notifies s' = notifies s" using assms by (simp add: queues_shrink_def)
  fix w n assume "quiet s w n"
  then obtain wk r where q: "hm_get (workers s) w = Some wk" "notify wk = n"
    "hm_get (routes s) (worker_route wk) = Some r" "concurrency wk \<le> running wk \<or> route_queue r = []"
    by (auto simp: quiet_def)
  obtain r' where r': "hm_get (routes s') (worker_route wk) = Some r'" "same_route r r'"
    using queues_shrink_route [OF assms q(3)] .
  have "route_queue r = [] \<Longrightarrow> route_queue r' = []" using r'(2) by (auto simp: same_route_def)
  then show "quiet s' w n" using q r' assms by (auto simp: quiet_def queues_shrink_def)
qed

lemma wakes_remove: "wakes s (snd (remove i s))"
proof (cases "hm_get (calls s) i")
  case (Some c)
  show ?thesis
  proof (cases "owner c")
    case None
    then show ?thesis using queues_shrink_remove [OF Some] wakes_shrink by blast
  next
    case own: (Some w)
    show ?thesis
    proof (cases "hm_get (workers s) w")
      case None
      then show ?thesis using Some own by (intro wakes_same) (simp_all add: remove_def)
    next
      case wk: (Some wk)
      let ?t = "notify_waiters (notify wk)
        ((without_call i c s)\<lparr>workers := hm_insert w (wk\<lparr>running := running wk - 1\<rparr>) (workers s)\<rparr>)"
      have "wakes s ?t"
        unfolding wakes_def
      proof (intro conjI allI impI)
        fix n assume n: "n < length (notifies s)"
        show "notifies s ! n \<le> notifies ?t ! n"
          using n by (cases "n = notify wk") (simp_all add: notify_waiters_def)
        fix v assume same: "notifies ?t ! n = notifies s ! n" and q: "quiet s v n"
        have ne: "n \<noteq> notify wk" using same n by (auto simp: notify_waiters_def)
        with q wk have "v \<noteq> w" by (auto simp: quiet_def)
        with q show "quiet ?t v n" by (auto simp: quiet_def notify_waiters_def)
      qed (simp add: notify_waiters_def)
      then show ?thesis by (simp add: remove_running [OF Some own wk])
    qed
  qed
qed (simp add: remove_none wakes_refl)

lemma wakes_fail_call: "wakes s (fail_call e i s)"
proof -
  obtain a b where r: "remove i s = (a, b)" by fastforce
  have "wakes s b" using wakes_remove [of s i] by (simp add: r)
  moreover have "wakes b (send i (Inl e) b)" by (rule wakes_same) (simp_all add: send_def)
  ultimately show ?thesis
    using wakes_trans by (auto simp: fail_call_def r split: option.split)
qed

lemma wakes_expire: "wakes s (expire i s)"
  by (rule wakes_shrink [OF queues_shrink_expire])

lemma wakes_expire_queued: "wakes s (expire_queued name now s)"
  by (rule wakes_shrink [OF queues_shrink_expire_queued])

lemma wakes_cancel: "wakes s (cancel i s)"
proof (cases "hm_get (calls s) i")
  case (Some c)
  have "wakes s (settle i c Closed s)" by (rule wakes_same) simp_all
  from wakes_trans [OF this wakes_remove] this show ?thesis
    by (simp add: cancel_eq [OF Some] Let_def wakes_remove wakes_refl)
qed (simp add: cancel_def wakes_refl)

lemma wakes_admit:
  assumes inv: "rpc_ok s" and r: "hm_get (routes s) name = Some r"
  shows "wakes s (notify_route name (admit name r c s))"
proof -
  let ?a = "admit name r c s" and ?t = "notify_route name (admit name r c s)"
  have f: "workers ?a = workers s" "notifies ?a = notifies s"
    "routes ?a = hm_insert name (r\<lparr>route_queue := route_queue r @ [next_id s]\<rparr>) (routes s)"
    by (simp_all add: admit_def)
  have ft: "workers ?t = workers s" "routes ?t = routes ?a" "length (notifies ?t) = length (notifies s)"
    by (simp_all add: notify_route_fields f)
  have mono: "wakes ?a ?t" by (rule wakes_notify_route)
  show ?thesis
    unfolding wakes_def
  proof (intro conjI allI impI)
    fix n assume n: "n < length (notifies s)"
    show "notifies s ! n \<le> notifies ?t ! n" using mono n by (simp add: wakes_def f)
    fix v assume same: "notifies ?t ! n = notifies s ! n" and "quiet s v n"
    then obtain vk r0 where q: "hm_get (workers s) v = Some vk" "notify vk = n"
      "hm_get (routes s) (worker_route vk) = Some r0" "concurrency vk \<le> running vk \<or> route_queue r0 = []"
      by (auto simp: quiet_def)
    have "worker_route vk \<noteq> name"
    proof
      assume name: "worker_route vk = name"
      then have vr: "v \<in> set (route_workers (r\<lparr>route_queue := route_queue r @ [next_id s]\<rparr>))"
        using inv r q(1) by (auto simp: rpc_inv_def routes_ok_def)
      have ra: "hm_get (routes ?a) name = Some (r\<lparr>route_queue := route_queue r @ [next_id s]\<rparr>)" by (simp add: f)
      have "notifies ?a ! notify vk < notifies ?t ! notify vk"
        by (rule notify_route_wakes [OF ra vr]) (use q(1,2) n in \<open>simp_all add: f\<close>)
      with same q(2) show False by (simp add: f)
    qed
    then show "quiet ?t v n" using q by (auto simp: quiet_def ft f)
  qed (simp add: ft)
qed

lemma wakes_request:
  assumes "rpc_ok s" and "request who name ms p na nb s = Some (ans, t)"
  shows "wakes s t"
  using assms(1)
proof (cases rule: request_cases [where who = who and name = name and ms = ms and p = p and na = na and nb = nb])
  case (full t' r)
  have "wakes t' (t'\<lparr>rejected := saturating_add (rejected t') 1\<rparr>)" by (rule wakes_same) simp_all
  then show ?thesis using full assms(2) wakes_trans [OF wakes_expire_queued] by simp
next
  case (exhausted t')
  then show ?thesis using assms(2) wakes_expire_queued by simp
next
  case (admitted t' r c)
  have "rpc_ok t'" unfolding admitted(2) by (rule expire_queued_inv [OF assms(1)])
  from wakes_admit [OF this admitted(3)] wakes_expire_queued [of s name na, folded admitted(2)]
  show ?thesis using admitted(9) assms(2) wakes_trans by auto
qed (use assms(2) in \<open>auto intro: wakes_same wakes_refl\<close>)

lemma wakes_register:
  assumes "rpc_ok s" and "register w name conc lim s = (res, s')"
  shows "wakes s s'"
proof (cases res)
  case (Inl e)
  then show ?thesis using assms(2) by (auto simp: register_def Let_def wakes_refl split: if_splits)
next
  case (Inr u)
  define r where "r = (case hm_get (routes s) name of
      Some r \<Rightarrow> r | None \<Rightarrow> \<lparr>route_workers = [], route_queue = [], route_queue_limit = lim\<rparr>)"
  have new: "hm_get (workers s) w = None"
    and f: "routes s' = hm_insert name (r\<lparr>route_workers := route_workers r @ [w]\<rparr>) (routes s)"
      "notifies s' = notifies s @ [0]" "\<And>v. v \<noteq> w \<Longrightarrow> hm_get (workers s') v = hm_get (workers s) v"
    using assms(2) Inr by (auto simp: register_def Let_def r_def split: if_splits)
  have "quiet s' v n" if "quiet s v n" for v n
  proof -
    from that new have "v \<noteq> w" by (auto simp: quiet_def)
    with that show ?thesis by (auto simp: quiet_def f r_def)
  qed
  then show ?thesis by (simp add: wakes_def f nth_append)
qed

lemma wakes_pending:
  assumes "hm_get (workers s) w = Some wk"
  shows "wakes s (s\<lparr>workers := hm_insert w (wk\<lparr>pending_takes := n\<rparr>) (workers s)\<rparr>)"
  by (rule wakesI) (use assms in \<open>auto simp: quiet_def\<close>)

lemma wakes_take_begin: "wakes s (snd (take_begin w s))"
  by (auto simp: take_begin_def wakes_pending wakes_refl split: option.split)

lemma wakes_take_guard_drop: "wakes s (take_guard_drop w s)"
  by (auto simp: take_guard_drop_def wakes_pending wakes_refl split: option.split)

lemma wakes_dispatched:
  assumes "hm_get (routes s) name = Some r" "route_queue r = i # queue" "hm_get (workers s) w = Some wk"
  shows "wakes s (dispatched w wk name r queue i c s)"
proof (rule wakesI)
  show "notifies (dispatched w wk name r queue i c s) = notifies s" by (simp add: dispatched_def)
  fix v n assume q: "quiet s v n"
  then obtain vk r0 where v: "hm_get (workers s) v = Some vk" "notify vk = n"
    "hm_get (routes s) (worker_route vk) = Some r0" "concurrency vk \<le> running vk \<or> route_queue r0 = []"
    by (auto simp: quiet_def)
  let ?t = "dispatched w wk name r queue i c s"
  obtain vk' where v': "hm_get (workers ?t) v = Some vk'" "notify vk' = notify vk" "worker_route vk' = worker_route vk"
    "concurrency vk' = concurrency vk" "running vk \<le> running vk'"
    using v(1) assms(3) by (cases "v = w") (auto simp: dispatched_def)
  show "quiet ?t v n"
  proof (cases "worker_route vk = name")
    case True
    then have "concurrency vk \<le> running vk" using v assms(1,2) by auto
    moreover have "hm_get (routes ?t) (worker_route vk') = Some (r\<lparr>route_queue := queue\<rparr>)"
      using True v'(3) by (simp add: dispatched_def)
    ultimately show ?thesis using v' v(2) unfolding quiet_def by force
  next
    case False
    then have "hm_get (routes ?t) (worker_route vk') = Some r0" using v'(3) v(3) by (simp add: dispatched_def)
    then show ?thesis using v' v(2,4) unfolding quiet_def by force
  qed
qed

lemma wakes_try_take_once:
  assumes inv: "rpc_ok s" and run: "try_take_once w na nb s = Some (res, t)"
  shows "wakes s t" and "res = Idle \<Longrightarrow> \<exists>n. quiet t w n"
proof -
  have "wakes s t \<and> (res = Idle \<longrightarrow> (\<exists>n. quiet t w n))"
    using inv
  proof (cases rule: try_take_once_cases [where w = w and na = na and nb = nb])
    case refused
    then show ?thesis using run by (simp add: wakes_refl)
  next
    case (busy wk)
    then have "quiet s w (notify wk)" using worker_bounds [OF inv busy(1)] by (auto simp: quiet_def)
    then show ?thesis using run busy(3) wakes_refl by auto
  next
    case (idle wk t' r)
    then have "quiet t' w (notify wk)" by (auto simp: quiet_def)
    then show ?thesis using run idle(3,8) wakes_expire_queued by auto
  next
    case (again wk t' r i queue c)
    then show ?thesis using run wakes_trans [OF wakes_expire_queued wakes_expire] by auto
  next
    case (dispatch wk t' r i queue c)
    then show ?thesis using run wakes_trans [OF wakes_expire_queued wakes_dispatched] by auto
  qed
  then show "wakes s t" "res = Idle \<Longrightarrow> \<exists>n. quiet t w n" by simp_all
qed

lemma wakes_complete:
  assumes "complete w i failed p now s = Some (res, t)"
  shows "wakes s t"
proof (cases rule: complete_cases [of s w i failed p now])
  case (completed c n m)
  have "wakes (snd (remove i s)) t"
    using assms completed(3) by (intro wakes_same) (auto simp: send_def)
  then show ?thesis using wakes_trans [OF wakes_remove] by blast
qed (use assms in \<open>auto intro: wakes_refl\<close>)

section \<open>Disconnection\<close>

lemma wakes_drop_calls: "drop_calls is s = Some t \<Longrightarrow> wakes s t"
proof (induction "is" arbitrary: s)
  case (Cons i "is")
  then obtain c where c: "hm_get (calls s) i = Some c" by (cases "hm_get (calls s) i") auto
  have "cancel i s = (let s = (if response c then settle i c Closed s else s)
     in if owner c = None then snd (remove i s) else s)" by (rule cancel_eq [OF c])
  then have "drop_calls is (cancel i s) = Some t"
    using drop_calls_step [OF c, of "is"] Cons.prems by (simp del: drop_calls.simps)
  from wakes_trans [OF wakes_cancel Cons.IH [OF this]] show ?case .
qed (simp add: wakes_refl)

lemma wakes_worker_gone:
  fixes s :: state
  assumes "hm_get (workers s) conn = Some wk" and "n = notify wk" and "workers s' = hm_remove conn (workers s)"
    and "routes s' = routes s" and "notifies s' = notifies s"
  shows "wakes s (notify_waiters n s')"
  unfolding wakes_def
proof (intro conjI allI impI)
  fix m assume m: "m < length (notifies s)"
  show "notifies s ! m \<le> notifies (notify_waiters n s') ! m"
    using m assms(5) by (cases "m = n") (simp_all add: notify_waiters_def)
  fix v assume same: "notifies (notify_waiters n s') ! m = notifies s ! m" and q: "quiet s v m"
  have "m \<noteq> n" using same m assms(5) by (auto simp: notify_waiters_def)
  with q assms(1,2) have "v \<noteq> conn" by (auto simp: quiet_def)
  with q show "quiet (notify_waiters n s') v m" using assms(3,4) by (auto simp: quiet_def notify_waiters_def)
qed (simp add: notify_waiters_def assms(5))

text \<open>Facts of the intermediate states of \<open>disconnect\<close>.\<close>

lemma drop_calls_silent:
  assumes inv: "rpc_ok s" and ids: "is = map fst (filter (\<lambda>(i, c). caller c = conn) (calls s))"
    and t: "drop_calls is s = Some t" and c: "hm_get (calls t) i = Some c" "caller c = conn"
  shows "\<not> response c"
proof -
  have ok: "hm_ok (calls s)" using inv by (simp add: rpc_inv_def tables_ok_def)
  have dist: "distinct is" using hm.entries_distinct [OF ok] by (simp add: ids distinct_map_filter)
  have mem: "j \<in> set is \<longleftrightarrow> (\<exists>c. hm_get (calls s) j = Some c \<and> caller c = conn)" for j
    using hm.entries_get [OF ok] by (force simp: ids)
  have "\<forall>j\<in>set is. hm_get (calls s) j \<noteq> None" using mem by fastforce
  from drop_calls_inv [OF inv dist this] t c show ?thesis unfolding mem same_call_def by fastforce
qed

lemma owned_workers:
  assumes inv: "rpc_ok t" and wk: "hm_get (workers t) conn = Some wk"
    and t1: "t1 = notify_waiters (notify wk) (t\<lparr>connections := connections t - {conn}, workers := hm_remove conn (workers t)\<rparr>)"
  shows "workers (fold (fail_call worker_lost) (map fst (filter (\<lambda>(i, c). owner c = Some conn) (calls t1))) t1) = workers t1"
proof -
  have ok: "hm_ok (calls t)" using inv by (simp add: rpc_inv_def tables_ok_def)
  have f: "calls t1 = calls t" "workers t1 = hm_remove conn (workers t)" by (simp_all add: t1 notify_waiters_def)
  have core: "calls_core t1"
    using rpc_inv_core [OF inv] by (simp add: calls_core_def channels_ok_def holds_sender_def t1 notify_waiters_def)
  have dist: "distinct (map fst (filter (\<lambda>(i, c). owner c = Some conn) (calls t1)))"
    using hm.entries_distinct [OF ok] by (simp add: f distinct_map_filter)
  have "\<forall>i\<in>set (map fst (filter (\<lambda>(i, c). owner c = Some conn) (calls t1))).
      \<exists>c. hm_get (calls t1) i = Some c \<and> detached t1 c"
    using hm.entries_get [OF ok] by (force simp: f detached_def)
  from fail_calls(5) [OF core dist this] show ?thesis .
qed

lemma disconnect_wakes:
  assumes inv: "rpc_ok s" and run: "disconnect conn s = Some u"
  shows "wakes s u"
    and "hm_get (workers s) conn = Some wk \<Longrightarrow> notifies s ! notify wk < notifies u ! notify wk"
proof -
  let ?C = "connections s - {conn}"
  define ids where "ids = map fst (filter (\<lambda>(i, c). caller c = conn) (calls s))"
  have ok: "hm_ok (calls s)" using inv by (simp add: rpc_inv_def tables_ok_def)
  have dist: "distinct ids" using hm.entries_distinct [OF ok] by (simp add: ids_def distinct_map_filter)
  have "\<forall>i\<in>set ids. hm_get (calls s) i \<noteq> None" using hm.entries_get [OF ok] by (force simp: ids_def)
  from drop_calls_inv [OF inv dist this] obtain t where t: "drop_calls ids s = Some t" "rpc_ok t" "queues_shrink s t"
    by blast
  have drop: "drop_calls ids (s\<lparr>connections := ?C\<rparr>) = Some (t\<lparr>connections := ?C\<rparr>)"
    by (simp add: drop_calls_connections t(1))
  have wt: "workers t = workers s" and nt: "notifies t = notifies s" using t(3) by (simp_all add: queues_shrink_def)
  have st: "wakes s t" by (rule wakes_drop_calls [OF t(1)])
  have "wakes s u \<and> (\<forall>wk. hm_get (workers s) conn = Some wk \<longrightarrow> notifies s ! notify wk < notifies u ! notify wk)"
  proof (cases "hm_get (workers s) conn")
    case None
    then have "u = t\<lparr>connections := ?C\<rparr>"
      using run drop by (simp add: disconnect_def Let_def ids_def wt)
    then have "wakes t u" by (intro wakes_same) simp_all
    then show ?thesis using None wakes_trans [OF st] by simp
  next
    case (Some wk)
    let ?name = "worker_route wk"
    define t1 where "t1 = notify_waiters (notify wk) (t\<lparr>connections := ?C, workers := hm_remove conn (workers s)\<rparr>)"
    define t2 where "t2 = fold (fail_call worker_lost) (map fst (filter (\<lambda>(i, c). owner c = Some conn) (calls t1))) t1"
    have w1: "wakes t t1" unfolding t1_def using Some wt by (intro wakes_worker_gone) simp_all
    have w2: "wakes t1 t2" unfolding t2_def by (rule wakes_fold [OF wakes_fail_call])
    have n: "notify wk < length (notifies s)" using inv Some by (auto simp: rpc_inv_def workers_ok_def)
    have up: "notifies s ! notify wk < notifies t1 ! notify wk" using n by (simp add: t1_def notify_waiters_def nt)
    have wt1: "workers t1 = hm_remove conn (workers t)" "length (notifies t1) = length (notifies s)" "routes t1 = routes t"
      by (simp_all add: t1_def notify_waiters_def nt wt)
    obtain r left where r: "hm_get (routes t2) ?name = Some r" and left: "left = filter (\<lambda>v. v \<noteq> conn) (route_workers r)"
      and u: "u = (let s = t2\<lparr>routes := hm_insert ?name (r\<lparr>route_workers := left\<rparr>) (routes t2)\<rparr>
          in if left = [] then fold (fail_call route_lost) (route_queue r) (s\<lparr>routes := hm_remove ?name (routes s)\<rparr>)
             else notify_route ?name s)"
      and sole: "left = [] \<Longrightarrow> \<not> (\<exists>v vk. hm_get (workers t2) v = Some vk \<and> worker_route vk = ?name)"
    proof -
      have silent: "\<not> response c" if "hm_get (calls t) i = Some c" "caller c = conn" for i c
        using drop_calls_silent [OF inv ids_def t(1) that] .
      have conn_t: "connections t = connections s" using t(3) by (simp add: queues_shrink_def)
      have t1': "t1 = notify_waiters (notify wk) (t\<lparr>connections := connections t - {conn}, workers := hm_remove conn (workers t)\<rparr>)"
        by (simp add: t1_def conn_t wt)
      show thesis
      proof (rule disconnect_worker [OF t(2) Some [folded wt] silent t1' t2_def])
        fix r left u'
        assume r: "hm_get (routes t2) ?name = Some r" and left: "left = filter (\<lambda>v. v \<noteq> conn) (route_workers r)"
          and u': "u' = (let s = t2\<lparr>routes := hm_insert ?name (r\<lparr>route_workers := left\<rparr>) (routes t2)\<rparr>
            in if left = [] then fold (fail_call route_lost) (route_queue r) (s\<lparr>routes := hm_remove ?name (routes s)\<rparr>)
               else notify_route ?name s)"
          and rt: "hm_get (routes t) ?name = Some r"
        have "disconnect conn s = Some u'"
          using drop Some r
          by (simp add: disconnect_def Let_def ids_def [symmetric] t1_def [symmetric] worker_lost_def [symmetric]
              route_lost_def [symmetric] t2_def [symmetric] left [symmetric] u' wt)
        then have u: "u = u'" using run by simp
        have "\<not> (\<exists>v vk. hm_get (workers t2) v = Some vk \<and> worker_route vk = ?name)" if "left = []"
        proof
          assume "\<exists>v vk. hm_get (workers t2) v = Some vk \<and> worker_route vk = ?name"
          then obtain v vk where v: "hm_get (workers t2) v = Some vk" "worker_route vk = ?name" by blast
          have "workers t2 = hm_remove conn (workers t)"
            unfolding t2_def using owned_workers [OF t(2) Some [folded wt] t1'] wt1(1) by simp
          then have v': "v \<noteq> conn" "hm_get (workers t) v = Some vk" using v(1) by (auto split: if_splits)
          have "v \<in> set (route_workers r)" using t(2) rt v' v(2) by (auto simp: rpc_inv_def routes_ok_def)
          then show False using that left v'(1) by (auto simp: filter_empty_conv)
        qed
        then show thesis using that r left u u' by blast
      qed
    qed
    let ?s = "t2\<lparr>routes := hm_insert ?name (r\<lparr>route_workers := left\<rparr>) (routes t2)\<rparr>"
    have w3: "wakes t2 ?s"
    proof (rule wakesI)
      fix v n assume "quiet t2 v n"
      then show "quiet ?s v n" using r by (auto simp: quiet_def)
    qed simp
    have w4: "wakes ?s u"
    proof (cases "left = []")
      case False
      then show ?thesis using wakes_notify_route [of ?s ?name] by (simp add: u Let_def)
    next
      case True
      let ?s3 = "?s\<lparr>routes := hm_remove ?name (routes ?s)\<rparr>"
      have "wakes ?s ?s3"
      proof (rule wakesI)
        fix v n assume "quiet ?s v n"
        then obtain vk r1 where q: "hm_get (workers t2) v = Some vk" "notify vk = n"
          "hm_get (routes ?s) (worker_route vk) = Some r1" "concurrency vk \<le> running vk \<or> route_queue r1 = []"
          by (auto simp: quiet_def simp del: hm_simps)
        have "worker_route vk \<noteq> ?name" using sole [OF True] q(1) by blast
        then show "quiet ?s3 v n"
          unfolding quiet_def using q by (intro exI [of _ vk] exI [of _ r1]) simp
      qed simp
      moreover have "wakes ?s3 u" using True wakes_fold [of "fail_call route_lost", OF wakes_fail_call] by (simp add: u Let_def)
      ultimately show ?thesis by (rule wakes_trans)
    qed
    have w24: "wakes t1 u" using wakes_trans [OF w2 wakes_trans [OF w3 w4]] .
    then have "notifies t1 ! notify wk \<le> notifies u ! notify wk" using n wt1(2) by (simp add: wakes_def)
    then show ?thesis using up Some wakes_trans [OF st wakes_trans [OF w1 w24]] by simp
  qed
  then show "wakes s u" "hm_get (workers s) conn = Some wk \<Longrightarrow> notifies s ! notify wk < notifies u ! notify wk" by simp_all
qed

end
