(* ===== verification/Transition.thy ===== *)
theory Transition
  imports Main
begin

text \<open>
  Labelled transition systems: runs of a step relation, the locale \<open>invariant_system\<close> of a
  relation with an invariant, and what follows for every run.
\<close>

inductive runs :: "('s \<Rightarrow> 'l \<Rightarrow> 's \<Rightarrow> bool) \<Rightarrow> 's \<Rightarrow> 'l list \<Rightarrow> 's \<Rightarrow> bool" for step where
  runs_nil: "runs step s [] s"
| runs_snoc: "runs step s ls t \<Longrightarrow> step t l u \<Longrightarrow> runs step s (ls @ [l]) u"

inductive_cases runs_nilE: "runs step s [] t"

locale invariant_system =
  fixes step :: "'s \<Rightarrow> 'l \<Rightarrow> 's \<Rightarrow> bool"
    and inv :: "'s \<Rightarrow> bool"
  assumes inv_step: "inv s \<Longrightarrow> step s l t \<Longrightarrow> inv t"
begin

lemma run_inv: "runs step s ls t \<Longrightarrow> inv s \<Longrightarrow> inv t"
  by (induction rule: runs.induct) (auto intro: inv_step)

text \<open>A reflexive, transitive relation that every step respects holds between the ends of a run.\<close>

lemma run_related:
  assumes "runs step s ls t" and "inv s"
    and refl: "\<And>s. R s s" and trans: "\<And>s t u. R s t \<Longrightarrow> R t u \<Longrightarrow> R s u"
    and step_R: "\<And>s l t. inv s \<Longrightarrow> step s l t \<Longrightarrow> R s t"
  shows "R s t"
  using assms(1,2)
proof (induction rule: runs.induct)
  case (runs_snoc s ls t l u)
  then have "inv t" using run_inv by blast
  then show ?case using runs_snoc step_R trans by blast
qed (rule refl)

end

end
