(* ===== verification/Rpc_System.thy ===== *)
theory Rpc_System
  imports Rpc_Wake Transition
begin

text \<open>
  The scheduler with its clients: connections that come and go, tickets that callers wait on and
  TAKE operations in progress. Each step holds the lock once, so a run is any interleaving of the
  operations of any number of tasks; a task may be aborted between any two of its steps. The
  readings of the clock in a step are arbitrary.
\<close>

section \<open>State and steps\<close>

text \<open>
  A \<open>take\<close> in its loop: before \<open>enable()\<close>, about to call \<open>try_take\<close> with a waiter enabled when the
  handle had been notified \<open>e\<close> times, or awaiting that waiter until \<open>tk_end\<close>.
\<close>

datatype take_phase = Starting | Trying nat | Waiting nat

record take_op =
  tk_worker :: u64
  tk_notify :: nat
  tk_end :: nat
  tk_phase :: take_phase

record system =
  rpc :: state
  takes :: "(nat, take_op) hash_table"
  tickets :: "ticket set"
  known :: "u64 set"

definition system_new :: "nat \<Rightarrow> u64 \<Rightarrow> system" where
  "system_new n b = \<lparr>rpc = rpc_new n b, takes = [], tickets = {}, known = {}\<rparr>"

text \<open>The end of a \<open>take\<close>, whatever its reason: its guard is dropped.\<close>

definition end_take :: "nat \<Rightarrow> take_op \<Rightarrow> state \<Rightarrow> system \<Rightarrow> system" where
  "end_take k tk s \<sigma> = \<sigma>\<lparr>rpc := take_guard_drop (tk_worker tk) s, takes := hm_remove k (takes \<sigma>)\<rparr>"

text \<open>What an observer sees of a step: the operation, its arguments and its result.\<close>

datatype rpc_event =
    Connect u64 | Registered u64 rstring "error + unit" | Requested u64 rstring bytes "error + ticket"
  | TakeRefused u64 error | TakeStarted u64 nat | Enabled nat | Tried u64 take_result | Woken nat | TimedOut nat
  | Aborted nat | Completed u64 u64 bool bytes "error + unit" | Answered u64 reply | TicketDropped u64
  | Disconnected u64

inductive rpc_step :: "system \<Rightarrow> rpc_event \<Rightarrow> system \<Rightarrow> bool" where
  connect: "c \<notin> known \<sigma> \<Longrightarrow>
    rpc_step \<sigma> (Connect c) (\<sigma>\<lparr>rpc := connected c (rpc \<sigma>), known := insert c (known \<sigma>)\<rparr>)"
| register: "register w name conc lim (rpc \<sigma>) = (res, s) \<Longrightarrow>
    rpc_step \<sigma> (Registered w name res) (\<sigma>\<lparr>rpc := s\<rparr>)"
| request: "request c name ms p now1 now2 (rpc \<sigma>) = Some (res, s) \<Longrightarrow>
    rpc_step \<sigma> (Requested c name p res)
      (\<sigma>\<lparr>rpc := s, tickets := (case res of Inl e \<Rightarrow> tickets \<sigma> | Inr t \<Rightarrow> insert t (tickets \<sigma>))\<rparr>)"
| take_refused: "take_begin w (rpc \<sigma>) = (Inl e, s) \<Longrightarrow> rpc_step \<sigma> (TakeRefused w e) (\<sigma>\<lparr>rpc := s\<rparr>)"
| take_started: "take_begin w (rpc \<sigma>) = (Inr n, s) \<Longrightarrow> hm_get (takes \<sigma>) k = None \<Longrightarrow>
    rpc_step \<sigma> (TakeStarted w k) (\<sigma>\<lparr>rpc := s,
      takes := hm_insert k \<lparr>tk_worker = w, tk_notify = n, tk_end = end_time, tk_phase = Starting\<rparr> (takes \<sigma>)\<rparr>)"
| take_enable: "hm_get (takes \<sigma>) k = Some tk \<Longrightarrow> tk_phase tk = Starting \<Longrightarrow>
    rpc_step \<sigma> (Enabled k)
      (\<sigma>\<lparr>takes := hm_insert k (tk\<lparr>tk_phase := Trying (notifies (rpc \<sigma>) ! tk_notify tk)\<rparr>) (takes \<sigma>)\<rparr>)"
| take_again: "hm_get (takes \<sigma>) k = Some tk \<Longrightarrow> tk_phase tk = Trying e \<Longrightarrow>
    try_take_once (tk_worker tk) now1 now2 (rpc \<sigma>) = Some (Again, s) \<Longrightarrow>
    rpc_step \<sigma> (Tried (tk_worker tk) Again) (\<sigma>\<lparr>rpc := s\<rparr>)"
| take_idle: "hm_get (takes \<sigma>) k = Some tk \<Longrightarrow> tk_phase tk = Trying e \<Longrightarrow>
    try_take_once (tk_worker tk) now1 now2 (rpc \<sigma>) = Some (Idle, s) \<Longrightarrow>
    rpc_step \<sigma> (Tried (tk_worker tk) Idle) (\<sigma>\<lparr>rpc := s, takes := hm_insert k (tk\<lparr>tk_phase := Waiting e\<rparr>) (takes \<sigma>)\<rparr>)"
| take_done: "hm_get (takes \<sigma>) k = Some tk \<Longrightarrow> tk_phase tk = Trying e \<Longrightarrow>
    try_take_once (tk_worker tk) now1 now2 (rpc \<sigma>) = Some (res, s) \<Longrightarrow> res \<noteq> Idle \<Longrightarrow> res \<noteq> Again \<Longrightarrow>
    rpc_step \<sigma> (Tried (tk_worker tk) res) (end_take k tk s \<sigma>)"
| take_woken: "hm_get (takes \<sigma>) k = Some tk \<Longrightarrow> tk_phase tk = Waiting e \<Longrightarrow>
    e < notifies (rpc \<sigma>) ! tk_notify tk \<Longrightarrow>
    rpc_step \<sigma> (Woken k) (\<sigma>\<lparr>takes := hm_insert k (tk\<lparr>tk_phase := Starting\<rparr>) (takes \<sigma>)\<rparr>)"
| take_timeout: "hm_get (takes \<sigma>) k = Some tk \<Longrightarrow> tk_phase tk = Waiting e \<Longrightarrow> tk_end tk \<le> now \<Longrightarrow>
    rpc_step \<sigma> (TimedOut k) (end_take k tk (rpc \<sigma>) \<sigma>)"
| take_abort: "hm_get (takes \<sigma>) k = Some tk \<Longrightarrow> rpc_step \<sigma> (Aborted k) (end_take k tk (rpc \<sigma>) \<sigma>)"
| complete: "complete w i failed p now (rpc \<sigma>) = Some (res, s) \<Longrightarrow>
    rpc_step \<sigma> (Completed w i failed p res) (\<sigma>\<lparr>rpc := s\<rparr>)"
| answered: "t \<in> tickets \<sigma> \<Longrightarrow> ticket_poll now t (rpc \<sigma>) = Some (r, s) \<Longrightarrow>
    rpc_step \<sigma> (Answered (tk_call_id t) r)
      (\<sigma>\<lparr>rpc := cancel (tk_call_id t) s, tickets := tickets \<sigma> - {t}\<rparr>)"
| ticket_dropped: "t \<in> tickets \<sigma> \<Longrightarrow>
    rpc_step \<sigma> (TicketDropped (tk_call_id t))
      (\<sigma>\<lparr>rpc := cancel (tk_call_id t) (rpc \<sigma>), tickets := tickets \<sigma> - {t}\<rparr>)"
| disconnect: "disconnect c (rpc \<sigma>) = Some s \<Longrightarrow> rpc_step \<sigma> (Disconnected c) (\<sigma>\<lparr>rpc := s\<rparr>)"

inductive_cases rpc_stepE [consumes 1, case_names connect register request take_refused take_started
  take_enable take_again take_idle take_done take_woken take_timeout take_abort complete answered
  ticket_dropped disconnect]: "rpc_step \<sigma> l \<sigma>'"

section \<open>What every step does to the scheduler\<close>

lemma ticket_poll_state:
  assumes "ticket_poll now t s = Some (r, s')"
  shows "s' = s \<or> s' = expire (tk_call_id t) s"
  using assms by (auto simp: ticket_poll_def split: option.splits channel.splits if_splits)

text \<open>Workers and connections: who can be added, and that nobody changes handle.\<close>

definition worker_view :: "worker \<Rightarrow> rstring \<times> nat \<times> nat \<times> nat" where
  "worker_view wk = (worker_route wk, concurrency wk, pending_takes wk, notify wk)"

definition same_workers :: "state \<Rightarrow> state \<Rightarrow> bool" where
  "same_workers s s' = (connections s' = connections s
     \<and> (\<forall>w. map_option worker_view (hm_get (workers s') w) = map_option worker_view (hm_get (workers s) w)))"

lemma same_workers_eq: "connections s' = connections s \<Longrightarrow> workers s' = workers s \<Longrightarrow> same_workers s s'"
  by (simp add: same_workers_def)

lemma same_workers_refl: "same_workers s s"
  by (rule same_workers_eq) simp_all

lemma same_workers_trans: "same_workers s s' \<Longrightarrow> same_workers s' s'' \<Longrightarrow> same_workers s s''"
  by (simp add: same_workers_def)

lemma same_workers_shrink: "queues_shrink s s' \<Longrightarrow> same_workers s s'"
  by (rule same_workers_eq) (simp_all add: queues_shrink_def)

lemma same_workers_remove: "same_workers s (snd (remove i s))"
  by (auto simp: remove_def Let_def notify_waiters_def same_workers_def worker_view_def split: option.split)

lemma same_workers_notify_route: "same_workers s (notify_route name s)"
  by (rule same_workers_eq) (simp_all add: notify_route_fields)

lemma same_workers_request:
  assumes "rpc_ok s" and "request who name ms p na nb s = Some (ans, t)"
  shows "same_workers s t"
  using assms(1)
proof (cases rule: request_cases [where who = who and name = name and ms = ms and p = p and na = na and nb = nb])
  case (full t' r)
  have "same_workers t' (t'\<lparr>rejected := saturating_add (rejected t') 1\<rparr>)" by (rule same_workers_eq) simp_all
  then show ?thesis
    using full assms(2) same_workers_trans [OF same_workers_shrink [OF queues_shrink_expire_queued]] by simp
next
  case (exhausted t')
  then show ?thesis using assms(2) same_workers_shrink [OF queues_shrink_expire_queued] by simp
next
  case (admitted t' r c)
  have "same_workers t' (admit name r c t')" by (rule same_workers_eq) (simp_all add: admit_def)
  from same_workers_trans [OF this same_workers_notify_route]
  have "same_workers t' (notify_route name (admit name r c t'))" .
  then show ?thesis
    using admitted(2,9) assms(2) same_workers_trans [OF same_workers_shrink [OF queues_shrink_expire_queued]]
    by simp
next
  case closed
  then show ?thesis using assms(2) by (simp add: same_workers_refl)
next
  case unserved
  then show ?thesis using assms(2) by (auto intro: same_workers_eq)
qed

lemma same_workers_try_take_once:
  assumes inv: "rpc_ok s" and run: "try_take_once w na nb s = Some (res, t)"
  shows "same_workers s t"
  using inv
proof (cases rule: try_take_once_cases [where w = w and na = na and nb = nb])
  case (idle wk t' r)
  then show ?thesis using run same_workers_shrink [OF queues_shrink_expire_queued] by simp
next
  case (again wk t' r i queue c)
  then show ?thesis
    using run same_workers_shrink [OF queues_shrink_trans [OF queues_shrink_expire_queued queues_shrink_expire]] by simp
next
  case (dispatch wk t' r i queue c)
  have "same_workers t' (dispatched w wk (worker_route wk) r queue i c t')"
    using dispatch(5) by (simp add: same_workers_def dispatched_def worker_view_def)
  then show ?thesis
    using run dispatch(3,12) same_workers_trans [OF same_workers_shrink [OF queues_shrink_expire_queued]] by simp
qed (use run same_workers_refl in auto)

lemma same_workers_complete:
  assumes "complete w i failed p now s = Some (res, t)"
  shows "same_workers s t"
proof (cases rule: complete_cases [of s w i failed p now])
  case (completed c n m)
  have "same_workers (snd (remove i s)) t"
    using assms completed(3) by (intro same_workers_eq) (cases "response c"; auto simp: send_def)+
  then show ?thesis using same_workers_trans [OF same_workers_remove] by blast
qed (use assms same_workers_refl in auto)

lemma same_workers_cancel: "same_workers s (cancel i s)"
proof (cases "hm_get (calls s) i")
  case (Some c)
  have "same_workers s (settle i c Closed s)" by (rule same_workers_eq) simp_all
  from same_workers_trans [OF this same_workers_remove] this show ?thesis
    by (simp add: cancel_eq [OF Some] Let_def same_workers_remove same_workers_refl)
qed (simp add: cancel_def same_workers_refl)

lemma request_ticket:
  assumes "rpc_ok s" and "request who name ms p na nb s = Some (Inr t, s')"
  shows "0 < tk_call_id t \<and> tk_call_id t < next_id s'"
  using assms(1)
proof (cases rule: request_cases [where who = who and name = name and ms = ms and p = p and na = na and nb = nb])
  case (admitted t' r c)
  have t': "rpc_ok t'" unfolding admitted(2) by (rule expire_queued_inv [OF assms(1)])
  have "t = \<lparr>tk_call_id = next_id t', tk_deadline = deadline c\<rparr>" "s' = notify_route name (admit name r c t')"
    using admitted(9) assms(2) by simp_all
  moreover have "next_id t' < next_id t' + 1"
    using checked_add_Some [OF admitted(8)] by (auto simp: word_less_nat_alt)
  ultimately show ?thesis using t' by (simp add: notify_route_fields admit_def rpc_inv_def)
qed (use assms(2) in auto)

section \<open>The invariant of the system\<close>

text \<open>
  A TAKE in progress belongs to the worker registered on its connection, and its waiter is not
  asleep on work: when it has not been notified since it was enabled, its worker is quiet.
\<close>

definition take_ok :: "state \<Rightarrow> u64 set \<Rightarrow> take_op \<Rightarrow> bool" where
  "take_ok s K tk =
     (tk_notify tk < length (notifies s) \<and> tk_worker tk \<in> K
      \<and> (tk_worker tk \<in> connections s \<longrightarrow>
           (\<exists>wk. hm_get (workers s) (tk_worker tk) = Some wk \<and> notify wk = tk_notify tk))
      \<and> (\<forall>e. tk_phase tk = Trying e \<longrightarrow> e \<le> notifies s ! tk_notify tk)
      \<and> (\<forall>e. tk_phase tk = Waiting e \<longrightarrow> e \<le> notifies s ! tk_notify tk
           \<and> (e = notifies s ! tk_notify tk \<longrightarrow> quiet s (tk_worker tk) (tk_notify tk))))"

definition taking :: "(nat, take_op) hash_table \<Rightarrow> u64 \<Rightarrow> nat" where
  "taking ts w = hm.total (\<lambda>tk. if tk_worker tk = w then 1 else 0) ts"

definition sys_ok :: "system \<Rightarrow> bool" where
  "sys_ok \<sigma> =
     (rpc_ok (rpc \<sigma>) \<and> hm_ok (takes \<sigma>) \<and> connections (rpc \<sigma>) \<subseteq> known \<sigma>
      \<and> (\<forall>w wk. hm_get (workers (rpc \<sigma>)) w = Some wk \<longrightarrow> pending_takes wk = taking (takes \<sigma>) w)
      \<and> (\<forall>k tk. hm_get (takes \<sigma>) k = Some tk \<longrightarrow> take_ok (rpc \<sigma>) (known \<sigma>) tk)
      \<and> (\<forall>t\<in>tickets \<sigma>. 0 < tk_call_id t \<and> tk_call_id t < next_id (rpc \<sigma>)))"

lemma sys_new_ok: "sys_ok (system_new n b)"
  by (simp add: sys_ok_def system_new_def rpc_new_ok) (simp add: rpc_new_def)

lemma worker_connected: "rpc_ok s \<Longrightarrow> hm_get (workers s) w = Some wk \<Longrightarrow> w \<in> connections s"
  by (auto simp: rpc_inv_def workers_ok_def)

text \<open>Waiters stay sound in every state the notifications lead to.\<close>

lemma take_ok_wakes:
  assumes tk: "take_ok s K tk" and w: "wakes s s'" and K: "K \<subseteq> K'"
    and con: "tk_worker tk \<in> connections s' \<Longrightarrow>
      \<exists>wk. hm_get (workers s') (tk_worker tk) = Some wk \<and> notify wk = tk_notify tk"
  shows "take_ok s' K' tk"
proof -
  have n: "tk_notify tk < length (notifies s)" using tk by (simp add: take_ok_def)
  have mono: "notifies s ! tk_notify tk \<le> notifies s' ! tk_notify tk" using w n by (simp add: wakes_def)
  show ?thesis
    unfolding take_ok_def
  proof (intro conjI allI impI)
    show "tk_notify tk < length (notifies s')" using n w by (simp add: wakes_def)
    show "tk_worker tk \<in> K'" using tk K by (auto simp: take_ok_def)
    show "\<exists>wk. hm_get (workers s') (tk_worker tk) = Some wk \<and> notify wk = tk_notify tk"
      if "tk_worker tk \<in> connections s'" using con that .
    fix e
    show "e \<le> notifies s' ! tk_notify tk" if "tk_phase tk = Trying e"
      using tk that mono by (fastforce simp: take_ok_def)
    assume e: "tk_phase tk = Waiting e"
    then have le: "e \<le> notifies s ! tk_notify tk" using tk by (simp add: take_ok_def)
    then show "e \<le> notifies s' ! tk_notify tk" using mono by simp
    assume "e = notifies s' ! tk_notify tk"
    then have same: "notifies s' ! tk_notify tk = notifies s ! tk_notify tk" "e = notifies s ! tk_notify tk"
      using le mono by simp_all
    then have "quiet s (tk_worker tk) (tk_notify tk)" using tk e by (simp add: take_ok_def)
    then show "quiet s' (tk_worker tk) (tk_notify tk)" using w n same(1) by (simp add: wakes_def)
  qed
qed

lemma sys_frame:
  assumes ok: "sys_ok \<sigma>" and s': "rpc_ok s'" and w: "wakes (rpc \<sigma>) s'" and same: "same_workers (rpc \<sigma>) s'"
    and ev: "evolves (rpc \<sigma>) s'" and ts: "\<forall>t\<in>T. t \<in> tickets \<sigma> \<or> (0 < tk_call_id t \<and> tk_call_id t < next_id s')"
  shows "sys_ok (\<sigma>\<lparr>rpc := s', tickets := T\<rparr>)"
proof -
  have con: "connections s' = connections (rpc \<sigma>)" using same by (simp add: same_workers_def)
  have backward: "\<exists>wk. hm_get (workers (rpc \<sigma>)) v = Some wk \<and> pending_takes wk' = pending_takes wk \<and> notify wk' = notify wk"
    if "hm_get (workers s') v = Some wk'" for v wk'
  proof -
    have "map_option worker_view (hm_get (workers s') v) = map_option worker_view (hm_get (workers (rpc \<sigma>)) v)"
      using same by (simp add: same_workers_def)
    then show ?thesis using that by (cases "hm_get (workers (rpc \<sigma>)) v") (auto simp: worker_view_def)
  qed
  have forward: "\<exists>wk'. hm_get (workers s') v = Some wk' \<and> notify wk' = notify wk"
    if "hm_get (workers (rpc \<sigma>)) v = Some wk" for v wk
  proof -
    have "map_option worker_view (hm_get (workers s') v) = map_option worker_view (hm_get (workers (rpc \<sigma>)) v)"
      using same by (simp add: same_workers_def)
    then show ?thesis using that by (cases "hm_get (workers s') v") (auto simp: worker_view_def)
  qed
  have "take_ok s' (known \<sigma>) tk" if "hm_get (takes \<sigma>) k = Some tk" for k tk
  proof (rule take_ok_wakes [OF _ w])
    show tk: "take_ok (rpc \<sigma>) (known \<sigma>) tk" using ok that by (simp add: sys_ok_def)
    show "\<exists>wk. hm_get (workers s') (tk_worker tk) = Some wk \<and> notify wk = tk_notify tk"
      if "tk_worker tk \<in> connections s'"
      using tk that forward unfolding take_ok_def con by metis
  qed simp
  moreover have "pending_takes wk = taking (takes \<sigma>) v" if "hm_get (workers s') v = Some wk" for v wk
    using ok backward [OF that] by (auto simp: sys_ok_def)
  moreover have "next_id (rpc \<sigma>) \<le> next_id s'" using ev by (simp add: evolves_def)
  moreover have "tk_call_id t < next_id s'" if "t \<in> tickets \<sigma>" for t
    using ok that calculation(3) by (auto simp: sys_ok_def)
  ultimately show ?thesis using ok s' ts con by (auto simp: sys_ok_def)
qed

lemma sys_frame_same:
  "sys_ok \<sigma> \<Longrightarrow> rpc_ok s' \<Longrightarrow> wakes (rpc \<sigma>) s' \<Longrightarrow> same_workers (rpc \<sigma>) s' \<Longrightarrow> evolves (rpc \<sigma>) s' \<Longrightarrow>
    sys_ok (\<sigma>\<lparr>rpc := s'\<rparr>)"
  using sys_frame [of \<sigma> s' "tickets \<sigma>"] by simp

text \<open>Changing one TAKE in progress.\<close>

lemma sys_update_take:
  assumes ok: "sys_ok \<sigma>" and tk: "hm_get (takes \<sigma>) k = Some tk" and tk': "take_ok (rpc \<sigma>) (known \<sigma>) tk'"
    and w: "tk_worker tk' = tk_worker tk"
  shows "sys_ok (\<sigma>\<lparr>takes := hm_insert k tk' (takes \<sigma>)\<rparr>)"
proof -
  have h: "hm_ok (takes \<sigma>)" using ok by (simp add: sys_ok_def)
  have "taking (hm_insert k tk' (takes \<sigma>)) v = taking (takes \<sigma>) v" for v
    using hm.total_put_old [OF h tk, of "\<lambda>tk. if tk_worker tk = v then 1 else 0" tk'] w
    by (simp add: taking_def)
  then show ?thesis using ok tk' by (auto simp: sys_ok_def)
qed

lemma sys_end_take:
  assumes ok: "sys_ok (\<sigma>\<lparr>rpc := s\<rparr>)" and tk: "hm_get (takes \<sigma>) k = Some tk"
  shows "sys_ok (end_take k tk s \<sigma>)"
proof -
  let ?w = "tk_worker tk" and ?t = "take_guard_drop (tk_worker tk) s"
  have h: "hm_ok (takes \<sigma>)" and s: "rpc_ok s" using ok by (simp_all add: sys_ok_def)
  have tot: "taking (takes \<sigma>) v = (if ?w = v then 1 else 0) + taking (hm_remove k (takes \<sigma>)) v" for v
    using hm.total_remove [OF h tk, of "\<lambda>tk. if tk_worker tk = v then 1 else 0"] by (simp add: taking_def)
  have f: "connections ?t = connections s" "next_id ?t = next_id s"
    by (simp_all add: take_guard_drop_def split: option.split)
  have get: "hm_get (workers ?t) v = (if v = ?w then map_option (\<lambda>wk. wk\<lparr>pending_takes := pending_takes wk - 1\<rparr>)
      (hm_get (workers s) v) else hm_get (workers s) v)" for v
    by (simp add: take_guard_drop_def split: option.split)
  have "take_ok ?t (known \<sigma>) x" if x: "hm_get (hm_remove k (takes \<sigma>)) j = Some x" for j x
  proof (rule take_ok_wakes [OF _ wakes_take_guard_drop])
    show old: "take_ok s (known \<sigma>) x" using ok x by (auto simp: sys_ok_def split: if_splits)
    show "\<exists>wk. hm_get (workers ?t) (tk_worker x) = Some wk \<and> notify wk = tk_notify x"
      if "tk_worker x \<in> connections ?t"
      using old that unfolding take_ok_def f get by (auto split: if_splits)
  qed simp
  moreover have "pending_takes wk = taking (hm_remove k (takes \<sigma>)) v" if wk: "hm_get (workers ?t) v = Some wk" for v wk
  proof -
    from wk obtain wk0 where wk0: "hm_get (workers s) v = Some wk0"
      "pending_takes wk = pending_takes wk0 - (if v = ?w then 1 else 0)"
      unfolding get by (auto split: if_splits)
    have "pending_takes wk0 = taking (takes \<sigma>) v" using ok wk0(1) by (simp add: sys_ok_def)
    then show ?thesis using wk0(2) tot [of v] by auto
  qed
  ultimately show ?thesis
    using ok h take_guard_drop_inv [OF s] by (simp add: sys_ok_def end_take_def f)
qed

section \<open>Every step preserves the invariant\<close>

lemma step_connect:
  assumes ok: "sys_ok \<sigma>" and new: "c \<notin> known \<sigma>"
  shows "sys_ok (\<sigma>\<lparr>rpc := connected c (rpc \<sigma>), known := insert c (known \<sigma>)\<rparr>)"
proof -
  let ?s = "connected c (rpc \<sigma>)"
  have f: "workers ?s = workers (rpc \<sigma>)" "connections ?s = insert c (connections (rpc \<sigma>))" "next_id ?s = next_id (rpc \<sigma>)"
    by (simp_all add: connected_def)
  have w: "wakes (rpc \<sigma>) ?s" by (rule wakes_same) (simp_all add: connected_def)
  have "take_ok ?s (insert c (known \<sigma>)) tk" if "hm_get (takes \<sigma>) k = Some tk" for k tk
  proof (rule take_ok_wakes [OF _ w])
    show tk: "take_ok (rpc \<sigma>) (known \<sigma>) tk" using ok that by (simp add: sys_ok_def)
    show "\<exists>wk. hm_get (workers ?s) (tk_worker tk) = Some wk \<and> notify wk = tk_notify tk"
      if "tk_worker tk \<in> connections ?s"
      using tk that new unfolding take_ok_def f by auto
  qed auto
  then show ?thesis using ok connected_inv by (auto simp: sys_ok_def f)
qed

lemma step_register:
  assumes ok: "sys_ok \<sigma>" and run: "register w name conc lim (rpc \<sigma>) = (res, s)"
  shows "sys_ok (\<sigma>\<lparr>rpc := s\<rparr>)"
proof -
  have inv: "rpc_ok (rpc \<sigma>)" using ok by (simp add: sys_ok_def)
  have f: "connections s = connections (rpc \<sigma>)" "next_id s = next_id (rpc \<sigma>)"
    using run by (auto simp: register_def Let_def split: if_splits)
  have get: "hm_get (workers s) v = hm_get (workers (rpc \<sigma>)) v
      \<or> (v = w \<and> w \<in> connections (rpc \<sigma>) \<and> hm_get (workers (rpc \<sigma>)) w = None
         \<and> (\<exists>wk. hm_get (workers s) w = Some wk \<and> pending_takes wk = 0))" for v
    using run by (auto simp: register_def Let_def split: if_splits)
  have keep: "hm_get (workers s) v = Some wk" if "hm_get (workers (rpc \<sigma>)) v = Some wk" for v wk
    using get [of v] that by auto
  have none: "taking (takes \<sigma>) w = 0" if "w \<in> connections (rpc \<sigma>)" "hm_get (workers (rpc \<sigma>)) w = None"
  proof -
    have "tk_worker tk \<noteq> w" if "hm_get (takes \<sigma>) k = Some tk" for k tk
      using ok that \<open>w \<in> connections (rpc \<sigma>)\<close> \<open>hm_get (workers (rpc \<sigma>)) w = None\<close>
      unfolding sys_ok_def take_ok_def by fastforce
    then show ?thesis using ok by (simp add: taking_def sys_ok_def hm.total_0)
  qed
  have "take_ok s (known \<sigma>) tk" if "hm_get (takes \<sigma>) k = Some tk" for k tk
  proof (rule take_ok_wakes [OF _ wakes_register [OF inv run]])
    show tk: "take_ok (rpc \<sigma>) (known \<sigma>) tk" using ok that by (simp add: sys_ok_def)
    show "\<exists>wk. hm_get (workers s) (tk_worker tk) = Some wk \<and> notify wk = tk_notify tk"
      if "tk_worker tk \<in> connections s"
      using tk that keep unfolding take_ok_def f by blast
  qed auto
  moreover have "pending_takes wk = taking (takes \<sigma>) v" if "hm_get (workers s) v = Some wk" for v wk
    using get [of v] that none ok by (auto simp: sys_ok_def)
  ultimately show ?thesis using ok register_inv [OF inv run] by (simp add: sys_ok_def f)
qed

lemma step_take_started:
  assumes ok: "sys_ok \<sigma>" and run: "take_begin w (rpc \<sigma>) = (Inr n, s)" and k: "hm_get (takes \<sigma>) k = None"
  shows "sys_ok (\<sigma>\<lparr>rpc := s,
    takes := hm_insert k \<lparr>tk_worker = w, tk_notify = n, tk_end = e, tk_phase = Starting\<rparr> (takes \<sigma>)\<rparr>)"
proof -
  let ?tk = "\<lparr>tk_worker = w, tk_notify = n, tk_end = e, tk_phase = Starting\<rparr>"
  have inv: "rpc_ok (rpc \<sigma>)" and h: "hm_ok (takes \<sigma>)" using ok by (simp_all add: sys_ok_def)
  obtain wk where wk: "hm_get (workers (rpc \<sigma>)) w = Some wk" "n = notify wk"
    and s: "s = (rpc \<sigma>)\<lparr>workers := hm_insert w (wk\<lparr>pending_takes := pending_takes wk + 1\<rparr>) (workers (rpc \<sigma>))\<rparr>"
    using run by (auto simp: take_begin_def split: option.splits if_splits)
  have s': "snd (take_begin w (rpc \<sigma>)) = s" using run by simp
  have w_con: "w \<in> connections (rpc \<sigma>)" using worker_connected [OF inv wk(1)] .
  have wn: "notify wk < length (notifies (rpc \<sigma>))" using inv wk(1) by (auto simp: rpc_inv_def workers_ok_def)
  have f: "connections s = connections (rpc \<sigma>)" "next_id s = next_id (rpc \<sigma>)" "notifies s = notifies (rpc \<sigma>)"
    by (simp_all add: s)
  have tot: "taking (hm_insert k ?tk (takes \<sigma>)) v = (if w = v then 1 else 0) + taking (takes \<sigma>) v" for v
    using hm.total_put_new [OF h k, of "\<lambda>tk. if tk_worker tk = v then 1 else 0" ?tk] by (simp add: taking_def)
  have old: "take_ok s (known \<sigma>) tk" if "hm_get (takes \<sigma>) j = Some tk" for j tk
  proof (rule take_ok_wakes [OF _ wakes_take_begin [of "rpc \<sigma>" w, unfolded s']])
    show tk: "take_ok (rpc \<sigma>) (known \<sigma>) tk" using ok that by (simp add: sys_ok_def)
    show "\<exists>wk. hm_get (workers s) (tk_worker tk) = Some wk \<and> notify wk = tk_notify tk"
      if "tk_worker tk \<in> connections s"
      using tk that wk unfolding take_ok_def f by (auto simp: s)
  qed auto
  have new: "take_ok s (known \<sigma>) ?tk"
    using wk wn w_con ok by (auto simp: take_ok_def f sys_ok_def) (auto simp: s)
  have "pending_takes vk = taking (hm_insert k ?tk (takes \<sigma>)) v" if "hm_get (workers s) v = Some vk" for v vk
    unfolding tot using that wk ok by (auto simp: s sys_ok_def split: if_splits)
  then show ?thesis
    using ok h old new take_begin_inv [OF inv, of w, unfolded s'] by (auto simp: sys_ok_def f)
qed

lemma step_disconnect:
  assumes ok: "sys_ok \<sigma>" and run: "disconnect c (rpc \<sigma>) = Some s"
  shows "sys_ok (\<sigma>\<lparr>rpc := s\<rparr>)"
proof -
  have inv: "rpc_ok (rpc \<sigma>)" using ok by (simp add: sys_ok_def)
  obtain u where u: "disconnect c (rpc \<sigma>) = Some u" "rpc_ok u" "evolves (rpc \<sigma>) u"
    "connections u = connections (rpc \<sigma>) - {c}" "hm_get (workers u) = (hm_get (workers (rpc \<sigma>)))(c := None)"
    using disconnect_spec [OF inv] by metis
  have s: "s = u" using run u(1) by simp
  have "take_ok u (known \<sigma>) tk" if "hm_get (takes \<sigma>) k = Some tk" for k tk
  proof (rule take_ok_wakes [OF _ disconnect_wakes(1) [OF inv u(1)]])
    show tk: "take_ok (rpc \<sigma>) (known \<sigma>) tk" using ok that by (simp add: sys_ok_def)
    show "\<exists>wk. hm_get (workers u) (tk_worker tk) = Some wk \<and> notify wk = tk_notify tk"
      if "tk_worker tk \<in> connections u"
      using tk that unfolding take_ok_def u(4,5) by auto
  qed auto
  moreover have "pending_takes wk = taking (takes \<sigma>) v" if "hm_get (workers u) v = Some wk" for v wk
    using ok that by (auto simp: sys_ok_def u(5) split: if_splits)
  moreover have "next_id (rpc \<sigma>) \<le> next_id u" using u(3) by (simp add: evolves_def)
  ultimately show ?thesis
    unfolding s using ok u(2,4) by (auto simp: sys_ok_def)
qed

lemma sys_ok_step:
  assumes ok: "sys_ok \<sigma>" and step: "rpc_step \<sigma> l \<sigma>'"
  shows "sys_ok \<sigma>'"
proof -
  have inv: "rpc_ok (rpc \<sigma>)" using ok by (simp add: sys_ok_def)
  have tks: "take_ok (rpc \<sigma>) (known \<sigma>) tk" if "hm_get (takes \<sigma>) k = Some tk" for k tk
    using ok that by (simp add: sys_ok_def)
  have try_frame: "sys_ok (\<sigma>\<lparr>rpc := s\<rparr>)" if "try_take_once w na nb (rpc \<sigma>) = Some (res, s)" for w na nb res s
  proof -
    obtain res' t where "try_take_once w na nb (rpc \<sigma>) = Some (res', t)" "rpc_ok t" using try_take_once_inv [OF inv] .
    then have "rpc_ok s" using that by simp
    then show ?thesis
      using sys_frame_same [OF ok _ wakes_try_take_once(1) [OF inv that] same_workers_try_take_once [OF inv that]
          evolves_try_take_once [OF inv that]] by simp
  qed
  have cancel_frame: "sys_ok (\<sigma>\<lparr>rpc := cancel i s, tickets := tickets \<sigma> - {t}\<rparr>)"
    if "s = rpc \<sigma> \<or> s = expire i (rpc \<sigma>)" for i s t
  proof -
    have s: "rpc_ok s \<and> wakes (rpc \<sigma>) s \<and> same_workers (rpc \<sigma>) s \<and> evolves (rpc \<sigma>) s"
      using that inv expire_inv [OF inv] wakes_expire same_workers_shrink [OF queues_shrink_expire]
        evolves_expire [OF inv] wakes_refl same_workers_refl evolves_refl by metis
    show ?thesis
      by (rule sys_frame [OF ok]) (use s cancel_inv wakes_trans [OF _ wakes_cancel]
          same_workers_trans [OF _ same_workers_cancel] evolves_trans [OF _ evolves_cancel] in auto)
  qed
  show ?thesis
    using step
  proof (cases rule: rpc_stepE)
    case (connect c)
    then show ?thesis using step_connect [OF ok] by simp
  next
    case (register w name conc lim res s)
    then show ?thesis using step_register [OF ok] by simp
  next
    case (request c name ms p now1 now2 res s)
    note run = request(3)
    obtain ans t where "request c name ms p now1 now2 (rpc \<sigma>) = Some (ans, t)" "rpc_ok t" using request_inv [OF inv] .
    then have s: "rpc_ok s" using run by simp
    have "sys_ok (\<sigma>\<lparr>rpc := s, tickets := (case res of Inl e \<Rightarrow> tickets \<sigma> | Inr t \<Rightarrow> insert t (tickets \<sigma>))\<rparr>)"
      by (rule sys_frame [OF ok s wakes_request [OF inv run] same_workers_request [OF inv run]
            evolves_request [OF inv run]])
        (use request_ticket [OF inv] run in \<open>auto split: sum.splits\<close>)
    then show ?thesis using request by simp
  next
    case (take_refused w e s)
    have "s = rpc \<sigma>" using take_refused(3) by (auto simp: take_begin_def split: option.splits if_splits)
    then show ?thesis using ok take_refused by simp
  next
    case (take_started w n s k end_time)
    then show ?thesis using step_take_started [OF ok] by simp
  next
    case (take_enable k tk)
    have "take_ok (rpc \<sigma>) (known \<sigma>) (tk\<lparr>tk_phase := Trying (notifies (rpc \<sigma>) ! tk_notify tk)\<rparr>)"
      using tks [OF take_enable(3)] by (simp add: take_ok_def)
    from sys_update_take [OF ok take_enable(3) this] show ?thesis using take_enable by simp
  next
    case (take_again k tk e now1 now2 s)
    then show ?thesis using try_frame by simp
  next
    case (take_idle k tk e now1 now2 s)
    note run = take_idle(5)
    have s: "sys_ok (\<sigma>\<lparr>rpc := s\<rparr>)" using try_frame [OF run] .
    then have tk: "take_ok s (known \<sigma>) tk" and inv_s: "rpc_ok s" using take_idle(3) by (simp_all add: sys_ok_def)
    obtain n where q: "quiet s (tk_worker tk) n" using wakes_try_take_once(2) [OF inv run] by blast
    then obtain wk where wk: "hm_get (workers s) (tk_worker tk) = Some wk" "notify wk = n" by (auto simp: quiet_def)
    have "n = tk_notify tk" using tk wk worker_connected [OF inv_s wk(1)] by (auto simp: take_ok_def)
    then have "take_ok s (known \<sigma>) (tk\<lparr>tk_phase := Waiting e\<rparr>)" using tk take_idle(4) q by (simp add: take_ok_def)
    with sys_update_take [OF s, of k tk] take_idle show ?thesis by simp
  next
    case (take_done k tk e now1 now2 res s)
    then show ?thesis using sys_end_take [OF try_frame] by simp
  next
    case (take_woken k tk e)
    have "take_ok (rpc \<sigma>) (known \<sigma>) (tk\<lparr>tk_phase := Starting\<rparr>)"
      using tks [OF take_woken(3)] by (simp add: take_ok_def)
    from sys_update_take [OF ok take_woken(3) this] show ?thesis using take_woken by simp
  next
    case (take_timeout k tk e now)
    then show ?thesis using sys_end_take [of "rpc \<sigma>" \<sigma>] ok by simp
  next
    case (take_abort k tk)
    then show ?thesis using sys_end_take [of "rpc \<sigma>" \<sigma>] ok by simp
  next
    case (complete w i failed p now res s)
    note run = complete(3)
    obtain res' t where "complete w i failed p now (rpc \<sigma>) = Some (res', t)" "rpc_ok t" using complete_inv [OF inv] .
    then have "rpc_ok s" using run by simp
    from sys_frame_same [OF ok this wakes_complete [OF run] same_workers_complete [OF run] evolves_complete [OF inv run]]
    show ?thesis using complete by simp
  next
    case (answered t now r s)
    then show ?thesis using cancel_frame [OF ticket_poll_state [OF answered(4)]] by simp
  next
    case (ticket_dropped t)
    then show ?thesis using cancel_frame [of "rpc \<sigma>"] by simp
  next
    case (disconnect c s)
    then show ?thesis using step_disconnect [OF ok] by simp
  qed
qed

interpretation rpc_sys: invariant_system rpc_step sys_ok
  by unfold_locales (rule sys_ok_step)

end
