(* ===== verification/Rpc_Steady.thy ===== *)
theory Rpc_Steady
  imports Rpc_Wake
begin

text \<open>
  What the operations other than admission, dispatch and completion leave alone: they bring no
  call back, change no owner, release no running call and send no payload. \<open>X\<close> holds the running
  calls that may end.
\<close>

definition call_kept :: "call \<Rightarrow> call \<Rightarrow> bool" where
  "call_kept c c' = (caller c' = caller c \<and> call_route c' = call_route c \<and> owner c' = owner c
     \<and> deadline c' = deadline c \<and> call_payload c' = call_payload c
     \<and> call_retained_bytes c' = call_retained_bytes c)"

definition steady :: "u64 set \<Rightarrow> state \<Rightarrow> state \<Rightarrow> bool" where
  "steady X s s' =
     (next_id s' = next_id s
      \<and> (\<forall>i c'. hm_get (calls s') i = Some c' \<longrightarrow> (\<exists>c. hm_get (calls s) i = Some c \<and> call_kept c c'))
      \<and> (\<forall>i c. hm_get (calls s) i = Some c \<and> owner c \<noteq> None \<and> i \<notin> X \<longrightarrow> hm_get (calls s') i \<noteq> None)
      \<and> (\<forall>i p. channels s' i = Some (Sent (Inr p)) \<longrightarrow> channels s i = Some (Sent (Inr p))))"

lemma call_kept_refl [simp]: "call_kept c c"
  by (simp add: call_kept_def)

lemma call_kept_trans: "call_kept c c' \<Longrightarrow> call_kept c' c'' \<Longrightarrow> call_kept c c''"
  by (simp add: call_kept_def)

lemma steady_same:
  "calls s' = calls s \<Longrightarrow> channels s' = channels s \<Longrightarrow> next_id s' = next_id s \<Longrightarrow> steady X s s'"
  by (simp add: steady_def)

lemma steady_refl: "steady X s s"
  by (rule steady_same) simp_all

text \<open>A running call that may not end is still there, with its owner.\<close>

lemma steady_running:
  assumes "steady X s s'" and "hm_get (calls s) i = Some c" and "owner c \<noteq> None" and "i \<notin> X"
  obtains c' where "hm_get (calls s') i = Some c'" and "call_kept c c'"
proof -
  have "hm_get (calls s') i \<noteq> None" using assms unfolding steady_def by blast
  then obtain c' where c': "hm_get (calls s') i = Some c'" by auto
  then obtain c0 where "hm_get (calls s) i = Some c0" "call_kept c0 c'"
    using assms(1) unfolding steady_def by blast
  with assms(2) c' show thesis using that by simp
qed

lemma steady_trans:
  assumes "steady X s t" and "steady Y t u"
  shows "steady (X \<union> Y) s u"
proof -
  have "hm_get (calls u) i \<noteq> None" if c: "hm_get (calls s) i = Some c" "owner c \<noteq> None" "i \<notin> X \<union> Y" for i c
  proof -
    from c(3) obtain c' where c': "hm_get (calls t) i = Some c'" "call_kept c c'"
      using steady_running [OF assms(1) c(1,2)] by blast
    then have "owner c' \<noteq> None" using c(2) by (simp add: call_kept_def)
    then show ?thesis using assms(2) c(3) c'(1) unfolding steady_def by blast
  qed
  moreover have "\<exists>c. hm_get (calls s) i = Some c \<and> call_kept c c''" if "hm_get (calls u) i = Some c''" for i c''
    using assms that unfolding steady_def by (meson call_kept_trans)
  ultimately show ?thesis using assms by (simp add: steady_def)
qed

lemma steady_trans0: "steady {} s t \<Longrightarrow> steady X t u \<Longrightarrow> steady X s u"
  using steady_trans [of "{}" s t X u] by simp

lemma steady_mono: "steady X s t \<Longrightarrow> X \<subseteq> Y \<Longrightarrow> steady Y s t"
  unfolding steady_def by blast

lemma steady_settle:
  assumes "hm_get (calls s) i = Some c" and "\<And>p. ch \<noteq> Sent (Inr p)"
  shows "steady X s (settle i c ch s)"
  using assms by (auto simp: steady_def call_kept_def)

lemma steady_remove: "steady {i} s (snd (remove i s))"
proof (cases "hm_get (calls s) i")
  case (Some c)
  from remove_calls [OF this] show ?thesis by (auto simp: steady_def split: if_splits)
qed (simp add: remove_none steady_refl)

lemma steady_remove_waiting:
  assumes "hm_get (calls s) i = Some c" and "owner c = None"
  shows "steady {} s (snd (remove i s))"
  using remove_calls [OF assms(1)] assms by (auto simp: steady_def split: if_splits)

text \<open>Expiry and cancellation: the call is settled, and removed when nobody runs it.\<close>

lemma steady_settle_remove:
  assumes c: "hm_get (calls s) i = Some c" and ch: "\<And>p. ch \<noteq> Sent (Inr p)"
  shows "steady {} s (let s = (if response c then settle i c ch s else s) in if owner c = None then snd (remove i s) else s)"
proof -
  define t where "t = (if response c then settle i c ch s else s)"
  have st: "steady {} s t" using steady_settle [OF c ch] by (simp add: t_def steady_refl)
  obtain c' where "hm_get (calls t) i = Some c'" "owner c' = owner c"
    using c by (cases "response c") (simp_all add: t_def)
  then have "owner c = None \<Longrightarrow> steady {} t (snd (remove i t))" using steady_remove_waiting by simp
  then show ?thesis using st steady_trans0 unfolding Let_def t_def [symmetric] by (cases "owner c") auto
qed

lemma steady_expire: "steady {} s (expire i s)"
proof (cases "hm_get (calls s) i")
  case (Some c)
  define t where "t = (if response c
    then (settle i c (Sent (Inl deadline_error)) s)\<lparr>timed_out := saturating_add (timed_out s) 1\<rparr> else s)"
  have st: "steady {} s t" using Some by (auto simp: t_def steady_def call_kept_def)
  obtain c' where "hm_get (calls t) i = Some c'" "owner c' = owner c"
    using Some by (cases "response c") (simp_all add: t_def)
  then have "owner c = None \<Longrightarrow> steady {} t (snd (remove i t))" using steady_remove_waiting by simp
  then show ?thesis
    using st steady_trans0 unfolding expire_eq [OF Some] Let_def t_def [symmetric] by (cases "owner c") auto
qed (simp add: expire_none steady_refl)

lemma steady_expire_queued: "steady {} s (expire_queued name now s)"
proof -
  have "steady {} s (fold expire is s)" for "is"
  proof (induction "is" arbitrary: s)
    case (Cons i "is")
    show ?case using steady_trans0 [OF steady_expire Cons.IH] by simp
  qed (simp add: steady_refl)
  then show ?thesis by (simp add: expire_queued_def)
qed

lemma steady_cancel: "steady {} s (cancel i s)"
proof (cases "hm_get (calls s) i")
  case (Some c)
  then show ?thesis unfolding cancel_eq [OF Some] by (rule steady_settle_remove) simp
qed (simp add: cancel_def steady_refl)

lemma steady_drop_calls: "drop_calls is s = Some t \<Longrightarrow> steady {} s t"
proof (induction "is" arbitrary: s)
  case (Cons i "is")
  then have "hm_get (calls s) i \<noteq> None" by (cases "hm_get (calls s) i") auto
  then have "drop_calls is (cancel i s) = Some t" using Cons.prems by (metis drop_calls_cancel)
  from steady_trans0 [OF steady_cancel Cons.IH [OF this]] show ?case .
qed (simp add: steady_refl)

lemma steady_fail_call: "steady {i} s (fail_call e i s)"
proof -
  obtain a b where r: "remove i s = (a, b)" by fastforce
  have "steady {i} s b" using steady_remove [of i s] by (simp add: r)
  moreover have "steady {} b (send i (Inl e) b)" by (auto simp: steady_def send_def)
  ultimately show ?thesis
    using steady_trans [of "{i}" s b "{}"] by (auto simp: fail_call_def r split: option.split)
qed

lemma steady_fail_calls: "steady (set is) s (fold (fail_call e) is s)"
proof (induction "is" arbitrary: s)
  case (Cons i "is")
  from steady_trans [OF steady_fail_call Cons] show ?case by simp
qed (simp add: steady_refl)

lemma steady_notify_route: "steady X s (notify_route name s)"
  by (rule steady_same) (simp_all add: notify_route_calls)

section \<open>Disconnection\<close>

lemma steady_only_running:
  "steady X s t \<Longrightarrow> (\<And>i c. i \<in> X \<Longrightarrow> hm_get (calls s) i = Some c \<Longrightarrow> owner c \<noteq> None \<Longrightarrow> i \<in> Y) \<Longrightarrow> steady Y s t"
  unfolding steady_def by blast

lemma fail_calls_queue:
  "hm_get (routes (fold (fail_call e) is s)) n = Some r' \<Longrightarrow>
     \<exists>r. hm_get (routes s) n = Some r \<and> set (route_queue r') \<subseteq> set (route_queue r)"
proof (induction "is" arbitrary: s)
  case (Cons i "is")
  have "\<exists>r. hm_get (routes s) n = Some r \<and> set (route_queue r1) \<subseteq> set (route_queue r)"
    if "hm_get (routes (fail_call e i s)) n = Some r1" for r1
    using that
    by (fastforce simp: fail_call_def remove_def Let_def send_def notify_waiters_def split: option.splits if_splits)
  with Cons.IH [of "fail_call e i s"] Cons.prems show ?case by fastforce
qed simp

text \<open>The calls that a lost worker was running are the only running calls that end.\<close>

lemma steady_disconnect:
  assumes inv: "rpc_ok s" and run: "disconnect conn s = Some u"
  shows "steady {i. \<exists>c. hm_get (calls s) i = Some c \<and> owner c = Some conn} s u"
proof -
  define ids where "ids = map fst (filter (\<lambda>(i, c). caller c = conn) (calls s))"
  let ?C = "connections s - {conn}" and ?X = "{i. \<exists>c. hm_get (calls s) i = Some c \<and> owner c = Some conn}"
  have ok: "hm_ok (calls s)" using inv by (simp add: rpc_inv_def tables_ok_def)
  have dist: "distinct ids" using hm.entries_distinct [OF ok] by (simp add: ids_def distinct_map_filter)
  have "\<forall>i\<in>set ids. hm_get (calls s) i \<noteq> None" using hm.entries_get [OF ok] by (force simp: ids_def)
  from drop_calls_inv [OF inv dist this] obtain t0 where t0: "drop_calls ids s = Some t0" "rpc_ok t0" by blast
  define t where "t = t0\<lparr>connections := ?C\<rparr>"
  have t: "drop_calls ids (s\<lparr>connections := ?C\<rparr>) = Some t"
    by (simp add: drop_calls_connections t0(1) t_def)
  have same: "calls t = calls t0" "routes t = routes t0" by (simp_all add: t_def)
  have st: "steady {} s t"
    using steady_trans0 [OF steady_drop_calls [OF t0(1)] steady_same [of t t0 "{}"]] by (simp add: t_def)
  show ?thesis
  proof (cases "hm_get (workers t) conn")
    case None
    then have "u = t" using run t by (simp add: disconnect_def Let_def ids_def)
    then show ?thesis using steady_mono [OF st] by simp
  next
    case (Some wk)
    define t1 where "t1 = notify_waiters (notify wk) (t\<lparr>workers := hm_remove conn (workers t)\<rparr>)"
    define own where "own = map fst (filter (\<lambda>(i, c). owner c = Some conn) (calls t1))"
    define t2 where "t2 = fold (fail_call worker_lost) own t1"
    have t1: "calls t1 = calls t" "channels t1 = channels t" "next_id t1 = next_id t" "routes t1 = routes t"
      by (simp_all add: t1_def notify_waiters_def)
    have s2: "steady (set own) s t2"
      using steady_trans0 [OF st steady_trans0 [OF steady_same steady_fail_calls]] t1 by (simp add: t2_def)
    obtain r where r: "hm_get (routes t2) (worker_route wk) = Some r"
      using run t Some by (auto simp: disconnect_def Let_def ids_def [symmetric] t1_def [symmetric]
          worker_lost_def [symmetric] own_def [symmetric] t2_def [symmetric] split: option.splits)
    define left where "left = filter (\<lambda>v. v \<noteq> conn) (route_workers r)"
    have u: "u = (if left = [] then fold (fail_call route_lost) (route_queue r)
          (t2\<lparr>routes := hm_remove (worker_route wk) (hm_insert (worker_route wk) (r\<lparr>route_workers := left\<rparr>) (routes t2))\<rparr>)
        else notify_route (worker_route wk) (t2\<lparr>routes := hm_insert (worker_route wk) (r\<lparr>route_workers := left\<rparr>) (routes t2)\<rparr>))"
      using run t Some r by (simp add: disconnect_def Let_def ids_def [symmetric] t1_def [symmetric]
          worker_lost_def [symmetric] own_def [symmetric] t2_def [symmetric] left_def [symmetric] route_lost_def
          split: if_splits)
    have s3: "steady (set (route_queue r)) t2 u"
      unfolding u
      using steady_trans0 [OF steady_same steady_fail_calls] steady_trans0 [OF steady_same steady_notify_route]
      by simp
    show ?thesis
    proof (rule steady_only_running [OF steady_trans [OF s2 s3]])
      fix i c assume i: "i \<in> set own \<union> set (route_queue r)" and c: "hm_get (calls s) i = Some c" "owner c \<noteq> None"
      show "i \<in> ?X"
      proof (cases "i \<in> set own")
        case True
        have "hm_ok (calls t1)" using t0(2) by (simp add: rpc_inv_def tables_ok_def t1 same)
        from hm.entries_get [OF this] True obtain c' where "hm_get (calls t) i = Some c'" "owner c' = Some conn"
          by (auto simp: own_def t1)
        then show ?thesis using st unfolding steady_def call_kept_def by fastforce
      next
        case False
        from fail_calls_queue [of worker_lost own t1, folded t2_def, OF r]
        obtain r0 where r0: "hm_get (routes t0) (worker_route wk) = Some r0" "set (route_queue r) \<subseteq> set (route_queue r0)"
          by (auto simp: t1 same)
        have "j \<in> set (route_queue r0) \<longleftrightarrow> waiting_call t0 (worker_route wk) j" for j
          using t0(2) r0(1) by (simp add: rpc_inv_def routes_ok_def)
        then have "waiting_call t0 (worker_route wk) i" using r0(2) i False by auto
        then have "waiting_call t (worker_route wk) i" by (simp add: waiting_call_def same)
        then obtain c' where "hm_get (calls t) i = Some c'" "owner c' = None" by (auto simp: waiting_call_def)
        moreover obtain c'' where "hm_get (calls t) i = Some c''" "call_kept c c''"
          using steady_running [OF st c] by auto
        ultimately have False using c(2) by (simp add: call_kept_def)
        then show ?thesis ..
      qed
    qed
  qed
qed

end
