(* ===== verification/Rpc_Trace.thy ===== *)
theory Rpc_Trace
  imports Rpc_System Rpc_Steady
begin

text \<open>
  What a run of the scheduler has done, read off its events: which calls were accepted, handed to
  a worker and completed. The invariant \<open>trace_ok\<close> ties these histories to the state.
\<close>

section \<open>Histories\<close>

fun accepted_id :: "rpc_event \<Rightarrow> u64 option" where
  "accepted_id (Requested c name p (Inr t)) = Some (tk_call_id t)"
| "accepted_id _ = None"

fun dispatched_id :: "rpc_event \<Rightarrow> u64 option" where
  "dispatched_id (Tried w (Dispatch j)) = Some (job_call_id j)"
| "dispatched_id _ = None"

fun completed_id :: "rpc_event \<Rightarrow> u64 option" where
  "completed_id (Completed w i failed p (Inr _)) = Some i"
| "completed_id _ = None"

definition ids_of :: "(rpc_event \<Rightarrow> u64 option) \<Rightarrow> rpc_event list \<Rightarrow> u64 list" where
  "ids_of f ls = List.map_filter f ls"

lemma ids_of_simps [simp]:
  "ids_of f [] = []" "ids_of f (ls @ [e]) = ids_of f ls @ (case f e of None \<Rightarrow> [] | Some i \<Rightarrow> [i])"
  by (simp_all add: ids_of_def map_filter_def split: option.split)

definition plain_event :: "rpc_event \<Rightarrow> bool" where
  "plain_event e = (accepted_id e = None \<and> dispatched_id e = None \<and> completed_id e = None)"

lemma special_events:
  "accepted_id e = Some i \<longleftrightarrow> (\<exists>c name p t. e = Requested c name p (Inr t) \<and> tk_call_id t = i)"
  "dispatched_id e = Some i \<longleftrightarrow> (\<exists>w j. e = Tried w (Dispatch j) \<and> job_call_id j = i)"
  "completed_id e = Some i \<longleftrightarrow> (\<exists>w failed p. e = Completed w i failed p (Inr ()))"
  by (cases e rule: accepted_id.cases; auto; fail)
    ((cases e rule: dispatched_id.cases; auto; fail) | (cases e rule: completed_id.cases; auto))+

section \<open>The invariant\<close>

definition accepts_ok :: "rpc_event list \<Rightarrow> state \<Rightarrow> bool" where
  "accepts_ok ls s =
     (distinct (ids_of accepted_id ls) \<and> set (ids_of accepted_id ls) = {i. 0 < i \<and> i < next_id s}
      \<and> (\<forall>i c. hm_get (calls s) i = Some c \<longrightarrow>
           Requested (caller c) (call_route c) (call_payload c) (Inr \<lparr>tk_call_id = i, tk_deadline = deadline c\<rparr>) \<in> set ls))"

definition dispatches_ok :: "rpc_event list \<Rightarrow> state \<Rightarrow> bool" where
  "dispatches_ok ls s =
     (distinct (ids_of dispatched_id ls)
      \<and> (\<forall>i\<in>set (ids_of dispatched_id ls). i < next_id s
           \<and> (\<forall>c. hm_get (calls s) i = Some c \<longrightarrow> owner c \<noteq> None))
      \<and> (\<forall>i c w. hm_get (calls s) i = Some c \<and> owner c = Some w \<longrightarrow>
           (\<exists>j. Tried w (Dispatch j) \<in> set ls \<and> job_call_id j = i))
      \<and> (\<forall>w j. Tried w (Dispatch j) \<in> set ls \<longrightarrow>
           (\<exists>c name d. Requested c name (job_payload j) (Inr \<lparr>tk_call_id = job_call_id j, tk_deadline = d\<rparr>) \<in> set ls
              \<and> Registered w name (Inr ()) \<in> set ls)))"

definition completes_ok :: "rpc_event list \<Rightarrow> state \<Rightarrow> bool" where
  "completes_ok ls s =
     (distinct (ids_of completed_id ls)
      \<and> (\<forall>i\<in>set (ids_of completed_id ls). i < next_id s \<and> hm_get (calls s) i = None)
      \<and> (\<forall>w i failed p. Completed w i failed p (Inr ()) \<in> set ls \<longrightarrow>
           (\<exists>j. Tried w (Dispatch j) \<in> set ls \<and> job_call_id j = i))
      \<and> (\<forall>i p. channels s i = Some (Sent (Inr p)) \<longrightarrow> (\<exists>w. Completed w i False p (Inr ()) \<in> set ls)))"

definition registered_ok :: "rpc_event list \<Rightarrow> state \<Rightarrow> bool" where
  "registered_ok ls s = (\<forall>w wk. hm_get (workers s) w = Some wk \<longrightarrow>
     Registered w (worker_route wk) (Inr ()) \<in> set ls)"

definition trace_ok :: "rpc_event list \<Rightarrow> state \<Rightarrow> bool" where
  "trace_ok ls s = (accepts_ok ls s \<and> dispatches_ok ls s \<and> completes_ok ls s \<and> registered_ok ls s)"

lemma trace_new_ok: "trace_ok [] (rpc_new n b)"
proof -
  have "{i :: u64. 0 < i \<and> i < 1} = {}" by (auto simp: word_less_nat_alt)
  then show ?thesis
    by (simp add: trace_ok_def accepts_ok_def dispatches_ok_def completes_ok_def registered_ok_def rpc_new_def)
qed

section \<open>Steps that make no history\<close>

definition workers_kept :: "state \<Rightarrow> state \<Rightarrow> bool" where
  "workers_kept s s' = (\<forall>w wk'. hm_get (workers s') w = Some wk' \<longrightarrow>
     (\<exists>wk. hm_get (workers s) w = Some wk \<and> worker_route wk' = worker_route wk))"

lemma workers_kept_eq: "workers s' = workers s \<Longrightarrow> workers_kept s s'"
  by (simp add: workers_kept_def)

lemma workers_kept_same: "same_workers s s' \<Longrightarrow> workers_kept s s'"
  unfolding workers_kept_def
proof (intro allI impI)
  fix w wk' assume same: "same_workers s s'" and wk': "hm_get (workers s') w = Some wk'"
  have "map_option worker_view (hm_get (workers s') w) = map_option worker_view (hm_get (workers s) w)"
    using same by (simp add: same_workers_def)
  then show "\<exists>wk. hm_get (workers s) w = Some wk \<and> worker_route wk' = worker_route wk"
    using wk' by (cases "hm_get (workers s) w") (auto simp: worker_view_def)
qed

lemma trace_frame:
  assumes ok: "trace_ok ls s" and st: "steady X s s'" and wk: "workers_kept s s'"
  shows "trace_ok ls s'"
proof -
  have nid: "next_id s' = next_id s" using st by (simp add: steady_def)
  have kept: "\<exists>c. hm_get (calls s) i = Some c \<and> call_kept c c'" if "hm_get (calls s') i = Some c'" for i c'
    using st that unfolding steady_def by blast
  have sent: "channels s i = Some (Sent (Inr p))" if "channels s' i = Some (Sent (Inr p))" for i p
    using st that unfolding steady_def by blast
  have "Requested (caller c') (call_route c') (call_payload c') (Inr \<lparr>tk_call_id = i, tk_deadline = deadline c'\<rparr>) \<in> set ls"
    if c': "hm_get (calls s') i = Some c'" for i c'
  proof -
    from kept [OF c'] obtain c where "hm_get (calls s) i = Some c" "call_kept c c'" by blast
    then show ?thesis using ok by (auto simp: trace_ok_def accepts_ok_def call_kept_def)
  qed
  then have "accepts_ok ls s'" using ok by (simp add: trace_ok_def accepts_ok_def nid)
  moreover have "dispatches_ok ls s'"
  proof -
    have own: "\<exists>c. hm_get (calls s) i = Some c \<and> owner c = owner c'" if "hm_get (calls s') i = Some c'" for i c'
      using kept [OF that] by (auto simp: call_kept_def)
    have "owner c' \<noteq> None" if "i \<in> set (ids_of dispatched_id ls)" "hm_get (calls s') i = Some c'" for i c'
      using own [OF that(2)] that(1) ok by (auto simp: trace_ok_def dispatches_ok_def)
    moreover have "\<exists>j. Tried w (Dispatch j) \<in> set ls \<and> job_call_id j = i"
      if "hm_get (calls s') i = Some c'" "owner c' = Some w" for i c' w
      using own [OF that(1)] that(2) ok by (auto simp: trace_ok_def dispatches_ok_def)
    ultimately show ?thesis using ok unfolding trace_ok_def dispatches_ok_def nid by blast
  qed
  moreover have "completes_ok ls s'"
  proof -
    have "hm_get (calls s') i = None" if "hm_get (calls s) i = None" for i
      using kept [of i] that by (cases "hm_get (calls s') i") auto
    then show ?thesis using ok sent unfolding trace_ok_def completes_ok_def nid by metis
  qed
  moreover have "registered_ok ls s'"
    using ok wk unfolding trace_ok_def registered_ok_def workers_kept_def by metis
  ultimately show ?thesis by (simp add: trace_ok_def)
qed

lemma trace_plain:
  assumes ok: "trace_ok ls s" and e: "plain_event e"
  shows "trace_ok (ls @ [e]) s"
proof -
  have e': "accepted_id e = None" "dispatched_id e = None" "completed_id e = None"
    using e by (simp_all add: plain_event_def)
  have no: "Tried w (Dispatch j) \<noteq> e" "Completed w i failed p (Inr ()) \<noteq> e" for w j i failed p
    using e' by auto
  have "accepts_ok (ls @ [e]) s" using ok by (simp add: trace_ok_def accepts_ok_def e')
  moreover have "dispatches_ok (ls @ [e]) s"
    using ok no unfolding trace_ok_def dispatches_ok_def by (simp add: e') blast
  moreover have "completes_ok (ls @ [e]) s"
    using ok no unfolding trace_ok_def completes_ok_def by (simp add: e')
  moreover have "registered_ok (ls @ [e]) s" using ok by (simp add: trace_ok_def registered_ok_def)
  ultimately show ?thesis by (simp add: trace_ok_def)
qed

lemma trace_expire_queued: "trace_ok ls s \<Longrightarrow> trace_ok ls (expire_queued name now s)"
  using trace_frame [OF _ steady_expire_queued workers_kept_same [OF same_workers_shrink [OF queues_shrink_expire_queued]]] .

lemma trace_same:
  assumes "trace_ok ls s" and "calls s' = calls s" and "channels s' = channels s" and "next_id s' = next_id s"
    and "workers s' = workers s"
  shows "trace_ok ls s'"
  using trace_frame [OF assms(1) steady_same [OF assms(2-4)] workers_kept_eq [OF assms(5)]] .

section \<open>Steps that make history\<close>

lemma trace_admit:
  assumes ok: "trace_ok ls s" and inv: "rpc_ok s" and ids: "checked_add (next_id s) 1 = Some (next_id s + 1)"
    and c: "owner c = None" "caller c = who" "call_route c = name" "call_payload c = p"
  shows "trace_ok (ls @ [Requested who name p (Inr \<lparr>tk_call_id = next_id s, tk_deadline = deadline c\<rparr>)])
    (notify_route name (admit name r c s))"
proof -
  let ?i = "next_id s" and ?e = "Requested who name p (Inr \<lparr>tk_call_id = next_id s, tk_deadline = deadline c\<rparr>)"
  define u where "u = notify_route name (admit name r c s)"
  have f: "calls u = hm_insert ?i c (calls s)" "channels u = (channels s)(?i \<mapsto> Open)" "next_id u = ?i + 1"
    "workers u = workers s"
    by (simp_all add: u_def notify_route_calls notify_route_fields admit_def)
  have less: "j < ?i + 1 \<longleftrightarrow> j < ?i \<or> j = ?i" for j
    using checked_add_Some [OF ids] by (auto simp: word_less_nat_alt word_unat_eq_iff less_Suc_eq)
  have pos: "0 < ?i" using inv by (simp add: rpc_inv_def)
  note parts = ok [unfolded trace_ok_def]
  have "accepts_ok (ls @ [?e]) u"
    using parts pos c by (auto simp: accepts_ok_def f less)
  moreover have "dispatches_ok (ls @ [?e]) u"
  proof -
    have "?i \<notin> set (ids_of dispatched_id ls)" using parts by (auto simp: dispatches_ok_def)
    then show ?thesis using parts c(1) unfolding dispatches_ok_def f less by (simp add: f) blast
  qed
  moreover have "completes_ok (ls @ [?e]) u"
  proof -
    have "?i \<notin> set (ids_of completed_id ls)" using parts by (auto simp: completes_ok_def)
    then show ?thesis using parts unfolding completes_ok_def f less by (auto simp: f)
  qed
  moreover have "registered_ok (ls @ [?e]) u" using parts by (simp add: registered_ok_def f)
  ultimately show ?thesis by (simp add: trace_ok_def u_def)
qed

lemma trace_request:
  assumes ok: "trace_ok ls s" and inv: "rpc_ok s" and run: "request who name ms p na nb s = Some (res, u)"
  shows "trace_ok (ls @ [Requested who name p res]) u"
  using inv
proof (cases rule: request_cases [where who = who and name = name and ms = ms and p = p and na = na and nb = nb])
  case (admitted t r c)
  have t: "rpc_ok t" "trace_ok ls t"
    unfolding admitted(2) by (rule expire_queued_inv [OF inv]) (rule trace_expire_queued [OF ok])
  have "trace_ok (ls @ [Requested who name p (Inr \<lparr>tk_call_id = next_id t, tk_deadline = deadline c\<rparr>)])
    (notify_route name (admit name r c t))"
    by (rule trace_admit [OF t(2,1) admitted(8)]) (simp_all add: admitted(4))
  then show ?thesis using admitted(9) run by simp
next
  case (full t r)
  have "trace_ok ls (t\<lparr>rejected := saturating_add (rejected t) 1\<rparr>)"
    by (rule trace_same [OF trace_expire_queued [OF ok, of name na]]) (simp_all add: full(2))
  from trace_plain [OF this] show ?thesis using full(5) run by (auto simp: plain_event_def)
next
  case (exhausted t)
  from trace_plain [OF trace_expire_queued [OF ok, of name na]] show ?thesis
    using exhausted run by (auto simp: plain_event_def)
next
  case closed
  then show ?thesis using run trace_plain [OF ok] by (auto simp: plain_event_def)
next
  case unserved
  have "trace_ok ls (s\<lparr>rejected := saturating_add (rejected s) 1\<rparr>)" by (rule trace_same [OF ok]) simp_all
  from trace_plain [OF this] show ?thesis using unserved run by (auto simp: plain_event_def)
qed

lemma trace_register:
  assumes ok: "trace_ok ls s" and run: "register w name conc lim s = (res, u)"
  shows "trace_ok (ls @ [Registered w name res]) u"
proof -
  have f: "calls u = calls s" "channels u = channels s" "next_id u = next_id s"
    using run by (auto simp: register_def Let_def split: if_splits)
  have wk: "hm_get (workers s) v = Some wk \<or> v = w \<and> worker_route wk = name \<and> res = Inr ()"
    if "hm_get (workers u) v = Some wk" for v wk
    using run that by (auto simp: register_def Let_def split: if_splits)
  have plain: "plain_event (Registered w name res)" by (simp add: plain_event_def)
  have "accepts_ok ls u \<and> dispatches_ok ls u \<and> completes_ok ls u"
    using ok unfolding trace_ok_def accepts_ok_def dispatches_ok_def completes_ok_def f by blast
  moreover have "accepts_ok (ls @ [Registered w name res]) u" if "accepts_ok ls u"
    using that by (simp add: accepts_ok_def)
  moreover have "dispatches_ok (ls @ [Registered w name res]) u" if "dispatches_ok ls u"
    using that unfolding dispatches_ok_def by simp blast
  moreover have "completes_ok (ls @ [Registered w name res]) u" if "completes_ok ls u"
    using that unfolding completes_ok_def by simp
  moreover have "registered_ok (ls @ [Registered w name res]) u"
    using ok wk by (fastforce simp: trace_ok_def registered_ok_def)
  ultimately show ?thesis by (simp add: trace_ok_def)
qed

lemma trace_dispatched:
  assumes ok: "trace_ok ls s" and c: "hm_get (calls s) i = Some c" "owner c = None" "i < next_id s"
    and w: "hm_get (workers s) w = Some wk" "call_route c = worker_route wk"
  shows "trace_ok (ls @ [Tried w (Dispatch \<lparr>job_call_id = i, job_remaining_ms = m, job_payload = call_payload c\<rparr>)])
    (dispatched w wk name r queue i c s)"
proof -
  let ?j = "\<lparr>job_call_id = i, job_remaining_ms = m, job_payload = call_payload c\<rparr>"
  let ?u = "dispatched w wk name r queue i c s" and ?ls = "ls @ [Tried w (Dispatch ?j)]"
  have f: "calls ?u = hm_insert i (c\<lparr>owner := Some w\<rparr>) (calls s)" "channels ?u = channels s"
    "next_id ?u = next_id s" "workers ?u = hm_insert w (wk\<lparr>running := running wk + 1\<rparr>) (workers s)"
    by (simp_all add: dispatched_def)
  note parts = ok [unfolded trace_ok_def]
  have src: "Requested (caller c) (worker_route wk) (call_payload c) (Inr \<lparr>tk_call_id = i, tk_deadline = deadline c\<rparr>) \<in> set ls"
    "Registered w (worker_route wk) (Inr ()) \<in> set ls"
    using parts c(1) w unfolding accepts_ok_def registered_ok_def by metis+
  have "accepts_ok ?ls ?u" using parts c by (auto simp: accepts_ok_def f)
  moreover have "dispatches_ok ?ls ?u"
  proof -
    have new: "i \<notin> set (ids_of dispatched_id ls)" using parts c by (auto simp: dispatches_ok_def)
    have own: "\<exists>j. Tried v (Dispatch j) \<in> set ?ls \<and> job_call_id j = k"
      if "hm_get (calls ?u) k = Some c'" "owner c' = Some v" for k c' v
    proof (cases "k = i")
      case True
      then show ?thesis using that by (auto simp: f)
    next
      case False
      then have "hm_get (calls s) k = Some c'" using that by (simp add: f)
      then have "\<exists>j. Tried v (Dispatch j) \<in> set ls \<and> job_call_id j = k"
        using parts that(2) unfolding dispatches_ok_def by blast
      then show ?thesis by auto
    qed
    have src': "\<exists>a n d. Requested a n (job_payload j) (Inr \<lparr>tk_call_id = job_call_id j, tk_deadline = d\<rparr>) \<in> set ?ls
        \<and> Registered v n (Inr ()) \<in> set ?ls" if "Tried v (Dispatch j) \<in> set ?ls" for v j
    proof (cases "Tried v (Dispatch j) \<in> set ls")
      case True
      then show ?thesis using parts unfolding dispatches_ok_def by (metis UnCI set_append)
    next
      case False
      then have "v = w" "j = ?j" using that by auto
      then show ?thesis using src by auto
    qed
    show ?thesis using parts new own src' c(3) unfolding dispatches_ok_def by (auto simp: f)
  qed
  moreover have "completes_ok ?ls ?u"
  proof -
    have "i \<notin> set (ids_of completed_id ls)" using parts c(1) by (auto simp: completes_ok_def)
    moreover have "\<exists>j. Tried v (Dispatch j) \<in> set ?ls \<and> job_call_id j = k"
      if "Completed v k failed p (Inr ()) \<in> set ?ls" for v k failed p
      using that parts unfolding completes_ok_def by simp blast
    ultimately show ?thesis using parts unfolding completes_ok_def by (simp add: f) blast
  qed
  moreover have "registered_ok ?ls ?u" using parts w by (auto simp: registered_ok_def f)
  ultimately show ?thesis by (simp add: trace_ok_def)
qed

lemma trace_try_take:
  assumes ok: "trace_ok ls s" and inv: "rpc_ok s" and run: "try_take_once w na nb s = Some (res, u)"
  shows "trace_ok (ls @ [Tried w res]) u"
  using inv
proof (cases rule: try_take_once_cases [where w = w and na = na and nb = nb])
  case (again wk t r i queue c)
  have "trace_ok ls (expire i t)"
    using trace_frame [OF trace_expire_queued [OF ok] steady_expire
        workers_kept_same [OF same_workers_shrink [OF queues_shrink_expire]]] by (simp add: again(3))
  then show ?thesis using again run trace_plain by (simp add: plain_event_def)
next
  case (dispatch wk t r i queue c)
  have t: "trace_ok ls t" unfolding dispatch(3) by (rule trace_expire_queued [OF ok])
  have "i < next_id t" using call_facts(5) [OF dispatch(4,8)] .
  from trace_dispatched [OF t dispatch(8,9) this dispatch(5,10)] show ?thesis using dispatch(12) run by simp
next
  case (idle wk t r)
  then show ?thesis using run trace_plain [OF trace_expire_queued [OF ok]] by (simp add: plain_event_def)
qed (use run trace_plain [OF ok] in \<open>auto simp: plain_event_def\<close>)

lemma remove_workers_kept: "workers_kept s (snd (remove i s))"
  by (rule workers_kept_same [OF same_workers_remove])

lemma trace_completed:
  assumes ok: "trace_ok ls s" and inv: "rpc_ok s" and c: "hm_get (calls s) i = Some c" "owner c = Some w"
  shows "trace_ok (ls @ [Completed w i failed p (Inr ())])
    ((if response c then send i (completion_reply c failed p now) (snd (remove i s)) else snd (remove i s))
      \<lparr>completed := n, timed_out := m\<rparr>)"
proof -
  define t where "t = snd (remove i s)"
  define u where "u = (if response c then send i (completion_reply c failed p now) t else t)\<lparr>completed := n, timed_out := m\<rparr>"
  let ?e = "Completed w i failed p (Inr ())"
  have t: "trace_ok ls t" unfolding t_def by (rule trace_frame [OF ok steady_remove remove_workers_kept])
  have gone: "hm_get (calls t) i = None" and nid: "next_id t = next_id s"
    using remove_calls [OF c(1)] by (simp_all add: t_def)
  have less: "i < next_id t" using call_facts(5) [OF inv c(1)] nid by simp
  have f: "calls u = calls t" "next_id u = next_id t" "workers u = workers t"
    "channels u = (if response c then (channels t)(i \<mapsto> Sent (completion_reply c failed p now)) else channels t)"
    by (simp_all add: u_def send_def)
  note parts = t [unfolded trace_ok_def]
  have own: "\<exists>j. Tried w (Dispatch j) \<in> set ls \<and> job_call_id j = i"
    using ok c unfolding trace_ok_def dispatches_ok_def by blast
  have "i \<notin> set (ids_of completed_id ls)" using ok c(1) by (auto simp: trace_ok_def completes_ok_def)
  moreover have "completion_reply c failed p now = Inr q \<Longrightarrow> \<not> failed \<and> q = p" for q
    by (auto simp: completion_reply_def split: if_splits)
  moreover have "\<exists>v. Completed v k False q (Inr ()) \<in> set (ls @ [?e])" if "channels u k = Some (Sent (Inr q))" for k q
  proof (cases "response c \<and> k = i")
    case True
    then show ?thesis using that calculation(2) [of q] by (auto simp: f)
  next
    case False
    then have "channels t k = Some (Sent (Inr q))" using that by (auto simp: f split: if_splits)
    then have "\<exists>v. Completed v k False q (Inr ()) \<in> set ls" using parts unfolding completes_ok_def by blast
    then show ?thesis by auto
  qed
  moreover have "\<exists>j. Tried v (Dispatch j) \<in> set (ls @ [?e]) \<and> job_call_id j = k"
    if "Completed v k b q (Inr ()) \<in> set (ls @ [?e])" for v k b q
    using that parts own unfolding completes_ok_def by simp blast
  ultimately have "completes_ok (ls @ [?e]) u"
    using parts gone less unfolding completes_ok_def f by simp
  moreover have "accepts_ok (ls @ [?e]) u" using parts unfolding accepts_ok_def f by simp
  moreover have "dispatches_ok (ls @ [?e]) u" using parts unfolding dispatches_ok_def f by simp blast
  moreover have "registered_ok (ls @ [?e]) u" using parts unfolding registered_ok_def f by simp
  ultimately have "trace_ok (ls @ [?e]) u" by (simp add: trace_ok_def)
  then show ?thesis unfolding u_def t_def .
qed

lemma trace_complete:
  assumes ok: "trace_ok ls s" and inv: "rpc_ok s" and run: "complete w i failed p now s = Some (res, u)"
  shows "trace_ok (ls @ [Completed w i failed p res]) u"
proof (cases rule: complete_cases [of s w i failed p now])
  case (completed c n m)
  then show ?thesis using trace_completed [OF ok inv completed(1,2)] run by simp
qed (use run trace_plain [OF ok] in \<open>auto simp: plain_event_def\<close>)

section \<open>Every run\<close>

definition run_ok :: "rpc_event list \<Rightarrow> system \<Rightarrow> bool" where
  "run_ok ls \<sigma> = (sys_ok \<sigma> \<and> trace_ok ls (rpc \<sigma>)
     \<and> (\<forall>t\<in>tickets \<sigma>. \<exists>c name p. Requested c name p (Inr t) \<in> set ls))"

lemma run_okI:
  assumes "sys_ok \<sigma>'" and "trace_ok (ls @ [e]) (rpc \<sigma>')" and "run_ok ls \<sigma>"
    and "\<And>t. t \<in> tickets \<sigma>' \<Longrightarrow> t \<in> tickets \<sigma> \<or> (\<exists>c name p. e = Requested c name p (Inr t))"
  shows "run_ok (ls @ [e]) \<sigma>'"
  using assms unfolding run_ok_def by (metis UnCI list.set_intros(1) set_append)

lemma workers_kept_take_begin: "workers_kept s (snd (take_begin w s))"
  by (auto simp: workers_kept_def take_begin_def split: option.splits)

lemma workers_kept_take_guard_drop: "workers_kept s (take_guard_drop w s)"
  by (auto simp: workers_kept_def take_guard_drop_def split: option.splits)

lemma take_guard_drop_same:
  "calls (take_guard_drop w s) = calls s" "channels (take_guard_drop w s) = channels s"
  "next_id (take_guard_drop w s) = next_id s"
  by (simp_all add: take_guard_drop_def split: option.split)

lemma trace_end_take: "trace_ok ls s \<Longrightarrow> trace_ok ls (rpc (end_take k tk s \<sigma>))"
  using trace_frame [OF _ steady_same [of "take_guard_drop (tk_worker tk) s" s "{}"] workers_kept_take_guard_drop]
  by (simp add: end_take_def take_guard_drop_same)

lemma trace_step:
  assumes ok: "run_ok ls \<sigma>" and step: "rpc_step \<sigma> e \<sigma>'"
  shows "trace_ok (ls @ [e]) (rpc \<sigma>')"
proof -
  have inv: "rpc_ok (rpc \<sigma>)" and tr: "trace_ok ls (rpc \<sigma>)" using ok by (simp_all add: run_ok_def sys_ok_def)
  show ?thesis
    using step
  proof (cases rule: rpc_stepE)
    case (connect c)
    have "trace_ok ls (connected c (rpc \<sigma>))" by (rule trace_same [OF tr]) (simp_all add: connected_def)
    then show ?thesis using connect trace_plain by (simp add: plain_event_def)
  next
    case (register w name conc lim res s)
    then show ?thesis using trace_register [OF tr] by simp
  next
    case (request c name ms p now1 now2 res s)
    then show ?thesis using trace_request [OF tr inv] by simp
  next
    case (take_refused w e s)
    have "s = rpc \<sigma>" using take_refused(3) by (auto simp: take_begin_def split: option.splits if_splits)
    then show ?thesis using take_refused trace_plain [OF tr] by (simp add: plain_event_def)
  next
    case (take_started w n s k end_time)
    have "steady {} (rpc \<sigma>) (snd (take_begin w (rpc \<sigma>)))"
      by (rule steady_same) (simp_all add: take_begin_def split: option.split)
    from trace_frame [OF tr this workers_kept_take_begin]
    have "trace_ok ls (snd (take_begin w (rpc \<sigma>)))" .
    then show ?thesis using take_started trace_plain by (simp add: plain_event_def)
  next
    case (take_done k tk e now1 now2 res s)
    from trace_end_take [OF trace_try_take [OF tr inv take_done(5)]] show ?thesis using take_done(1,2) by simp
  next
    case (take_again k tk e now1 now2 s)
    then show ?thesis using trace_try_take [OF tr inv] by simp
  next
    case (take_idle k tk e now1 now2 s)
    then show ?thesis using trace_try_take [OF tr inv] by simp
  next
    case (take_timeout k tk e now)
    then show ?thesis using trace_plain [OF trace_end_take [OF tr]] by (simp add: plain_event_def)
  next
    case (take_abort k tk)
    then show ?thesis using trace_plain [OF trace_end_take [OF tr]] by (simp add: plain_event_def)
  next
    case (complete w i failed p now res s)
    then show ?thesis using trace_complete [OF tr inv] by simp
  next
    case (answered t now r s)
    have "trace_ok ls s"
      using ticket_poll_state [OF answered(4)] tr
        trace_frame [OF tr steady_expire workers_kept_same [OF same_workers_shrink [OF queues_shrink_expire]]] by metis
    from trace_frame [OF this steady_cancel workers_kept_same [OF same_workers_cancel]]
    show ?thesis using answered(1,2) trace_plain by (simp add: plain_event_def)
  next
    case (ticket_dropped t)
    from trace_frame [OF tr steady_cancel workers_kept_same [OF same_workers_cancel]]
    show ?thesis using ticket_dropped trace_plain by (simp add: plain_event_def)
  next
    case (disconnect c s)
    obtain u where u: "disconnect c (rpc \<sigma>) = Some u" "hm_get (workers u) = (hm_get (workers (rpc \<sigma>)))(c := None)"
      using disconnect_spec [OF inv] by metis
    then have "workers_kept (rpc \<sigma>) s" using disconnect(3) by (simp add: workers_kept_def)
    from trace_frame [OF tr steady_disconnect [OF inv disconnect(3)] this]
    show ?thesis using disconnect(1,2) trace_plain by (simp add: plain_event_def)
  qed (use trace_plain [OF tr] in \<open>simp_all add: plain_event_def\<close>)
qed

lemma ticket_step:
  assumes "rpc_step \<sigma> e \<sigma>'" and "t \<in> tickets \<sigma>'"
  shows "t \<in> tickets \<sigma> \<or> (\<exists>c name p. e = Requested c name p (Inr t))"
  using assms by (cases rule: rpc_stepE) (auto simp: end_take_def split: sum.splits)

lemma run_ok_runs:
  assumes "runs rpc_step (system_new n b) ls \<sigma>"
  shows "run_ok ls \<sigma>"
  using assms
proof (induction "system_new n b" ls \<sigma> rule: runs.induct)
  case runs_nil
  then show ?case
    using trace_new_ok sys_new_ok by (simp add: run_ok_def) (simp add: system_new_def)
next
  case (runs_snoc ls \<sigma> e \<sigma>')
  have ok: "run_ok ls \<sigma>" using runs_snoc by simp
  then have "sys_ok \<sigma>'" using sys_ok_step runs_snoc(3) by (auto simp: run_ok_def)
  from run_okI [OF this trace_step [OF ok runs_snoc(3)] ok ticket_step [OF runs_snoc(3)]] show ?case .
qed

end
