(* ===== verification/Rpc_Queue.thy ===== *)
theory Rpc_Queue
  imports Rpc_Disconnect
begin

text \<open>
  What cleaning a queue does: the overdue calls of the route are answered and removed, the others
  keep their order. With it admission and dispatch have a direct specification, and the loop of
  \<open>try_take\<close> terminates.
\<close>

definition overdue :: "nat \<Rightarrow> state \<Rightarrow> u64 \<Rightarrow> bool" where
  "overdue now s i = (case hm_get (calls s) i of None \<Rightarrow> False | Some c \<Rightarrow> deadline c \<le> now)"

definition live_queue :: "nat \<Rightarrow> state \<Rightarrow> rstring \<Rightarrow> u64 list" where
  "live_queue now s name =
     (case hm_get (routes s) name of None \<Rightarrow> [] | Some r \<Rightarrow> filter (\<lambda>i. \<not> overdue now s i) (route_queue r))"

text \<open>The state with the calls of \<open>K\<close>, all of them waiting, expired.\<close>

definition expired_as :: "u64 set \<Rightarrow> state \<Rightarrow> state \<Rightarrow> bool" where
  "expired_as K s t =
     (workers t = workers s \<and> next_id t = next_id s \<and> connections t = connections s \<and> notifies t = notifies s
      \<and> max_calls t = max_calls s \<and> max_bytes t = max_bytes s \<and> accepted t = accepted s
      \<and> completed t = completed s \<and> rejected t = rejected s
      \<and> (\<forall>i. hm_get (calls t) i = (if i \<in> K then None else hm_get (calls s) i))
      \<and> (\<forall>n. hm_get (routes t) n =
           map_option (\<lambda>r. r\<lparr>route_queue := filter (\<lambda>i. i \<notin> K) (route_queue r)\<rparr>) (hm_get (routes s) n))
      \<and> (\<forall>i. channels t i =
           (if i \<in> K \<and> holds_sender s i then Some (Sent (Inl deadline_error)) else channels s i)))"

lemma expired_as_refl: "expired_as {} s s"
  by (simp add: expired_as_def option.map_ident)

lemma expired_as_trans:
  assumes "expired_as K s t" and "expired_as L t u" and "K \<inter> L = {}"
  shows "expired_as (K \<union> L) s u"
proof -
  have hold: "holds_sender t i \<longleftrightarrow> i \<notin> K \<and> holds_sender s i" for i
    using assms(1) by (auto simp: expired_as_def holds_sender_def)
  show ?thesis
    using assms hold by (auto simp: expired_as_def option.map_comp comp_def intro!: option.map_cong0)
qed

lemma queue_facts:
  assumes "rpc_ok s" and "hm_get (routes s) n = Some r"
  shows "distinct (route_queue r)" and "i \<in> set (route_queue r) \<longleftrightarrow> waiting_call s n i"
    and "length (route_queue r) \<le> route_queue_limit r"
  using assms by (simp_all add: rpc_inv_def routes_ok_def)

lemma expire_waiting:
  assumes inv: "rpc_ok s" and c: "hm_get (calls s) i = Some c" "owner c = None"
  shows "expired_as {i} s (expire i s)"
proof -
  obtain r where r: "hm_get (routes s) (call_route c) = Some r" using call_facts(1) [OF inv c] by auto
  have other: "filter (\<lambda>j. j \<noteq> i) (route_queue r') = route_queue r'"
    if "hm_get (routes s) n = Some r'" "n \<noteq> call_route c" for n r'
    using queue_facts(2) [OF inv that(1), of i] c that(2) by (auto simp: filter_id_conv waiting_call_def)
  have hold: "holds_sender s i \<longleftrightarrow> response c" using c by (simp add: holds_sender_def)
  have "hm_get (routes (expire i s)) n =
      map_option (\<lambda>r. r\<lparr>route_queue := filter (\<lambda>j. j \<noteq> i) (route_queue r)\<rparr>) (hm_get (routes s) n)" for n
    using c r other [of n]
    by (cases "hm_get (routes s) n")
      (auto simp: expire_def remove_def Let_def send_def take_response_def)
  then show ?thesis
    using c r hold unfolding expired_as_def
    by (auto simp: expire_def remove_def Let_def send_def take_response_def)
qed

lemma expire_many:
  assumes "rpc_ok s" and "distinct is" and "\<forall>i\<in>set is. \<exists>n. waiting_call s n i"
  shows "expired_as (set is) s (fold expire is s)"
  using assms
proof (induction "is" arbitrary: s)
  case (Cons i "is")
  obtain c where c: "hm_get (calls s) i = Some c" "owner c = None"
    using Cons.prems(3) by (auto simp: waiting_call_def)
  have e: "expired_as {i} s (expire i s)" by (rule expire_waiting [OF Cons.prems(1) c])
  have "\<forall>j\<in>set is. \<exists>n. waiting_call (expire i s) n j"
    using Cons.prems(2,3) e by (fastforce simp: waiting_call_def expired_as_def)
  then have "expired_as (set is) (expire i s) (fold expire is (expire i s))"
    using Cons.IH [OF expire_inv [OF Cons.prems(1)]] Cons.prems(2) by simp
  from expired_as_trans [OF e this] Cons.prems(2) show ?case by simp
qed (simp add: expired_as_refl)

lemma expired_queue_set: "set (expired_queue name now s) = (case hm_get (routes s) name of None \<Rightarrow> {}
    | Some r \<Rightarrow> {i \<in> set (route_queue r). overdue now s i})"
  by (auto simp: expired_queue_def overdue_def split: option.splits)

lemma expire_queued_spec:
  assumes inv: "rpc_ok s"
  shows "expired_as (set (expired_queue name now s)) s (expire_queued name now s)"
proof -
  have "distinct (expired_queue name now s)"
    using queue_facts(1) [OF inv] by (auto simp: expired_queue_def split: option.split)
  moreover have "\<exists>n. waiting_call s n i" if "i \<in> set (expired_queue name now s)" for i
    using queue_facts(2) [OF inv] that by (auto simp: expired_queue_set split: option.splits)
  ultimately show ?thesis unfolding expire_queued_def by (intro expire_many [OF inv]) auto
qed

lemma expire_queued_route:
  assumes inv: "rpc_ok s" and r: "hm_get (routes (expire_queued name now s)) name = Some r"
  obtains r0 where "hm_get (routes s) name = Some r0" "r = r0\<lparr>route_queue := live_queue now s name\<rparr>"
proof -
  obtain r0 where r0: "hm_get (routes s) name = Some r0"
      "r = r0\<lparr>route_queue := filter (\<lambda>i. i \<notin> set (expired_queue name now s)) (route_queue r0)\<rparr>"
    using expire_queued_spec [OF inv, of name now] r by (auto simp: expired_as_def)
  moreover have "filter (\<lambda>i. i \<notin> set (expired_queue name now s)) (route_queue r0) = live_queue now s name"
    using r0(1) by (auto simp: live_queue_def expired_queue_set intro: filter_cong)
  ultimately show thesis using that by simp
qed

section \<open>Admission\<close>

text \<open>A call of the route that waits and whose deadline has passed; the calls that survive the cleaning.\<close>

definition stale :: "rstring \<Rightarrow> nat \<Rightarrow> call \<Rightarrow> bool" where
  "stale name now c = (call_route c = name \<and> owner c = None \<and> deadline c \<le> now)"

definition live_calls :: "rstring \<Rightarrow> nat \<Rightarrow> state \<Rightarrow> (u64 \<times> call) list" where
  "live_calls name now s = filter (\<lambda>(i, c). \<not> stale name now c) (calls s)"

lemma expired_queue_stale:
  assumes inv: "rpc_ok s" and c: "hm_get (calls s) i = Some c"
  shows "i \<in> set (expired_queue name now s) \<longleftrightarrow> stale name now c"
proof (cases "hm_get (routes s) name")
  case None
  then have "\<not> (owner c = None \<and> call_route c = name)" using call_facts(1) [OF inv c] by auto
  then show ?thesis using None by (auto simp: expired_queue_set stale_def)
next
  case (Some r)
  then show ?thesis
    using queue_facts(2) [OF inv Some, of i] c by (auto simp: expired_queue_set stale_def overdue_def waiting_call_def)
qed

lemma total_filtered:
  assumes ok: "hm_ok m" "hm_ok m'"
    and get: "\<And>k. hm_get m' k = (case hm_get m k of None \<Rightarrow> None | Some v \<Rightarrow> if P v then None else Some v)"
  shows "hm.total f m' = (\<Sum>x\<leftarrow>filter (\<lambda>x. \<not> P (snd x)) m. f (snd x))"
proof -
  have "(\<Sum>k\<in>dom (hm_get m'). f (the (hm_get m' k))) = (\<Sum>k\<in>dom (hm_get m). if P (the (hm_get m k)) then 0 else f (the (hm_get m k)))"
    using hm.finite_dom [OF ok(1)]
    by (intro sum.mono_neutral_cong_left) (auto simp: get split: option.splits if_splits)
  then have "hm.total f m' = hm.total (\<lambda>v. if P v then 0 else f v) m" by (simp add: hm.total_dom ok)
  also have "\<dots> = (\<Sum>x\<leftarrow>filter (\<lambda>x. \<not> P (snd x)) m. f (snd x))"
    unfolding hm.total_def by (induction m) auto
  finally show ?thesis .
qed

lemma expire_queued_totals:
  assumes inv: "rpc_ok s" and t: "t = expire_queued name now s"
  shows "length (calls t) = length (live_calls name now s)"
    and "unat (rpc_retained_bytes t) = (\<Sum>(i, c)\<leftarrow>live_calls name now s. call_cost c)"
proof -
  have inv_t: "rpc_ok t" unfolding t by (rule expire_queued_inv [OF inv])
  then have ok: "hm_ok (calls s)" "hm_ok (calls t)" and budget: "budget_ok t"
    using inv by (simp_all add: rpc_inv_def tables_ok_def)
  have get: "hm_get (calls t) k = (case hm_get (calls s) k of None \<Rightarrow> None | Some c \<Rightarrow> if stale name now c then None else Some c)" for k
    using expire_queued_spec [OF inv, of name now] expired_queue_stale [OF inv, of k]
    by (auto simp: expired_as_def t [symmetric] split: option.split)
  note tot = total_filtered [OF ok get]
  have live: "filter (\<lambda>x. \<not> stale name now (snd x)) (calls s) = live_calls name now s"
    by (simp add: live_calls_def case_prod_unfold)
  show "length (calls t) = length (live_calls name now s)"
    using tot [of "\<lambda>_. Suc 0"] by (simp add: hm.total_one live sum_list_triv)
  show "unat (rpc_retained_bytes t) = (\<Sum>(i, c)\<leftarrow>live_calls name now s. call_cost c)"
    using tot [of call_cost] budget by (simp add: budget_ok_def live case_prod_unfold)
qed

text \<open>Whether a request is admitted, in natural numbers.\<close>

definition admits :: "state \<Rightarrow> u64 \<Rightarrow> rstring \<Rightarrow> bytes \<Rightarrow> nat \<Rightarrow> bool" where
  "admits s who name p now =
     (who \<in> connections s
      \<and> (case hm_get (routes s) name of None \<Rightarrow> False
         | Some r \<Rightarrow> length (live_queue now s name) < route_queue_limit r)
      \<and> length (live_calls name now s) < max_calls s
      \<and> (\<Sum>(i, c)\<leftarrow>live_calls name now s. call_cost c) + (512 + 2 * length name + length p) \<le> unat (max_bytes s)
      \<and> unat (next_id s) + 1 < 2 ^ 64)"

lemma request_cost_nat:
  "512 + 2 * length name + length p < 2 ^ 64 \<Longrightarrow> unat (request_cost name p) = 512 + 2 * length name + length p"
proof -
  assume "512 + 2 * length name + length p < 2 ^ 64"
  moreover have "request_cost name p = of_nat (512 + 2 * length name + length p)" by (simp add: request_cost_def)
  ultimately show ?thesis by (simp add: unat_of_nat del: of_nat_add of_nat_mult)
qed

lemma request_admits:
  assumes inv: "rpc_ok s" and cost: "512 + 2 * length name + length p < 2 ^ 64"
  shows "(\<exists>t u. request who name ms p na nb s = Some (Inr t, u)) \<longleftrightarrow> admits s who name p na"
proof (cases "who \<in> connections s \<and> hm_get (routes s) name \<noteq> None")
  case False
  then show ?thesis by (auto simp: request_def admits_def split: option.splits)
next
  case True
  define t where "t = expire_queued name na s"
  have inv_t: "rpc_ok t" unfolding t_def by (rule expire_queued_inv [OF inv])
  note tot = expire_queued_totals [OF inv t_def]
  have same: "max_calls t = max_calls s" "max_bytes t = max_bytes s" "next_id t = next_id s"
    using expire_queued_spec [OF inv, of name na] by (simp_all add: expired_as_def t_def)
  from True obtain r0 where r0: "hm_get (routes s) name = Some r0" by auto
  from queues_shrink_route [OF queues_shrink_expire_queued r0, of name na, folded t_def]
  obtain r where r: "hm_get (routes t) name = Some r" by metis
  then have r_eq: "r = r0\<lparr>route_queue := live_queue na s name\<rparr>"
    using expire_queued_route [OF inv, of name na r] r0 by (auto simp: t_def)
  have le: "unat (rpc_retained_bytes t) \<le> unat (max_bytes s)"
    using inv_t same by (simp add: rpc_inv_def budget_ok_def word_le_nat_alt)
  have budget: "saturating_sub (max_bytes t) (rpc_retained_bytes t) < request_cost name p \<longleftrightarrow>
      \<not> (\<Sum>(i, c)\<leftarrow>live_calls name na s. call_cost c) + (512 + 2 * length name + length p) \<le> unat (max_bytes s)"
    using le by (auto simp: word_less_nat_alt unat_saturating_sub request_cost_nat [OF cost] same tot(2))
  have ids: "checked_add (next_id s) 1 = None \<longleftrightarrow> \<not> unat (next_id s) + 1 < 2 ^ 64" by (simp add: checked_add_def)
  show ?thesis
    using inv
  proof (cases rule: request_cases [where who = who and name = name and ms = ms and p = p and na = na and nb = nb])
    case (full t' r')
    then have "t' = t" "r' = r" using r by (simp_all add: t_def)
    then show ?thesis using full(4,5) budget r0 by (auto simp: admits_def same r_eq tot(1))
  next
    case (exhausted t')
    then show ?thesis using ids by (auto simp: t_def [symmetric] same admits_def)
  next
    case (admitted t' r' c)
    then have "t' = t" "r' = r" using r by (simp_all add: t_def)
    then show ?thesis using admitted True r0 budget ids by (auto simp: admits_def same r_eq tot(1))
  qed (use True in auto)
qed

text \<open>What admission does.\<close>

lemma request_accepted:
  assumes inv: "rpc_ok s" and run: "request who name ms p na nb s = Some (Inr t, u)"
  shows "t = \<lparr>tk_call_id = next_id s, tk_deadline = nb + unat ms * 1000000\<rparr>
    \<and> hm_get (calls u) (next_id s) = Some \<lparr>caller = who, call_route = name, owner = None,
      deadline = nb + unat ms * 1000000, call_payload = p, response = True, call_retained_bytes = request_cost name p\<rparr>
    \<and> channels u (next_id s) = Some Open \<and> next_id u = next_id s + 1
    \<and> (\<exists>r. hm_get (routes u) name = Some r \<and> route_queue r = live_queue na s name @ [next_id s])
    \<and> (\<forall>i. i \<noteq> next_id s \<longrightarrow> hm_get (calls u) i = hm_get (calls (expire_queued name na s)) i)"
  using inv
proof (cases rule: request_cases [where who = who and name = name and ms = ms and p = p and na = na and nb = nb])
  case (admitted t' r c)
  have nid: "next_id t' = next_id s"
    using expire_queued_spec [OF inv, of name na] by (simp add: expired_as_def admitted(2))
  obtain r0 where "r = r0\<lparr>route_queue := live_queue na s name\<rparr>"
    using expire_queued_route [OF inv] admitted(2,3) by metis
  then have r: "route_queue r = live_queue na s name" by simp
  have t: "t = \<lparr>tk_call_id = next_id s, tk_deadline = deadline c\<rparr>" and u: "u = notify_route name (admit name r c t')"
    using run admitted(9) nid by simp_all
  show ?thesis
    unfolding t u by (simp add: notify_route_calls notify_route_fields admit_def nid admitted(4) r) (simp add: admitted(2))
qed (use run in auto)

section \<open>Dispatch\<close>

text \<open>What an iteration of \<open>try_take\<close> answers and does, in terms of the queue without its overdue calls.\<close>

definition take_spec :: "u64 \<Rightarrow> nat \<Rightarrow> nat \<Rightarrow> state \<Rightarrow> take_result \<Rightarrow> state \<Rightarrow> bool" where
  "take_spec w na nb s res u =
     (case hm_get (workers s) w of
        None \<Rightarrow> res = Refused (error_new UNAUTHORIZED (str ''TAKE requires a registered worker'')) \<and> u = s
      | Some wk \<Rightarrow>
          (if concurrency wk \<le> running wk then res = Idle \<and> u = s
           else \<exists>r. hm_get (routes u) (worker_route wk) = Some r \<and>
             (case live_queue na s (worker_route wk) of
                [] \<Rightarrow> res = Idle \<and> route_queue r = [] \<and> hm_get (workers u) w = Some wk
              | i # q \<Rightarrow> route_queue r = q \<and> (\<exists>c. hm_get (calls s) i = Some c \<and> owner c = None \<and> na < deadline c \<and>
                  (if deadline c \<le> nb
                   then res = Again \<and> hm_get (calls u) i = None \<and> hm_get (workers u) w = Some wk
                   else res = Dispatch \<lparr>job_call_id = i, job_remaining_ms = remaining_ms (deadline c) nb,
                          job_payload = call_payload c\<rparr>
                     \<and> hm_get (calls u) i = Some (c\<lparr>owner := Some w\<rparr>)
                     \<and> hm_get (workers u) w = Some (wk\<lparr>running := running wk + 1\<rparr>))))))"

lemma live_queue_member:
  assumes inv: "rpc_ok s" and i: "i \<in> set (live_queue now s name)"
  obtains c where "hm_get (calls s) i = Some c" "owner c = None" "call_route c = name" "now < deadline c"
proof -
  obtain r where r: "hm_get (routes s) name = Some r" "i \<in> set (route_queue r)" "\<not> overdue now s i"
    using i by (cases "hm_get (routes s) name") (auto simp: live_queue_def)
  then show thesis using queue_facts(2) [OF inv r(1)] that by (auto simp: waiting_call_def overdue_def)
qed

lemma live_after_cleaning:
  assumes inv: "rpc_ok s" and i: "i \<in> set (live_queue now s name)"
  shows "hm_get (calls (expire_queued name now s)) i = hm_get (calls s) i"
proof -
  have "i \<notin> set (expired_queue name now s)"
    using i by (auto simp: live_queue_def expired_queue_set split: option.splits)
  then show ?thesis using expire_queued_spec [OF inv, of name now] by (simp add: expired_as_def)
qed

lemma try_take_once_spec:
  assumes inv: "rpc_ok s"
  obtains res u where "try_take_once w na nb s = Some (res, u)" "rpc_ok u" "take_spec w na nb s res u"
  using inv
proof (cases rule: try_take_once_cases [where w = w and na = na and nb = nb])
  case refused
  then show thesis using that [of _ s] inv by (simp add: take_spec_def)
next
  case (busy wk)
  then show thesis using that [of _ s] inv by (simp add: take_spec_def)
next
  case (idle wk t r)
  obtain r0 where "r = r0\<lparr>route_queue := live_queue na s (worker_route wk)\<rparr>"
    using expire_queued_route [OF inv] idle(3,6) by metis
  then have "live_queue na s (worker_route wk) = []" using idle(7) by simp
  then have "take_spec w na nb s Idle t" using idle(1,2,5,6,7) by (simp add: take_spec_def)
  then show thesis using that [OF idle(8) idle(4)] by simp
next
  case (again wk t r i queue c)
  obtain r0 where "r = r0\<lparr>route_queue := live_queue na s (worker_route wk)\<rparr>"
    using expire_queued_route [OF inv] again(3,5) by metis
  then have q: "live_queue na s (worker_route wk) = i # queue" using again(6) by simp
  then have i: "i \<in> set (live_queue na s (worker_route wk))" by simp
  obtain c' where "hm_get (calls s) i = Some c'" "na < deadline c'" using live_queue_member [OF inv i] by metis
  then have c: "hm_get (calls s) i = Some c" "na < deadline c"
    using live_after_cleaning [OF inv i] again(3,7) by simp_all
  have e: "expired_as {i} t (expire i t)" by (rule expire_waiting [OF again(4,7,8)])
  have "workers t = workers s" using expire_queued_spec [OF inv] by (simp add: expired_as_def again(3))
  then have "hm_get (workers (expire i t)) w = Some wk" using e again(1) by (simp add: expired_as_def)
  moreover have "distinct (route_queue r)" using queue_facts(1) [OF again(4,5)] .
  then have "filter (\<lambda>j. j \<noteq> i) (route_queue r) = queue" using again(6) by (auto simp: filter_id_conv)
  then have "hm_get (routes (expire i t)) (worker_route wk) = Some (r\<lparr>route_queue := queue\<rparr>)"
    using e again(5) by (simp add: expired_as_def)
  moreover have "hm_get (calls (expire i t)) i = None" using e by (simp add: expired_as_def)
  ultimately have "take_spec w na nb s Again (expire i t)"
    using again(1,2,8,10) q c by (simp add: take_spec_def)
  then show thesis using that [OF again(11)] expire_inv [OF again(4)] by simp
next
  case (dispatch wk t r i queue c)
  obtain r0 where "r = r0\<lparr>route_queue := live_queue na s (worker_route wk)\<rparr>"
    using expire_queued_route [OF inv] dispatch(3,6) by metis
  then have q: "live_queue na s (worker_route wk) = i # queue" using dispatch(7) by simp
  then have i: "i \<in> set (live_queue na s (worker_route wk))" by simp
  obtain c' where "hm_get (calls s) i = Some c'" "na < deadline c'" using live_queue_member [OF inv i] by metis
  then have c: "hm_get (calls s) i = Some c" "na < deadline c"
    using live_after_cleaning [OF inv i] dispatch(3,8) by simp_all
  let ?u = "dispatched w wk (worker_route wk) r queue i c t"
  have "hm_get (routes ?u) (worker_route wk) = Some (r\<lparr>route_queue := queue\<rparr>)"
    "hm_get (calls ?u) i = Some (c\<lparr>owner := Some w\<rparr>)" "hm_get (workers ?u) w = Some (wk\<lparr>running := running wk + 1\<rparr>)"
    by (simp_all add: dispatched_def)
  then have "take_spec w na nb s (Dispatch \<lparr>job_call_id = i, job_remaining_ms = remaining_ms (deadline c) nb,
      job_payload = call_payload c\<rparr>) ?u"
    using dispatch(1,2,9,11) q c by (simp add: take_spec_def)
  then show thesis
    using that [OF dispatch(12) dispatched_inv [OF dispatch(4,6,7,8,5,2)]] by simp
qed

text \<open>The loop ends: every iteration that goes on has taken a call off the queue.\<close>

definition queued_for :: "u64 \<Rightarrow> state \<Rightarrow> nat" where
  "queued_for w s =
     (case hm_get (workers s) w of
        None \<Rightarrow> 0
      | Some wk \<Rightarrow> (case hm_get (routes s) (worker_route wk) of None \<Rightarrow> 0 | Some r \<Rightarrow> length (route_queue r)))"

lemma again_shrinks:
  assumes inv: "rpc_ok s" and spec: "take_spec w na nb s Again u"
  shows "queued_for w u < queued_for w s"
proof -
  obtain wk where wk: "hm_get (workers s) w = Some wk" "\<not> concurrency wk \<le> running wk"
    using spec by (auto simp: take_spec_def split: option.splits if_splits)
  obtain i q where q: "live_queue na s (worker_route wk) = i # q"
    using spec wk by (cases "live_queue na s (worker_route wk)") (auto simp: take_spec_def)
  then obtain r where u: "hm_get (routes u) (worker_route wk) = Some r" "route_queue r = q" "hm_get (workers u) w = Some wk"
    using spec wk by (auto simp: take_spec_def split: if_splits)
  obtain r0 where r0: "hm_get (routes s) (worker_route wk) = Some r0"
    "filter (\<lambda>i. \<not> overdue na s i) (route_queue r0) = i # q"
    using q by (cases "hm_get (routes s) (worker_route wk)") (auto simp: live_queue_def)
  have "Suc (length q) \<le> length (route_queue r0)"
    using length_filter_le [of "\<lambda>i. \<not> overdue na s i" "route_queue r0"] r0(2) by simp
  then show ?thesis using wk u r0 by (simp add: queued_for_def)
qed

lemma try_take_returns:
  "rpc_ok s \<Longrightarrow> queued_for w s < length clock \<Longrightarrow> \<exists>res u. try_take w clock s = Some (res, u) \<and> rpc_ok u"
proof (induction clock arbitrary: s)
  case (Cons x clock)
  obtain na nb where x: "x = (na, nb)" by (cases x)
  obtain res u where u: "try_take_once w na nb s = Some (res, u)" "rpc_ok u" "take_spec w na nb s res u"
    using try_take_once_spec [OF Cons.prems(1)] .
  show ?case
  proof (cases res)
    case Again
    then have "queued_for w u < queued_for w s" using again_shrinks [OF Cons.prems(1)] u(3) by simp
    then have "\<exists>res v. try_take w clock u = Some (res, v) \<and> rpc_ok v" using Cons.IH [OF u(2)] Cons.prems(2) by simp
    then show ?thesis using u(1) Again by (simp add: x)
  qed (use u in \<open>simp_all add: x\<close>)
qed simp

end
