(* ===== verification/Rpc_Limits.thy ===== *)
theory Rpc_Limits
  imports Rpc_Trace Rpc_Queue
begin

text \<open>
  The limits that the scheduler is created with never change.
\<close>

definition limits :: "state \<Rightarrow> nat \<times> u64" where
  "limits s = (max_calls s, max_bytes s)"

lemma limits_remove [simp]: "limits (snd (remove i s)) = limits s"
  by (auto simp: limits_def remove_def Let_def notify_waiters_def split: option.split)

lemma limits_settle [simp]: "limits (settle i c ch s) = limits s"
  by (simp add: limits_def)

lemma limits_send [simp]: "limits (send i r s) = limits s"
  by (simp add: limits_def send_def)

lemma limits_expire [simp]: "limits (expire i s) = limits s"
proof (cases "hm_get (calls s) i")
  case (Some c)
  have "limits (t\<lparr>timed_out := n\<rparr>) = limits t" for t n by (simp add: limits_def)
  then show ?thesis by (simp add: expire_eq [OF Some] Let_def)
qed (simp add: expire_none)

lemma limits_expire_queued [simp]: "limits (expire_queued name now s) = limits s"
proof -
  have "limits (fold expire is s) = limits s" for "is" by (induction "is" arbitrary: s) simp_all
  then show ?thesis by (simp add: expire_queued_def)
qed

lemma limits_notify_route [simp]: "limits (notify_route name s) = limits s"
  by (simp add: limits_def notify_route_fields)

lemma limits_cancel [simp]: "limits (cancel i s) = limits s"
  by (cases "hm_get (calls s) i") (simp_all add: cancel_eq Let_def, simp add: cancel_def)

lemma limits_drop_calls: "drop_calls is s = Some t \<Longrightarrow> limits t = limits s"
proof (induction "is" arbitrary: s)
  case (Cons i "is")
  then have "hm_get (calls s) i \<noteq> None" by (cases "hm_get (calls s) i") auto
  then have "drop_calls is (cancel i s) = Some t" using Cons.prems by (metis drop_calls_cancel)
  from Cons.IH [OF this] show ?case by simp
qed simp

lemma limits_fail_calls [simp]: "limits (fold (fail_call e) is s) = limits s"
proof -
  have "limits (fail_call e i s) = limits s" for i s
    using limits_remove [of i s] by (cases "remove i s") (auto simp: fail_call_def split: option.split)
  then show ?thesis by (induction "is" arbitrary: s) simp_all
qed

lemma limits_disconnect: "disconnect c s = Some u \<Longrightarrow> limits u = limits s"
proof -
  have upd: "limits (t\<lparr>connections := C\<rparr>) = limits t" "limits (t\<lparr>workers := W\<rparr>) = limits t"
    "limits (t\<lparr>routes := R\<rparr>) = limits t" "limits (notify_waiters n t) = limits t" for t C W R n
    by (simp_all add: limits_def notify_waiters_def)
  assume "disconnect c s = Some u"
  then show ?thesis
    by (auto simp: disconnect_def Let_def upd dest!: limits_drop_calls split: option.splits if_splits)
qed

lemma limits_step:
  assumes ok: "sys_ok \<sigma>" and step: "rpc_step \<sigma> e \<sigma>'"
  shows "limits (rpc \<sigma>') = limits (rpc \<sigma>)"
proof -
  have inv: "rpc_ok (rpc \<sigma>)" using ok by (simp add: sys_ok_def)
  have drop: "limits (take_guard_drop w s) = limits s" for w s
    by (simp add: limits_def take_guard_drop_def split: option.split)
  have simple: "limits (connected w s) = limits s" "limits (snd (register w name conc lim s)) = limits s"
    "limits (snd (take_begin w s)) = limits s" for w name conc lim s
    by (simp_all add: limits_def connected_def register_def take_begin_def Let_def split: option.split)
  have taken: "limits u = limits (rpc \<sigma>)" if "try_take_once w na nb (rpc \<sigma>) = Some (res, u)" for w na nb res u
    using inv
  proof (cases rule: try_take_once_cases [where w = w and na = na and nb = nb])
    case (dispatch wk t r i queue c)
    have "limits (dispatched w wk (worker_route wk) r queue i c t) = limits t" by (simp add: limits_def dispatched_def)
    then show ?thesis using dispatch that by simp
  qed (use that in auto)
  show ?thesis
    using step
  proof (cases rule: rpc_stepE)
    case (request c name ms p now1 now2 res s)
    have rej: "limits (t\<lparr>rejected := n\<rparr>) = limits t" "limits (admit name r c t) = limits t" for t n r c
      by (simp_all add: limits_def admit_def)
    have "limits s = limits (rpc \<sigma>)"
      using inv by (cases rule: request_cases [where who = c and name = name and ms = ms and p = p and na = now1 and nb = now2])
        (use request(3) in \<open>auto simp: rej\<close>)
    then show ?thesis using request by simp
  next
    case (complete w i failed p now res s)
    have fin: "limits (t\<lparr>completed := n, timed_out := m\<rparr>) = limits t" for t n m by (simp add: limits_def)
    have "limits s = limits (rpc \<sigma>)"
      by (cases rule: complete_cases [of "rpc \<sigma>" w i failed p now]) (use complete(3) in \<open>auto simp: fin\<close>)
    then show ?thesis using complete by simp
  next
    case (answered t now r s)
    then show ?thesis using ticket_poll_state [OF answered(4)] by auto
  next
    case (disconnect c s)
    then show ?thesis using limits_disconnect by simp
  next
    case (register w name conc lim res s)
    then show ?thesis using simple(2) [of w name conc lim "rpc \<sigma>"] by simp
  next
    case (take_refused w e s)
    then show ?thesis using simple(3) [of w "rpc \<sigma>"] by simp
  next
    case (take_started w n s k end_time)
    then show ?thesis using simple(3) [of w "rpc \<sigma>"] by simp
  qed (use taken in \<open>auto simp: end_take_def drop simple\<close>)
qed

lemma limits_run:
  assumes "runs rpc_step (system_new n b) ls \<sigma>"
  shows "max_calls (rpc \<sigma>) = n" and "max_bytes (rpc \<sigma>) = b"
proof -
  have "limits (rpc \<sigma>) = limits (rpc (system_new n b))"
    using rpc_sys.run_related [OF assms sys_new_ok, where R = "\<lambda>\<sigma> \<sigma>'. limits (rpc \<sigma>') = limits (rpc \<sigma>)"] limits_step
    by simp
  then show "max_calls (rpc \<sigma>) = n" "max_bytes (rpc \<sigma>) = b"
    by (simp_all add: limits_def system_new_def rpc_new_def)
qed

end
