(* ===== verification/Rpc_Demo.thy ===== *)
theory Rpc_Demo
  imports Rpc_Limits
begin

text \<open>
  A concrete run, evaluated: a caller (connection 1), a worker (connection 2) for one route, a
  request that is taken, completed and answered, and a TAKE that waits.
\<close>

definition echo :: rstring where
  "echo = str ''echo''"

lemma length_echo [simp]: "length echo = 4"
  by (simp add: echo_def str_def)

lemmas demo_simps =
  rpc_new_def connected_def register_def request_def take_begin_def try_take_once_def take_guard_drop_def
  complete_def expire_queued_def expired_queue_def notify_route_def notify_worker_def notify_waiters_def remove_def
  send_def hm_get_def hm_insert_def hm_remove_def request_cost_def checked_add_def saturating_add_def
  saturating_sub_def remaining_ms_def Let_def

definition demo_worker :: "nat \<Rightarrow> nat \<Rightarrow> worker" where
  "demo_worker n m = \<lparr>worker_route = echo, concurrency = 1, running = n, pending_takes = m, notify = 0\<rparr>"

definition demo_call :: "u64 option \<Rightarrow> call" where
  "demo_call w = \<lparr>caller = 1, call_route = echo, owner = w, deadline = 5000000000, call_payload = [7],
     response = True, call_retained_bytes = 521\<rparr>"

definition demo_state :: "u64 list \<Rightarrow> worker \<Rightarrow> (u64 \<times> call) list \<Rightarrow> u64 \<Rightarrow> channel \<Rightarrow> nat \<Rightarrow> state" where
  "demo_state q wk cs fin ch k =
     \<lparr>connections = {1, 2}, routes = [(echo, \<lparr>route_workers = [2], route_queue = q, route_queue_limit = 8\<rparr>)],
      workers = [(2, wk)], calls = cs, next_id = 2, rpc_retained_bytes = (if cs = [] then 0 else 521),
      max_calls = 4, max_bytes = 10000, accepted = 1, completed = fin, rejected = 0, timed_out = 0,
      channels = [1 \<mapsto> ch], notifies = [k]\<rparr>"

definition demo_ready :: "worker \<Rightarrow> state" where
  "demo_ready wk =
     \<lparr>connections = {1, 2}, routes = [(echo, \<lparr>route_workers = [2], route_queue = [], route_queue_limit = 8\<rparr>)],
      workers = [(2, wk)], calls = [], next_id = 1, rpc_retained_bytes = 0,
      max_calls = 4, max_bytes = 10000, accepted = 0, completed = 0, rejected = 0, timed_out = 0,
      channels = Map.empty, notifies = [0]\<rparr>"

definition demo_ticket :: ticket where
  "demo_ticket = \<lparr>tk_call_id = 1, tk_deadline = 5000000000\<rparr>"

definition demo_job :: job where
  "demo_job = \<lparr>job_call_id = 1, job_remaining_ms = 5000, job_payload = [7]\<rparr>"

lemma demo_register:
  "register 2 echo 1 8 (connected 2 (connected 1 (rpc_new 4 10000))) = (Inr (), demo_ready (demo_worker 0 0))"
  by (auto simp: demo_simps demo_ready_def demo_worker_def)

lemma demo_request: "request 1 echo 5000 [7] 0 0 (demo_ready (demo_worker 0 m))
    = Some (Inr demo_ticket, demo_state [1] (demo_worker 0 m) [(1, demo_call None)] 0 Open 1)"
  by (simp add: demo_simps demo_ready_def demo_worker_def demo_ticket_def demo_state_def demo_call_def)

lemma demo_take:
  "take_begin 2 (demo_state [1] (demo_worker 0 0) cs 0 Open 1) = (Inr 0, demo_state [1] (demo_worker 0 1) cs 0 Open 1)"
  by (simp add: demo_simps demo_state_def demo_worker_def)

lemma demo_dispatch: "try_take_once 2 1 1 (demo_state [1] (demo_worker 0 1) [(1, demo_call None)] 0 Open 1)
    = Some (Dispatch demo_job, demo_state [] (demo_worker 1 1) [(1, demo_call (Some 2))] 0 Open 1)"
  by (simp add: demo_simps demo_state_def demo_worker_def demo_call_def demo_job_def)

lemma demo_guard: "take_guard_drop 2 (demo_state q (demo_worker n m) cs fin ch k) = demo_state q (demo_worker n (m - 1)) cs fin ch k"
  by (simp add: demo_simps demo_state_def demo_worker_def)

lemma demo_complete: "complete 2 1 False [9] 2 (demo_state [] (demo_worker 1 0) [(1, demo_call (Some 2))] 0 Open 1)
    = Some (Inr (), demo_state [] (demo_worker 0 0) [] 1 (Sent (Inr [9])) 2)"
  by (simp add: demo_simps demo_state_def demo_worker_def demo_call_def)

lemma demo_poll: "ticket_poll 3 demo_ticket (demo_state q wk cs fin (Sent r) k) = Some (r, demo_state q wk cs fin (Sent r) k)"
  by (simp add: ticket_poll_def demo_ticket_def demo_state_def)

lemma demo_wait: "take_begin 2 (demo_ready (demo_worker 0 0)) = (Inr 0, demo_ready (demo_worker 0 1))"
  "try_take_once 2 0 0 (demo_ready (demo_worker 0 1)) = Some (Idle, demo_ready (demo_worker 0 1))"
  by (simp_all add: demo_simps demo_ready_def demo_worker_def)

section \<open>Runs\<close>

definition demo_system :: "state \<Rightarrow> (nat, take_op) hash_table \<Rightarrow> ticket set \<Rightarrow> system" where
  "demo_system s ts tks = \<lparr>rpc = s, takes = ts, tickets = tks, known = {1, 2}\<rparr>"

definition demo_op :: "take_phase \<Rightarrow> take_op" where
  "demo_op ph = \<lparr>tk_worker = 2, tk_notify = 0, tk_end = 1000, tk_phase = ph\<rparr>"

definition ready_events :: "rpc_event list" where
  "ready_events = [Connect 1, Connect 2, Registered 2 echo (Inr ())]"

definition running_events :: "rpc_event list" where
  "running_events = ready_events @
     [Requested 1 echo [7] (Inr demo_ticket), TakeStarted 2 0, Enabled 0, Tried 2 (Dispatch demo_job)]"

definition done_events :: "rpc_event list" where
  "done_events = running_events @ [Completed 2 1 False [9] (Inr ()), Answered 1 (Inr [9])]"

definition waiting_events :: "rpc_event list" where
  "waiting_events = ready_events @ [TakeStarted 2 0, Enabled 0, Tried 2 Idle]"

lemma ready_run: "runs rpc_step (system_new 4 10000) ready_events (demo_system (demo_ready (demo_worker 0 0)) [] {})"
proof -
  let ?a = "\<lparr>rpc = connected 1 (rpc_new 4 10000), takes = [], tickets = {}, known = {1}\<rparr>"
  let ?b = "demo_system (connected 2 (connected 1 (rpc_new 4 10000))) [] {}"
  have "rpc_step (system_new 4 10000) (Connect 1) ?a"
    using rpc_step.connect [of 1 "system_new 4 10000"] by (simp add: system_new_def)
  from runs_snoc [of rpc_step, OF runs_nil this] have "runs rpc_step (system_new 4 10000) [Connect 1] ?a" by simp
  moreover have "rpc_step ?a (Connect 2) ?b"
    using rpc_step.connect [of 2 ?a] by (simp add: demo_system_def insert_commute)
  ultimately have "runs rpc_step (system_new 4 10000) [Connect 1, Connect 2] ?b"
    using runs_snoc [of rpc_step "system_new 4 10000" "[Connect 1]" ?a "Connect 2" ?b] by simp
  moreover have "rpc_step ?b (Registered 2 echo (Inr ())) (demo_system (demo_ready (demo_worker 0 0)) [] {})"
    using rpc_step.register [of 2 echo 1 8 ?b] demo_register by (simp add: demo_system_def)
  ultimately show ?thesis
    using runs_snoc [of rpc_step "system_new 4 10000" "[Connect 1, Connect 2]"] by (simp add: ready_events_def)
qed

lemma running_run:
  "runs rpc_step (system_new 4 10000) running_events
     (demo_system (demo_state [] (demo_worker 1 0) [(1, demo_call (Some 2))] 0 Open 1) [] {demo_ticket})"
proof -
  let ?q = "\<lambda>m. demo_state [1] (demo_worker 0 m) [(1, demo_call None)] 0 Open 1"
  let ?a = "demo_system (?q 0) [] {demo_ticket}"
  let ?b = "demo_system (?q 1) [(0, demo_op Starting)] {demo_ticket}"
  let ?c = "demo_system (?q 1) [(0, demo_op (Trying 1))] {demo_ticket}"
  let ?d = "demo_system (demo_state [] (demo_worker 1 0) [(1, demo_call (Some 2))] 0 Open 1) [] {demo_ticket}"
  have a: "rpc_step (demo_system (demo_ready (demo_worker 0 0)) [] {}) (Requested 1 echo [7] (Inr demo_ticket)) ?a"
    using rpc_step.request [of 1 echo 5000 "[7]" 0 0 "demo_system (demo_ready (demo_worker 0 0)) [] {}"] demo_request
    by (simp add: demo_system_def)
  have b: "rpc_step ?a (TakeStarted 2 0) ?b"
    using rpc_step.take_started [of 2 ?a 0 "?q 1" 0 1000] demo_take
    by (simp add: demo_system_def demo_op_def hm_insert_def)
  have c: "rpc_step ?b (Enabled 0) ?c"
    using rpc_step.take_enable [of ?b 0 "demo_op Starting"]
    by (simp add: demo_system_def demo_op_def hm_insert_def hm_get_def demo_state_def)
  have d: "rpc_step ?c (Tried 2 (Dispatch demo_job)) ?d"
    using rpc_step.take_done [of ?c 0 "demo_op (Trying 1)" 1 1 1] demo_dispatch
    by (simp add: demo_system_def demo_op_def hm_get_def hm_remove_def end_take_def demo_guard)
  show ?thesis
    using runs_snoc [OF runs_snoc [OF runs_snoc [OF runs_snoc [OF ready_run a] b] c] d]
    by (simp add: running_events_def)
qed

lemma done_run:
  "runs rpc_step (system_new 4 10000) (running_events @ [Completed 2 1 False [9] (Inr ())])
     (demo_system (demo_state [] (demo_worker 0 0) [] 1 (Sent (Inr [9])) 2) [] {demo_ticket})"
  "runs rpc_step (system_new 4 10000) done_events
     (demo_system (demo_state [] (demo_worker 0 0) [] 1 (Sent (Inr [9])) 2) [] {})"
proof -
  let ?a = "demo_system (demo_state [] (demo_worker 1 0) [(1, demo_call (Some 2))] 0 Open 1) [] {demo_ticket}"
  let ?b = "demo_system (demo_state [] (demo_worker 0 0) [] 1 (Sent (Inr [9])) 2) [] {demo_ticket}"
  let ?c = "demo_system (demo_state [] (demo_worker 0 0) [] 1 (Sent (Inr [9])) 2) [] {}"
  have b: "rpc_step ?a (Completed 2 1 False [9] (Inr ())) ?b"
    using rpc_step.complete [of 2 1 False "[9]" 2 ?a] demo_complete by (simp add: demo_system_def)
  have no_call: "cancel 1 (demo_state [] wk [] fin ch k) = demo_state [] wk [] fin ch k" for wk fin ch k
    by (simp add: cancel_def demo_state_def hm_get_def)
  have c: "rpc_step ?b (Answered 1 (Inr [9])) ?c"
    using rpc_step.answered [of demo_ticket ?b 3 "Inr [9]"] demo_poll no_call
    by (simp add: demo_system_def demo_ticket_def)
  show "runs rpc_step (system_new 4 10000) (running_events @ [Completed 2 1 False [9] (Inr ())]) ?b"
    by (rule runs_snoc [OF running_run b])
  from runs_snoc [OF this c] show "runs rpc_step (system_new 4 10000) done_events ?c"
    by (simp add: done_events_def)
qed

lemma waiting_run:
  "runs rpc_step (system_new 4 10000) waiting_events
     (demo_system (demo_ready (demo_worker 0 1)) [(0, demo_op (Waiting 0))] {})"
proof -
  let ?r = "demo_ready (demo_worker 0 1)"
  let ?b = "demo_system ?r [(0, demo_op Starting)] {}"
  let ?c = "demo_system ?r [(0, demo_op (Trying 0))] {}"
  have b: "rpc_step (demo_system (demo_ready (demo_worker 0 0)) [] {}) (TakeStarted 2 0) ?b"
    using rpc_step.take_started [of 2 "demo_system (demo_ready (demo_worker 0 0)) [] {}" 0 ?r 0 1000] demo_wait(1)
    by (simp add: demo_system_def demo_op_def hm_insert_def)
  have c: "rpc_step ?b (Enabled 0) ?c"
    using rpc_step.take_enable [of ?b 0 "demo_op Starting"]
    by (simp add: demo_system_def demo_op_def hm_insert_def hm_get_def demo_ready_def)
  have d: "rpc_step ?c (Tried 2 Idle) (demo_system ?r [(0, demo_op (Waiting 0))] {})"
    using rpc_step.take_idle [of ?c 0 "demo_op (Trying 0)" 0 0 0 ?r] demo_wait(2)
    by (simp add: demo_system_def demo_op_def hm_get_def hm_insert_def)
  show ?thesis
    using runs_snoc [OF runs_snoc [OF runs_snoc [OF ready_run b] c] d] by (simp add: waiting_events_def)
qed

end
