(* ===== verification/Rpc_Properties.thy ===== *)
theory Rpc_Properties
  imports Rpc_Demo
begin

text \<open>
  The properties of the scheduler, each with its witness: of every run from its start, and of
  every operation in a state that a run reaches.
\<close>

section \<open>Auxiliary facts\<close>

lemma count_card:
  assumes "hm_ok m"
  shows "hm.total (\<lambda>v. if P v then 1 else 0) m = card {k. \<exists>v. hm_get m k = Some v \<and> P v}"
proof -
  have "hm.total (\<lambda>v. if P v then 1 else 0) m = (\<Sum>k\<in>dom (hm_get m). if P (the (hm_get m k)) then 1 else 0)"
    by (rule hm.total_dom [OF assms])
  also have "\<dots> = card {k \<in> dom (hm_get m). P (the (hm_get m k))}"
    using hm.finite_dom [OF assms] by (simp add: sum.If_cases Int_def)
  also have "{k \<in> dom (hm_get m). P (the (hm_get m k))} = {k. \<exists>v. hm_get m k = Some v \<and> P v}" by force
  finally show ?thesis .
qed

text \<open>Two events with the same identifier in a list of distinct identifiers are the same event.\<close>

lemma same_event:
  "distinct (ids_of f ls) \<Longrightarrow> a \<in> set ls \<Longrightarrow> b \<in> set ls \<Longrightarrow> f a = Some i \<Longrightarrow> f b = Some i \<Longrightarrow> a = b"
proof (induction ls rule: rev_induct)
  case (snoc x ls)
  have mem: "e \<in> set ls \<Longrightarrow> f e = Some i \<Longrightarrow> i \<in> set (ids_of f ls)" for e
    by (force simp: ids_of_def map_filter_def)
  show ?case using snoc mem by (auto split: option.splits)
qed simp

text \<open>An iteration of \<open>try_take\<close> leaves running calls to their workers.\<close>

lemma taken_keeps:
  assumes inv: "rpc_ok s" and c: "hm_get (calls s) i = Some c" "owner c = Some w"
    and run: "try_take_once v na nb s = Some (res, u)"
  shows "\<exists>c'. hm_get (calls u) i = Some c' \<and> owner c' = Some w \<and> call_retained_bytes c' = call_retained_bytes c"
proof -
  have keep: "\<exists>c'. hm_get (calls t) i = Some c' \<and> owner c' = Some w \<and> call_retained_bytes c' = call_retained_bytes c"
    if "steady {} s t" for t
    using steady_running [OF that c(1)] c(2) by (auto simp: call_kept_def)
  show ?thesis
    using inv
  proof (cases rule: try_take_once_cases [where w = v and na = na and nb = nb])
    case (idle wk t r)
    then show ?thesis using keep [OF steady_expire_queued] run by simp
  next
    case (again wk t r j queue d)
    then show ?thesis using keep [OF steady_trans0 [OF steady_expire_queued steady_expire]] run by simp
  next
    case (dispatch wk t r j queue d)
    obtain c' where "hm_get (calls t) i = Some c'" "owner c' = Some w" "call_retained_bytes c' = call_retained_bytes c"
      using keep [OF steady_expire_queued] dispatch(3) by blast
    moreover from this have "j \<noteq> i" using dispatch(8,9) by auto
    ultimately show ?thesis using dispatch(12) run by (auto simp: dispatched_def)
  qed (use run c in auto)
qed

lemma evolves_step:
  assumes ok: "sys_ok \<sigma>" and step: "rpc_step \<sigma> e \<sigma>'"
  shows "evolves (rpc \<sigma>) (rpc \<sigma>')"
proof -
  have inv: "rpc_ok (rpc \<sigma>)" using ok by (simp add: sys_ok_def)
  show ?thesis
    using step
  proof (cases rule: rpc_stepE)
    case (connect c)
    then show ?thesis by (auto simp: connected_def intro: evolves_same)
  next
    case (take_refused w err s)
    then show ?thesis using evolves_take_begin [of "rpc \<sigma>" w] by simp
  next
    case (take_started w n s k end_time)
    then show ?thesis using evolves_take_begin [of "rpc \<sigma>" w] by simp
  next
    case (take_done k tk ph now1 now2 res s)
    then show ?thesis
      using evolves_trans [OF evolves_try_take_once [OF inv take_done(5)] evolves_take_guard_drop] by (simp add: end_take_def)
  next
    case (answered t now r s)
    have s: "rpc_ok s" "evolves (rpc \<sigma>) s"
      using ticket_poll_state [OF answered(4)] inv expire_inv [OF inv] evolves_expire [OF inv] evolves_refl by metis+
    then show ?thesis using evolves_trans [OF s(2) evolves_cancel [OF s(1)]] answered(2) by simp
  next
    case (disconnect c s)
    obtain u where "disconnect c (rpc \<sigma>) = Some u" "evolves (rpc \<sigma>) u" using disconnect_spec [OF inv] by metis
    then show ?thesis using disconnect by simp
  qed (use inv in \<open>auto simp: end_take_def intro: evolves_refl evolves_register evolves_request evolves_try_take_once
    evolves_take_guard_drop evolves_complete evolves_cancel\<close>)
qed

lemma run_facts:
  assumes "runs rpc_step (system_new n b) ls \<sigma>"
  shows "sys_ok \<sigma>" and "rpc_ok (rpc \<sigma>)" and "trace_ok ls (rpc \<sigma>)"
    and "t \<in> tickets \<sigma> \<Longrightarrow> \<exists>c name p. Requested c name p (Inr t) \<in> set ls"
  using run_ok_runs [OF assms] by (simp_all add: run_ok_def sys_ok_def)

section \<open>Every run\<close>

text \<open>
  C11. Accounting. In every state that any interleaving of the operations reaches, the retained
  bytes are exactly the sum over the calls and within the budget, the number of calls is within
  its budget, every queue holds exactly the waiting calls of its route, once each and within its
  limit, and for every worker the running count is the number of calls it owns and the count of
  pending TAKEs is the number of its TAKEs in progress, neither above its concurrency.
\<close>

theorem rpc_accounting:
  assumes "runs rpc_step (system_new n b) ls \<sigma>"
  shows "unat (rpc_retained_bytes (rpc \<sigma>)) = (\<Sum>(i, c)\<leftarrow>calls (rpc \<sigma>). unat (call_retained_bytes c))
    \<and> rpc_retained_bytes (rpc \<sigma>) \<le> b \<and> length (calls (rpc \<sigma>)) \<le> n \<and> distinct (map fst (calls (rpc \<sigma>)))
    \<and> (\<forall>name r. hm_get (routes (rpc \<sigma>)) name = Some r \<longrightarrow>
         distinct (route_queue r) \<and> length (route_queue r) \<le> route_queue_limit r
         \<and> set (route_queue r) = {i. waiting_call (rpc \<sigma>) name i})
    \<and> (\<forall>w wk. hm_get (workers (rpc \<sigma>)) w = Some wk \<longrightarrow>
         running wk = card {i. \<exists>c. hm_get (calls (rpc \<sigma>)) i = Some c \<and> owner c = Some w}
         \<and> running wk \<le> concurrency wk
         \<and> pending_takes wk = card {k. \<exists>tk. hm_get (takes \<sigma>) k = Some tk \<and> tk_worker tk = w}
         \<and> pending_takes wk \<le> concurrency wk)"
proof -
  note inv = run_facts(2) [OF assms] and ok = run_facts(1) [OF assms]
  have budget: "budget_ok (rpc \<sigma>)" and h: "hm_ok (calls (rpc \<sigma>))" "hm_ok (takes \<sigma>)"
    using inv ok by (simp_all add: rpc_inv_def tables_ok_def sys_ok_def)
  have "unat (rpc_retained_bytes (rpc \<sigma>)) = (\<Sum>(i, c)\<leftarrow>calls (rpc \<sigma>). unat (call_retained_bytes c))"
    using budget by (simp add: budget_ok_def hm.total_def call_cost_def case_prod_unfold)
  moreover have "rpc_retained_bytes (rpc \<sigma>) \<le> b \<and> length (calls (rpc \<sigma>)) \<le> n"
    using budget limits_run [OF assms] by (simp add: budget_ok_def)
  moreover have "distinct (map fst (calls (rpc \<sigma>)))" using h(1) by (rule hm.entries_distinct)
  moreover have "distinct (route_queue r) \<and> length (route_queue r) \<le> route_queue_limit r
      \<and> set (route_queue r) = {i. waiting_call (rpc \<sigma>) name i}" if "hm_get (routes (rpc \<sigma>)) name = Some r" for name r
    using queue_facts [OF inv that] by auto
  moreover have "running wk = card {i. \<exists>c. hm_get (calls (rpc \<sigma>)) i = Some c \<and> owner c = Some w}
      \<and> running wk \<le> concurrency wk
      \<and> pending_takes wk = card {k. \<exists>tk. hm_get (takes \<sigma>) k = Some tk \<and> tk_worker tk = w}
      \<and> pending_takes wk \<le> concurrency wk" if "hm_get (workers (rpc \<sigma>)) w = Some wk" for w wk
    using worker_bounds [OF inv that] ok that count_card [OF h(1), of "\<lambda>c. owner c = Some w"]
      count_card [OF h(2), of "\<lambda>tk. tk_worker tk = w"]
    by (simp add: sys_ok_def owned_calls_def taking_def)
  ultimately show ?thesis by blast
qed

theorem rpc_accounting_witness:
  "\<exists>\<sigma>. runs rpc_step (system_new 4 10000) running_events \<sigma> \<and> length (calls (rpc \<sigma>)) = 1
     \<and> (\<Sum>(i, c)\<leftarrow>calls (rpc \<sigma>). unat (call_retained_bytes c)) = 521
     \<and> card {i. \<exists>c. hm_get (calls (rpc \<sigma>)) i = Some c \<and> owner c = Some 2} = 1"
proof -
  let ?s = "demo_system (demo_state [] (demo_worker 1 0) [(1, demo_call (Some 2))] 0 Open 1) [] {demo_ticket}"
  have "hm_get (workers (rpc ?s)) 2 = Some (demo_worker 1 0)"
    by (simp add: demo_system_def demo_state_def hm_get_def)
  then have "running (demo_worker 1 0) = card {i. \<exists>c. hm_get (calls (rpc ?s)) i = Some c \<and> owner c = Some 2}"
    using rpc_accounting [OF running_run] by blast
  then have "card {i. \<exists>c. hm_get (calls (rpc ?s)) i = Some c \<and> owner c = Some 2} = 1"
    by (simp add: demo_worker_def)
  moreover have "length (calls (rpc ?s)) = 1" "(\<Sum>(i, c)\<leftarrow>calls (rpc ?s). unat (call_retained_bytes c)) = 521"
    by (simp_all add: demo_system_def demo_state_def demo_call_def)
  ultimately show ?thesis using running_run by blast
qed

text \<open>
  C2. At most once. In every run no identifier is accepted twice, no call is handed to a worker
  twice, none is completed twice, only dispatched calls are completed and only accepted calls are
  dispatched: an RPC is never replayed.
\<close>

theorem at_most_once:
  assumes "runs rpc_step (system_new n b) ls \<sigma>"
  shows "distinct (ids_of accepted_id ls) \<and> distinct (ids_of dispatched_id ls) \<and> distinct (ids_of completed_id ls)
    \<and> set (ids_of completed_id ls) \<subseteq> set (ids_of dispatched_id ls)
    \<and> set (ids_of dispatched_id ls) \<subseteq> set (ids_of accepted_id ls)"
proof -
  note ok = run_facts(3) [OF assms, unfolded trace_ok_def]
  have mem: "i \<in> set (ids_of f ls) \<longleftrightarrow> (\<exists>e\<in>set ls. f e = Some i)" for f i
    by (force simp: ids_of_def map_filter_def)
  have "i \<in> set (ids_of dispatched_id ls)" if "i \<in> set (ids_of completed_id ls)" for i
  proof -
    from that obtain w failed p where "Completed w i failed p (Inr ()) \<in> set ls"
      unfolding mem special_events by blast
    then obtain j where "Tried w (Dispatch j) \<in> set ls" "job_call_id j = i"
      using ok unfolding completes_ok_def by blast
    then show ?thesis unfolding mem special_events by blast
  qed
  moreover have "i \<in> set (ids_of accepted_id ls)" if "i \<in> set (ids_of dispatched_id ls)" for i
  proof -
    from that obtain w j where j: "Tried w (Dispatch j) \<in> set ls" "job_call_id j = i"
      unfolding mem special_events by blast
    then obtain c name d where
      "Requested c name (job_payload j) (Inr \<lparr>tk_call_id = job_call_id j, tk_deadline = d\<rparr>) \<in> set ls"
      using ok unfolding dispatches_ok_def by blast
    moreover have "accepted_id (Requested c name (job_payload j) (Inr \<lparr>tk_call_id = job_call_id j, tk_deadline = d\<rparr>)) = Some i"
      using j(2) by simp
    ultimately show ?thesis unfolding mem by blast
  qed
  ultimately show ?thesis using ok by (auto simp: accepts_ok_def dispatches_ok_def completes_ok_def)
qed

theorem at_most_once_witness:
  "ids_of completed_id done_events = [1] \<and> set (ids_of completed_id done_events) \<subseteq> set (ids_of dispatched_id done_events)"
proof
  show "set (ids_of completed_id done_events) \<subseteq> set (ids_of dispatched_id done_events)"
    using at_most_once [OF done_run(2)] by blast
qed (simp add: done_events_def running_events_def ready_events_def ids_of_def map_filter_def)

text \<open>
  C24. Deliveries are authentic. A job that a worker receives carries the payload of the request
  that was accepted under its identifier, and the worker has registered the route of that request.
\<close>

theorem delivery_authentic:
  assumes "runs rpc_step (system_new n b) ls \<sigma>" and "Tried w (Dispatch j) \<in> set ls"
  shows "\<exists>c name d. Requested c name (job_payload j) (Inr \<lparr>tk_call_id = job_call_id j, tk_deadline = d\<rparr>) \<in> set ls
    \<and> Registered w name (Inr ()) \<in> set ls"
  using run_facts(3) [OF assms(1)] assms(2) unfolding trace_ok_def dispatches_ok_def by blast

theorem delivery_authentic_witness:
  "\<exists>c name d. Requested c name [7] (Inr \<lparr>tk_call_id = 1, tk_deadline = d\<rparr>) \<in> set running_events
    \<and> Registered 2 name (Inr ()) \<in> set running_events"
  using delivery_authentic [OF running_run, of 2 demo_job]
  by (simp add: running_events_def demo_job_def)

text \<open>
  Answers are authentic. A caller that is answered with a payload gets the payload that the
  worker running its call reported as a success, and that worker had received the call.
\<close>

theorem answer_authentic:
  assumes "runs rpc_step (system_new n b) ls \<sigma>" and "rpc_step \<sigma> (Answered i (Inr p)) \<sigma>'"
  shows "\<exists>w j. Completed w i False p (Inr ()) \<in> set ls \<and> Tried w (Dispatch j) \<in> set ls \<and> job_call_id j = i"
proof -
  note ok = run_facts(3) [OF assms(1), unfolded trace_ok_def]
  obtain t now s where "tk_call_id t = i" "ticket_poll now t (rpc \<sigma>) = Some (Inr p, s)"
    using assms(2) by (auto elim: rpc_stepE)
  then have "channels (rpc \<sigma>) i = Some (Sent (Inr p))"
    by (auto simp: ticket_poll_def split: option.splits channel.splits if_splits)
  then obtain w where "Completed w i False p (Inr ()) \<in> set ls" using ok unfolding completes_ok_def by blast
  moreover from this obtain j where "Tried w (Dispatch j) \<in> set ls" "job_call_id j = i"
    using ok unfolding completes_ok_def by blast
  ultimately show ?thesis by blast
qed

theorem answer_authentic_witness:
  "\<exists>w j. Completed w 1 False [9] (Inr ()) \<in> set done_events \<and> Tried w (Dispatch j) \<in> set done_events \<and> job_call_id j = 1"
proof -
  let ?s = "demo_system (demo_state [] (demo_worker 0 0) [] 1 (Sent (Inr [9])) 2) [] {demo_ticket}"
  have "rpc_step ?s (Answered (tk_call_id demo_ticket) (Inr [9]))
      (?s\<lparr>rpc := cancel (tk_call_id demo_ticket) (demo_state [] (demo_worker 0 0) [] 1 (Sent (Inr [9])) 2),
          tickets := tickets ?s - {demo_ticket}\<rparr>)"
    by (rule rpc_step.answered [where now = 3]) (simp_all add: demo_system_def demo_poll)
  then have "rpc_step ?s (Answered 1 (Inr [9]))
      (?s\<lparr>rpc := cancel 1 (demo_state [] (demo_worker 0 0) [] 1 (Sent (Inr [9])) 2),
          tickets := tickets ?s - {demo_ticket}\<rparr>)"
    by (simp add: demo_ticket_def)
  from answer_authentic [OF done_run(1) this] show ?thesis by (auto simp: done_events_def)
qed

text \<open>
  C6. No lost wake-up. A TAKE that is waiting can always be woken, unless its worker is still
  registered and has nothing to take: it runs as many calls as it may, or its queue is empty.
\<close>

theorem no_lost_wakeup:
  assumes "runs rpc_step (system_new n b) ls \<sigma>"
    and "hm_get (takes \<sigma>) k = Some tk" and "tk_phase tk = Waiting e"
  shows "(\<exists>\<sigma>'. rpc_step \<sigma> (Woken k) \<sigma>')
    \<or> (\<exists>wk r. hm_get (workers (rpc \<sigma>)) (tk_worker tk) = Some wk \<and> hm_get (routes (rpc \<sigma>)) (worker_route wk) = Some r
         \<and> (concurrency wk \<le> running wk \<or> route_queue r = []))"
proof (cases "e < notifies (rpc \<sigma>) ! tk_notify tk")
  case True
  from rpc_step.take_woken [OF assms(2,3) this] show ?thesis by blast
next
  case False
  have "take_ok (rpc \<sigma>) (known \<sigma>) tk" using run_facts(1) [OF assms(1)] assms(2) by (simp add: sys_ok_def)
  then have "e \<le> notifies (rpc \<sigma>) ! tk_notify tk"
    "e = notifies (rpc \<sigma>) ! tk_notify tk \<Longrightarrow> quiet (rpc \<sigma>) (tk_worker tk) (tk_notify tk)"
    using assms(3) by (simp_all add: take_ok_def)
  then have "quiet (rpc \<sigma>) (tk_worker tk) (tk_notify tk)" using False by simp
  then show ?thesis by (auto simp: quiet_def)
qed

theorem no_lost_wakeup_witness:
  "\<exists>\<sigma> \<sigma>'. hm_get (takes \<sigma>) 0 = Some (demo_op (Waiting 0)) \<and> rpc_step \<sigma> (Woken 0) \<sigma>'
     \<and> runs rpc_step (system_new 4 10000) (waiting_events @ [Requested 1 echo [7] (Inr demo_ticket)]) \<sigma>"
proof -
  let ?s = "demo_system (demo_ready (demo_worker 0 1)) [(0, demo_op (Waiting 0))] {}"
  let ?t = "demo_system (demo_state [1] (demo_worker 0 1) [(1, demo_call None)] 0 Open 1) [(0, demo_op (Waiting 0))] {demo_ticket}"
  have "rpc_step ?s (Requested 1 echo [7] (Inr demo_ticket)) ?t"
    using rpc_step.request [of 1 echo 5000 "[7]" 0 0 ?s] demo_request by (simp add: demo_system_def)
  from runs_snoc [OF waiting_run this]
  have run: "runs rpc_step (system_new 4 10000) (waiting_events @ [Requested 1 echo [7] (Inr demo_ticket)]) ?t" .
  have tk: "hm_get (takes ?t) 0 = Some (demo_op (Waiting 0))" "tk_phase (demo_op (Waiting 0)) = Waiting 0"
    by (simp_all add: demo_system_def demo_op_def hm_get_def)
  have "\<not> (\<exists>wk r. hm_get (workers (rpc ?t)) (tk_worker (demo_op (Waiting 0))) = Some wk
      \<and> hm_get (routes (rpc ?t)) (worker_route wk) = Some r \<and> (concurrency wk \<le> running wk \<or> route_queue r = []))"
    by (simp add: demo_system_def demo_op_def demo_state_def demo_worker_def hm_get_def)
  then have "\<exists>\<sigma>'. rpc_step ?t (Woken 0) \<sigma>'" using no_lost_wakeup [OF run tk] by blast
  then show ?thesis using run tk(1) by blast
qed

text \<open>
  C35. A running call holds its place until it ends. Whatever happens, a call that a worker runs
  stays with that worker and keeps its bytes reserved, unless that worker completes it or
  disconnects: a caller that gives up, a deadline or a lost caller do not free it.
\<close>

theorem running_until_finished:
  assumes "runs rpc_step (system_new n b) ls \<sigma>" and "rpc_step \<sigma> e \<sigma>'"
    and "hm_get (calls (rpc \<sigma>)) i = Some c" and "owner c = Some w"
    and "\<And>failed p. e \<noteq> Completed w i failed p (Inr ())" and "e \<noteq> Disconnected w"
  shows "\<exists>c'. hm_get (calls (rpc \<sigma>')) i = Some c' \<and> owner c' = Some w
    \<and> call_retained_bytes c' = call_retained_bytes c"
proof -
  note inv = run_facts(2) [OF assms(1)] and i = call_facts(5) [OF run_facts(2) [OF assms(1)] assms(3)]
  have keep: "\<exists>c'. hm_get (calls u) i = Some c' \<and> owner c' = Some w \<and> call_retained_bytes c' = call_retained_bytes c"
    if "steady X (rpc \<sigma>) u" "i \<notin> X" for X u
    using steady_running [OF that(1) assms(3) _ that(2)] assms(4) by (auto simp: call_kept_def)
  show ?thesis
    using assms(2)
  proof (cases rule: rpc_stepE)
    case (connect a)
    then show ?thesis using assms(3,4) by (simp add: connected_def)
  next
    case (register v name conc lim res s)
    then have "calls s = calls (rpc \<sigma>)" by (auto simp: register_def Let_def split: if_splits)
    then show ?thesis using assms(3,4) register by simp
  next
    case (request a name ms p now1 now2 res s)
    have "\<exists>c'. hm_get (calls s) i = Some c' \<and> owner c' = Some w \<and> call_retained_bytes c' = call_retained_bytes c"
      using inv
    proof (cases rule: request_cases [where who = a and name = name and ms = ms and p = p and na = now1 and nb = now2])
      case (admitted t r d)
      have "i \<noteq> next_id t"
        using i expire_queued_spec [OF inv, of name now1] by (auto simp: expired_as_def admitted(2))
      then show ?thesis
        using admitted(9) request(3) keep [OF steady_expire_queued [of "rpc \<sigma>" name now1]]
        by (auto simp: notify_route_calls admit_def admitted(2))
    qed (use request(3) assms(3,4) keep [OF steady_expire_queued [of "rpc \<sigma>" name now1]] in auto)
    then show ?thesis using request by simp
  next
    case (take_refused v err s)
    then have "s = rpc \<sigma>" by (auto simp: take_begin_def split: option.splits if_splits)
    then show ?thesis using assms(3,4) take_refused by simp
  next
    case (take_started v m s k end_time)
    then have "calls s = calls (rpc \<sigma>)" by (auto simp: take_begin_def split: option.splits if_splits)
    then show ?thesis using assms(3,4) take_started by simp
  next
    case (take_again k tk ph now1 now2 s)
    then show ?thesis using taken_keeps [OF inv assms(3,4)] by simp
  next
    case (take_idle k tk ph now1 now2 s)
    then show ?thesis using taken_keeps [OF inv assms(3,4)] by simp
  next
    case (take_done k tk ph now1 now2 res s)
    then show ?thesis using taken_keeps [OF inv assms(3,4)] by (simp add: end_take_def take_guard_drop_same)
  next
    case (take_timeout k tk ph now)
    then show ?thesis using assms(3,4) by (simp add: end_take_def take_guard_drop_same)
  next
    case (take_abort k tk)
    then show ?thesis using assms(3,4) by (simp add: end_take_def take_guard_drop_same)
  next
    case (complete v j failed p now res s)
    show ?thesis
    proof (cases rule: complete_cases [of "rpc \<sigma>" v j failed p now])
      case (completed d m q)
      have "j \<noteq> i" using completed(1,2,3) complete(1,3) assms(3,4) assms(5) [of failed p] by auto
      then have "\<exists>c'. hm_get (calls (snd (remove j (rpc \<sigma>)))) i = Some c' \<and> owner c' = Some w
          \<and> call_retained_bytes c' = call_retained_bytes c"
        using keep [OF steady_remove] by simp
      then show ?thesis using complete(2,3) completed(3) by (auto simp: send_def)
    qed (use complete assms(3,4) in auto)
  next
    case (answered t now r s)
    have "steady {} (rpc \<sigma>) s" using ticket_poll_state [OF answered(4)] steady_expire steady_refl by metis
    then show ?thesis using keep [OF steady_trans0 [OF _ steady_cancel]] answered(2) by simp
  next
    case (ticket_dropped t)
    then show ?thesis using keep [OF steady_cancel] by simp
  next
    case (disconnect a s)
    have "a \<noteq> w" using assms(6) disconnect(1) by simp
    then show ?thesis
      using keep [OF steady_disconnect [OF inv disconnect(3)]] assms(3,4) disconnect(2) by simp
  qed (use assms(3,4) in auto)
qed

theorem running_until_finished_witness:
  "\<exists>\<sigma> \<sigma>' c'. runs rpc_step (system_new 4 10000) running_events \<sigma> \<and> rpc_step \<sigma> (TicketDropped 1) \<sigma>'
     \<and> hm_get (calls (rpc \<sigma>')) 1 = Some c' \<and> owner c' = Some 2 \<and> call_retained_bytes c' = 521"
proof -
  let ?s = "demo_system (demo_state [] (demo_worker 1 0) [(1, demo_call (Some 2))] 0 Open 1) [] {demo_ticket}"
  obtain \<sigma>' where step: "rpc_step ?s (TicketDropped 1) \<sigma>'"
    using rpc_step.ticket_dropped [of demo_ticket ?s] by (simp add: demo_system_def demo_ticket_def)
  have "hm_get (calls (rpc ?s)) 1 = Some (demo_call (Some 2))" "owner (demo_call (Some 2)) = Some 2"
    by (simp_all add: demo_system_def demo_state_def demo_call_def hm_get_def)
  from running_until_finished [OF running_run step this] have
    "\<exists>c'. hm_get (calls (rpc \<sigma>')) 1 = Some c' \<and> owner c' = Some 2 \<and> call_retained_bytes c' = 521"
    by (simp add: demo_call_def)
  then show ?thesis using running_run step by blast
qed

text \<open>
  An answer is final. Once the channel of a call is settled, with a reply or by dropping the
  sender, no later operation changes it: a caller sees at most one outcome.
\<close>

theorem answer_final:
  assumes "runs rpc_step (system_new n b) ls \<sigma>" and "runs rpc_step \<sigma> ls' \<sigma>'"
    and "channels (rpc \<sigma>) i = Some ch" and "ch \<noteq> Open"
  shows "channels (rpc \<sigma>') i = Some ch"
proof -
  have "evolves (rpc \<sigma>) (rpc \<sigma>')"
    by (rule rpc_sys.run_related [OF assms(2) run_facts(1) [OF assms(1)], where R = "\<lambda>\<sigma> \<sigma>'. evolves (rpc \<sigma>) (rpc \<sigma>')"])
      (auto intro: evolves_refl evolves_trans evolves_step)
  then show ?thesis using assms(3,4) by (simp add: evolves_def)
qed

theorem answer_final_witness:
  "\<exists>\<sigma> \<sigma>'. runs rpc_step \<sigma> [Answered 1 (Inr [9])] \<sigma>' \<and> channels (rpc \<sigma>') 1 = Some (Sent (Inr [9]))"
proof -
  let ?s = "demo_system (demo_state [] (demo_worker 0 0) [] 1 (Sent (Inr [9])) 2) [] {demo_ticket}"
  obtain \<sigma>' where "rpc_step ?s (Answered 1 (Inr [9])) \<sigma>'"
    using rpc_step.answered [of demo_ticket ?s 3 "Inr [9]"] demo_poll by (simp add: demo_system_def demo_ticket_def)
  from runs_snoc [of rpc_step, OF runs_nil this] have run: "runs rpc_step ?s [Answered 1 (Inr [9])] \<sigma>'" by simp
  have "channels (rpc ?s) 1 = Some (Sent (Inr [9]))" by (simp add: demo_system_def demo_state_def)
  from answer_final [OF done_run(1) run this] run show ?thesis by blast
qed

end
