(* ===== verification/Rpc_Operations.thy ===== *)
theory Rpc_Operations
  imports Rpc_Properties
begin

text \<open>
  What the single operations of the scheduler do in any state that a run reaches, on every branch,
  and that none of them panics.
\<close>

text \<open>
  C36. Admission is exact. A request is accepted if and only if its caller is connected, its route
  is served, and the queue, the number of calls and the retained bytes have room after the overdue
  calls of the route are gone; then it is last in its queue with an open channel. Otherwise it is
  refused, with NO_SERVICE, OVERLOADED or SERVICE_UNAVAILABLE, and no call enters. It never panics.
\<close>

theorem request_exact:
  assumes "runs rpc_step (system_new n b) ls \<sigma>" and "512 + 2 * length name + length p < 2 ^ 64"
  shows "case request who name ms p na nb (rpc \<sigma>) of
      None \<Rightarrow> False
    | Some (Inr t, u) \<Rightarrow> admits (rpc \<sigma>) who name p na
        \<and> t = \<lparr>tk_call_id = next_id (rpc \<sigma>), tk_deadline = nb + unat ms * 1000000\<rparr>
        \<and> channels u (tk_call_id t) = Some Open
        \<and> (\<exists>r. hm_get (routes u) name = Some r \<and> route_queue r = live_queue na (rpc \<sigma>) name @ [tk_call_id t])
        \<and> (\<exists>c. hm_get (calls u) (tk_call_id t) = Some c \<and> caller c = who \<and> owner c = None \<and> call_payload c = p
             \<and> deadline c = tk_deadline t)
    | Some (Inl e, u) \<Rightarrow> \<not> admits (rpc \<sigma>) who name p na
        \<and> err_code e \<in> {SERVICE_UNAVAILABLE, NO_SERVICE, OVERLOADED} \<and> next_id u = next_id (rpc \<sigma>)
        \<and> (calls u = calls (rpc \<sigma>) \<or> calls u = calls (expire_queued name na (rpc \<sigma>)))"
proof -
  note inv = run_facts(2) [OF assms(1)]
  note adm = request_admits [OF inv assms(2), where who = who and ms = ms and na = na and nb = nb]
  obtain res u where run: "request who name ms p na nb (rpc \<sigma>) = Some (res, u)" using request_inv [OF inv] .
  show ?thesis
  proof (cases res)
    case (Inr t)
    then show ?thesis using run adm request_accepted [OF inv run [unfolded Inr]] by auto
  next
    case (Inl e)
    have "err_code e \<in> {SERVICE_UNAVAILABLE, NO_SERVICE, OVERLOADED} \<and> next_id u = next_id (rpc \<sigma>)
        \<and> (calls u = calls (rpc \<sigma>) \<or> calls u = calls (expire_queued name na (rpc \<sigma>)))"
      using inv
    proof (cases rule: request_cases [where who = who and name = name and ms = ms and p = p and na = na and nb = nb])
      case (full t r)
      then show ?thesis using run Inl expire_queued_spec [OF inv, of name na] by (auto simp: expired_as_def)
    next
      case (exhausted t)
      then show ?thesis using run Inl expire_queued_spec [OF inv, of name na] by (auto simp: expired_as_def)
    qed (use run Inl in auto)
    then show ?thesis using run Inl adm by auto
  qed
qed

theorem request_exact_witness:
  "admits (demo_ready (demo_worker 0 0)) 1 echo [7] 0"
  using request_exact [OF ready_run, where who = 1 and name = echo and ms = 5000 and p = "[7]" and na = 0 and nb = 0]
    demo_request [of 0]
  by (simp add: demo_system_def)

text \<open>
  Dispatch is first come, first served, and never late. An iteration of \<open>try_take\<close> refuses an
  unregistered connection, is idle when the worker is busy or no call of its route is left after
  the overdue ones are gone, and otherwise takes the first of them: the call is handed out with its
  payload and its remaining time, becomes the worker's and counts as running, unless its deadline
  has passed meanwhile. It never panics.
\<close>

theorem dispatch_first_live:
  assumes "runs rpc_step (system_new n b) ls \<sigma>"
  shows "\<exists>res u. try_take_once w na nb (rpc \<sigma>) = Some (res, u) \<and> take_spec w na nb (rpc \<sigma>) res u"
proof -
  obtain res u where "try_take_once w na nb (rpc \<sigma>) = Some (res, u)" "take_spec w na nb (rpc \<sigma>) res u"
    using try_take_once_spec [OF run_facts(2) [OF assms]] by metis
  then show ?thesis by blast
qed

theorem dispatch_first_live_witness:
  "\<exists>res u. try_take_once 2 0 0 (demo_ready (demo_worker 0 1)) = Some (res, u) \<and> res = Idle
    \<and> take_spec 2 0 0 (demo_ready (demo_worker 0 1)) res u"
  using dispatch_first_live [OF waiting_run, of 2 0 0] demo_wait(2) by (auto simp: demo_system_def)

text \<open>
  C37. The loop of \<open>try_take\<close> returns. With more readings of the clock than there are calls in the
  queue of the worker's route, it ends with an error, with nothing or with a job.
\<close>

theorem try_take_terminates:
  assumes "runs rpc_step (system_new n b) ls \<sigma>" and "queued_for w (rpc \<sigma>) < length clock"
  shows "\<exists>res u. try_take w clock (rpc \<sigma>) = Some (res, u)"
  using try_take_returns [OF run_facts(2) [OF assms(1)] assms(2)] by blast

theorem try_take_terminates_witness:
  "\<exists>res u. try_take 2 [(0, 0)] (demo_ready (demo_worker 0 1)) = Some (res, u)"
proof -
  have "queued_for 2 (demo_ready (demo_worker 0 1)) < length [(0 :: nat, 0 :: nat)]"
    by (simp add: queued_for_def demo_ready_def demo_worker_def hm_get_def)
  then show ?thesis using try_take_terminates [OF waiting_run, of 2 "[(0, 0)]"] by (simp add: demo_system_def)
qed

text \<open>
  The time a worker is told. For a call whose deadline is ahead by at most 30 seconds, the
  largest timeout a request can ask for, the remaining time is rounded up to whole milliseconds:
  positive, at most 30000, never short of the deadline and less than a millisecond over it.
\<close>

theorem remaining_time:
  assumes "now < expires" and "expires \<le> now + 30000 * 1000000"
  shows "0 < unat (remaining_ms expires now) \<and> unat (remaining_ms expires now) \<le> 30000
    \<and> expires \<le> now + unat (remaining_ms expires now) * 1000000
    \<and> now + unat (remaining_ms expires now) * 1000000 < expires + 1000000"
proof -
  define d where "d = (expires - now + 999999) div 1000000"
  have d: "0 < d" "d \<le> 30000" using assms by (simp_all add: d_def div_le_mono div_greater_zero_iff)
  then have "unat (remaining_ms expires now) = d"
    by (simp add: remaining_ms_def d_def [symmetric] unat_of_nat)
  moreover obtain m where "expires = now + m" using assms(1) less_imp_add_positive by metis
  moreover from this have "m \<le> d * 1000000" "d * 1000000 < m + 1000000" unfolding d_def by linarith+
  ultimately show ?thesis using d by simp
qed

theorem remaining_time_witness:
  "unat (remaining_ms 5000000 2999999) = 3 \<and> 5000000 \<le> 2999999 + unat (remaining_ms 5000000 2999999) * 1000000"
  using remaining_time [of 2999999 5000000] by (simp add: remaining_ms_def)

text \<open>
  Completion. Only the registered worker that runs a call can complete it, once: every other
  attempt is refused and changes nothing. A completion releases the call's bytes and one place of
  the worker, wakes the worker's TAKEs, leaves every other call alone, and answers a caller that
  still waits: with the payload, with HANDLER_ERROR, or with DEADLINE_EXCEEDED when it is late.
\<close>

theorem completion_outcomes:
  assumes "runs rpc_step (system_new n b) ls \<sigma>"
  shows "case complete w i failed p now (rpc \<sigma>) of
      None \<Rightarrow> False
    | Some (Inl e, u) \<Rightarrow> u = rpc \<sigma>
        \<and> (if hm_get (workers (rpc \<sigma>)) w = None then err_code e = UNAUTHORIZED
           else case hm_get (calls (rpc \<sigma>)) i of
               None \<Rightarrow> err_code e = INVALID
             | Some c \<Rightarrow> owner c \<noteq> Some w \<and> err_code e = UNAUTHORIZED)
    | Some (Inr _, u) \<Rightarrow>
        (\<exists>c wk wk'. hm_get (calls (rpc \<sigma>)) i = Some c \<and> owner c = Some w
           \<and> hm_get (calls u) i = None \<and> (\<forall>j. j \<noteq> i \<longrightarrow> hm_get (calls u) j = hm_get (calls (rpc \<sigma>)) j)
           \<and> unat (rpc_retained_bytes u) + call_cost c = unat (rpc_retained_bytes (rpc \<sigma>))
           \<and> hm_get (workers (rpc \<sigma>)) w = Some wk \<and> hm_get (workers u) w = Some wk'
           \<and> running wk' + 1 = running wk \<and> notifies (rpc \<sigma>) ! notify wk < notifies u ! notify wk
           \<and> channels u i = (if response c then Some (Sent (completion_reply c failed p now)) else channels (rpc \<sigma>) i)
           \<and> (\<exists>e. complete v i failed' p' now' u = Some (Inl e, u)))"
proof -
  note inv = run_facts(2) [OF assms]
  let ?s = "rpc \<sigma>"
  show ?thesis
  proof (cases "hm_get (workers ?s) w = None")
    case True
    then show ?thesis by (simp add: complete_def)
  next
    case reg: False
    show ?thesis
    proof (cases rule: complete_cases [of ?s w i failed p now])
      case (completed c n m)
      obtain wk where wk: "hm_get (workers ?s) w = Some wk" using call_facts(2) [OF inv completed(1,2)] by auto
      let ?r = "snd (remove i ?s)"
      define u where "u = (if response c then send i (completion_reply c failed p now) ?r else ?r)\<lparr>completed := n, timed_out := m\<rparr>"
      note rm = remove_running [OF completed(1,2) wk]
      have f: "calls u = calls ?r" "workers u = workers ?r" "notifies u = notifies ?r"
        "rpc_retained_bytes u = rpc_retained_bytes ?r"
        "channels u i = (if response c then Some (Sent (completion_reply c failed p now)) else channels ?s i)"
        using remove_calls [OF completed(1)] by (simp_all add: u_def send_def)
      have "1 \<le> owned_calls ?s w"
        using hm.total_ge [of "calls ?s" i c "\<lambda>c. if owner c = Some w then 1 else 0"] inv completed(1,2)
        by (simp add: owned_calls_def rpc_inv_def tables_ok_def)
      then have pos: "1 \<le> running wk" and nf: "notify wk < length (notifies ?s)"
        using worker_bounds [OF inv wk] inv wk by (auto simp: rpc_inv_def workers_ok_def)
      have h: "hm_ok (calls ?s)" "unat (rpc_retained_bytes ?s) = hm.total call_cost (calls ?s)"
        "rpc_retained_bytes ?s \<le> max_bytes ?s"
        using inv by (simp_all add: rpc_inv_def tables_ok_def budget_ok_def)
      have "unat (rpc_retained_bytes (without_call i c ?s)) + call_cost c = unat (rpc_retained_bytes ?s)"
        using without_call_budget(1) [OF h completed(1)] hm.total_remove [OF h(1) completed(1), of call_cost] h(2) by simp
      moreover have "\<exists>e. complete v i failed' p' now' u = Some (Inl e, u)"
        using remove_calls [OF completed(1)] by (auto simp: complete_def f(1))
      moreover have "complete w i failed p now ?s = Some (Inr (), u)" using completed(3) by (simp add: u_def)
      ultimately show ?thesis
        using completed(1,2) wk f rm pos nf by (auto simp: notify_waiters_def)
    qed (use reg in auto)
  qed
qed

theorem completion_outcomes_witness:
  "channels (demo_state [] (demo_worker 0 0) [] 1 (Sent (Inr [9])) 2) 1
     = Some (Sent (completion_reply (demo_call (Some 2)) False [9] 2))"
proof -
  let ?s = "demo_system (demo_state [] (demo_worker 1 0) [(1, demo_call (Some 2))] 0 Open 1) [] {demo_ticket}"
  have "hm_get (calls (rpc ?s)) 1 = Some (demo_call (Some 2))" "response (demo_call (Some 2))"
    by (simp_all add: demo_system_def demo_state_def demo_call_def hm_get_def)
  then show ?thesis
    using completion_outcomes [OF running_run, where w = 2 and i = 1 and failed = False and p = "[9]" and now = 2]
      demo_complete
    by (simp add: demo_system_def) blast
qed

text \<open>
  C34. Disconnection, for every call of the table. It never panics; the connection and its worker
  are gone. The calls the connection itself made lose their sender (their channel is closed): those
  that wait, or that its own worker runs, are removed, and those another worker runs stay with it,
  silent, until it finishes. Of the calls of other connections, those its worker was running are
  removed and answered SERVICE_UNAVAILABLE (\<open>worker_lost\<close>), never handed to another worker; when it
  was the last worker of its route the calls waiting there are removed and answered
  SERVICE_UNAVAILABLE (\<open>route_lost\<close>); every other call of another connection, and its channel, is
  exactly as it was, and so are the channels of the calls that were gone already. \<open>call_left\<close> and
  \<open>channel_left\<close> spell the cases out.
\<close>

theorem disconnect_outcome:
  assumes "runs rpc_step (system_new n b) ls \<sigma>"
  shows "\<exists>u. disconnect conn (rpc \<sigma>) = Some u \<and> connections u = connections (rpc \<sigma>) - {conn}
    \<and> hm_get (workers u) = (hm_get (workers (rpc \<sigma>)))(conn := None)
    \<and> (\<forall>i. (case hm_get (calls (rpc \<sigma>)) i of
          None \<Rightarrow> hm_get (calls u) i = None \<and> channels u i = channels (rpc \<sigma>) i
        | Some c \<Rightarrow> hm_get (calls u) i = call_left (rpc \<sigma>) conn c
            \<and> channels u i = channel_left (rpc \<sigma>) conn c (channels (rpc \<sigma>) i)))
    \<and> (\<forall>i c. hm_get (calls u) i = Some c \<longrightarrow> owner c \<noteq> Some conn \<and> (caller c = conn \<longrightarrow> \<not> response c))"
proof (rule disconnect_spec [OF run_facts(2) [OF assms], of conn])
  fix u
  assume u: "disconnect conn (rpc \<sigma>) = Some u" "rpc_ok u" "connections u = connections (rpc \<sigma>) - {conn}"
    "hm_get (workers u) = (hm_get (workers (rpc \<sigma>)))(conn := None)"
    "\<And>i. hm_get (calls (rpc \<sigma>)) i = None \<Longrightarrow> hm_get (calls u) i = None \<and> channels u i = channels (rpc \<sigma>) i"
    "\<And>i c. hm_get (calls (rpc \<sigma>)) i = Some c \<Longrightarrow>
       hm_get (calls u) i = call_left (rpc \<sigma>) conn c \<and> channels u i = channel_left (rpc \<sigma>) conn c (channels (rpc \<sigma>) i)"
  have "owner c \<noteq> Some conn" "caller c = conn \<longrightarrow> \<not> response c" if "hm_get (calls u) i = Some c" for i c
    using call_facts(2,3) [OF u(2) that] u(3,4) by auto
  moreover have "case hm_get (calls (rpc \<sigma>)) i of
      None \<Rightarrow> hm_get (calls u) i = None \<and> channels u i = channels (rpc \<sigma>) i
    | Some c \<Rightarrow> hm_get (calls u) i = call_left (rpc \<sigma>) conn c
        \<and> channels u i = channel_left (rpc \<sigma>) conn c (channels (rpc \<sigma>) i)" for i
    using u(5,6) [of i] by (simp split: option.split)
  ultimately show ?thesis using u(1,3,4) by blast
qed

theorem disconnect_outcome_witness:
  "\<exists>u v. disconnect 2 (demo_state [] (demo_worker 1 0) [(1, demo_call (Some 2))] 0 Open 1) = Some u
     \<and> hm_get (calls u) 1 = None \<and> channels u 1 = Some (Sent (Inl worker_lost))
     \<and> disconnect 1 (demo_state [] (demo_worker 1 0) [(1, demo_call (Some 2))] 0 Open 1) = Some v
     \<and> hm_get (calls v) 1 = Some ((demo_call (Some 2))\<lparr>response := False\<rparr>) \<and> channels v 1 = Some Closed"
proof -
  let ?s = "demo_state [] (demo_worker 1 0) [(1, demo_call (Some 2))] 0 Open 1"
  have c: "hm_get (calls ?s) 1 = Some (demo_call (Some 2))" by (simp add: demo_state_def hm_get_def)
  have left: "call_left ?s 2 (demo_call (Some 2)) = None"
    "channel_left ?s 2 (demo_call (Some 2)) ch = Some (Sent (Inl worker_lost))"
    "call_left ?s 1 (demo_call (Some 2)) = Some ((demo_call (Some 2))\<lparr>response := False\<rparr>)"
    "channel_left ?s 1 (demo_call (Some 2)) ch = Some Closed" for ch
    by (simp_all add: call_left_def channel_left_def lost_reply_def demo_state_def demo_call_def hm_get_def)
  have "\<exists>u. disconnect conn ?s = Some u \<and> hm_get (calls u) 1 = call_left ?s conn (demo_call (Some 2))
      \<and> channels u 1 = channel_left ?s conn (demo_call (Some 2)) (channels ?s 1)" for conn
    using disconnect_outcome [OF running_run, of conn] c unfolding demo_system_def system.simps
    by (force split: option.splits)
  from this [of 2] this [of 1] show ?thesis unfolding left by blast
qed

text \<open>
  A caller always gets an outcome. Waiting on a ticket is pending exactly while its deadline
  is ahead and its call is still there with its sender; at the latest at the deadline the caller
  is answered.
\<close>

theorem ticket_pending_exactly:
  assumes "runs rpc_step (system_new n b) ls \<sigma>" and "t \<in> tickets \<sigma>"
  shows "ticket_poll now t (rpc \<sigma>) = None \<longleftrightarrow>
    now < tk_deadline t \<and> (\<exists>c. hm_get (calls (rpc \<sigma>)) (tk_call_id t) = Some c \<and> response c \<and> deadline c = tk_deadline t)"
proof -
  note inv = run_facts(2) [OF assms(1)] and ok = run_facts(3) [OF assms(1), unfolded trace_ok_def]
  have chan: "channels (rpc \<sigma>) (tk_call_id t) = Some Open \<longleftrightarrow> holds_sender (rpc \<sigma>) (tk_call_id t)"
    using inv by (simp add: rpc_inv_def channels_ok_def)
  obtain a name p where req: "Requested a name p (Inr t) \<in> set ls" using run_facts(4) [OF assms] by blast
  have "deadline c = tk_deadline t" if c: "hm_get (calls (rpc \<sigma>)) (tk_call_id t) = Some c" for c
  proof -
    let ?t = "\<lparr>tk_call_id = tk_call_id t, tk_deadline = deadline c\<rparr>"
    have "Requested (caller c) (call_route c) (call_payload c) (Inr ?t) \<in> set ls"
      using ok c unfolding accepts_ok_def by blast
    moreover have "distinct (ids_of accepted_id ls)" using ok by (simp add: accepts_ok_def)
    ultimately have "Requested (caller c) (call_route c) (call_payload c) (Inr ?t) = Requested a name p (Inr t)"
      using same_event [of accepted_id ls "Requested (caller c) (call_route c) (call_payload c) (Inr ?t)"
          "Requested a name p (Inr t)" "tk_call_id t"] req by (simp del: rpc_event.inject)
    then show ?thesis by (metis rpc_event.inject(3) sum.inject(2) ticket.select_convs(2))
  qed
  then show ?thesis
    using chan by (auto simp: ticket_poll_def holds_sender_def split: option.splits channel.splits)
qed

theorem ticket_pending_exactly_witness:
  "ticket_poll 4999999999 demo_ticket (demo_state [] (demo_worker 1 0) [(1, demo_call (Some 2))] 0 Open 1) = None"
  using ticket_pending_exactly [OF running_run, of demo_ticket 4999999999]
  by (simp add: demo_system_def demo_ticket_def demo_state_def demo_call_def hm_get_def)

end
