(* ===== verification/Std_Parse.thy ===== *)
theory Std_Parse
  imports Prelude
begin

text \<open>
  What the server uses of \<open>FromStr\<close> in the Rust standard library: unsigned integers, and IP socket
  addresses with the parser of \<open>core::net\<close>. A parser takes the bytes that are left and returns a
  value with the rest, or nothing; \<open>read_atomically\<close> of the source, which restores the input of a
  parser that fails, is the option type here.
\<close>

section \<open>Integers\<close>

definition to_digit :: "nat \<Rightarrow> byte \<Rightarrow> nat option" where
  "to_digit radix b =
     (let d = (if 0x30 \<le> b \<and> b \<le> 0x39 then Some (unat b - 0x30)
               else if 0x41 \<le> b \<and> b \<le> 0x5A then Some (unat b - 0x41 + 10)
               else if 0x61 \<le> b \<and> b \<le> 0x7A then Some (unat b - 0x61 + 10)
               else None)
      in case d of None \<Rightarrow> None | Some n \<Rightarrow> if n < radix then Some n else None)"

text \<open>The digits of a number, each step checked against the bound of the type.\<close>

fun digits_from :: "nat \<Rightarrow> nat \<Rightarrow> bytes \<Rightarrow> nat option" where
  "digits_from bound acc [] = Some acc"
| "digits_from bound acc (b # bs) =
     (case to_digit 10 b of
        None \<Rightarrow> None
      | Some d \<Rightarrow> if acc * 10 + d < bound then digits_from bound (acc * 10 + d) bs else None)"

text \<open>\<open>str::parse\<close> to \<open>u64\<close> or \<open>usize\<close>: an optional plus sign, then at least one digit.\<close>

definition parse_u64 :: "rstring \<Rightarrow> nat option" where
  "parse_u64 s =
     (case s of
        [] \<Rightarrow> None
      | b # bs \<Rightarrow> if b = 0x2B then (if bs = [] then None else digits_from (2 ^ 64) 0 bs) else digits_from (2 ^ 64) 0 s)"

section \<open>Addresses\<close>

datatype ip_addr = V4 "u8 list" | V6 "u16 list"

record socket_addr =
  ip :: ip_addr
  port :: u16

definition is_loopback :: "ip_addr \<Rightarrow> bool" where
  "is_loopback a = (case a of V4 os \<Rightarrow> os \<noteq> [] \<and> hd os = 127 | V6 gs \<Rightarrow> gs = [0, 0, 0, 0, 0, 0, 0, 1])"

definition read_given :: "byte \<Rightarrow> bytes \<Rightarrow> bytes option" where
  "read_given c s = (case s of [] \<Rightarrow> None | b # bs \<Rightarrow> if b = c then Some bs else None)"

text \<open>The loop of \<open>read_number\<close>: value, number of digits, rest.\<close>

fun read_digits :: "nat \<Rightarrow> nat \<Rightarrow> nat option \<Rightarrow> nat \<Rightarrow> nat \<Rightarrow> bytes \<Rightarrow> (nat \<times> nat \<times> bytes) option" where
  "read_digits radix bound limit acc n [] = Some (acc, n, [])"
| "read_digits radix bound limit acc n (b # bs) =
     (case to_digit radix b of
        None \<Rightarrow> Some (acc, n, b # bs)
      | Some d \<Rightarrow>
          if acc * radix + d \<ge> bound then None
          else if (case limit of None \<Rightarrow> False | Some m \<Rightarrow> n + 1 > m) then None
          else read_digits radix bound limit (acc * radix + d) (n + 1) bs)"

definition read_number :: "nat \<Rightarrow> nat \<Rightarrow> nat option \<Rightarrow> bool \<Rightarrow> bytes \<Rightarrow> (nat \<times> bytes) option" where
  "read_number radix bound limit allow_zero_prefix s =
     (case read_digits radix bound limit 0 0 s of
        None \<Rightarrow> None
      | Some (v, n, rest) \<Rightarrow>
          if n = 0 then None
          else if \<not> allow_zero_prefix \<and> s \<noteq> [] \<and> hd s = 0x30 \<and> n > 1 then None
          else Some (v, rest))"

definition read_separator :: "byte \<Rightarrow> nat \<Rightarrow> (bytes \<Rightarrow> ('a \<times> bytes) option) \<Rightarrow> bytes \<Rightarrow> ('a \<times> bytes) option" where
  "read_separator sep i p s =
     (if i > 0 then (case read_given sep s of None \<Rightarrow> None | Some rest \<Rightarrow> p rest) else p s)"

fun read_octets :: "nat \<Rightarrow> nat \<Rightarrow> bytes \<Rightarrow> (u8 list \<times> bytes) option" where
  "read_octets i 0 s = Some ([], s)"
| "read_octets i (Suc n) s =
     (case read_separator 0x2E i (read_number 10 256 (Some 3) False) s of
        None \<Rightarrow> None
      | Some (v, rest) \<Rightarrow>
          (case read_octets (i + 1) n rest of None \<Rightarrow> None | Some (vs, rest) \<Rightarrow> Some (of_nat v # vs, rest)))"

definition read_ipv4 :: "bytes \<Rightarrow> (u8 list \<times> bytes) option" where
  "read_ipv4 s = read_octets 0 4 s"

text \<open>
  \<open>read_groups\<close> from group \<open>i\<close> of \<open>limit = i + n\<close>: the groups read, whether they end in an embedded
  IPv4 address, and the rest.
\<close>

fun read_groups :: "nat \<Rightarrow> nat \<Rightarrow> bytes \<Rightarrow> u16 list \<times> bool \<times> bytes" where
  "read_groups i 0 s = ([], False, s)"
| "read_groups i (Suc n) s =
     (case (if n > 0 then read_separator 0x3A i read_ipv4 s else None) of
        Some (os, rest) \<Rightarrow> ([from_be_bytes (take 2 os), from_be_bytes (drop 2 os)], True, rest)
      | None \<Rightarrow>
          (case read_separator 0x3A i (read_number 16 65536 (Some 4) True) s of
             None \<Rightarrow> ([], False, s)
           | Some (g, rest) \<Rightarrow>
               (case read_groups (i + 1) n rest of (gs, v4, rest) \<Rightarrow> (of_nat g # gs, v4, rest))))"

definition read_ipv6 :: "bytes \<Rightarrow> (u16 list \<times> bytes) option" where
  "read_ipv6 s =
     (case read_groups 0 8 s of (head, head_v4, rest) \<Rightarrow>
        if length head = 8 then Some (head, rest)
        else if head_v4 then None
        else case read_given 0x3A rest of
          None \<Rightarrow> None
        | Some rest \<Rightarrow>
            (case read_given 0x3A rest of
               None \<Rightarrow> None
             | Some rest \<Rightarrow>
                 (case read_groups 0 (8 - (length head + 1)) rest of (tail, _, rest) \<Rightarrow>
                    Some (head @ replicate (8 - length head - length tail) 0 @ tail, rest))))"

definition read_port :: "bytes \<Rightarrow> (u16 \<times> bytes) option" where
  "read_port s =
     (case read_given 0x3A s of
        None \<Rightarrow> None
      | Some rest \<Rightarrow> (case read_number 10 65536 None True rest of None \<Rightarrow> None | Some (v, rest) \<Rightarrow> Some (of_nat v, rest)))"

text \<open>\<open>[addr%scope]\<close>, the scope being optional.\<close>

definition read_scope :: "bytes \<Rightarrow> bytes" where
  "read_scope s =
     (case read_given 0x25 s of
        None \<Rightarrow> s
      | Some rest \<Rightarrow> (case read_number 10 (2 ^ 32) None True rest of None \<Rightarrow> s | Some (_, rest) \<Rightarrow> rest))"

definition read_socket_v4 :: "bytes \<Rightarrow> (socket_addr \<times> bytes) option" where
  "read_socket_v4 s =
     (case read_ipv4 s of
        None \<Rightarrow> None
      | Some (a, rest) \<Rightarrow> (case read_port rest of None \<Rightarrow> None | Some (p, rest) \<Rightarrow> Some (\<lparr>ip = V4 a, port = p\<rparr>, rest)))"

definition read_socket_v6 :: "bytes \<Rightarrow> (socket_addr \<times> bytes) option" where
  "read_socket_v6 s =
     (case read_given 0x5B s of
        None \<Rightarrow> None
      | Some rest \<Rightarrow>
          (case read_ipv6 rest of
             None \<Rightarrow> None
           | Some (a, rest) \<Rightarrow>
               (case read_given 0x5D (read_scope rest) of
                  None \<Rightarrow> None
                | Some rest \<Rightarrow>
                    (case read_port rest of None \<Rightarrow> None | Some (p, rest) \<Rightarrow> Some (\<lparr>ip = V6 a, port = p\<rparr>, rest)))))"

definition parse_socket_addr :: "rstring \<Rightarrow> socket_addr option" where
  "parse_socket_addr s =
     (case (case read_socket_v4 s of Some x \<Rightarrow> Some x | None \<Rightarrow> read_socket_v6 s) of
        Some (a, []) \<Rightarrow> Some a
      | _ \<Rightarrow> None)"

section \<open>Round trip of decimal numbers\<close>

lemma to_digit_decimal: "n < 10 \<Longrightarrow> to_digit 10 (of_nat (48 + n)) = Some n"
proof -
  assume n: "n < 10"
  then have u: "unat (of_nat (48 + n) :: byte) = 48 + n" by (simp add: unat_of_nat del: of_nat_add)
  have "0x30 \<le> (of_nat (48 + n) :: byte)" "(of_nat (48 + n) :: byte) \<le> 0x39"
    using n u by (simp_all add: word_le_nat_alt del: of_nat_add)
  then show ?thesis using n u unfolding to_digit_def Let_def by simp
qed

lemma decimal_step: "10 \<le> n \<Longrightarrow> decimal n = decimal (n div 10) @ [of_nat (48 + n mod 10)]"
  by (simp add: decimal.simps [of n] del: of_nat_add)

lemma decimal_digit: "n < 10 \<Longrightarrow> decimal n = [of_nat (48 + n)]"
  by (simp add: decimal.simps [of n] del: of_nat_add)

lemma digits_from_snoc:
  assumes "digits_from m acc bs = Some v" and "to_digit 10 b = Some d" and "v * 10 + d < m"
  shows "digits_from m acc (bs @ [b]) = Some (v * 10 + d)"
  using assms by (induction bs arbitrary: acc) (auto split: option.splits if_splits)

lemma digits_from_decimal: "n < m \<Longrightarrow> digits_from m 0 (decimal n) = Some n"
proof (induction n rule: less_induct)
  case (less n)
  show ?case
  proof (cases "n < 10")
    case True
    then show ?thesis using to_digit_decimal [OF True] less.prems by (simp add: decimal_digit del: of_nat_add)
  next
    case False
    then have "digits_from m 0 (decimal (n div 10)) = Some (n div 10)" using less by simp
    moreover have "to_digit 10 (of_nat (48 + n mod 10)) = Some (n mod 10)" by (rule to_digit_decimal) simp
    moreover have "n div 10 * 10 + n mod 10 = n" by simp
    ultimately show ?thesis
      using digits_from_snoc [of m 0 "decimal (n div 10)" "n div 10"] False less.prems
      by (simp add: decimal_step del: of_nat_add)
  qed
qed

lemma decimal_head: "\<exists>n bs. n < 10 \<and> decimal m = of_nat (48 + n) # bs"
proof (induction m rule: less_induct)
  case (less m)
  show ?case
  proof (cases "m < 10")
    case False
    then obtain n bs where "n < 10" "decimal (m div 10) = of_nat (48 + n) # bs" using less [of "m div 10"] by auto
    then show ?thesis using False by (auto simp: decimal_step simp del: of_nat_add)
  qed (auto simp: decimal_digit simp del: of_nat_add)
qed

lemma parse_u64_decimal: "n < 2 ^ 64 \<Longrightarrow> parse_u64 (decimal n) = Some n"
proof -
  assume n: "n < 2 ^ 64"
  obtain d bs where d: "d < 10" "decimal n = of_nat (48 + d) # bs" using decimal_head by blast
  have "unat (of_nat (48 + d) :: byte) \<noteq> unat (0x2B :: byte)" using d(1) by (simp add: unat_of_nat del: of_nat_add)
  then have "(of_nat (48 + d) :: byte) \<noteq> 0x2B" by metis
  then show ?thesis using digits_from_decimal [OF n] by (simp add: parse_u64_def d(2) del: of_nat_add)
qed

lemma digits_from_bound: "digits_from m acc bs = Some v \<Longrightarrow> acc < m \<Longrightarrow> v < m"
  by (induction bs arbitrary: acc) (auto split: option.splits if_splits)

lemma parse_u64_bound: "parse_u64 s = Some v \<Longrightarrow> v < 2 ^ 64"
  using digits_from_bound [of "2 ^ 64" 0]
  by (auto simp: parse_u64_def simp del: digits_from.simps split: list.splits if_splits)

end
