(* ===== verification/Config.thy ===== *)
theory Config
  imports Std_Parse
begin

text \<open>
  The command line, \<open>Config::parse\<close> of \<open>crates/velobus/src/main.rs\<close>. Arguments and error messages
  are strings; \<open>usize\<close> is 64 bits wide.
\<close>

section \<open>Configuration\<close>

record config =
  cfg_listen :: socket_addr
  cfg_data_dir :: rstring
  cfg_memory :: bool
  cfg_max_retained_bytes :: nat
  cfg_max_wal_bytes :: nat
  cfg_max_connections :: nat
  cfg_max_rpc_calls :: nat
  cfg_max_rpc_bytes :: nat
  cfg_token :: rstring

definition config_default :: "rstring \<Rightarrow> config" where
  "config_default token =
     \<lparr>cfg_listen = \<lparr>ip = V4 [127, 0, 0, 1], port = 7447\<rparr>, cfg_data_dir = str ''./data/nodara'', cfg_memory = False,
      cfg_max_retained_bytes = 64 * 1024 * 1024, cfg_max_wal_bytes = 128 * 1024 * 1024, cfg_max_connections = 64,
      cfg_max_rpc_calls = 1024, cfg_max_rpc_bytes = 16 * 1024 * 1024, cfg_token = token\<rparr>"

definition parse_budget :: "rstring \<Rightarrow> nat \<Rightarrow> rstring + nat" where
  "parse_budget value minimum =
     (case parse_u64 value of
        None \<Rightarrow> Inl (str ''byte budgets must be unsigned decimal integers'')
      | Some budget \<Rightarrow>
          (let maximum = min (2 ^ 40) (2 ^ 64 - 1)
           in if \<not> (minimum \<le> budget \<and> budget \<le> maximum)
              then Inl (str ''byte budget must be '' @ decimal minimum @ str ''..'' @ decimal maximum)
              else Inr budget))"

text \<open>The \<open>match\<close> on an option that takes a value; the flag says whether \<open>--data-dir\<close> was given.\<close>

definition config_option :: "rstring \<Rightarrow> rstring \<Rightarrow> config \<times> bool \<Rightarrow> rstring + config \<times> bool" where
  "config_option arg value st = (case st of (config, explicit) \<Rightarrow>
     if arg = str ''--listen''
     then (case parse_socket_addr value of
         None \<Rightarrow> Inl (str ''--listen must be an IP address and port, e.g. 127.0.0.1:7447'')
       | Some a \<Rightarrow> Inr (config\<lparr>cfg_listen := a\<rparr>, explicit))
     else if arg = str ''--data-dir''
     then (if value = [] then Inl (str ''--data-dir cannot be empty'')
           else Inr (config\<lparr>cfg_data_dir := value\<rparr>, True))
     else if arg = str ''--max-retained-bytes''
     then and_then (parse_budget value 1) (\<lambda>n. Inr (config\<lparr>cfg_max_retained_bytes := n\<rparr>, explicit))
     else if arg = str ''--max-wal-bytes''
     then and_then (parse_budget value 8) (\<lambda>n. Inr (config\<lparr>cfg_max_wal_bytes := n\<rparr>, explicit))
     else if arg = str ''--max-rpc-bytes''
     then and_then (parse_budget value 1) (\<lambda>n. Inr (config\<lparr>cfg_max_rpc_bytes := n\<rparr>, explicit))
     else if arg = str ''--max-rpc-calls''
     then (case parse_u64 value of
         None \<Rightarrow> Inl (str ''invalid --max-rpc-calls'')
       | Some n \<Rightarrow> if \<not> (1 \<le> n \<and> n \<le> 1000000) then Inl (str ''--max-rpc-calls must be 1..1000000'')
                  else Inr (config\<lparr>cfg_max_rpc_calls := n\<rparr>, explicit))
     else if arg = str ''--max-connections''
     then (case parse_u64 value of
         None \<Rightarrow> Inl (str ''invalid --max-connections'')
       | Some n \<Rightarrow> if \<not> (1 \<le> n \<and> n \<le> 4096) then Inl (str ''--max-connections must be 1..4096'')
                  else Inr (config\<lparr>cfg_max_connections := n\<rparr>, explicit))
     else Inl (str ''unknown option '' @ arg))"

text \<open>The loop over the arguments.\<close>

fun config_loop :: "rstring list \<Rightarrow> config \<times> bool \<Rightarrow> rstring + config \<times> bool" where
  "config_loop [] st = Inr st"
| "config_loop (arg # args) st =
     (if arg = str ''--memory'' then config_loop args ((fst st)\<lparr>cfg_memory := True\<rparr>, snd st)
      else case args of
        [] \<Rightarrow> Inl (str ''missing value for '' @ arg)
      | value # args \<Rightarrow> and_then (config_option arg value st) (\<lambda>st. config_loop args st))"

definition config_parse :: "rstring list \<Rightarrow> rstring \<Rightarrow> rstring + config" where
  "config_parse args token =
     and_then (config_loop args (config_default token, False)) (\<lambda>(config, explicit).
       if cfg_memory config \<and> explicit then Inl (str ''--memory conflicts with --data-dir'')
       else if \<not> is_loopback (ip (cfg_listen config)) \<and> cfg_token config = []
       then Inl (str ''NODARA_TOKEN is required for a non-loopback listener'')
       else if length (cfg_token config) > 65535 then Inl (str ''NODARA_TOKEN exceeds protocol limit'')
       else Inr config)"

section \<open>Every configuration that is accepted\<close>

definition config_ranges :: "config \<Rightarrow> bool" where
  "config_ranges c =
     (1 \<le> cfg_max_retained_bytes c \<and> cfg_max_retained_bytes c \<le> 2 ^ 40
      \<and> 8 \<le> cfg_max_wal_bytes c \<and> cfg_max_wal_bytes c \<le> 2 ^ 40
      \<and> 1 \<le> cfg_max_rpc_bytes c \<and> cfg_max_rpc_bytes c \<le> 2 ^ 40
      \<and> 1 \<le> cfg_max_rpc_calls c \<and> cfg_max_rpc_calls c \<le> 1000000
      \<and> 1 \<le> cfg_max_connections c \<and> cfg_max_connections c \<le> 4096
      \<and> cfg_data_dir c \<noteq> [])"

lemma parse_budget_range: "parse_budget v m = Inr n \<Longrightarrow> m \<le> n \<and> n \<le> 2 ^ 40"
  by (auto simp: parse_budget_def Let_def split: option.splits if_splits)

lemma config_option_ranges:
  assumes "config_option arg v st = Inr st'" and "config_ranges (fst st)"
  shows "config_ranges (fst st') \<and> cfg_token (fst st') = cfg_token (fst st) \<and> cfg_memory (fst st') = cfg_memory (fst st)"
  using assms
  by (cases st) (auto simp: config_option_def and_then_eq_Inr config_ranges_def dest!: parse_budget_range
      split: if_split_asm option.split_asm)

lemma config_loop_ranges:
  "config_loop args st = Inr st' \<Longrightarrow> config_ranges (fst st) \<Longrightarrow>
     config_ranges (fst st') \<and> cfg_token (fst st') = cfg_token (fst st)"
proof (induction args st rule: config_loop.induct)
  case (2 arg args st)
  show ?case
  proof (cases "arg = str ''--memory''")
    case True
    then show ?thesis using 2(1) [OF True] 2(3,4) by (simp add: config_ranges_def)
  next
    case False
    then obtain v rest st1 where "args = v # rest" "config_option arg v st = Inr st1"
      "config_loop rest st1 = Inr st'"
      using 2(3) by (auto simp: and_then_eq_Inr split: list.splits)
    then show ?thesis using 2(2) [OF False] config_option_ranges 2(4) by metis
  qed
qed simp

lemma config_default_ranges: "config_ranges (config_default token)"
  by (simp add: config_ranges_def config_default_def str_def)

section \<open>Exactly the expressible configurations\<close>

text \<open>What a configuration must satisfy to be accepted.\<close>

definition config_ok :: "rstring \<Rightarrow> config \<Rightarrow> bool" where
  "config_ok token c =
     (config_ranges c \<and> cfg_token c = token \<and> length token \<le> 65535
      \<and> (is_loopback (ip (cfg_listen c)) \<or> token \<noteq> [])
      \<and> (cfg_memory c \<longrightarrow> cfg_data_dir c = str ''./data/nodara'')
      \<and> (\<exists>s. parse_socket_addr s = Some (cfg_listen c)))"

text \<open>A command line for a configuration; \<open>s\<close> is written for the address.\<close>

definition config_args :: "rstring \<Rightarrow> config \<Rightarrow> rstring list" where
  "config_args s c =
     [str ''--listen'', s,
      str ''--max-retained-bytes'', decimal (cfg_max_retained_bytes c),
      str ''--max-wal-bytes'', decimal (cfg_max_wal_bytes c),
      str ''--max-rpc-bytes'', decimal (cfg_max_rpc_bytes c),
      str ''--max-rpc-calls'', decimal (cfg_max_rpc_calls c),
      str ''--max-connections'', decimal (cfg_max_connections c)]
     @ (if cfg_memory c then [str ''--memory''] else [str ''--data-dir'', cfg_data_dir c])"

lemma str_eq [simp]: "str a = str b \<longleftrightarrow> a = b"
proof
  have inj: "inj (of_char :: char \<Rightarrow> byte)"
  proof (rule injI)
    fix c d :: char assume "(of_char c :: byte) = of_char d"
    then have "unat (of_char c :: byte) = unat (of_char d :: byte)" by simp
    then have "(of_char c :: nat) mod 256 = of_char d mod 256"
      by (metis of_nat_of_char unat_byte)
    then show "c = d" by simp
  qed
  show "str a = str b \<Longrightarrow> a = b" using inj by (simp add: str_def inj_map_eq_map)
qed simp

lemma default_address: "parse_socket_addr (str ''127.0.0.1:7447'') = Some \<lparr>ip = V4 [127, 0, 0, 1], port = 7447\<rparr>"
proof -
  have four: "(4 :: nat) = Suc (Suc (Suc (Suc 0)))" by simp
  have bytes: "str ''127.0.0.1:7447'' = [0x31, 0x32, 0x37, 0x2E, 0x30, 0x2E, 0x30, 0x2E, 0x31, 0x3A, 0x37, 0x34, 0x34, 0x37]"
    by (simp add: str_def)
  show ?thesis
    unfolding bytes parse_socket_addr_def read_socket_v4_def read_ipv4_def four
    by (simp add: read_port_def read_separator_def read_given_def read_number_def to_digit_def)
qed

lemma parse_budget_decimal: "m \<le> n \<Longrightarrow> n \<le> 2 ^ 40 \<Longrightarrow> parse_budget (decimal n) m = Inr n"
  by (simp add: parse_budget_def parse_u64_decimal)

definition config_from :: "config \<times> bool \<Rightarrow> bool" where
  "config_from st =
     ((snd st \<or> cfg_data_dir (fst st) = str ''./data/nodara'')
      \<and> (\<exists>s. parse_socket_addr s = Some (cfg_listen (fst st))))"

lemma config_option_from: "config_option arg v st = Inr st' \<Longrightarrow> config_from st \<Longrightarrow> config_from st'"
  by (cases st) (auto simp: config_option_def and_then_eq_Inr config_from_def split: if_split_asm option.split_asm)

lemma config_loop_from: "config_loop args st = Inr st' \<Longrightarrow> config_from st \<Longrightarrow> config_from st'"
proof (induction args st rule: config_loop.induct)
  case (2 arg args st)
  show ?case
  proof (cases "arg = str ''--memory''")
    case True
    then show ?thesis using 2(1) [OF True] 2(3,4) by (simp add: config_from_def)
  next
    case False
    then obtain v rest st1 where "args = v # rest" "config_option arg v st = Inr st1"
      "config_loop rest st1 = Inr st'"
      using 2(3) by (auto simp: and_then_eq_Inr split: list.splits)
    then show ?thesis using 2(2) [OF False] config_option_from 2(4) by metis
  qed
qed simp

lemma config_args_parse:
  assumes "config_ok token c" and "parse_socket_addr s = Some (cfg_listen c)"
  shows "config_parse (config_args s c) token = Inr c"
proof -
  have r: "config_ranges c" and t: "cfg_token c = token" using assms(1) by (simp_all add: config_ok_def)
  have n: "cfg_max_rpc_calls c < 2 ^ 64" "cfg_max_connections c < 2 ^ 64" using r by (simp_all add: config_ranges_def)
  note opts = config_option_def parse_budget_decimal parse_u64_decimal [OF n(1)] parse_u64_decimal [OF n(2)]
  have "config_loop (config_args s c) (config_default token, False) = Inr (c, \<not> cfg_memory c)"
    using assms r t by (simp add: config_args_def opts config_ranges_def config_default_def config_ok_def)
  then show ?thesis using assms(1) by (auto simp: config_parse_def config_ok_def)
qed

lemma config_parse_ok: "config_parse args token = Inr c \<Longrightarrow> config_ok token c"
proof -
  assume p: "config_parse args token = Inr c"
  then obtain explicit where l: "config_loop args (config_default token, False) = Inr (c, explicit)"
    by (auto simp: config_parse_def and_then_eq_Inr split: if_splits)
  have "config_from (config_default token, False)"
    using default_address by (auto simp: config_from_def config_default_def)
  from config_loop_from [OF l this] config_loop_ranges [OF l] config_default_ranges p l show ?thesis
    by (auto simp: config_ok_def config_from_def config_parse_def config_default_def split: if_splits)
qed

end
