(* ===== verification/Frame.thy ===== *)
theory Frame
  imports Protocol
begin

text \<open>
  Framing, \<open>crates/velobus/src/main.rs\<close>: \<open>read_frame\<close> on the bytes a peer sends, and the frames that
  are written back. A read has an outcome given by its environment, a fault of the socket or none,
  and the time it takes in nanoseconds.
\<close>

section \<open>Reading\<close>

datatype io_error = UnexpectedEof | TimedOut | InvalidData | OtherError

definition HELLO_TIMEOUT :: nat where "HELLO_TIMEOUT = 60000000000"
definition BODY_TIMEOUT :: nat where "BODY_TIMEOUT = 10000000000"
definition WRITE_TIMEOUT :: nat where "WRITE_TIMEOUT = 10000000000"

record io_read =
  io_fault :: "io_error option"
  io_elapsed :: nat

definition read_exact :: "io_read \<Rightarrow> nat \<Rightarrow> bytes \<Rightarrow> io_error + bytes \<times> bytes" where
  "read_exact io n s =
     (case io_fault io of
        Some e \<Rightarrow> Inl e
      | None \<Rightarrow> if n \<le> length s then Inr (take n s, drop n s) else Inl UnexpectedEof)"

definition timeout :: "nat \<Rightarrow> nat \<Rightarrow> io_error + 'a \<Rightarrow> io_error + 'a" where
  "timeout limit elapsed r = (if elapsed > limit then Inl TimedOut else r)"

definition valid_length :: "nat \<Rightarrow> bool" where
  "valid_length n = (5 \<le> n \<and> n \<le> MAX_FRAME)"

definition read_frame ::
  "bool \<Rightarrow> io_read \<Rightarrow> io_read \<Rightarrow> bytes \<Rightarrow> io_error + (u8 \<times> u32 \<times> bytes) \<times> bytes" where
  "read_frame authenticated io1 io2 s =
     and_then
       (if authenticated then read_exact io1 4 s
        else timeout HELLO_TIMEOUT (io_elapsed io1) (read_exact io1 4 s))
       (\<lambda>(prefix, s).
         let len = unat (from_be_bytes prefix :: u32)
         in if \<not> valid_length len then Inl InvalidData
            else and_then (timeout BODY_TIMEOUT (io_elapsed io2) (read_exact io2 len s)) (\<lambda>(data, s).
              let request_id = from_be_bytes (take 4 (drop 1 data)) :: u32
              in if request_id = 0 then Inl InvalidData
                 else Inr ((data ! 0, request_id, drop 5 data), s)))"

text \<open>A read that meets neither a fault nor its time limit.\<close>

definition prompt :: "io_read \<Rightarrow> bool" where
  "prompt io = (io_fault io = None \<and> io_elapsed io \<le> BODY_TIMEOUT)"

section \<open>Writing\<close>

definition response_frame :: "u8 \<Rightarrow> u32 \<Rightarrow> bytes \<Rightarrow> bytes" where
  "response_frame opcode request_id body =
     (if length body > MAX_FRAME - 5
      then envelope 255 request_id (error_body (error_new LIMIT (str ''response exceeds maximum frame size'')))
      else envelope opcode request_id body)"

definition write_response :: "io_error option \<Rightarrow> nat \<Rightarrow> u8 \<Rightarrow> u32 \<Rightarrow> bytes \<Rightarrow> io_error + bytes" where
  "write_response fault elapsed opcode request_id body =
     timeout WRITE_TIMEOUT elapsed
       (case fault of Some e \<Rightarrow> Inl e | None \<Rightarrow> Inr (response_frame opcode request_id body))"

section \<open>Frames and envelopes\<close>

lemma envelope_eq: "envelope op i body = to_be_bytes (of_nat (5 + length body) :: u32) @ op # to_be_bytes i @ body"
  by (simp add: envelope_def)

lemma read_prompt: "prompt io \<Longrightarrow> read_exact io n s = (if n \<le> length s then Inr (take n s, drop n s) else Inl UnexpectedEof)"
  by (simp add: read_exact_def prompt_def)

lemma read_frame_prompt:
  assumes "prompt io1" and "prompt io2"
  shows "read_frame authenticated io1 io2 s =
     (if length s < 4 then Inl UnexpectedEof
      else let len = unat (from_be_bytes (take 4 s) :: u32); rest = drop 4 s
        in if \<not> valid_length len then Inl InvalidData
           else if length rest < len then Inl UnexpectedEof
           else let data = take len rest; i = from_be_bytes (take 4 (drop 1 data)) :: u32
             in if i = 0 then Inl InvalidData else Inr ((data ! 0, i, drop 5 data), drop len rest))"
  using assms
  by (auto simp: read_frame_def read_prompt timeout_def Let_def prompt_def HELLO_TIMEOUT_def BODY_TIMEOUT_def)

lemma read_envelope:
  assumes io: "prompt io1" "prompt io2" and i: "i \<noteq> 0" and n: "length body \<le> MAX_FRAME - 5"
  shows "read_frame authenticated io1 io2 (envelope op i body @ rest) = Inr ((op, i, body), rest)"
proof -
  have small: "5 + length body < 2 ^ 32" using n by (simp add: MAX_FRAME_def)
  let ?w = "of_nat (5 + length body) :: u32" and ?data = "op # to_be_bytes i @ body"
  have len: "unat (from_be_bytes (to_be_bytes ?w) :: u32) = 5 + length body"
    using small by (simp add: from_to_be_bytes unat_of_nat del: of_nat_add)
  have v: "valid_length (5 + length body)" using n by (simp add: valid_length_def MAX_FRAME_def)
  have s: "take 4 (envelope op i body @ rest) = to_be_bytes ?w" "drop 4 (envelope op i body @ rest) = ?data @ rest"
    "\<not> length (envelope op i body @ rest) < 4"
    by (simp_all add: envelope_eq)
  have n: "length ?data = 5 + length body" by simp
  have d: "take (5 + length body) (?data @ rest) = ?data" "drop (5 + length body) (?data @ rest) = rest"
    unfolding n [symmetric] by (simp_all only: append_eq_conv_conj [symmetric] take_append drop_append, simp_all)
  have e: "take 4 (drop 1 ?data) = to_be_bytes i" "drop 5 ?data = body" by simp_all
  show ?thesis
    unfolding read_frame_prompt [OF io] s Let_def len d e using i v n s(3)
    by (simp add: from_to_be_bytes)
qed

lemma read_frame_envelope:
  assumes io: "prompt io1" "prompt io2" and r: "read_frame authenticated io1 io2 s = Inr ((op, i, body), rest)"
  shows "s = envelope op i body @ rest \<and> i \<noteq> 0 \<and> length body \<le> MAX_FRAME - 5"
proof -
  define len where "len = unat (from_be_bytes (take 4 s) :: u32)"
  define data where "data = take len (drop 4 s)"
  have f: "4 \<le> length s" "valid_length len" "len \<le> length (drop 4 s)" "i = from_be_bytes (take 4 (drop 1 data))" "i \<noteq> 0"
    "op = data ! 0" "body = drop 5 data" "rest = drop len (drop 4 s)"
    using r unfolding read_frame_prompt [OF io] len_def [symmetric] Let_def data_def [symmetric]
    by (auto split: if_splits)
  have l: "5 \<le> len" "len \<le> MAX_FRAME" using f(2) by (simp_all add: valid_length_def)
  have ld: "length data = len" using f(3) by (simp add: data_def)
  have body: "5 + length body = len" using f(7) l ld by simp
  have prefix: "to_be_bytes (of_nat (5 + length body) :: u32) = take 4 s"
    using f(1) by (simp add: body len_def to_from_be_bytes del: of_nat_add)
  have data: "data = op # to_be_bytes i @ body"
  proof -
    obtain x xs where x: "data = x # xs" using ld l by (cases data) auto
    then have "to_be_bytes i = take 4 xs" using f(4) l ld by (simp add: to_from_be_bytes)
    moreover have "body = drop 4 xs" using f(7) x by simp
    ultimately show ?thesis using x f(6) by simp
  qed
  have "s = take 4 s @ data @ rest" unfolding data_def f(8) by (simp only: append_take_drop_id)
  then show ?thesis
    using f(5) body l data prefix by (simp add: envelope_eq del: of_nat_add)
qed

text \<open>A read of a frame that succeeds has met no fault and no time limit, and does what a prompt one does.\<close>

lemma read_exact_Inr:
  "read_exact io n s = Inr x \<longleftrightarrow> io_fault io = None \<and> n \<le> length s \<and> x = (take n s, drop n s)"
  by (auto simp: read_exact_def split: option.splits)

lemma timeout_Inr: "timeout limit t r = Inr x \<longleftrightarrow> t \<le> limit \<and> r = Inr x"
  by (auto simp: timeout_def)

lemma read_frame_Inr:
  "read_frame authenticated io1 io2 s = Inr x \<longleftrightarrow>
     read_frame True \<lparr>io_fault = None, io_elapsed = 0\<rparr> \<lparr>io_fault = None, io_elapsed = 0\<rparr> s = Inr x
     \<and> io_fault io1 = None \<and> io_fault io2 = None \<and> (authenticated \<or> io_elapsed io1 \<le> HELLO_TIMEOUT)
     \<and> io_elapsed io2 \<le> BODY_TIMEOUT"
  by (auto simp: read_frame_def and_then_eq_Inr read_exact_Inr timeout_Inr Let_def split: if_splits)

lemma prompt_zero: "prompt \<lparr>io_fault = None, io_elapsed = 0\<rparr>"
  by (simp add: prompt_def)

lemma read_frame_iff:
  "read_frame authenticated io1 io2 s = Inr ((op, i, body), rest) \<longleftrightarrow>
     s = envelope op i body @ rest \<and> i \<noteq> 0 \<and> length body \<le> MAX_FRAME - 5
     \<and> io_fault io1 = None \<and> io_fault io2 = None \<and> (authenticated \<or> io_elapsed io1 \<le> HELLO_TIMEOUT)
     \<and> io_elapsed io2 \<le> BODY_TIMEOUT"
  using read_frame_envelope [OF prompt_zero prompt_zero, of True s op i body rest]
    read_envelope [OF prompt_zero prompt_zero, of i body True op rest]
  by (subst read_frame_Inr) blast

lemma write_response_Inr:
  "write_response wfault t opcode i body = Inr out \<longleftrightarrow>
     wfault = None \<and> t \<le> WRITE_TIMEOUT \<and> out = response_frame opcode i body"
  by (auto simp: write_response_def timeout_Inr split: option.splits)

lemma response_frame_small: "length body \<le> MAX_FRAME - 5 \<Longrightarrow> response_frame opcode i body = envelope opcode i body"
  by (simp add: response_frame_def)

end
