(* ===== verification/Dispatch.thy ===== *)
theory Dispatch
  imports Rpc Frame
begin

text \<open>
  \<open>dispatch\<close> of \<open>crates/velobus/src/main.rs\<close>: what each request does to the shared store and the
  scheduler, and its reply. The crate \<open>serde_json\<close> is the pair of parameters \<open>to_vec\<close> and
  \<open>from_slice\<close>; \<open>None\<close> is a panic.
\<close>

section \<open>The store behind its lock\<close>

record shared_store =
  sh_store :: store
  sh_poisoned :: bool

text \<open>
  \<open>stats["rpc"] = ...\<close>; on a value that is not an object it panics (on null it would make one, but
  null is not a value of the type \<open>json\<close>, which the store never renders).
\<close>

definition json_set :: "rstring \<Rightarrow> json \<Rightarrow> json \<Rightarrow> json option" where
  "json_set k v j = (case j of JObject kvs \<Rightarrow> Some (JObject (AList.update k v kvs)) | _ \<Rightarrow> None)"

definition merged_stats :: "(json \<Rightarrow> bytes) \<Rightarrow> (bytes \<Rightarrow> json option) \<Rightarrow> bytes \<Rightarrow> json option \<Rightarrow> bytes option" where
  "merged_stats to_vec from_slice store_bytes rpc_json =
     (case from_slice store_bytes of
        None \<Rightarrow> None
      | Some stats \<Rightarrow>
          (case rpc_json of
             None \<Rightarrow> None
           | Some r \<Rightarrow> (case json_set (str ''rpc'') r stats of None \<Rightarrow> None | Some j \<Rightarrow> Some (to_vec j))))"

text \<open>The closure that runs with the lock of the store.\<close>

definition store_operation ::
  "io_env \<Rightarrow> (bytes \<Rightarrow> u32) \<Rightarrow> (json \<Rightarrow> bytes) \<Rightarrow> (bytes \<Rightarrow> json option) \<Rightarrow> nat \<Rightarrow> nat \<Rightarrow> json option \<Rightarrow> request
    \<Rightarrow> store \<Rightarrow> ((error + bytes) \<times> store) option" where
  "store_operation env crc to_vec from_slice now conns rpc_json rq s =
     (case rq of
        Publish records \<Rightarrow> Some (publish env crc records s)
      | Fetch f \<Rightarrow>
          (case fetch f s of
             None \<Rightarrow> None
           | Some (Inl e, s) \<Rightarrow> Some (Inl e, s)
           | Some (Inr result, s) \<Rightarrow> Some (Inr (fetch_result_encode result), s))
      | Stats \<Rightarrow>
          (case merged_stats to_vec from_slice (to_vec (store_stats now conns s)) rpc_json of
             None \<Rightarrow> None
           | Some body \<Rightarrow> Some (Inr body, s))
      | _ \<Rightarrow> Some (Inl (error_new PROTOCOL (str ''invalid request state'')), s))"

text \<open>A panic under the lock poisons it and the caller gets an error.\<close>

definition blocking_operation ::
  "io_env \<Rightarrow> (bytes \<Rightarrow> u32) \<Rightarrow> (json \<Rightarrow> bytes) \<Rightarrow> (bytes \<Rightarrow> json option) \<Rightarrow> nat \<Rightarrow> nat \<Rightarrow> json option \<Rightarrow> request
    \<Rightarrow> shared_store \<Rightarrow> (error + bytes) \<times> shared_store" where
  "blocking_operation env crc to_vec from_slice now conns rpc_json rq sh =
     (if sh_poisoned sh then (Inl (error_new STORAGE (str ''store lock poisoned; restart required'')), sh)
      else case store_operation env crc to_vec from_slice now conns rpc_json rq (sh_store sh) of
        None \<Rightarrow> (Inl (error_new STORAGE (str ''store worker failed; restart required'')), sh\<lparr>sh_poisoned := True\<rparr>)
      | Some (res, s) \<Rightarrow> (res, sh\<lparr>sh_store := s\<rparr>))"

section \<open>Requests\<close>

text \<open>
  What a request has become when \<open>dispatch\<close> first waits: a reply, a ticket that is awaited, or a
  TAKE that enters its loop, with the handle it listens on and its waiting time.
\<close>

datatype dispatched_as = Reply "error + bytes" | AwaitTicket ticket | AwaitTake nat u32

definition empty_reply :: "error + unit \<Rightarrow> error + bytes" where
  "empty_reply r = and_then r (\<lambda>_. Inr [])"

definition rpc_body :: "reply \<Rightarrow> error + bytes" where
  "rpc_body r = and_then r (\<lambda>p. Inr (to_be_bytes (of_nat (length p) :: u32) @ p))"

definition take_body :: "job option \<Rightarrow> bytes" where
  "take_body j = (case j of None \<Rightarrow> [0] | Some j \<Rightarrow> job_encode j)"

definition dispatch ::
  "io_env \<Rightarrow> (bytes \<Rightarrow> u32) \<Rightarrow> (json \<Rightarrow> bytes) \<Rightarrow> (bytes \<Rightarrow> json option) \<Rightarrow> nat \<Rightarrow> nat \<Rightarrow> nat \<Rightarrow> nat \<Rightarrow> u64
    \<Rightarrow> request \<Rightarrow> shared_store \<times> state \<Rightarrow> (dispatched_as \<times> shared_store \<times> state) option" where
  "dispatch env crc to_vec from_slice now now1 now2 conns conn rq w = (case w of (sh, s) \<Rightarrow>
     (case rq of
        Ping \<Rightarrow> Some (Reply (Inr []), sh, s)
      | Register route conc queue_limit \<Rightarrow>
          (case register conn route conc queue_limit s of (r, s) \<Rightarrow> Some (Reply (empty_reply r), sh, s))
      | request.Rpc route timeout_ms payload \<Rightarrow>
          (case request conn route timeout_ms payload now1 now2 s of
             None \<Rightarrow> None
           | Some (Inl e, s) \<Rightarrow> Some (Reply (Inl e), sh, s)
           | Some (Inr t, s) \<Rightarrow> Some (AwaitTicket t, sh, s))
      | Take wait_ms \<Rightarrow>
          (case take_begin conn s of
             (Inl e, s) \<Rightarrow> Some (Reply (Inl e), sh, s)
           | (Inr n, s) \<Rightarrow> Some (AwaitTake n wait_ms, sh, s))
      | Complete call_id failed payload \<Rightarrow>
          (case complete conn call_id failed payload now s of
             None \<Rightarrow> None
           | Some (r, s) \<Rightarrow> Some (Reply (empty_reply r), sh, s))
      | _ \<Rightarrow>
          (case blocking_operation env crc to_vec from_slice now conns
                  (if rq = Stats then Some (rpc_stats s) else None) rq sh of
             (r, sh) \<Rightarrow> Some (Reply r, sh, s))))"

text \<open>The response of an operation: its opcode with the high bit, or 255 with the error.\<close>

definition response_of :: "u8 \<Rightarrow> error + bytes \<Rightarrow> u8 \<times> bytes" where
  "response_of opcode r = (case r of Inr body \<Rightarrow> (or opcode 128, body) | Inl e \<Rightarrow> (255, error_body e))"

end
