(* ===== verification/Connection.thy ===== *)
theory Connection
  imports Dispatch Transition "HOL-Library.Multiset"
begin

text \<open>
  A connection, \<open>crates/velobus/src/main.rs\<close>: the accept loop that numbers connections, the HELLO
  handshake, and the loop of \<open>connection\<close> with its reader, its operations, each holding one of 32
  permits, and its writer. The crate \<open>subtle\<close> is the parameter \<open>ct_eq\<close>.
\<close>

section \<open>Accepting\<close>

record listener =
  connection_id :: u64
  free_connections :: nat

datatype accepted = Dropped | Exhausted | Served u64

definition accept :: "listener \<Rightarrow> accepted \<times> listener" where
  "accept l =
     (if free_connections l = 0 then (Dropped, l)
      else case checked_add (connection_id l) 1 of
        None \<Rightarrow> (Exhausted, l)
      | Some n \<Rightarrow> (Served n, \<lparr>connection_id = n, free_connections = free_connections l - 1\<rparr>))"

definition released :: "listener \<Rightarrow> listener" where
  "released l = l\<lparr>free_connections := free_connections l + 1\<rparr>"

section \<open>Handshake\<close>

definition hello_error :: "(bytes \<Rightarrow> bytes \<Rightarrow> bool) \<Rightarrow> rstring \<Rightarrow> error + request \<Rightarrow> error option" where
  "hello_error ct_eq token hello =
     (case hello of
        Inr (Hello version supplied) \<Rightarrow>
          (if version = 1 \<and> ct_eq supplied token then None
           else if version \<noteq> 1 then Some (error_new PROTOCOL (str ''unsupported protocol version''))
           else Some (error_new UNAUTHORIZED (str ''HELLO with valid credentials is required'')))
      | Inl e \<Rightarrow> Some e
      | _ \<Rightarrow> Some (error_new UNAUTHORIZED (str ''HELLO with valid credentials is required'')))"

text \<open>
  The first frame: whether the connection goes on to serve, what is written, and the bytes left.
  \<open>wfault\<close> and \<open>elapsed\<close> are the outcome of the write.
\<close>

definition handshake ::
  "(bytes \<Rightarrow> bytes \<Rightarrow> bool) \<Rightarrow> rstring \<Rightarrow> io_read \<Rightarrow> io_read \<Rightarrow> io_error option \<Rightarrow> nat \<Rightarrow> bytes
    \<Rightarrow> io_error + bool \<times> bytes \<times> bytes" where
  "handshake ct_eq token io1 io2 wfault elapsed s =
     and_then (read_frame False io1 io2 s) (\<lambda>((opcode, request_id, body), s).
       case hello_error ct_eq token (decode_request opcode body) of
         Some e \<Rightarrow>
           and_then (write_response wfault elapsed 255 request_id (error_body e)) (\<lambda>out. Inr (False, out, s))
       | None \<Rightarrow>
           and_then (write_response wfault elapsed (or opcode 128) request_id (to_be_bytes (1 :: u16)))
             (\<lambda>out. Inr (True, out, s)))"

section \<open>Serving\<close>

definition MAX_IN_FLIGHT :: nat where "MAX_IN_FLIGHT = 32"

record response =
  rs_opcode :: u8
  rs_request_id :: u32
  rs_body :: bytes
  rs_permit :: bool
  rs_written :: bool

record operation =
  op_request_id :: u32
  op_opcode :: u8
  op_request :: request

text \<open>
  The loop serves frames, or waits for the receipt of a refusal it has queued, after which it
  closes or goes on; \<open>close_after\<close> says which.
\<close>

datatype conn_phase = Serving | AwaitReceipt bool | Finished

record connection =
  cn_ids :: "u32 set"
  cn_permits :: nat
  cn_operations :: "operation list"
  cn_responses :: "response list"
  cn_writing :: "response option"
  cn_phase :: conn_phase

definition connection_new :: connection where
  "connection_new =
     \<lparr>cn_ids = {}, cn_permits = MAX_IN_FLIGHT, cn_operations = [], cn_responses = [], cn_writing = None,
      cn_phase = Serving\<rparr>"

text \<open>Queueing a refusal, whose \<open>written\<close> channel the loop then awaits.\<close>

definition refuse :: "u32 \<Rightarrow> error \<Rightarrow> bool \<Rightarrow> bool \<Rightarrow> connection \<Rightarrow> connection" where
  "refuse request_id e permit close c =
     c\<lparr>cn_responses := cn_responses c @
         [\<lparr>rs_opcode = 255, rs_request_id = request_id, rs_body = error_body e, rs_permit = permit, rs_written = True\<rparr>],
       cn_phase := AwaitReceipt close\<rparr>"

definition request_error :: "bool \<Rightarrow> error + request \<Rightarrow> error option" where
  "request_error permit rq =
     (case rq of
        Inr (Hello _ _) \<Rightarrow> Some (error_new PROTOCOL (str ''HELLO is allowed only once''))
      | Inl e \<Rightarrow> Some (error_new (err_code e) (err_message e))
      | _ \<Rightarrow> if \<not> permit then Some (error_new OVERLOADED (str ''connection has 32 in-flight operations'')) else None)"

definition admitted :: "u32 \<Rightarrow> connection \<Rightarrow> connection" where
  "admitted request_id c =
     c\<lparr>cn_ids := insert request_id (cn_ids c),
       cn_permits := (if 0 < cn_permits c then cn_permits c - 1 else cn_permits c)\<rparr>"

definition on_frame :: "u8 \<Rightarrow> u32 \<Rightarrow> bytes \<Rightarrow> connection \<Rightarrow> connection" where
  "on_frame opcode request_id body c =
     (if request_id \<in> cn_ids c
      then refuse request_id (error_new PROTOCOL (str ''duplicate in-flight request identifier'')) False True c
      else
        let permit = (0 < cn_permits c); c = admitted request_id c; rq = decode_request opcode body
        in case request_error permit rq of
             Some e \<Rightarrow> refuse request_id e permit (err_code e = PROTOCOL) c
           | None \<Rightarrow>
               (case rq of
                  Inl e \<Rightarrow> c
                | Inr rq \<Rightarrow>
                    c\<lparr>cn_operations := cn_operations c @
                        [\<lparr>op_request_id = request_id, op_opcode = opcode, op_request = rq\<rparr>]\<rparr>))"

text \<open>The end of the task of an operation.\<close>

definition on_finished :: "operation \<Rightarrow> error + bytes \<Rightarrow> connection \<Rightarrow> connection" where
  "on_finished op r c =
     (case response_of (op_opcode op) r of (opcode, body) \<Rightarrow>
        c\<lparr>cn_operations := remove1 op (cn_operations c),
          cn_responses := cn_responses c @
            [\<lparr>rs_opcode = opcode, rs_request_id = op_request_id op, rs_body = body, rs_permit = True, rs_written = False\<rparr>]\<rparr>)"

text \<open>
  The two halves of \<open>write_queued_response\<close>: the permit and the identifier are released first,
  then the frame is written and the receipt sent.
\<close>

definition on_retired :: "response \<Rightarrow> response list \<Rightarrow> connection \<Rightarrow> connection" where
  "on_retired r rest c =
     c\<lparr>cn_responses := rest, cn_writing := Some r, cn_ids := cn_ids c - {rs_request_id r},
       cn_permits := (if rs_permit r then cn_permits c + 1 else cn_permits c)\<rparr>"

definition on_written :: "response \<Rightarrow> connection \<Rightarrow> connection" where
  "on_written r c =
     c\<lparr>cn_writing := None,
       cn_phase := (if rs_written r
         then (case cn_phase c of AwaitReceipt close \<Rightarrow> if close then Finished else Serving | ph \<Rightarrow> ph)
         else cn_phase c)\<rparr>"

definition written_frame :: "response \<Rightarrow> bytes" where
  "written_frame r = response_frame (rs_opcode r) (rs_request_id r) (rs_body r)"

text \<open>
  The steps. \<open>Lost\<close>: a failure of the socket, of a task or of the peer, at any moment. When the loop
  has ended, the operations and the writer may still go on for a while, until they are aborted.
\<close>

datatype conn_event = Received u8 u32 bytes | OpFinished operation "error + bytes" | Retired u32 | Written u32 bytes | Lost

inductive conn_step :: "connection \<Rightarrow> conn_event \<Rightarrow> connection \<Rightarrow> bool" where
  received: "cn_phase c = Serving \<Longrightarrow> request_id \<noteq> 0 \<Longrightarrow>
    conn_step c (Received opcode request_id body) (on_frame opcode request_id body c)"
| finished: "op \<in> set (cn_operations c) \<Longrightarrow>
    conn_step c (OpFinished op r) (on_finished op r c)"
| retired: "cn_writing c = None \<Longrightarrow> cn_responses c = r # rest \<Longrightarrow>
    conn_step c (Retired (rs_request_id r)) (on_retired r rest c)"
| written: "cn_writing c = Some r \<Longrightarrow>
    conn_step c (Written (rs_request_id r) (written_frame r)) (on_written r c)"
| lost: "cn_phase c \<noteq> Finished \<Longrightarrow> conn_step c Lost (c\<lparr>cn_phase := Finished\<rparr>)"

inductive_cases conn_stepE [consumes 1, case_names received finished retired written lost]: "conn_step c l c'"

section \<open>The invariant\<close>

definition held_permits :: "connection \<Rightarrow> nat" where
  "held_permits c = length (cn_operations c) + length (filter rs_permit (cn_responses c))"

text \<open>The identifiers that are in flight: of the operations and of the responses not yet retired.\<close>

definition in_flight :: "connection \<Rightarrow> u32 list" where
  "in_flight c = map op_request_id (cn_operations c) @ map rs_request_id (cn_responses c)"

definition receipts :: "connection \<Rightarrow> response list" where
  "receipts c = filter rs_written (cn_responses c @ (case cn_writing c of None \<Rightarrow> [] | Some r \<Rightarrow> [r]))"

definition refusal :: "bool \<Rightarrow> response \<Rightarrow> bool" where
  "refusal close r = (\<exists>e. rs_opcode r = 255 \<and> rs_body r = error_body e \<and> (close \<longleftrightarrow> err_code e = PROTOCOL))"

definition conn_ok :: "connection \<Rightarrow> bool" where
  "conn_ok c =
     (cn_permits c + held_permits c = MAX_IN_FLIGHT \<and> distinct (map op_request_id (cn_operations c))
      \<and> (cn_phase c = Serving \<or> cn_phase c = AwaitReceipt False \<longrightarrow>
           distinct (in_flight c) \<and> cn_ids c = set (in_flight c))
      \<and> (cn_phase c = Serving \<longrightarrow> receipts c = [])
      \<and> (\<forall>close. cn_phase c = AwaitReceipt close \<longrightarrow> (\<exists>r. receipts c = [r] \<and> refusal close r)))"

lemma connection_new_ok: "conn_ok connection_new"
  by (simp add: conn_ok_def connection_new_def held_permits_def in_flight_def receipts_def)

lemma conn_stepI_fields:
  "cn_permits (refuse i e permit close c) = cn_permits c" "cn_ids (refuse i e permit close c) = cn_ids c"
  "cn_operations (refuse i e permit close c) = cn_operations c" "cn_writing (refuse i e permit close c) = cn_writing c"
  "cn_phase (refuse i e permit close c) = AwaitReceipt close"
  by (simp_all add: refuse_def)

lemma in_flight_refuse: "in_flight (refuse i e permit close c) = in_flight c @ [i]"
  by (simp add: refuse_def in_flight_def)

lemma held_refuse: "held_permits (refuse i e permit close c) = held_permits c + (if permit then 1 else 0)"
  by (simp add: refuse_def held_permits_def)

lemma receipts_refuse:
  assumes "receipts c = []"
  shows "\<exists>r. receipts (refuse i e permit (err_code e = PROTOCOL) c) = [r] \<and> refusal (err_code e = PROTOCOL) r"
proof -
  let ?r = "\<lparr>rs_opcode = 255, rs_request_id = i, rs_body = error_body e, rs_permit = permit, rs_written = True\<rparr>"
  have "receipts (refuse i e permit (err_code e = PROTOCOL) c) = [?r]"
    using assms by (simp add: refuse_def receipts_def filter_empty_conv)
  moreover have "refusal (err_code e = PROTOCOL) ?r" by (auto simp: refusal_def)
  ultimately show ?thesis by blast
qed

lemma refuse_ok:
  assumes "receipts c = []" and "cn_permits c + held_permits c + (if permit then 1 else 0) = MAX_IN_FLIGHT"
    and "distinct (map op_request_id (cn_operations c))"
    and "err_code e \<noteq> PROTOCOL \<Longrightarrow> distinct (in_flight c @ [i]) \<and> cn_ids c = set (in_flight c @ [i])"
  shows "conn_ok (refuse i e permit (err_code e = PROTOCOL) c)"
  using assms receipts_refuse [OF assms(1), of i e permit]
  by (auto simp: conn_ok_def conn_stepI_fields in_flight_refuse held_refuse)

lemma on_frame_ok:
  assumes ok: "conn_ok c" and phase: "cn_phase c = Serving"
  shows "conn_ok (on_frame opcode i body c)"
proof (cases "i \<in> cn_ids c")
  case True
  show ?thesis
    using refuse_ok [of c False "error_new PROTOCOL (str ''duplicate in-flight request identifier'')" i] ok phase True
    by (simp add: on_frame_def conn_ok_def error_new_def)
next
  case False
  define permit where "permit = (0 < cn_permits c)"
  define c1 where "c1 = admitted i c"
  have frame: "on_frame opcode i body c =
     (case request_error permit (decode_request opcode body) of
        Some e \<Rightarrow> refuse i e permit (err_code e = PROTOCOL) c1
      | None \<Rightarrow> (case decode_request opcode body of
          Inl e \<Rightarrow> c1
        | Inr rq \<Rightarrow> c1\<lparr>cn_operations := cn_operations c1 @
            [\<lparr>op_request_id = i, op_opcode = opcode, op_request = rq\<rparr>]\<rparr>))"
    using False unfolding c1_def permit_def by (simp add: on_frame_def Let_def)
  have same: "cn_operations c1 = cn_operations c" "cn_responses c1 = cn_responses c" "cn_writing c1 = cn_writing c"
    "cn_phase c1 = Serving" "cn_ids c1 = insert i (cn_ids c)"
    using phase by (simp_all add: c1_def admitted_def)
  have permits: "cn_permits c1 + held_permits c1 + (if permit then 1 else 0) = MAX_IN_FLIGHT"
    using ok by (auto simp: conn_ok_def held_permits_def c1_def admitted_def permit_def)
  have ops: "distinct (map op_request_id (cn_operations c1))" using ok by (simp add: same conn_ok_def)
  have ids: "distinct (in_flight c1 @ [i])" "cn_ids c1 = set (in_flight c1 @ [i])" "receipts c1 = []"
    using ok phase False by (auto simp: conn_ok_def in_flight_def receipts_def same)
  show ?thesis
  proof (cases "request_error permit (decode_request opcode body)")
    case (Some e)
    show ?thesis unfolding frame Some using refuse_ok [OF ids(3) permits ops] ids(1,2) by simp
  next
    case None
    then obtain rq where rq: "decode_request opcode body = Inr rq" and p: permit
      by (auto simp: request_error_def split: sum.splits request.splits if_splits)
    have "on_frame opcode i body c =
        c1\<lparr>cn_operations := cn_operations c1 @ [\<lparr>op_request_id = i, op_opcode = opcode, op_request = rq\<rparr>]\<rparr>"
      using frame None rq by simp
    then show ?thesis
      using permits ids p by (auto simp: conn_ok_def held_permits_def in_flight_def receipts_def same)
  qed
qed

lemma image_mset_remove1: "x \<in> set xs \<Longrightarrow> add_mset (f x) (image_mset f (mset xs - {#x#})) = image_mset f (mset xs)"
  by (metis image_mset_add_mset insert_DiffM set_mset_mset)

lemma on_finished_ok:
  assumes ok: "conn_ok c" and op: "op \<in> set (cn_operations c)"
  shows "conn_ok (on_finished op r c)"
proof -
  let ?c = "on_finished op r c"
  have same: "cn_ids ?c = cn_ids c" "cn_permits ?c = cn_permits c" "cn_phase ?c = cn_phase c" "receipts ?c = receipts c"
    by (simp_all add: on_finished_def receipts_def split: prod.split)
  have held: "held_permits ?c = held_permits c"
    using op length_pos_if_in_set [OF op] by (simp add: on_finished_def held_permits_def length_remove1 split: prod.split)
  have ops: "distinct (map op_request_id (cn_operations ?c))"
    using ok by (simp add: on_finished_def conn_ok_def distinct_map inj_on_def distinct_remove1 split: prod.split)
  have flight: "mset (in_flight ?c) = mset (in_flight c)"
    using op image_mset_remove1 [OF op, of op_request_id] by (simp add: on_finished_def in_flight_def split: prod.split)
  then have "distinct (in_flight ?c) = distinct (in_flight c)" "set (in_flight ?c) = set (in_flight c)"
    by (metis distinct_count_atmost_1 set_mset_mset, metis set_mset_mset)
  then show ?thesis using ok ops by (simp add: conn_ok_def same held)
qed

lemma on_retired_ok:
  assumes ok: "conn_ok c" and w: "cn_writing c = None" and r: "cn_responses c = r # rest"
  shows "conn_ok (on_retired r rest c)"
proof -
  have receipts: "receipts (on_retired r rest c) = filter rs_written rest @ filter rs_written [r]"
    "receipts c = filter rs_written [r] @ filter rs_written rest"
    using w r by (simp_all add: receipts_def on_retired_def)
  then have *: "receipts c = [] \<Longrightarrow> receipts (on_retired r rest c) = []"
    "\<And>x. receipts c = [x] \<Longrightarrow> receipts (on_retired r rest c) = [x]"
    by (auto split: if_splits)
  have "distinct (in_flight c) \<Longrightarrow> cn_ids c = set (in_flight c) \<Longrightarrow>
      distinct (in_flight (on_retired r rest c)) \<and> cn_ids (on_retired r rest c) = set (in_flight (on_retired r rest c))"
    using r by (auto simp: in_flight_def on_retired_def)
  moreover have "cn_permits (on_retired r rest c) + held_permits (on_retired r rest c) = cn_permits c + held_permits c"
    using r by (simp add: held_permits_def on_retired_def)
  moreover have "cn_phase (on_retired r rest c) = cn_phase c" "cn_operations (on_retired r rest c) = cn_operations c"
    by (simp_all add: on_retired_def)
  ultimately show ?thesis using ok * by (cases "cn_phase c") (auto simp: conn_ok_def)
qed

lemma on_written_ok:
  assumes ok: "conn_ok c" and w: "cn_writing c = Some r"
  shows "conn_ok (on_written r c)"
proof -
  have same: "in_flight (on_written r c) = in_flight c" "held_permits (on_written r c) = held_permits c"
    "cn_permits (on_written r c) = cn_permits c" "cn_ids (on_written r c) = cn_ids c"
    "cn_operations (on_written r c) = cn_operations c"
    by (simp_all add: on_written_def in_flight_def held_permits_def)
  have receipts: "receipts c = receipts (on_written r c) @ (if rs_written r then [r] else [])"
    using w by (simp add: receipts_def on_written_def)
  show ?thesis
  proof (cases "rs_written r \<and> cn_phase c \<noteq> Finished")
    case False
    then have "cn_phase (on_written r c) = cn_phase c" by (auto simp: on_written_def)
    then show ?thesis using ok receipts False by (auto simp: conn_ok_def same)
  next
    case True
    then obtain close where close: "cn_phase c = AwaitReceipt close"
      using ok receipts by (cases "cn_phase c") (auto simp: conn_ok_def)
    then have "receipts (on_written r c) = []" using ok receipts True by (auto simp: conn_ok_def)
    moreover have "cn_phase (on_written r c) = (if close then Finished else Serving)"
      using True close by (simp add: on_written_def)
    ultimately show ?thesis using ok close by (auto simp: conn_ok_def same)
  qed
qed

lemma conn_step_ok: "conn_step c l c' \<Longrightarrow> conn_ok c \<Longrightarrow> conn_ok c'"
  by (erule conn_stepE) (simp_all add: on_frame_ok on_finished_ok on_retired_ok on_written_ok,
    simp add: conn_ok_def held_permits_def)

interpretation conn_sys: invariant_system conn_step conn_ok
  by unfold_locales (rule conn_step_ok)

section \<open>One response for every request\<close>

text \<open>The identifiers that are in flight or whose response is being written.\<close>

definition unanswered :: "connection \<Rightarrow> u32 list" where
  "unanswered c = in_flight c @ (case cn_writing c of None \<Rightarrow> [] | Some r \<Rightarrow> [rs_request_id r])"

fun received_id :: "conn_event \<Rightarrow> u32 list" where
  "received_id (Received _ i _) = [i]"
| "received_id _ = []"

fun answered_id :: "conn_event \<Rightarrow> u32 list" where
  "answered_id (Written i _) = [i]"
| "answered_id _ = []"

lemma unanswered_on_frame: "mset (unanswered (on_frame opcode i body c)) = add_mset i (mset (unanswered c))"
  by (auto simp: on_frame_def Let_def unanswered_def in_flight_def refuse_def admitted_def request_error_def error_new_def
      split: option.splits sum.splits request.splits)

lemma unanswered_step:
  "conn_step c l c' \<Longrightarrow>
     mset (unanswered c') + mset (answered_id l) = mset (unanswered c) + mset (received_id l)"
proof (erule conn_stepE)
  fix op r assume "l = OpFinished op r" "c' = on_finished op r c" "op \<in> set (cn_operations c)"
  then show ?thesis
    using image_mset_remove1 [of op "cn_operations c" op_request_id]
    by (simp add: on_finished_def unanswered_def in_flight_def split: prod.split)
qed (simp_all add: unanswered_on_frame, simp_all add: unanswered_def in_flight_def on_retired_def on_written_def)

lemma unanswered_run:
  "runs conn_step c ls c' \<Longrightarrow>
     mset (unanswered c') + mset (concat (map answered_id ls)) = mset (unanswered c) + mset (concat (map received_id ls))"
proof (induction rule: runs.induct)
  case (runs_snoc c ls c1 l c2)
  show ?case using runs_snoc.IH unanswered_step [OF runs_snoc.hyps(2)]
    by simp (metis (no_types, lifting) add.assoc add.commute)
qed simp

end
