(* ===== verification/Server.thy ===== *)
theory Server
  imports Dispatch Store_Service Rpc_System
begin

text \<open>
  The store and the scheduler behind \<open>dispatch\<close>: no request that the decoder lets through makes the
  server panic or poisons the lock of the store, and what \<open>dispatch\<close> does to the scheduler is a step
  of the system of \<open>Rpc_System\<close>, so that what holds of every run of that system holds of the server.
\<close>

section \<open>Replies of the store\<close>

lemma publish_reply_length: "publish env crc rs s = (Inr body, s') \<Longrightarrow> length body = 19"
  by (auto simp: publish_def Let_def receipt_def split: if_splits sum.splits option.splits prod.splits)

lemma fetch_page_bytes:
  assumes "store_ok s" and "fetch_spec rq s = Inr fr"
  shows "total_bytes (fr_events fr) \<le> fetch_max_bytes rq"
proof -
  obtain seen where "seen = scanned rq [] (window rq s)" "fr_events fr = visible rq seen"
    using fetch_spec_Inr [OF assms] by metis
  moreover have "fits_budget rq (scanned rq [] (window rq s))" by (rule scanned_fits) simp
  ultimately show ?thesis by (simp add: fits_budget_def)
qed

text \<open>What the rendering of JSON must promise: an object is rendered as an object.\<close>

definition json_objects :: "(json \<Rightarrow> bytes) \<Rightarrow> (bytes \<Rightarrow> json option) \<Rightarrow> bool" where
  "json_objects to_vec from_slice = (\<forall>kvs. \<exists>kvs'. from_slice (to_vec (JObject kvs)) = Some (JObject kvs'))"

lemma merged_stats_Some:
  assumes "json_objects to_vec from_slice"
  shows "\<exists>body. merged_stats to_vec from_slice (to_vec (store_stats now conns s)) (Some r) = Some body"
proof -
  obtain kvs where "from_slice (to_vec (store_stats now conns s)) = Some (JObject kvs)"
    using assms unfolding json_objects_def store_stats_def by blast
  then show ?thesis by (simp add: merged_stats_def json_set_def)
qed

text \<open>The requests that \<open>dispatch\<close> hands to the store.\<close>

fun store_request :: "request \<Rightarrow> bool" where
  "store_request (Publish _) = True"
| "store_request (Fetch _) = True"
| "store_request Stats = True"
| "store_request _ = False"

lemma store_operation_total:
  assumes reach: "store_reachable crc s" and rq: "request_ok rq" "store_request rq"
    and json: "json_objects to_vec from_slice" "rq = Stats \<Longrightarrow> rpc_json = Some j"
  obtains r s' where "store_operation env crc to_vec from_slice now conns rpc_json rq s = Some (r, s')"
    "store_reachable crc s'" "\<And>body. r = Inr body \<Longrightarrow> rq \<noteq> Stats \<Longrightarrow> length body \<le> MAX_FRAME - 5"
proof (cases rq)
  case (Publish rs)
  obtain r s' where p: "publish env crc rs s = (r, s')" by (cases "publish env crc rs s")
  show thesis
  proof (rule that [of r s'])
    show "store_operation env crc to_vec from_slice now conns rpc_json rq s = Some (r, s')"
      using p by (simp add: store_operation_def Publish)
    show "store_reachable crc s'" using store_reachable.publish [OF reach _ p] rq Publish by simp
    show "length body \<le> MAX_FRAME - 5" if "r = Inr body" for body
      using publish_reply_length [OF p [unfolded that]] by (simp add: MAX_FRAME_def)
  qed
next
  case (Fetch f)
  have ok: "store_ok s" by (rule store_reachable_ok [OF reach])
  have pos: "0 < fetch_limit f" and max: "fetch_max_bytes f \<le> MAX_FETCH_BYTES" using rq Fetch by auto
  obtain ans s' where f: "fetch f s = Some (ans, s')" using fetch_eq [OF ok pos] by (cases "fetch_spec f s") auto
  have ans: "ans = fetch_spec f s" using fetch_some [OF ok pos f] by simp
  show thesis
  proof (rule that [of "map_sum id fetch_result_encode ans" s'])
    show "store_operation env crc to_vec from_slice now conns rpc_json rq s = Some (map_sum id fetch_result_encode ans, s')"
      using f by (cases ans) (simp_all add: store_operation_def Fetch)
    show "store_reachable crc s'" by (rule store_reachable.fetch [OF reach pos f])
    show "length body \<le> MAX_FRAME - 5" if body: "map_sum id fetch_result_encode ans = Inr body" for body
    proof (cases ans)
      case (Inr fr)
      then have "length body = 11 + total_bytes (fr_events fr)" using body by (auto simp: fetch_result_encode_length)
      then show ?thesis using fetch_page_bytes [OF ok] ans Inr max by (fastforce simp: MAX_FRAME_def MAX_FETCH_BYTES_def)
    qed (use body in simp)
  qed
next
  case Stats
  obtain body where "merged_stats to_vec from_slice (to_vec (store_stats now conns s)) rpc_json = Some body"
    using merged_stats_Some [OF json(1)] json(2) [OF Stats] by metis
  then show thesis
    using that [of "Inr body" s] reach by (simp add: store_operation_def Stats)
qed (use rq in simp_all)

section \<open>A request is a step of the scheduler, or none\<close>

definition rpc_steps_to :: "system \<Rightarrow> state \<Rightarrow> bool" where
  "rpc_steps_to \<sigma> s = (\<exists>\<sigma>'. rpc \<sigma>' = s \<and> (\<sigma>' = \<sigma> \<or> (\<exists>ev. rpc_step \<sigma> ev \<sigma>')))"

lemma rpc_steps_to_same [simp]: "rpc_steps_to \<sigma> (rpc \<sigma>)"
  by (auto simp: rpc_steps_to_def)

lemma rpc_steps_toI: "rpc_step \<sigma> ev \<sigma>' \<Longrightarrow> rpc \<sigma>' = s \<Longrightarrow> rpc_steps_to \<sigma> s"
  by (auto simp: rpc_steps_to_def)

lemma fresh_take:
  assumes "hm_ok m"
  obtains k :: nat where "hm_get m k = None"
proof -
  have "finite (dom (hm_get m))" using assms by (rule hm.finite_dom)
  then show thesis using that by (meson domIff ex_new_if_finite infinite_UNIV_nat)
qed

lemma take_begin_steps:
  assumes "sys_ok \<sigma>" and "take_begin w (rpc \<sigma>) = (r, s)"
  shows "rpc_steps_to \<sigma> s"
proof (cases r)
  case (Inl e)
  then show ?thesis using rpc_step.take_refused [of w \<sigma> e s] assms(2) by (auto intro: rpc_steps_toI)
next
  case (Inr n)
  obtain k where "hm_get (takes \<sigma>) k = None" using assms(1) fresh_take by (auto simp: sys_ok_def)
  from rpc_steps_toI [OF rpc_step.take_started [OF _ this, where end_time = 0]]
  show ?thesis using assms(2) Inr by fastforce
qed

definition reply_fits :: "request \<Rightarrow> dispatched_as \<Rightarrow> bool" where
  "reply_fits rq out =
     (case out of Reply (Inr body) \<Rightarrow> rq = Stats \<or> length body \<le> MAX_FRAME - 5 | _ \<Rightarrow> True)"

lemma reply_fits_simps [simp]:
  "reply_fits rq (Reply (Inl e))" "reply_fits rq (AwaitTicket t)" "reply_fits rq (AwaitTake n ms)"
  "reply_fits rq (Reply (empty_reply r))"
  by (simp_all add: reply_fits_def empty_reply_def and_then_def split: sum.split)

lemma dispatch_blocking:
  assumes "store_request rq"
  shows "dispatch env crc to_vec from_slice now now1 now2 conns conn rq (sh, s) =
     (case blocking_operation env crc to_vec from_slice now conns (if rq = Stats then Some (rpc_stats s) else None) rq sh of
        (r, sh) \<Rightarrow> Some (Reply r, sh, s))"
  using assms by (cases rq) (simp_all add: dispatch_def)

lemma dispatch_store:
  assumes reach: "store_reachable crc (sh_store sh)" "\<not> sh_poisoned sh"
    and rq: "request_ok rq" "store_request rq" and json: "json_objects to_vec from_slice"
  obtains r sh' where "dispatch env crc to_vec from_slice now now1 now2 conns conn rq (sh, s) = Some (Reply r, sh', s)"
    "store_reachable crc (sh_store sh')" "\<not> sh_poisoned sh'" "reply_fits rq (Reply r)"
proof -
  let ?j = "if rq = Stats then Some (rpc_stats s) else None"
  obtain r s' where op: "store_operation env crc to_vec from_slice now conns ?j rq (sh_store sh) = Some (r, s')"
      "store_reachable crc s'" "\<And>body. r = Inr body \<Longrightarrow> rq \<noteq> Stats \<Longrightarrow> length body \<le> MAX_FRAME - 5"
    by (rule store_operation_total [OF reach(1) rq json, of ?j "rpc_stats s"]) auto
  have d: "dispatch env crc to_vec from_slice now now1 now2 conns conn rq (sh, s) = Some (Reply r, sh\<lparr>sh_store := s'\<rparr>, s)"
    unfolding dispatch_blocking [OF rq(2)] blocking_operation_def op(1) using reach(2) by simp
  show thesis
    by (rule that [OF d]) (use op reach in \<open>auto simp: reply_fits_def split: sum.split\<close>)
qed

lemma dispatch_scheduler:
  assumes ok: "sys_ok \<sigma>" and rq: "\<not> store_request rq" "\<And>v token. rq \<noteq> Hello v token"
  obtains out s' where "dispatch env crc to_vec from_slice now now1 now2 conns conn rq (sh, rpc \<sigma>) = Some (out, sh, s')"
    "rpc_steps_to \<sigma> s'" "reply_fits rq out"
proof (cases rq)
  case Ping
  then show thesis using that [of "Reply (Inr [])" "rpc \<sigma>"] by (simp add: dispatch_def reply_fits_def)
next
  case (Register name conc lim)
  obtain r s where "register conn name conc lim (rpc \<sigma>) = (r, s)" by (cases "register conn name conc lim (rpc \<sigma>)")
  then show thesis
    using that [of "Reply (empty_reply r)" s] rpc_steps_toI [OF rpc_step.register, of conn name conc lim \<sigma> r s]
    by (simp add: dispatch_def Register)
next
  case (Rpc name ms p)
  obtain r s where q: "request conn name ms p now1 now2 (rpc \<sigma>) = Some (r, s)"
    using ok request_inv by (metis sys_ok_def)
  then have "rpc_steps_to \<sigma> s" by (rule rpc_steps_toI [OF rpc_step.request]) simp
  then show thesis
    using that [of "case r of Inl e \<Rightarrow> Reply (Inl e) | Inr t \<Rightarrow> AwaitTicket t" s] q
    by (cases r) (simp_all add: dispatch_def Rpc)
next
  case (Take ms)
  obtain r s where q: "take_begin conn (rpc \<sigma>) = (r, s)" by (cases "take_begin conn (rpc \<sigma>)")
  then show thesis
    using that [of "case r of Inl e \<Rightarrow> Reply (Inl e) | Inr n \<Rightarrow> AwaitTake n ms" s] take_begin_steps [OF ok q]
    by (cases r) (simp_all add: dispatch_def Take)
next
  case (Complete i failed p)
  obtain r s where q: "complete conn i failed p now (rpc \<sigma>) = Some (r, s)"
    using ok complete_inv by (metis sys_ok_def)
  then have "rpc_steps_to \<sigma> s" by (rule rpc_steps_toI [OF rpc_step.complete]) simp
  then show thesis using that [of "Reply (empty_reply r)" s] q by (simp add: dispatch_def Complete)
qed (use rq in simp_all)

lemma dispatch_refines:
  assumes "store_reachable crc (sh_store sh)" "\<not> sh_poisoned sh" and "sys_ok \<sigma>"
    and "request_ok rq" "\<And>v token. rq \<noteq> Hello v token" and "json_objects to_vec from_slice"
  obtains out sh' s' where
    "dispatch env crc to_vec from_slice now now1 now2 conns conn rq (sh, rpc \<sigma>) = Some (out, sh', s')"
    "store_reachable crc (sh_store sh')" "\<not> sh_poisoned sh'" "rpc_steps_to \<sigma> s'" "reply_fits rq out"
proof (cases "store_request rq")
  case True
  show thesis
    by (rule dispatch_store [OF assms(1,2,4) True assms(6), of env now now1 now2 conns conn "rpc \<sigma>"])
      (rule that, auto)
next
  case False
  show thesis
    by (rule dispatch_scheduler [OF assms(3) False assms(5), of env crc to_vec from_slice now now1 now2 conns conn sh])
      (use that assms(1,2) in blast)+
qed

end
