(* ===== verification/Startup.thy ===== *)
theory Startup
  imports Config Connection Server
begin

text \<open>
  Starting the server, \<open>main\<close> and the first lines of \<open>serve\<close> of \<open>crates/velobus/src/main.rs\<close>: what the
  command line and the environment lead to, and the state the accept loop starts from.
\<close>

datatype token_var = NotPresent | NotUnicode | Present rstring

text \<open>
  Texts that are printed are not modelled, but for the message of a refusal; nor are
  arguments that are not Unicode, at which the standard library panics.
\<close>

datatype start = ShowHelp | ShowVersion | Exit rstring | Serve config

definition main_start :: "rstring list \<Rightarrow> token_var \<Rightarrow> start" where
  "main_start args var =
     (if \<exists>arg \<in> set args. arg = str ''--help'' \<or> arg = str ''-h'' then ShowHelp
      else if \<exists>arg \<in> set args. arg = str ''--version'' then ShowVersion
      else case (case var of
             Present token \<Rightarrow> Inr token
           | NotPresent \<Rightarrow> Inr []
           | NotUnicode \<Rightarrow> Inl (str ''nodara: NODARA_TOKEN must be valid UTF-8'')) of
        Inl e \<Rightarrow> Exit e
      | Inr token \<Rightarrow>
          (case config_parse args token of
             Inr config \<Rightarrow> Serve config
           | Inl e \<Rightarrow> Exit (str ''nodara: '' @ e @ str ''; use --help'')))"

record server =
  sv_store :: shared_store
  sv_rpc :: state
  sv_listener :: listener
  sv_token :: rstring

definition serve_start ::
  "io_env \<Rightarrow> (bytes \<Rightarrow> u32) \<Rightarrow> nat \<Rightarrow> (rstring \<Rightarrow> rstring list) \<Rightarrow> config \<Rightarrow> rstring list set \<Rightarrow> wal_file option
    \<Rightarrow> (error + server) \<times> rstring list set \<times> wal_file option" where
  "serve_start env crc now components config dirs file =
     (let retained = of_nat (cfg_max_retained_bytes config) :: u64;
          wal = of_nat (cfg_max_wal_bytes config) :: u64;
          opened = (if cfg_memory config then (Inr (store_memory now retained wal), dirs, file)
            else store_disk env crc now (components (cfg_data_dir config)) dirs file retained wal)
      in case opened of
           (Inl e, dirs, file) \<Rightarrow> (Inl e, dirs, file)
         | (Inr s, dirs, file) \<Rightarrow>
             (Inr \<lparr>sv_store = \<lparr>sh_store = s, sh_poisoned = False\<rparr>,
                   sv_rpc = rpc_new (cfg_max_rpc_calls config) (of_nat (cfg_max_rpc_bytes config)),
                   sv_listener = \<lparr>connection_id = 0, free_connections = cfg_max_connections config\<rparr>,
                   sv_token = cfg_token config\<rparr>,
              dirs, file))"

text \<open>The server starts in a state the theorems on the store and on runs of the scheduler speak of.\<close>

lemma serve_start_reachable:
  assumes "serve_start env crc now components config dirs file = (Inr sv, dirs', file')"
  shows "store_reachable crc (sh_store (sv_store sv))" and "\<not> sh_poisoned (sv_store sv)"
    and "sv_rpc sv = rpc (system_new (cfg_max_rpc_calls config) (of_nat (cfg_max_rpc_bytes config)))"
    and "sv_token sv = cfg_token config" and "free_connections (sv_listener sv) = cfg_max_connections config"
  using assms
  by (auto simp: serve_start_def Let_def system_new_def split: prod.splits sum.splits if_splits
      intro: store_reachable.memory store_reachable.disk)

section \<open>The numbers of connections\<close>

datatype accept_event = Accepted accepted | Closed

text \<open>The accept loop, with \<open>maximum\<close> connections; a permit comes back when a connection ends.\<close>

inductive accept_step :: "nat \<Rightarrow> listener \<Rightarrow> accept_event \<Rightarrow> listener \<Rightarrow> bool" for maximum where
  accepted: "accept l = (a, l') \<Longrightarrow> accept_step maximum l (Accepted a) l'"
| closed: "free_connections l < maximum \<Longrightarrow> accept_step maximum l Closed (released l)"

inductive_cases accept_stepE [consumes 1, case_names accepted closed]: "accept_step maximum l ev l'"

fun served_id :: "accept_event \<Rightarrow> u64 list" where
  "served_id (Accepted (Served n)) = [n]"
| "served_id _ = []"

definition within :: "nat \<Rightarrow> listener \<Rightarrow> bool" where
  "within maximum l = (free_connections l \<le> maximum)"

interpretation accept_sys: invariant_system "accept_step maximum" "within maximum" for maximum
  by unfold_locales
    (erule accept_stepE; auto simp: within_def accept_def released_def split: if_splits option.splits)

text \<open>The connections are numbered 1, 2, 3, ...: no number is given twice.\<close>

lemma accept_numbers:
  assumes "runs (accept_step maximum) \<lparr>connection_id = 0, free_connections = n\<rparr> ls l"
  shows "map unat (concat (map served_id ls)) = [1 ..< Suc (unat (connection_id l))]"
  using assms
proof (induction "\<lparr>connection_id = 0 :: u64, free_connections = n\<rparr>" ls l rule: runs.induct)
  case (runs_snoc ls l ev l')
  from runs_snoc.hyps(3) show ?case
  proof (cases rule: accept_stepE)
    case (accepted a)
    show ?thesis
    proof (cases a)
      case (Served m)
      then have "unat m = unat (connection_id l) + 1" "connection_id l' = m"
        using accepted checked_add_Some by (fastforce simp: accept_def split: if_splits option.splits)+
      then show ?thesis using runs_snoc.hyps(2) accepted Served by simp
    qed (use accepted runs_snoc.hyps(2) in \<open>auto simp: accept_def split: if_splits option.splits\<close>)
  qed (use runs_snoc.hyps(2) in \<open>simp add: released_def\<close>)
qed simp

end
