(* ===== verification/World.thy ===== *)
theory World
  imports Startup
begin

text \<open>
  The whole server: the accept loop of \<open>serve\<close>, a task per connection with its reader, its
  operations and its writer (\<open>connection\<close>, \<open>write_queued_response\<close>, \<open>ConnectionCleanup\<close> of
  \<open>crates/velobus/src/main.rs\<close>), the store and the scheduler they share. A step is what one task
  does between two points where another may run, so that a run is any interleaving of them.
\<close>

section \<open>State\<close>

text \<open>
  A client that has been accepted sends a stream of bytes; the part not read is kept. First it has
  to greet, then its connection is served.
\<close>

datatype client = Greeting bytes | Active bytes connection

text \<open>
  Where the task of an operation is: spawned with the number of connections it was told, waiting
  for what it handed to \<open>spawn_blocking\<close>, waiting on a ticket, in the loop of \<open>take\<close>, or with the
  result that it is about to queue.
\<close>

datatype stage = Spawned nat | Blocking nat "json option" | OnTicket ticket | Taking nat | Replied "error + bytes"

text \<open>A task that is aborted does not take along the store operation it waits for: \<open>w_orphans\<close>.\<close>

record world =
  w_listener :: listener
  w_store :: shared_store
  w_system :: system
  w_clients :: "u64 \<Rightarrow> client option"
  w_tasks :: "u64 \<times> u32 \<Rightarrow> (request \<times> stage) option"
  w_orphans :: "(request \<times> nat \<times> json option) list"

definition serving :: "server \<Rightarrow> world" where
  "serving sv =
     \<lparr>w_listener = sv_listener sv, w_store = sv_store sv,
      w_system = \<lparr>rpc = sv_rpc sv, takes = [], tickets = {}, known = {}\<rparr>,
      w_clients = Map.empty, w_tasks = Map.empty, w_orphans = []\<rparr>"

definition put_conn :: "u64 \<Rightarrow> bytes \<Rightarrow> connection \<Rightarrow> world \<Rightarrow> world" where
  "put_conn n s c w = w\<lparr>w_clients := (w_clients w)(n \<mapsto> Active s c)\<rparr>"

definition put_task :: "u64 \<Rightarrow> u32 \<Rightarrow> (request \<times> stage) option \<Rightarrow> world \<Rightarrow> world" where
  "put_task n i t w = w\<lparr>w_tasks := (w_tasks w)((n, i) := t)\<rparr>"

text \<open>The end of a client, whose permit goes back to the accept loop.\<close>

definition forget :: "u64 \<Rightarrow> world \<Rightarrow> world" where
  "forget n w = w\<lparr>w_clients := (w_clients w)(n := None), w_listener := released (w_listener w)\<rparr>"

section \<open>Operations\<close>

text \<open>The task of the operation that a frame has started, if it has.\<close>

definition spawn_task :: "u64 \<Rightarrow> nat \<Rightarrow> connection \<Rightarrow> connection \<Rightarrow> world \<Rightarrow> world" where
  "spawn_task n conns c c' w =
     (case drop (length (cn_operations c)) (cn_operations c') of
        [] \<Rightarrow> w
      | op # _ \<Rightarrow> put_task n (op_request_id op) (Some (op_request op, Spawned conns)) w)"

definition stage_of :: "nat \<Rightarrow> dispatched_as \<Rightarrow> stage" where
  "stage_of k out = (case out of Reply r \<Rightarrow> Replied r | AwaitTicket t \<Rightarrow> OnTicket t | AwaitTake m wait_ms \<Rightarrow> Taking k)"

text \<open>What \<open>dispatch\<close> leaves behind: a ticket that its task holds, or a TAKE with its deadline.\<close>

definition after_dispatch :: "u64 \<Rightarrow> nat \<Rightarrow> nat \<Rightarrow> dispatched_as \<Rightarrow> state \<Rightarrow> system \<Rightarrow> system" where
  "after_dispatch n k now out s \<sigma> =
     (case out of
        Reply r \<Rightarrow> \<sigma>\<lparr>rpc := s\<rparr>
      | AwaitTicket t \<Rightarrow> \<sigma>\<lparr>rpc := s, tickets := insert t (tickets \<sigma>)\<rparr>
      | AwaitTake m wait_ms \<Rightarrow>
          \<sigma>\<lparr>rpc := s, takes := hm_insert k
              \<lparr>tk_worker = n, tk_notify = m, tk_end = now + unat wait_ms * 1000000, tk_phase = Starting\<rparr> (takes \<sigma>)\<rparr>)"

definition take_reply :: "take_result \<Rightarrow> error + bytes" where
  "take_reply res =
     (case res of
        Refused e \<Rightarrow> Inl e
      | Dispatch j \<Rightarrow> Inr (take_body (Some j))
      | _ \<Rightarrow> Inr (take_body None))"

text \<open>Aborting a task drops the ticket or the guard that it holds, and leaves the store operation to run.\<close>

definition abort_task :: "stage \<Rightarrow> system \<Rightarrow> system" where
  "abort_task st \<sigma> =
     (case st of
        OnTicket t \<Rightarrow> \<sigma>\<lparr>rpc := cancel (tk_call_id t) (rpc \<sigma>), tickets := tickets \<sigma> - {t}\<rparr>
      | Taking k \<Rightarrow> (case hm_get (takes \<sigma>) k of None \<Rightarrow> \<sigma> | Some tk \<Rightarrow> end_take k tk (rpc \<sigma>) \<sigma>)
      | _ \<Rightarrow> \<sigma>)"

definition orphan :: "request \<Rightarrow> stage \<Rightarrow> (request \<times> nat \<times> json option) list" where
  "orphan rq st = (case st of Blocking conns j \<Rightarrow> [(rq, conns, j)] | _ \<Rightarrow> [])"

section \<open>Steps\<close>

text \<open>The code outside the repository.\<close>

record externals =
  ex_crc :: "bytes \<Rightarrow> u32"
  ex_to_vec :: "json \<Rightarrow> bytes"
  ex_from_slice :: "bytes \<Rightarrow> json option"
  ex_ct_eq :: "bytes \<Rightarrow> bytes \<Rightarrow> bool"

datatype server_event =
    Arrived accepted | Greeted u64 bytes | Rejected u64
  | Framed u64 u8 u32 bytes | Dispatched u64 u32 request dispatched_as nat
  | Handed u64 u32 request | Ran u64 u32 request "error + bytes" | Orphaned request "error + bytes"
  | Stepped u64 u32 request rpc_event | Took u64 u32 request take_result | TookNone u64 u32 request nat
  | Answering u64 u32 request ticket reply
  | Finishing u64 operation "error + bytes" | Retiring u64 u32 | Wrote u64 response | Failed u64
  | Cancelling u64 u32 stage | Left u64 | Gone u64

text \<open>
  A turn of the loop of one \<open>take\<close>, number \<open>k\<close>, that does not end it: it asks to be woken, finds
  a call that has expired or nothing to do, or is woken.
\<close>

inductive take_turn :: "nat \<Rightarrow> system \<Rightarrow> rpc_event \<Rightarrow> system \<Rightarrow> bool" for k where
  turn_enable: "hm_get (takes \<sigma>) k = Some tk \<Longrightarrow> tk_phase tk = Starting \<Longrightarrow>
    take_turn k \<sigma> (Enabled k)
      (\<sigma>\<lparr>takes := hm_insert k (tk\<lparr>tk_phase := Trying (notifies (rpc \<sigma>) ! tk_notify tk)\<rparr>) (takes \<sigma>)\<rparr>)"
| turn_again: "hm_get (takes \<sigma>) k = Some tk \<Longrightarrow> tk_phase tk = Trying e \<Longrightarrow>
    try_take_once (tk_worker tk) now1 now2 (rpc \<sigma>) = Some (Again, s) \<Longrightarrow>
    take_turn k \<sigma> (Tried (tk_worker tk) Again) (\<sigma>\<lparr>rpc := s\<rparr>)"
| turn_idle: "hm_get (takes \<sigma>) k = Some tk \<Longrightarrow> tk_phase tk = Trying e \<Longrightarrow>
    try_take_once (tk_worker tk) now1 now2 (rpc \<sigma>) = Some (Idle, s) \<Longrightarrow>
    take_turn k \<sigma> (Tried (tk_worker tk) Idle) (\<sigma>\<lparr>rpc := s, takes := hm_insert k (tk\<lparr>tk_phase := Waiting e\<rparr>) (takes \<sigma>)\<rparr>)"
| turn_woken: "hm_get (takes \<sigma>) k = Some tk \<Longrightarrow> tk_phase tk = Waiting e \<Longrightarrow>
    e < notifies (rpc \<sigma>) ! tk_notify tk \<Longrightarrow>
    take_turn k \<sigma> (Woken k) (\<sigma>\<lparr>takes := hm_insert k (tk\<lparr>tk_phase := Starting\<rparr>) (takes \<sigma>)\<rparr>)"

fun take_progress :: "rpc_event \<Rightarrow> bool" where
  "take_progress (Enabled k) = True"
| "take_progress (Woken k) = True"
| "take_progress (Tried v Again) = True"
| "take_progress (Tried v Idle) = True"
| "take_progress _ = False"

lemma take_turn_step: "take_turn k \<sigma> ev \<tau> \<Longrightarrow> rpc_step \<sigma> ev \<tau> \<and> take_progress ev"
  by (auto elim!: take_turn.cases intro: take_enable take_again take_idle take_woken)

inductive server_step :: "externals \<Rightarrow> rstring \<Rightarrow> nat \<Rightarrow> world \<Rightarrow> server_event \<Rightarrow> world \<Rightarrow> bool" for X token maximum where
  arrived: "accept (w_listener w) = (a, l) \<Longrightarrow>
    server_step X token maximum w (Arrived a)
      (w\<lparr>w_listener := l,
         w_clients := (case a of Served n \<Rightarrow> (w_clients w)(n \<mapsto> Greeting input) | _ \<Rightarrow> w_clients w)\<rparr>)"
| greeted: "w_clients w n = Some (Greeting s) \<Longrightarrow>
    handshake (ex_ct_eq X) token io1 io2 wfault t s = Inr (True, out, rest) \<Longrightarrow>
    server_step X token maximum w (Greeted n s)
      (put_conn n rest connection_new w
         \<lparr>w_system := (w_system w)\<lparr>rpc := connected n (rpc (w_system w)), known := insert n (known (w_system w))\<rparr>\<rparr>)"
| rejected: "w_clients w n = Some (Greeting s) \<Longrightarrow>
    handshake (ex_ct_eq X) token io1 io2 wfault t s = r \<Longrightarrow> (\<forall>out rest. r \<noteq> Inr (True, out, rest)) \<Longrightarrow>
    server_step X token maximum w (Rejected n) (forget n w)"
| framed: "w_clients w n = Some (Active s c) \<Longrightarrow> cn_phase c = Serving \<Longrightarrow>
    read_frame True io1 io2 s = Inr ((opcode, i, body), rest) \<Longrightarrow> c' = on_frame opcode i body c \<Longrightarrow>
    server_step X token maximum w (Framed n opcode i body)
      (spawn_task n (maximum - free_connections (w_listener w)) c c' (put_conn n rest c' w))"
| dispatched: "w_tasks w (n, i) = Some (rq, Spawned conns) \<Longrightarrow>
    dispatch env (ex_crc X) (ex_to_vec X) (ex_from_slice X) now now1 now2 conns n rq (w_store w, rpc (w_system w))
      = Some (out, sh, s) \<Longrightarrow>
    hm_get (takes (w_system w)) k = None \<Longrightarrow> \<not> store_request rq \<Longrightarrow>
    server_step X token maximum w (Dispatched n i rq out k)
      (put_task n i (Some (rq, stage_of k out))
        (w\<lparr>w_store := sh, w_system := after_dispatch n k now3 out s (w_system w)\<rparr>))"
| handed: "w_tasks w (n, i) = Some (rq, Spawned conns) \<Longrightarrow> store_request rq \<Longrightarrow>
    server_step X token maximum w (Handed n i rq)
      (put_task n i (Some (rq, Blocking conns (if rq = Stats then Some (rpc_stats (rpc (w_system w))) else None))) w)"
| ran: "w_tasks w (n, i) = Some (rq, Blocking conns j) \<Longrightarrow>
    blocking_operation env (ex_crc X) (ex_to_vec X) (ex_from_slice X) now conns j rq (w_store w) = (r, sh) \<Longrightarrow>
    server_step X token maximum w (Ran n i rq r) (put_task n i (Some (rq, Replied r)) (w\<lparr>w_store := sh\<rparr>))"
| orphaned: "(rq, conns, j) \<in> set (w_orphans w) \<Longrightarrow>
    blocking_operation env (ex_crc X) (ex_to_vec X) (ex_from_slice X) now conns j rq (w_store w) = (r, sh) \<Longrightarrow>
    server_step X token maximum w (Orphaned rq r)
      (w\<lparr>w_store := sh, w_orphans := remove1 (rq, conns, j) (w_orphans w)\<rparr>)"
| stepped: "w_tasks w (n, i) = Some (rq, Taking k) \<Longrightarrow> take_turn k (w_system w) ev \<sigma> \<Longrightarrow>
    server_step X token maximum w (Stepped n i rq ev) (w\<lparr>w_system := \<sigma>\<rparr>)"
| took: "w_tasks w (n, i) = Some (rq, Taking k) \<Longrightarrow> hm_get (takes (w_system w)) k = Some tk \<Longrightarrow> tk_phase tk = Trying e \<Longrightarrow>
    try_take_once (tk_worker tk) now1 now2 (rpc (w_system w)) = Some (res, s) \<Longrightarrow> res \<noteq> Idle \<Longrightarrow> res \<noteq> Again \<Longrightarrow>
    server_step X token maximum w (Took n i rq res)
      (put_task n i (Some (rq, Replied (take_reply res))) (w\<lparr>w_system := end_take k tk s (w_system w)\<rparr>))"
| took_none: "w_tasks w (n, i) = Some (rq, Taking k) \<Longrightarrow> hm_get (takes (w_system w)) k = Some tk \<Longrightarrow> tk_phase tk = Waiting e \<Longrightarrow>
    tk_end tk \<le> now \<Longrightarrow>
    server_step X token maximum w (TookNone n i rq k)
      (put_task n i (Some (rq, Replied (Inr (take_body None))))
        (w\<lparr>w_system := end_take k tk (rpc (w_system w)) (w_system w)\<rparr>))"
| answering: "w_tasks w (n, i) = Some (rq, OnTicket t) \<Longrightarrow> ticket_poll now t (rpc (w_system w)) = Some (r, s) \<Longrightarrow>
    server_step X token maximum w (Answering n i rq t r)
      (put_task n i (Some (rq, Replied (rpc_body r)))
        (w\<lparr>w_system := (w_system w)\<lparr>rpc := cancel (tk_call_id t) s, tickets := tickets (w_system w) - {t}\<rparr>\<rparr>))"
| finishing: "w_clients w n = Some (Active s c) \<Longrightarrow> op \<in> set (cn_operations c) \<Longrightarrow>
    w_tasks w (n, op_request_id op) = Some (rq, Replied r) \<Longrightarrow>
    server_step X token maximum w (Finishing n op r)
      (put_task n (op_request_id op) None (put_conn n s (on_finished op r c) w))"
| retiring: "w_clients w n = Some (Active s c) \<Longrightarrow> cn_writing c = None \<Longrightarrow>
    cn_responses c = r # rest \<Longrightarrow>
    server_step X token maximum w (Retiring n (rs_request_id r)) (put_conn n s (on_retired r rest c) w)"
| wrote: "w_clients w n = Some (Active s c) \<Longrightarrow> cn_writing c = Some r \<Longrightarrow>
    server_step X token maximum w (Wrote n r) (put_conn n s (on_written r c) w)"
| failed: "w_clients w n = Some (Active s c) \<Longrightarrow> cn_phase c \<noteq> Finished \<Longrightarrow>
    server_step X token maximum w (Failed n) (put_conn n s (c\<lparr>cn_phase := Finished\<rparr>) w)"
| cancelling: "w_clients w n = Some (Active s c) \<Longrightarrow> cn_phase c = Finished \<Longrightarrow> w_tasks w (n, i) = Some (rq, st) \<Longrightarrow>
    server_step X token maximum w (Cancelling n i st)
      (put_task n i None (w\<lparr>w_system := abort_task st (w_system w), w_orphans := w_orphans w @ orphan rq st\<rparr>))"
| left: "w_clients w n = Some (Active s c) \<Longrightarrow> cn_phase c = Finished \<Longrightarrow> disconnect n (rpc (w_system w)) = Some st \<Longrightarrow>
    server_step X token maximum w (Left n) (w\<lparr>w_system := (w_system w)\<lparr>rpc := st\<rparr>\<rparr>)"
| gone: "w_clients w n = Some (Active s c) \<Longrightarrow> cn_phase c = Finished \<Longrightarrow> (\<forall>i. w_tasks w (n, i) = None) \<Longrightarrow>
    n \<notin> connections (rpc (w_system w)) \<Longrightarrow>
    server_step X token maximum w (Gone n) (forget n w)"

inductive_cases server_stepE [consumes 1, case_names arrived greeted rejected framed dispatched handed ran
  orphaned stepped took took_none answering finishing retiring wrote failed cancelling left gone]: "server_step X token maximum w ev w'"

section \<open>What a run means to its parts\<close>

definition unit_result :: "error + bytes \<Rightarrow> error + unit" where
  "unit_result r = (case r of Inl e \<Rightarrow> Inl e | Inr _ \<Rightarrow> Inr ())"

definition dispatch_events :: "u64 \<Rightarrow> request \<Rightarrow> dispatched_as \<Rightarrow> nat \<Rightarrow> rpc_event list" where
  "dispatch_events n rq out k =
     (case (rq, out) of
        (Register name _ _, Reply r) \<Rightarrow> [Registered n name (unit_result r)]
      | (request.Rpc name _ p, Reply (Inl e)) \<Rightarrow> [Requested n name p (Inl e)]
      | (request.Rpc name _ p, AwaitTicket t) \<Rightarrow> [Requested n name p (Inr t)]
      | (Take _, Reply (Inl e)) \<Rightarrow> [TakeRefused n e]
      | (Take _, AwaitTake _ _) \<Rightarrow> [TakeStarted n k]
      | (Complete cid failed p, Reply r) \<Rightarrow> [Completed n cid failed p (unit_result r)]
      | _ \<Rightarrow> [])"

text \<open>The events of the scheduler, of a connection and of the accept loop in an event of the server.\<close>

fun rpc_events :: "server_event \<Rightarrow> rpc_event list" where
  "rpc_events (Greeted n _) = [Connect n]"
| "rpc_events (Dispatched n _ rq out k) = dispatch_events n rq out k"
| "rpc_events (Stepped _ _ _ ev) = [ev]"
| "rpc_events (Took n _ _ res) = [Tried n res]"
| "rpc_events (TookNone _ _ _ k) = [TimedOut k]"
| "rpc_events (Answering _ _ _ t r) = [Answered (tk_call_id t) r]"
| "rpc_events (Cancelling _ _ st) =
     (case st of OnTicket t \<Rightarrow> [TicketDropped (tk_call_id t)] | Taking k \<Rightarrow> [Aborted k] | _ \<Rightarrow> [])"
| "rpc_events (Left n) = [Disconnected n]"
| "rpc_events _ = []"

fun conn_events :: "u64 \<Rightarrow> server_event \<Rightarrow> conn_event list" where
  "conn_events n (Framed m opcode i body) = (if m = n then [Received opcode i body] else [])"
| "conn_events n (Finishing m op r) = (if m = n then [OpFinished op r] else [])"
| "conn_events n (Retiring m i) = (if m = n then [Retired i] else [])"
| "conn_events n (Wrote m r) = (if m = n then [Written (rs_request_id r) (written_frame r)] else [])"
| "conn_events n (Failed m) = (if m = n then [Lost] else [])"
| "conn_events n _ = []"

fun accept_events :: "server_event \<Rightarrow> accept_event list" where
  "accept_events (Arrived a) = [Accepted a]"
| "accept_events (Rejected n) = [Closed]"
| "accept_events (Gone n) = [Closed]"
| "accept_events _ = []"

definition events_of :: "(server_event \<Rightarrow> 'e list) \<Rightarrow> server_event list \<Rightarrow> 'e list" where
  "events_of f evs = concat (map f evs)"

lemma events_of_simps [simp]: "events_of f [] = []" "events_of f (evs @ [e]) = events_of f evs @ f e"
  by (simp_all add: events_of_def)

end
