(* ===== verification/World_Refine.thy ===== *)
theory World_Refine
  imports World
begin

text \<open>
  Every step of the server is a run of the scheduler, of each connection and of the accept loop:
  the first by what \<open>dispatch\<close> calls, the others by construction.
\<close>

section \<open>Dispatch and the scheduler\<close>

lemma runs_one: "step s l t \<Longrightarrow> runs step s [l] t"
  using runs_snoc [OF runs_nil] by fastforce

lemma runs_append: "runs step t ls' u \<Longrightarrow> runs step s ls t \<Longrightarrow> runs step s (ls @ ls') u"
proof (induction rule: runs.induct)
  case (runs_snoc t ls' u l v)
  then show ?case using runs.runs_snoc [of step s "ls @ ls'"] by simp
qed simp

lemma rpc_one: "rpc_step \<sigma> l \<sigma>' \<Longrightarrow> runs rpc_step \<sigma> [l] \<sigma>'"
  by (rule runs_one)

lemma dispatch_store_only:
  assumes "dispatch env crc to_vec from_slice now now1 now2 conns n rq (sh, s) = Some (out, sh', s')"
    and "store_request rq \<or> (\<exists>v token. rq = Hello v token)"
  shows "s' = s" and "\<exists>r. out = Reply r"
  using assms by (auto simp: dispatch_def split: request.splits prod.splits)

lemma dispatch_runs:
  assumes d: "dispatch env crc to_vec from_slice now now1 now2 conns n rq (sh, rpc \<sigma>) = Some (out, sh', s)"
    and k: "hm_get (takes \<sigma>) k = None"
  shows "runs rpc_step \<sigma> (dispatch_events n rq out k) (after_dispatch n k now3 out s \<sigma>)"
proof -
  have same: "\<sigma>\<lparr>rpc := rpc \<sigma>\<rparr> = \<sigma>" by simp
  show ?thesis
  proof (cases rq)
    case (Register name conc lim)
    obtain r where "register n name conc lim (rpc \<sigma>) = (r, s)" "out = Reply (empty_reply r)"
      using d by (auto simp: dispatch_def Register split: prod.splits)
    then show ?thesis
      using rpc_one [OF rpc_step.register, of n name conc lim \<sigma> r s]
      by (cases r) (simp_all add: dispatch_events_def after_dispatch_def Register empty_reply_def unit_result_def)
  next
    case (Rpc name ms p)
    obtain r where r: "request n name ms p now1 now2 (rpc \<sigma>) = Some (r, s)"
        "out = (case r of Inl e \<Rightarrow> Reply (Inl e) | Inr t \<Rightarrow> AwaitTicket t)"
      using d by (auto simp: dispatch_def Rpc split: option.splits sum.splits prod.splits)
    then show ?thesis
      using rpc_one [OF rpc_step.request [OF r(1)]]
      by (cases r) (simp_all add: dispatch_events_def after_dispatch_def Rpc)
  next
    case (Take ms)
    obtain r where r: "take_begin n (rpc \<sigma>) = (r, s)" "out = (case r of Inl e \<Rightarrow> Reply (Inl e) | Inr m \<Rightarrow> AwaitTake m ms)"
      using d by (auto simp: dispatch_def Take split: sum.splits prod.splits)
    show ?thesis
    proof (cases r)
      case (Inl e)
      then show ?thesis
        using rpc_one [OF rpc_step.take_refused, of n \<sigma> e s] r by (simp add: dispatch_events_def after_dispatch_def Take)
    next
      case (Inr m)
      then show ?thesis
        using rpc_one [OF rpc_step.take_started [OF _ k], of n m s] r
        by (simp add: dispatch_events_def after_dispatch_def Take)
    qed
  next
    case (Complete cid failed p)
    obtain r where "complete n cid failed p now (rpc \<sigma>) = Some (r, s)" "out = Reply (empty_reply r)"
      using d by (auto simp: dispatch_def Complete split: option.splits prod.splits)
    then show ?thesis
      using rpc_one [OF rpc_step.complete, of n cid failed p now \<sigma> r s]
      by (cases r) (simp_all add: dispatch_events_def after_dispatch_def Complete empty_reply_def unit_result_def)
  next
    case Ping
    then show ?thesis using d runs_nil [of rpc_step \<sigma>]
      by (auto simp: dispatch_def dispatch_events_def after_dispatch_def)
  qed (use dispatch_store_only [OF d] runs_nil [of rpc_step \<sigma>] in \<open>auto simp: dispatch_events_def after_dispatch_def\<close>)
qed

section \<open>What the steps of the scheduler do to its clients\<close>

lemma step_connections:
  assumes ok: "sys_ok \<sigma>" and step: "rpc_step \<sigma> ev \<sigma>'"
  shows "connections (rpc \<sigma>') =
    (case ev of Connect n \<Rightarrow> insert n (connections (rpc \<sigma>)) | Disconnected n \<Rightarrow> connections (rpc \<sigma>) - {n}
     | _ \<Rightarrow> connections (rpc \<sigma>))"
proof -
  have inv: "rpc_ok (rpc \<sigma>)" using ok by (simp add: sys_ok_def)
  have guard: "connections (rpc (end_take k tk s \<sigma>)) = connections s" for k tk s
    by (simp add: end_take_def take_guard_drop_def split: option.split)
  note same = same_workers_def
  show ?thesis
    using step
  proof (cases rule: rpc_stepE)
    case (register w name conc lim res s)
    then show ?thesis by (auto simp: register_def Let_def split: option.splits if_splits)
  next
    case (request c name ms p now1 now2 res s)
    then show ?thesis using same_workers_request [OF inv] by (simp add: same)
  next
    case (take_again k tk e now1 now2 s)
    then show ?thesis using same_workers_try_take_once [OF inv] by (simp add: same)
  next
    case (take_idle k tk e now1 now2 s)
    then show ?thesis using same_workers_try_take_once [OF inv] by (simp add: same)
  next
    case (take_done k tk e now1 now2 res s)
    then show ?thesis using same_workers_try_take_once [OF inv] by (simp add: same guard)
  next
    case (complete w i failed p now res s)
    then show ?thesis using same_workers_complete by (simp add: same)
  next
    case (answered t now r s)
    have "connections s = connections (rpc \<sigma>)"
      using ticket_poll_state [OF answered(4)] queues_shrink_expire [of "rpc \<sigma>"] by (auto simp: queues_shrink_def)
    then show ?thesis using answered same_workers_cancel by (simp add: same)
  next
    case (ticket_dropped t)
    then show ?thesis using same_workers_cancel by (simp add: same)
  next
    case (disconnect c s)
    obtain u where "disconnect c (rpc \<sigma>) = Some u" "connections u = connections (rpc \<sigma>) - {c}"
      by (rule disconnect_spec [OF inv, of c])
    then show ?thesis using disconnect by simp
  qed (auto simp: connected_def guard take_begin_def split: option.splits if_splits)
qed

end
