(* ===== verification/World_Inv.thy ===== *)
theory World_Inv
  imports World_Refine
begin

text \<open>
  The invariant of the whole server: connections and scheduler are well-formed, a task belongs to
  an operation of its connection and holds what its stage says, every ticket and every TAKE of the
  scheduler is held by exactly one task, and the numbers of connections and their permits are exact.
\<close>

section \<open>The invariant\<close>

definition clients_ok :: "world \<Rightarrow> bool" where
  "clients_ok w = (\<forall>n s c. w_clients w n = Some (Active s c) \<longrightarrow> conn_ok c)"

text \<open>
  The type of a stage: only a request for the store is handed on, only an RPC request waits on a
  ticket, only a TAKE is in the loop of \<open>take\<close>.
\<close>

definition stage_ok :: "system \<Rightarrow> u64 \<Rightarrow> request \<Rightarrow> stage \<Rightarrow> bool" where
  "stage_ok \<sigma> n rq st =
     (case st of
        Blocking conns j \<Rightarrow> store_request rq \<and> (rq = Stats \<longrightarrow> j \<noteq> None)
      | OnTicket t \<Rightarrow> (\<exists>name ms p. rq = request.Rpc name ms p)
      | Taking k \<Rightarrow> (\<exists>ms. rq = Take ms) \<and> (\<forall>tk. hm_get (takes \<sigma>) k = Some tk \<longrightarrow> tk_worker tk = n)
      | _ \<Rightarrow> True)"

definition task_ok :: "world \<Rightarrow> u64 \<Rightarrow> u32 \<Rightarrow> request \<Rightarrow> stage \<Rightarrow> bool" where
  "task_ok w n i rq st =
     (request_ok rq \<and> (\<forall>v token. rq \<noteq> Hello v token) \<and> stage_ok (w_system w) n rq st
      \<and> (\<exists>s c op. w_clients w n = Some (Active s c) \<and> op \<in> set (cn_operations c)
           \<and> op_request_id op = i \<and> op_request op = rq))"

definition tasks_ok :: "world \<Rightarrow> bool" where
  "tasks_ok w =
     ((\<forall>n i rq st. w_tasks w (n, i) = Some (rq, st) \<longrightarrow> task_ok w n i rq st)
      \<and> (\<forall>n s c op. w_clients w n = Some (Active s c) \<and> cn_phase c \<noteq> Finished \<and> op \<in> set (cn_operations c) \<longrightarrow>
           (\<exists>st. w_tasks w (n, op_request_id op) = Some (op_request op, st))))"

definition tickets_held :: "(request \<times> stage) option \<Rightarrow> ticket set" where
  "tickets_held v = (case v of Some (_, OnTicket t) \<Rightarrow> {t} | _ \<Rightarrow> {})"

definition takes_held :: "(request \<times> stage) option \<Rightarrow> nat set" where
  "takes_held v = (case v of Some (_, Taking k) \<Rightarrow> {k} | _ \<Rightarrow> {})"

text \<open>A family of sets is disjoint, also up to a key, and has a given union.\<close>

definition partitions :: "('x \<Rightarrow> 'a set) \<Rightarrow> ('a \<Rightarrow> 'b) \<Rightarrow> 'a set \<Rightarrow> bool" where
  "partitions f key A = (A = (\<Union>x. f x) \<and> (\<forall>x y a b. a \<in> f x \<and> b \<in> f y \<and> key a = key b \<longrightarrow> x = y))"

definition held_ok :: "world \<Rightarrow> bool" where
  "held_ok w =
     (partitions (\<lambda>x. tickets_held (w_tasks w x)) tk_call_id (tickets (w_system w))
      \<and> partitions (\<lambda>x. takes_held (w_tasks w x)) (\<lambda>k. k) (dom (hm_get (takes (w_system w)))))"

definition given_numbers :: "listener \<Rightarrow> u64 set" where
  "given_numbers l = {n. n \<le> connection_id l}"

definition numbers_ok :: "nat \<Rightarrow> world \<Rightarrow> bool" where
  "numbers_ok maximum w =
     (known (w_system w) \<subseteq> given_numbers (w_listener w) \<and> dom (w_clients w) \<subseteq> given_numbers (w_listener w)
      \<and> (\<forall>n s. w_clients w n = Some (Greeting s) \<longrightarrow> n \<notin> known (w_system w))
      \<and> connections (rpc (w_system w)) \<subseteq> {n. \<exists>s c. w_clients w n = Some (Active s c)}
      \<and> finite (dom (w_clients w)) \<and> free_connections (w_listener w) + card (dom (w_clients w)) = maximum)"

definition orphans_ok :: "world \<Rightarrow> bool" where
  "orphans_ok w =
     (\<forall>(rq, conns, j) \<in> set (w_orphans w). request_ok rq \<and> store_request rq \<and> (rq = Stats \<longrightarrow> j \<noteq> None))"

definition store_served :: "externals \<Rightarrow> world \<Rightarrow> bool" where
  "store_served X w = (store_reachable (ex_crc X) (sh_store (w_store w)) \<and> \<not> sh_poisoned (w_store w))"

definition world_ok :: "externals \<Rightarrow> nat \<Rightarrow> world \<Rightarrow> bool" where
  "world_ok X maximum w =
     (sys_ok (w_system w) \<and> clients_ok w \<and> tasks_ok w \<and> held_ok w \<and> numbers_ok maximum w
      \<and> store_served X w \<and> orphans_ok w)"

lemma put_simps [simp]:
  "w_clients (put_conn n s c w) = (w_clients w)(n \<mapsto> Active s c)" "w_tasks (put_conn n s c w) = w_tasks w"
  "w_system (put_conn n s c w) = w_system w" "w_listener (put_conn n s c w) = w_listener w"
  "w_store (put_conn n s c w) = w_store w" "w_orphans (put_conn n s c w) = w_orphans w"
  "w_tasks (put_task n i t w) = (w_tasks w)((n, i) := t)" "w_clients (put_task n i t w) = w_clients w"
  "w_system (put_task n i t w) = w_system w" "w_listener (put_task n i t w) = w_listener w"
  "w_store (put_task n i t w) = w_store w" "w_orphans (put_task n i t w) = w_orphans w"
  "w_clients (forget n w) = (w_clients w)(n := None)" "w_tasks (forget n w) = w_tasks w"
  "w_system (forget n w) = w_system w" "w_listener (forget n w) = released (w_listener w)" "w_store (forget n w) = w_store w"
  "w_orphans (forget n w) = w_orphans w"
  by (simp_all add: put_conn_def put_task_def forget_def)

lemma spawn_simps [simp]:
  "w_clients (spawn_task n conns c c' w) = w_clients w" "w_system (spawn_task n conns c c' w) = w_system w"
  "w_listener (spawn_task n conns c c' w) = w_listener w" "w_store (spawn_task n conns c c' w) = w_store w"
  "w_orphans (spawn_task n conns c c' w) = w_orphans w"
  by (simp_all add: spawn_task_def split: list.split)

text \<open>What a frame does to the operations of a connection: nothing, or it starts one.\<close>

lemma on_frame_cases:
  obtains (nothing) "cn_operations (on_frame opcode i body c) = cn_operations c"
  | (started) rq where "decode_request opcode body = Inr rq" "\<And>v token. rq \<noteq> Hello v token" "i \<notin> cn_ids c"
      "cn_operations (on_frame opcode i body c) = cn_operations c @ [\<lparr>op_request_id = i, op_opcode = opcode, op_request = rq\<rparr>]"
      "cn_phase (on_frame opcode i body c) = cn_phase c" "cn_responses (on_frame opcode i body c) = cn_responses c"
      "cn_writing (on_frame opcode i body c) = cn_writing c"
proof (cases "i \<in> cn_ids c")
  case True
  then have "cn_operations (on_frame opcode i body c) = cn_operations c" by (simp add: on_frame_def conn_stepI_fields)
  then show thesis by (rule nothing)
next
  case False
  show thesis
  proof (cases "request_error (0 < cn_permits c) (decode_request opcode body)")
    case (Some e)
    with False have "cn_operations (on_frame opcode i body c) = cn_operations c"
      by (simp add: on_frame_def Let_def conn_stepI_fields admitted_def)
    then show thesis by (rule nothing)
  next
    case None
    then obtain rq where rq: "decode_request opcode body = Inr rq" "\<And>v token. rq \<noteq> Hello v token"
      by (auto simp: request_error_def split: sum.splits request.splits if_splits)
    show thesis
      by (rule started [OF rq False]) (use None False rq in \<open>simp_all add: on_frame_def Let_def admitted_def\<close>)
  qed
qed

section \<open>Frame lemmas\<close>

text \<open>A task that changes, with what it held and holds.\<close>

lemma partitions_put:
  assumes p: "partitions f key A" and f': "\<And>y. f' y = (if y = x then B else f y)"
    and new: "\<And>a b. a \<in> B \<Longrightarrow> b \<in> A - f x \<Longrightarrow> key a \<noteq> key b"
  shows "partitions f' key (A - f x \<union> B)"
proof -
  have apart: "a \<in> f y \<Longrightarrow> b \<in> f z \<Longrightarrow> key a = key b \<Longrightarrow> y = z" for y z a b
    using p unfolding partitions_def by blast
  have A: "A = (\<Union>y. f y)" using p by (simp add: partitions_def)
  have B: "key a \<noteq> key b" if "a \<in> B" "b \<in> f y" "y \<noteq> x" for a b y
    using new [OF that(1)] that apart A by blast
  have "A - f x \<union> B = (\<Union>y. f' y)"
  proof
    show "A - f x \<union> B \<subseteq> (\<Union>y. f' y)"
    proof
      fix a assume a: "a \<in> A - f x \<union> B"
      show "a \<in> (\<Union>y. f' y)"
      proof (cases "a \<in> B")
        case True
        then show ?thesis using f' [of x] by auto
      next
        case False
        then obtain y where "a \<in> f y" "y \<noteq> x" using a A by auto
        then show ?thesis using f' [of y] by auto
      qed
    qed
    show "(\<Union>y. f' y) \<subseteq> A - f x \<union> B"
      unfolding f' using apart A by (auto split: if_splits)
  qed
  moreover have "y = z" if "a \<in> f' y" "b \<in> f' z" "key a = key b" for y z a b
    using that apart B unfolding f' by (metis (full_types))
  ultimately show ?thesis unfolding partitions_def by blast
qed

lemma partitionsD: "partitions f key A \<Longrightarrow> a \<in> f x \<Longrightarrow> a \<in> A"
  by (auto simp: partitions_def)

lemma partitions_once: "partitions f key A \<Longrightarrow> a \<in> A \<longleftrightarrow> (\<exists>!x. a \<in> f x)"
  unfolding partitions_def by (metis UN_iff UNIV_I)

lemma partitions_same: "partitions f key A \<Longrightarrow> (\<And>y. f' y = f y) \<Longrightarrow> partitions f' key A"
  by (metis ext)

lemma held_put:
  assumes held: "held_ok w" and tasks: "w_tasks w' = (w_tasks w)(x := v)"
    and t: "tickets (w_system w') = tickets (w_system w) - tickets_held (w_tasks w x) \<union> tickets_held v"
    and k: "dom (hm_get (takes (w_system w'))) = dom (hm_get (takes (w_system w))) - takes_held (w_tasks w x) \<union> takes_held v"
    and new: "\<And>t t'. t \<in> tickets_held v \<Longrightarrow> t' \<in> tickets (w_system w) - tickets_held (w_tasks w x) \<Longrightarrow> tk_call_id t \<noteq> tk_call_id t'"
      "\<And>k. k \<in> takes_held v \<Longrightarrow> k \<notin> dom (hm_get (takes (w_system w))) - takes_held (w_tasks w x)"
  shows "held_ok w'"
  unfolding held_ok_def t k
  using held new unfolding held_ok_def
  by (intro conjI partitions_put [where f = "\<lambda>x. tickets_held (w_tasks w x)"]
      partitions_put [where f = "\<lambda>x. takes_held (w_tasks w x)"]) (auto simp: tasks)

lemma held_same:
  assumes "held_ok w" and "w_tasks w' = (w_tasks w)(x := v)" and "tickets (w_system w') = tickets (w_system w)"
    and "dom (hm_get (takes (w_system w'))) = dom (hm_get (takes (w_system w)))"
    and "tickets_held v = tickets_held (w_tasks w x)" "takes_held v = takes_held (w_tasks w x)"
  shows "held_ok w'"
  using assms(1) unfolding held_ok_def assms(3,4)
  by (elim conjE, intro conjI) (erule partitions_same, simp add: assms(2,5,6))+

lemma held_equal:
  assumes "held_ok w" and "w_tasks w' = w_tasks w" and "tickets (w_system w') = tickets (w_system w)"
    and "dom (hm_get (takes (w_system w'))) = dom (hm_get (takes (w_system w)))"
  shows "held_ok w'"
  using assms by (simp add: held_ok_def)

end
