(* ===== verification/World_Steps.thy ===== *)
theory World_Steps
  imports World_Inv Rpc_Trace
begin

text \<open>
  Every step of the server preserves its invariant, and is a run of the scheduler.
\<close>

section \<open>The scheduler\<close>

lemma task_okD:
  assumes "world_ok X maximum w" and "w_tasks w (n, i) = Some (rq, st)"
  shows "task_ok w n i rq st" and "stage_ok (w_system w) n rq st" and "request_ok rq" and "rq \<noteq> Hello v token"
  using assms by (auto simp: world_ok_def tasks_ok_def task_ok_def)

lemma ticket_member:
  assumes "world_ok X maximum w" and "w_tasks w x = Some (rq, OnTicket t)"
  shows "t \<in> tickets (w_system w)"
proof -
  have "t \<in> tickets_held (w_tasks w x)" using assms(2) by (simp add: tickets_held_def)
  moreover have "partitions (\<lambda>x. tickets_held (w_tasks w x)) tk_call_id (tickets (w_system w))"
    using assms(1) by (simp add: world_ok_def held_ok_def)
  ultimately show ?thesis by (rule partitionsD [rotated])
qed

lemma take_member:
  assumes "world_ok X maximum w" and "w_tasks w (n, i) = Some (rq, Taking k)"
  obtains tk where "hm_get (takes (w_system w)) k = Some tk" "tk_worker tk = n"
proof -
  have "k \<in> takes_held (w_tasks w (n, i))" using assms(2) by (simp add: takes_held_def)
  moreover have "partitions (\<lambda>x. takes_held (w_tasks w x)) (\<lambda>k. k) (dom (hm_get (takes (w_system w))))"
    using assms(1) by (simp add: world_ok_def held_ok_def)
  ultimately have "k \<in> dom (hm_get (takes (w_system w)))" by (rule partitionsD [rotated])
  then show thesis using that task_okD(2) [OF assms] by (auto simp: stage_ok_def)
qed

lemma step_runs:
  assumes ok: "world_ok X maximum w" and step: "server_step X token maximum w ev w'"
  shows "runs rpc_step (w_system w) (rpc_events ev) (w_system w')"
  using step
proof (cases rule: server_stepE)
  case (arrived a l input)
  then show ?thesis by (simp add: runs_nil)
next
  case (greeted n s io1 io2 wfault t out rest)
  have "n \<notin> known (w_system w)" using ok greeted(3) by (auto simp: world_ok_def numbers_ok_def)
  then show ?thesis using greeted rpc_one [OF rpc_step.connect] by simp
next
  case (framed n s c io1 io2 opcode i body rest)
  then show ?thesis by (simp add: runs_nil)
next
  case (dispatched n i rq conns env now now1 now2 out sh s k now3)
  then show ?thesis using dispatch_runs [OF dispatched(4,5)] by simp
next
  case (orphaned rq conns j env now r sh)
  then show ?thesis by (simp add: runs_nil)
next
  case (stepped n i rq k e \<sigma>)
  then show ?thesis using take_turn_step [OF stepped(4)] rpc_one by simp
next
  case (took n i rq k tk e now1 now2 res s)
  have "tk_worker tk = n" using take_member [OF ok took(3)] took(4) by force
  then show ?thesis using took rpc_one [OF rpc_step.take_done [OF took(4-8)]] by simp
next
  case (took_none n i rq k tk e now)
  then show ?thesis using rpc_one [OF rpc_step.take_timeout [OF took_none(4-6)]] by simp
next
  case (answering n i rq t now r s)
  then show ?thesis using rpc_one [OF rpc_step.answered [OF ticket_member [OF ok answering(3)] answering(4)]] by simp
next
  case (cancelling n s c i rq st)
  show ?thesis
  proof (cases st)
    case (OnTicket t)
    then show ?thesis
      using cancelling rpc_one [OF rpc_step.ticket_dropped [OF ticket_member [OF ok, of "(n, i)" rq t]]] by (simp add: abort_task_def)
  next
    case (Taking k)
    then obtain tk where "hm_get (takes (w_system w)) k = Some tk" using take_member [OF ok, of n i rq k] cancelling(5) by auto
    then show ?thesis using cancelling Taking rpc_one [OF rpc_step.take_abort] by (simp add: abort_task_def)
  qed (use cancelling in \<open>simp_all add: abort_task_def runs_nil\<close>)
next
  case (left n s c st)
  then show ?thesis using rpc_one [OF rpc_step.disconnect] by simp
qed (simp_all add: runs_nil)

lemma step_sys_ok: "world_ok X maximum w \<Longrightarrow> server_step X token maximum w ev w' \<Longrightarrow> sys_ok (w_system w')"
  using rpc_sys.run_inv [OF step_runs, of X maximum w token ev w'] by (simp add: world_ok_def)

section \<open>The connections\<close>

lemma step_clients_ok:
  assumes ok: "world_ok X maximum w" and step: "server_step X token maximum w ev w'"
  shows "clients_ok w'"
proof -
  have c: "clients_ok w" using ok by (simp add: world_ok_def)
  have put: "clients_ok w'" if "w_clients w' = (w_clients w)(n \<mapsto> Active s c')" "conn_ok c'" for n s c'
    using c that by (auto simp: clients_ok_def)
  have get: "conn_ok c'" if "w_clients w n = Some (Active s c')" for n s c'
    using c that by (auto simp: clients_ok_def)
  show ?thesis
    using step
  proof (cases rule: server_stepE)
    case (arrived a l input)
    then show ?thesis using c by (auto simp: clients_ok_def split: accepted.splits)
  next
    case (greeted n s io1 io2 wfault t out rest)
    then show ?thesis using put connection_new_ok by simp
  next
    case (rejected n s io1 io2 wfault t)
    then show ?thesis using c by (auto simp: clients_ok_def)
  next
    case (framed n s c io1 io2 opcode i body rest)
    have "conn_ok (on_frame opcode i body c)" by (rule on_frame_ok [OF get [OF framed(3)] framed(4)])
    then show ?thesis using put framed(2) by simp
  next
    case (finishing n s c op rq r)
    then show ?thesis using put [of n s] on_finished_ok [OF get [OF finishing(3)] finishing(4)] by simp
  next
    case (retiring n s c r rest)
    then show ?thesis using put [of n s] on_retired_ok [OF get [OF retiring(3)]] by simp
  next
    case (wrote n s c r)
    then show ?thesis using put [of n s] on_written_ok [OF get [OF wrote(3)]] by simp
  next
    case (failed n s c)
    then show ?thesis using put [of n s] get [OF failed(3)] by (simp add: conn_ok_def held_permits_def)
  next
    case (gone n s c)
    then show ?thesis using c by (auto simp: clients_ok_def)
  qed (use c in \<open>simp_all add: clients_ok_def\<close>)
qed

section \<open>Tickets and TAKEs\<close>

lemma held_simps [simp]:
  "tickets_held None = {}" "takes_held None = {}"
  "tickets_held (Some (rq, OnTicket t)) = {t}" "takes_held (Some (rq, OnTicket t)) = {}"
  "tickets_held (Some (rq, Taking k)) = {}" "takes_held (Some (rq, Taking k)) = {k}"
  "tickets_held (Some (rq, Spawned m)) = {}" "takes_held (Some (rq, Spawned m)) = {}"
  "tickets_held (Some (rq, Blocking m j)) = {}" "takes_held (Some (rq, Blocking m j)) = {}"
  "tickets_held (Some (rq, Replied r)) = {}" "takes_held (Some (rq, Replied r)) = {}"
  by (simp_all add: tickets_held_def takes_held_def)

lemma take_progress_Tried [simp]: "take_progress (Tried v res) \<longleftrightarrow> res = Again \<or> res = Idle"
  by (cases res) simp_all

lemma progress_frame:
  assumes "rpc_step \<sigma> ev \<sigma>'" and "take_progress ev"
  shows "tickets \<sigma>' = tickets \<sigma>" and "known \<sigma>' = known \<sigma>"
    and "map_option tk_worker (hm_get (takes \<sigma>') k) = map_option tk_worker (hm_get (takes \<sigma>) k)"
  using assms by (auto elim!: rpc_stepE)

lemma dom_worker: "(\<And>k. map_option f (m' k) = map_option f (m k)) \<Longrightarrow> dom m' = dom m"
  by (metis (mono_tags, lifting) dom_def map_option_is_None Collect_cong)

lemma request_next_id:
  assumes "rpc_ok s" and "request who name ms p na nb s = Some (Inr t, s')"
  shows "tk_call_id t = next_id s"
  using assms(1)
proof (cases rule: request_cases [where who = who and name = name and ms = ms and p = p and na = na and nb = nb])
  case (admitted t' r c)
  have "next_id t' = next_id s" using steady_expire_queued [of s name na] admitted(2) by (simp add: steady_def)
  then show ?thesis using admitted(9) assms(2) by simp
qed (use assms(2) in auto)

text \<open>What \<open>dispatch\<close> leaves to its task: a fresh ticket only for an RPC, a TAKE only for a TAKE.\<close>

lemma dispatch_outcomes:
  assumes d: "dispatch env crc to_vec from_slice now now1 now2 conns n rq (sh, s) = Some (out, sh', s')"
    and "rpc_ok s"
  shows "out = AwaitTicket t \<Longrightarrow> tk_call_id t = next_id s \<and> (\<exists>name ms p. rq = request.Rpc name ms p)"
    and "out = AwaitTake m wait_ms \<Longrightarrow> rq = Take wait_ms"
  using d request_next_id [OF assms(2)]
  by (auto simp: dispatch_def split: request.splits prod.splits option.splits sum.splits)

lemma no_task:
  assumes ok: "world_ok X maximum w" and c: "w_clients w n = Some (Active s c)" and "i \<notin> op_request_id ` set (cn_operations c)"
  shows "w_tasks w (n, i) = None"
proof (rule ccontr)
  assume "w_tasks w (n, i) \<noteq> None"
  then obtain rq st where "w_tasks w (n, i) = Some (rq, st)" by auto
  from task_okD(1) [OF ok this] assms(2,3) show False by (auto simp: task_ok_def)
qed

lemma free_id:
  assumes ok: "world_ok X maximum w" and c: "w_clients w n = Some (Active s c)" "cn_phase c = Serving" "i \<notin> cn_ids c"
  shows "i \<notin> op_request_id ` set (cn_operations c)" and "w_tasks w (n, i) = None"
proof -
  have "conn_ok c" using ok c(1) by (auto simp: world_ok_def clients_ok_def)
  then have "cn_ids c = set (in_flight c)" using c(2) by (simp add: conn_ok_def)
  then show i: "i \<notin> op_request_id ` set (cn_operations c)" using c(3) by (auto simp: in_flight_def)
  then show "w_tasks w (n, i) = None" by (rule no_task [OF ok c(1)])
qed

lemma spawn_started:
  assumes "cn_operations c' = cn_operations c @ [op]"
  shows "spawn_task n conns c c' w = put_task n (op_request_id op) (Some (op_request op, Spawned conns)) w"
  using assms by (simp add: spawn_task_def)

lemma spawn_nothing: "cn_operations c' = cn_operations c \<Longrightarrow> spawn_task n conns c c' w = w"
  by (simp add: spawn_task_def)

lemma step_held_ok:
  assumes ok: "world_ok X maximum w" and step: "server_step X token maximum w ev w'"
  shows "held_ok w'"
proof -
  have held: "held_ok w" and inv: "rpc_ok (rpc (w_system w))" and h: "hm_ok (takes (w_system w))"
    and old: "\<And>t. t \<in> tickets (w_system w) \<Longrightarrow> tk_call_id t < next_id (rpc (w_system w))"
    using ok by (auto simp: world_ok_def sys_ok_def)
  show ?thesis
    using step
  proof (cases rule: server_stepE)
    case (framed n s c io1 io2 opcode i body rest)
    show ?thesis
    proof (cases rule: on_frame_cases [of opcode i body c])
      case nothing
      then show ?thesis using held_equal [OF held] framed(2) by (simp add: spawn_nothing)
    next
      case (started rq)
      note none = free_id(2) [OF ok framed(3,4) started(3)]
      show ?thesis
        unfolding framed(2) spawn_started [OF started(4)]
        by (rule held_same [OF held, where x = "(n, i)" and v = "Some (rq, Spawned (maximum - free_connections (w_listener w)))"])
          (simp_all add: none)
    qed
  next
    case (dispatched n i rq conns env now now1 now2 out sh s k now3)
    show ?thesis
    proof (cases out)
      case (Reply r)
      show ?thesis
        unfolding dispatched(2) Reply
        by (rule held_same [OF held, where x = "(n, i)" and v = "Some (rq, Replied r)"])
          (simp_all add: dispatched(3) stage_of_def after_dispatch_def)
    next
      case (AwaitTicket t)
      have "tk_call_id t = next_id (rpc (w_system w))" using dispatch_outcomes(1) [OF dispatched(4) inv AwaitTicket] by simp
      then have "tk_call_id t \<noteq> tk_call_id t'" if "t' \<in> tickets (w_system w)" for t' using old [OF that] by auto
      then show ?thesis
        unfolding dispatched(2) AwaitTicket
        by (intro held_put [OF held, where x = "(n, i)" and v = "Some (rq, OnTicket t)"]) (simp_all add: dispatched(3) stage_of_def after_dispatch_def)
    next
      case (AwaitTake m ms)
      show ?thesis
        unfolding dispatched(2) AwaitTake
        by (rule held_put [OF held, where x = "(n, i)" and v = "Some (rq, Taking k)"])
          (use dispatched(5) in \<open>auto simp: dispatched(3) stage_of_def after_dispatch_def\<close>)
    qed
  next
    case (handed n i rq conns)
    show ?thesis
      unfolding handed(2) by (rule held_same [OF held, where x = "(n, i)" and v = "Some (rq, Blocking conns (if rq = Stats then Some (rpc_stats (rpc (w_system w))) else None))"])
        (simp_all add: handed(3))
  next
    case (ran n i rq conns j env now r sh)
    show ?thesis
      unfolding ran(2) by (rule held_same [OF held, where x = "(n, i)" and v = "Some (rq, Replied r)"]) (simp_all add: ran(3))
  next
    case (stepped n i rq k e \<sigma>)
    note turn = take_turn_step [OF stepped(4)]
    have "dom (hm_get (takes \<sigma>)) = dom (hm_get (takes (w_system w)))"
      by (rule dom_worker [where f = tk_worker], rule progress_frame(3) [where ev = e]) (simp_all add: turn)
    then show ?thesis using held_equal [OF held, of w'] progress_frame(1) turn stepped(2) by auto
  next
    case (took n i rq k tk e now1 now2 res s)
    show ?thesis
      unfolding took(2) by (rule held_put [OF held, where x = "(n, i)" and v = "Some (rq, Replied (take_reply res))"]) (auto simp: took(3) end_take_def)
  next
    case (took_none n i rq k tk e now)
    show ?thesis
      unfolding took_none(2) by (rule held_put [OF held, where x = "(n, i)" and v = "Some (rq, Replied (Inr (take_body None)))"]) (auto simp: took_none(3) end_take_def)
  next
    case (answering n i rq t now r s)
    show ?thesis
      unfolding answering(2) by (rule held_put [OF held, where x = "(n, i)" and v = "Some (rq, Replied (rpc_body r))"]) (simp_all add: answering(3))
  next
    case (finishing n s c op rq r)
    show ?thesis
      unfolding finishing(2) by (rule held_same [OF held, where x = "(n, op_request_id op)" and v = None]) (simp_all add: finishing(5))
  next
    case (cancelling n s c i rq st)
    show ?thesis
    proof (cases st)
      case (OnTicket t)
      show ?thesis
        unfolding cancelling(2)
        by (rule held_put [OF held, where x = "(n, i)" and v = "None"]) (simp_all add: cancelling(5) OnTicket abort_task_def)
    next
      case (Taking k)
      then obtain tk where "hm_get (takes (w_system w)) k = Some tk" using take_member [OF ok, of n i rq k] cancelling(5) by auto
      then show ?thesis
        unfolding cancelling(2)
        by (intro held_put [OF held, where x = "(n, i)" and v = "None"]) (auto simp: cancelling(5) Taking abort_task_def end_take_def)
    qed (unfold cancelling(2), (rule held_same [OF held, where x = "(n, i)" and v = None]; simp add: cancelling(5) abort_task_def)+)
  qed (use held in \<open>simp_all add: held_ok_def\<close>)
qed

section \<open>Numbers and permits\<close>

lemma accept_cases:
  assumes "accept l = (a, l')"
  obtains (refused) "l' = l" "\<And>n. a \<noteq> Served n"
  | (served) n where "a = Served n" "connection_id l' = n" "unat n = unat (connection_id l) + 1"
      "free_connections l = Suc (free_connections l')"
proof (cases "\<exists>n. a = Served n")
  case True
  then obtain n where n: "a = Served n" ..
  then have "checked_add (connection_id l) 1 = Some n" "connection_id l' = n" "free_connections l = Suc (free_connections l')"
    using assms by (auto simp: accept_def split: if_splits option.splits)
  moreover from this(1) have "unat n = unat (connection_id l) + 1" using checked_add_Some by fastforce
  ultimately show thesis using served n by blast
next
  case False
  then have "l' = l" using assms by (auto simp: accept_def split: if_splits option.splits)
  then show thesis using refused False by blast
qed

lemma given_numbers_mono: "unat (connection_id l) \<le> unat (connection_id l') \<Longrightarrow> given_numbers l \<subseteq> given_numbers l'"
  by (auto simp: given_numbers_def word_le_nat_alt)

lemma numbers_sys:
  assumes "numbers_ok maximum w" and "w_clients w' = w_clients w" and "w_listener w' = w_listener w"
    and "known (w_system w') = known (w_system w)" and "connections (rpc (w_system w')) \<subseteq> connections (rpc (w_system w))"
  shows "numbers_ok maximum w'"
  using assms unfolding numbers_ok_def by auto

lemma numbers_conn:
  assumes "numbers_ok maximum w" and "w_clients w n = Some (Active s c)" and "w_clients w' = (w_clients w)(n \<mapsto> Active s' c')"
    and "w_listener w' = w_listener w" and "w_system w' = w_system w"
  shows "numbers_ok maximum w'"
proof -
  have "dom (w_clients w') = dom (w_clients w)" using assms(2,3) by auto
  then show ?thesis using assms unfolding numbers_ok_def by auto
qed

lemma numbers_forget:
  assumes ok: "numbers_ok maximum w" and c: "w_clients w n \<noteq> None" and n: "n \<notin> connections (rpc (w_system w))"
  shows "numbers_ok maximum (forget n w)"
proof -
  have "n \<in> dom (w_clients w)" using c by auto
  moreover have "finite (dom (w_clients w))" using ok by (simp add: numbers_ok_def)
  ultimately have "card (dom (w_clients w)) = Suc (card (dom (w_clients w) - {n}))" by (rule card.remove [rotated])
  moreover from this have "free_connections (w_listener w) + 1 + card (dom (w_clients w) - {n}) = maximum"
    using ok by (simp add: numbers_ok_def)
  moreover have "given_numbers (released (w_listener w)) = given_numbers (w_listener w)" by (simp add: given_numbers_def released_def)
  moreover have "free_connections (released (w_listener w)) = Suc (free_connections (w_listener w))" by (simp add: released_def)
  moreover have "connections (rpc (w_system w)) \<subseteq> {m. \<exists>s c. ((w_clients w)(n := None)) m = Some (Active s c)}"
    using ok n by (auto simp: numbers_ok_def)
  moreover have "dom ((w_clients w)(n := None)) \<subseteq> given_numbers (w_listener w)" using ok by (auto simp: numbers_ok_def)
  moreover have "m \<notin> known (w_system w)" if "((w_clients w)(n := None)) m = Some (Greeting s)" for m s
    using ok that by (auto simp: numbers_ok_def split: if_splits)
  ultimately show ?thesis using ok by (simp add: numbers_ok_def)
qed

lemma step_known:
  assumes "sys_ok \<sigma>" and "runs rpc_step \<sigma> ls \<sigma>'" and "\<And>n. Connect n \<notin> set ls"
  shows "connections (rpc \<sigma>') \<subseteq> connections (rpc \<sigma>)"
  using assms(2,1,3)
proof (induction rule: runs.induct)
  case (runs_snoc \<sigma> ls \<tau> l \<upsilon>)
  note run = this(1) and step = this(2)
  have "connections (rpc \<upsilon>) \<subseteq> connections (rpc \<tau>)"
    using step_connections [OF rpc_sys.run_inv [OF run runs_snoc.prems(1)] step] runs_snoc.prems(2)
    by (auto split: rpc_event.splits)
  then show ?case using runs_snoc by auto
qed simp

end
