(* ===== verification/World_Safe.thy ===== *)
theory World_Safe
  imports World_Steps
begin

text \<open>
  The invariant of the server holds in every state that a run reaches.
\<close>

section \<open>Numbers\<close>

lemma no_connect:
  "Connect m \<notin> set (dispatch_events n rq out k)" "take_progress e \<Longrightarrow> e \<noteq> Connect m"
  by (auto simp: dispatch_events_def split: request.splits dispatched_as.splits sum.splits)

lemma known_kept [simp]:
  "known (after_dispatch n k now out s \<sigma>) = known \<sigma>" "known (abort_task st \<sigma>) = known \<sigma>"
  "known (end_take k' tk s \<sigma>) = known \<sigma>"
  by (simp_all add: after_dispatch_def abort_task_def end_take_def split: dispatched_as.split stage.split option.split)

lemma numbersD:
  assumes "numbers_ok maximum w"
  shows "known (w_system w) \<subseteq> given_numbers (w_listener w)" and "dom (w_clients w) \<subseteq> given_numbers (w_listener w)"
    and "w_clients w n = Some (Greeting s) \<Longrightarrow> n \<notin> known (w_system w)"
    and "n \<in> connections (rpc (w_system w)) \<Longrightarrow> \<exists>s c. w_clients w n = Some (Active s c)"
    and "finite (dom (w_clients w))" and "free_connections (w_listener w) + card (dom (w_clients w)) = maximum"
  using assms unfolding numbers_ok_def by auto

lemma numbers_okI:
  assumes "known (w_system w) \<subseteq> given_numbers (w_listener w)" and "dom (w_clients w) \<subseteq> given_numbers (w_listener w)"
    and "\<And>n s. w_clients w n = Some (Greeting s) \<Longrightarrow> n \<notin> known (w_system w)"
    and "\<And>n. n \<in> connections (rpc (w_system w)) \<Longrightarrow> \<exists>s c. w_clients w n = Some (Active s c)"
    and "finite (dom (w_clients w))" and "free_connections (w_listener w) + card (dom (w_clients w)) = maximum"
  shows "numbers_ok maximum w"
  using assms unfolding numbers_ok_def by blast

lemma step_numbers_ok:
  assumes ok: "world_ok X maximum w" and step: "server_step X token maximum w ev w'"
  shows "numbers_ok maximum w'"
proof -
  have num: "numbers_ok maximum w" and sys: "sys_ok (w_system w)" using ok by (simp_all add: world_ok_def)
  have con: "connections (rpc (w_system w')) \<subseteq> connections (rpc (w_system w))" if "\<And>n. Connect n \<notin> set (rpc_events ev)"
    using step_known [OF sys step_runs [OF ok step] that] .
  show ?thesis
    using step
  proof (cases rule: server_stepE)
    case (arrived a l input)
    show ?thesis
      using arrived(3)
    proof (cases rule: accept_cases)
      case refused
      then show ?thesis using num arrived(2) by (simp add: numbers_ok_def split: accepted.split)
    next
      case (served n)
      have sub: "given_numbers (w_listener w) \<subseteq> given_numbers l" by (rule given_numbers_mono) (use served in simp)
      have n: "n \<in> given_numbers l" "n \<notin> given_numbers (w_listener w)"
        using served by (simp_all add: given_numbers_def word_le_nat_alt)
      then have new: "n \<notin> dom (w_clients w)" "n \<notin> known (w_system w)" using num by (auto simp: numbers_ok_def)
      have w': "w_clients w' = (w_clients w)(n \<mapsto> Greeting input)" "w_listener w' = l" "w_system w' = w_system w"
        using arrived(2) served(1) by simp_all
      show ?thesis
      proof (rule numbers_okI, unfold w')
        show "known (w_system w) \<subseteq> given_numbers l" using numbersD(1) [OF num] sub by blast
        show "dom ((w_clients w)(n \<mapsto> Greeting input)) \<subseteq> given_numbers l" using numbersD(2) [OF num] sub n(1) by simp
        show "m \<notin> known (w_system w)" if "((w_clients w)(n \<mapsto> Greeting input)) m = Some (Greeting s)" for m s
          using that new(2) numbersD(3) [OF num] by (cases "m = n") simp_all
        show "\<exists>s c. ((w_clients w)(n \<mapsto> Greeting input)) m = Some (Active s c)" if "m \<in> connections (rpc (w_system w))" for m
          using numbersD(4) [OF num that] new(1) by (cases "m = n") auto
        show "finite (dom ((w_clients w)(n \<mapsto> Greeting input)))" using numbersD(5) [OF num] by simp
        show "free_connections l + card (dom ((w_clients w)(n \<mapsto> Greeting input))) = maximum"
          using numbersD(5,6) [OF num] new(1) served(4) by simp
      qed
    qed
  next
    case (greeted n s io1 io2 wfault t out rest)
    have n: "n \<in> given_numbers (w_listener w)" using num greeted(3) by (auto simp: numbers_ok_def)
    have dom: "dom ((w_clients w)(n \<mapsto> Active rest connection_new)) = dom (w_clients w)" using greeted(3) by auto
    have w': "w_clients w' = (w_clients w)(n \<mapsto> Active rest connection_new)" "w_listener w' = w_listener w"
      "known (w_system w') = insert n (known (w_system w))"
      "connections (rpc (w_system w')) = insert n (connections (rpc (w_system w)))"
      using greeted(2) by (simp_all add: connected_def)
    show ?thesis
    proof (rule numbers_okI, unfold w' dom)
      show "insert n (known (w_system w)) \<subseteq> given_numbers (w_listener w)" using numbersD(1) [OF num] n by blast
      show "m \<notin> insert n (known (w_system w))"
        if "((w_clients w)(n \<mapsto> Active rest connection_new)) m = Some (Greeting s)" for m s
        using that numbersD(3) [OF num] by (cases "m = n") simp_all
      show "\<exists>s c. ((w_clients w)(n \<mapsto> Active rest connection_new)) m = Some (Active s c)"
        if "m \<in> insert n (connections (rpc (w_system w)))" for m
        using that numbersD(4) [OF num] by (cases "m = n") auto
    qed (use numbersD [OF num] in blast)+
  next
    case (rejected n s io1 io2 wfault t)
    have "n \<notin> known (w_system w)" using num rejected(3) by (simp add: numbers_ok_def)
    then have "n \<notin> connections (rpc (w_system w))" using sys by (auto simp: sys_ok_def)
    then show ?thesis using numbers_forget [OF num] rejected(2,3) by simp
  next
    case (framed n s c io1 io2 opcode i body rest)
    then show ?thesis by (intro numbers_conn [OF num framed(3)]) simp_all
  next
    case (dispatched n i rq conns env now now1 now2 out sh s k now3)
    then show ?thesis using con no_connect(1) by (intro numbers_sys [OF num]) simp_all
  next
    case (handed n i rq conns)
    then show ?thesis using con by (intro numbers_sys [OF num]) simp_all
  next
    case (ran n i rq conns j env now r sh)
    then show ?thesis using con by (intro numbers_sys [OF num]) simp_all
  next
    case (orphaned rq conns j env now r sh)
    then show ?thesis using con by (intro numbers_sys [OF num]) simp_all
  next
    case (stepped m j rq k e \<sigma>)
    note turn = take_turn_step [OF stepped(4)]
    have "known \<sigma> = known (w_system w)" using progress_frame(2) turn by blast
    then show ?thesis using stepped con no_connect(2) turn by (intro numbers_sys [OF num]) auto
  next
    case (took n i rq k tk e now1 now2 res s)
    then show ?thesis using con by (intro numbers_sys [OF num]) simp_all
  next
    case (took_none n i rq k tk e now)
    then show ?thesis using con by (intro numbers_sys [OF num]) simp_all
  next
    case (answering n i rq t now r s)
    then show ?thesis using con by (intro numbers_sys [OF num]) simp_all
  next
    case (finishing n s c op rq r)
    then show ?thesis by (intro numbers_conn [OF num finishing(3)]) simp_all
  next
    case (retiring n s c r rest)
    then show ?thesis by (intro numbers_conn [OF num retiring(3)]) simp_all
  next
    case (wrote n s c r)
    then show ?thesis by (intro numbers_conn [OF num wrote(3)]) simp_all
  next
    case (failed n s c)
    then show ?thesis by (intro numbers_conn [OF num failed(3)]) simp_all
  next
    case (cancelling n s c i rq st)
    then show ?thesis using con by (intro numbers_sys [OF num]) (simp_all split: stage.splits)
  next
    case (left n s c st)
    then show ?thesis using con by (intro numbers_sys [OF num]) simp_all
  next
    case (gone n s c)
    then show ?thesis using numbers_forget [OF num] by simp
  qed
qed

section \<open>The store\<close>

lemma blocking_keeps_store:
  assumes "blocking_operation env crc to_vec from_slice now conns j rq sh = (r, sh')"
    and "store_reachable crc (sh_store sh)" "\<not> sh_poisoned sh" "request_ok rq" "store_request rq" "rq = Stats \<longrightarrow> j \<noteq> None"
    and "json_objects to_vec from_slice"
  shows "store_reachable crc (sh_store sh')" and "\<not> sh_poisoned sh'"
proof -
  obtain q where "rq = Stats \<Longrightarrow> j = Some q" using assms(6) by auto
  then obtain r' s' where "store_operation env crc to_vec from_slice now conns j rq (sh_store sh) = Some (r', s')"
      "store_reachable crc s'"
    using store_operation_total [OF assms(2,4,5,7)] by blast
  then show "store_reachable crc (sh_store sh')" and "\<not> sh_poisoned sh'"
    using assms(1,3) by (auto simp: blocking_operation_def)
qed

lemma dispatch_keeps_store:
  assumes "dispatch env crc to_vec from_slice now now1 now2 conns n rq (sh, s) = Some (out, sh', s')"
    and "\<not> store_request rq" "\<And>v token. rq \<noteq> Hello v token"
  shows "sh' = sh"
  using assms by (cases rq) (auto simp: dispatch_def split: prod.splits option.splits sum.splits)

lemma step_store_served:
  assumes ok: "world_ok X maximum w" and step: "server_step X token maximum w ev w'"
    and json: "json_objects (ex_to_vec X) (ex_from_slice X)"
  shows "store_served X w'"
proof -
  have st: "store_served X w" using ok by (simp add: world_ok_def)
  have served: "store_reachable (ex_crc X) (sh_store (w_store w))" "\<not> sh_poisoned (w_store w)"
    using st by (simp_all add: store_served_def)
  show ?thesis
    using step
  proof (cases rule: server_stepE)
    case (dispatched n i rq conns env now now1 now2 out sh s k now3)
    have "sh = w_store w" by (rule dispatch_keeps_store [OF dispatched(4,6)]) (use task_okD(4) [OF ok dispatched(3)] in simp)
    then show ?thesis using dispatched(2) served by (simp add: store_served_def)
  next
    case (ran n i rq conns j env now r sh)
    have "store_request rq" "rq = Stats \<longrightarrow> j \<noteq> None" using task_okD(2) [OF ok ran(3)] by (simp_all add: stage_ok_def)
    from blocking_keeps_store [OF ran(4) served task_okD(3) [OF ok ran(3)] this json]
    show ?thesis using ran(2) by (simp add: store_served_def)
  next
    case (orphaned rq conns j env now r sh)
    have "request_ok rq" "store_request rq" "rq = Stats \<longrightarrow> j \<noteq> None"
      using ok orphaned(3) by (auto simp: world_ok_def orphans_ok_def)
    from blocking_keeps_store [OF orphaned(4) served this json]
    show ?thesis using orphaned(2) by (simp add: store_served_def)
  qed (use st in \<open>simp_all add: store_served_def\<close>)
qed

lemma step_orphans_ok:
  assumes ok: "world_ok X maximum w" and step: "server_step X token maximum w ev w'"
  shows "orphans_ok w'"
proof -
  have orph: "orphans_ok w" using ok by (simp add: world_ok_def)
  show ?thesis
    using step
  proof (cases rule: server_stepE)
    case (orphaned rq conns j env now r sh)
    then show ?thesis using orph set_remove1_subset [of "(rq, conns, j)" "w_orphans w"] by (auto simp: orphans_ok_def)
  next
    case (cancelling n s c i rq st)
    have "orphan rq st = [] \<or> (\<exists>conns j. orphan rq st = [(rq, conns, j)] \<and> st = Blocking conns j)"
      by (cases st) (simp_all add: orphan_def)
    moreover have "w_orphans w' = w_orphans w @ orphan rq st" using cancelling(2) by simp
    ultimately show ?thesis
      using orph task_okD(2,3) [OF ok cancelling(5)] by (auto simp: orphans_ok_def stage_ok_def)
  qed (use orph in \<open>simp_all add: orphans_ok_def\<close>)
qed

section \<open>The tasks\<close>

text \<open>Steps keep the owner of a TAKE.\<close>

definition takes_kept :: "system \<Rightarrow> system \<Rightarrow> bool" where
  "takes_kept \<sigma> \<sigma>' =
     (\<forall>k tk tk'. hm_get (takes \<sigma>) k = Some tk \<and> hm_get (takes \<sigma>') k = Some tk' \<longrightarrow> tk_worker tk' = tk_worker tk)"

lemma takes_keptI:
  "takes \<sigma>' = takes \<sigma> \<Longrightarrow> takes_kept \<sigma> \<sigma>'"
  "(\<And>k. map_option tk_worker (hm_get (takes \<sigma>') k) = map_option tk_worker (hm_get (takes \<sigma>) k)) \<Longrightarrow> takes_kept \<sigma> \<sigma>'"
  by (auto simp: takes_kept_def) (metis option.inject option.map(2))

lemma takes_kept_after [simp]:
  "takes_kept \<sigma> (end_take k tk s \<sigma>)" "takes_kept \<sigma> (abort_task st \<sigma>)"
  "hm_get (takes \<sigma>) k = None \<Longrightarrow> takes_kept \<sigma> (after_dispatch n k now out s \<sigma>)"
  by (auto simp: takes_kept_def end_take_def abort_task_def after_dispatch_def
      split: dispatched_as.splits stage.splits option.splits if_splits)

lemma stage_kept:
  assumes ok: "world_ok X maximum w" and t: "w_tasks w (n, i) = Some (rq, st)" and kept: "takes_kept (w_system w) \<sigma>"
  shows "stage_ok \<sigma> n rq st"
proof (cases st)
  case (Taking k)
  obtain tk where "hm_get (takes (w_system w)) k = Some tk" "tk_worker tk = n"
    by (rule take_member [OF ok t [unfolded Taking]])
  then show ?thesis using task_okD(2) [OF ok t] kept Taking by (auto simp: stage_ok_def takes_kept_def)
qed (use task_okD(2) [OF ok t] in \<open>simp_all add: stage_ok_def\<close>)

lemma tasksD:
  assumes "world_ok X maximum w"
  shows "w_tasks w (n, i) = Some (rq, st) \<Longrightarrow> \<exists>s c op. w_clients w n = Some (Active s c) \<and> op \<in> set (cn_operations c)
      \<and> op_request_id op = i \<and> op_request op = rq"
    and "w_clients w n = Some (Active s c) \<Longrightarrow> cn_phase c \<noteq> Finished \<Longrightarrow> op \<in> set (cn_operations c) \<Longrightarrow>
      \<exists>st. w_tasks w (n, op_request_id op) = Some (op_request op, st)"
  using assms unfolding world_ok_def tasks_ok_def task_ok_def by blast+

lemma task_request:
  assumes ok: "world_ok X maximum w" and c: "w_clients w n = Some (Active s c)" "op \<in> set (cn_operations c)"
    and t: "w_tasks w (n, op_request_id op) = Some (rq, st)"
  shows "rq = op_request op"
proof -
  have "conn_ok c" using ok c(1) by (auto simp: world_ok_def clients_ok_def)
  then have "inj_on op_request_id (set (cn_operations c))" by (simp add: conn_ok_def distinct_map)
  moreover obtain op' where "op' \<in> set (cn_operations c)" "op_request_id op' = op_request_id op" "op_request op' = rq"
    using tasksD(1) [OF ok t] c(1) by auto
  ultimately show ?thesis using c(2) by (metis inj_onD)
qed

lemma tasks_okI:
  assumes "\<And>n i rq st. w_tasks w (n, i) = Some (rq, st) \<Longrightarrow> task_ok w n i rq st"
    and "\<And>n s c op. w_clients w n = Some (Active s c) \<Longrightarrow> cn_phase c \<noteq> Finished \<Longrightarrow> op \<in> set (cn_operations c) \<Longrightarrow>
      \<exists>st. w_tasks w (n, op_request_id op) = Some (op_request op, st)"
  shows "tasks_ok w"
  using assms unfolding tasks_ok_def by blast

text \<open>A task that was there, after a step that keeps the owners of TAKEs and the operation of the task.\<close>

lemma task_kept:
  assumes ok: "world_ok X maximum w" and t: "w_tasks w (n, i) = Some (rq, st)" and kept: "takes_kept (w_system w) (w_system w')"
    and op: "\<And>s c op. w_clients w n = Some (Active s c) \<Longrightarrow> op \<in> set (cn_operations c) \<Longrightarrow> op_request_id op = i \<Longrightarrow>
      \<exists>s' c'. w_clients w' n = Some (Active s' c') \<and> op \<in> set (cn_operations c')"
  shows "task_ok w' n i rq st"
proof -
  obtain s c op' where o: "w_clients w n = Some (Active s c)" "op' \<in> set (cn_operations c)" "op_request_id op' = i" "op_request op' = rq"
    using tasksD(1) [OF ok t] by blast
  then obtain s' c' where "w_clients w' n = Some (Active s' c')" "op' \<in> set (cn_operations c')" using op by blast
  then show ?thesis using o(3,4) stage_kept [OF ok t kept] task_okD(3,4) [OF ok t] unfolding task_ok_def by blast
qed

lemma tasks_put:
  assumes ok: "world_ok X maximum w" and t: "w_tasks w (n, i) = Some (rq, st)" and kept: "takes_kept (w_system w) (w_system w')"
    and c: "w_clients w' = w_clients w" and put: "w_tasks w' = (w_tasks w)((n, i) \<mapsto> (rq, st'))"
    and st: "stage_ok (w_system w') n rq st'"
  shows "tasks_ok w'"
proof (rule tasks_okI)
  fix m j rq2 st2 assume t2: "w_tasks w' (m, j) = Some (rq2, st2)"
  show "task_ok w' m j rq2 st2"
  proof (cases "(m, j) = (n, i)")
    case True
    then have "m = n" "j = i" "rq2 = rq" "st2 = st'" using t2 put by simp_all
    then show ?thesis
      using st c tasksD(1) [OF ok t] task_okD(3,4) [OF ok t] by (simp add: task_ok_def)
  next
    case False
    then have "w_tasks w (m, j) = Some (rq2, st2)" using t2 put by (simp split: if_splits)
    then show ?thesis by (rule task_kept [OF ok _ kept]) (simp add: c)
  qed
next
  fix m s c op assume "w_clients w' m = Some (Active s c)" "cn_phase c \<noteq> Finished" "op \<in> set (cn_operations c)"
  then obtain st2 where "w_tasks w (m, op_request_id op) = Some (op_request op, st2)"
    using tasksD(2) [OF ok, of m s c op] assms(4) by auto
  then show "\<exists>st. w_tasks w' (m, op_request_id op) = Some (op_request op, st)"
    using t put by auto
qed

lemma tasks_conn:
  assumes ok: "world_ok X maximum w" and c: "w_clients w n = Some (Active s c)"
    and c': "w_clients w' = (w_clients w)(n \<mapsto> Active s' c')" "cn_operations c' = cn_operations c"
      "cn_phase c' \<noteq> Finished \<Longrightarrow> cn_phase c \<noteq> Finished"
    and same: "w_tasks w' = w_tasks w" "takes (w_system w') = takes (w_system w)"
  shows "tasks_ok w'"
proof (rule tasks_okI)
  fix m j rq st assume "w_tasks w' (m, j) = Some (rq, st)"
  then have "w_tasks w (m, j) = Some (rq, st)" by (simp add: same)
  then show "task_ok w' m j rq st"
    by (rule task_kept [OF ok _ takes_keptI(1) [OF same(2)]]) (use c c' in auto)
next
  fix m s2 c2 op assume "w_clients w' m = Some (Active s2 c2)" "cn_phase c2 \<noteq> Finished" "op \<in> set (cn_operations c2)"
  then show "\<exists>st. w_tasks w' (m, op_request_id op) = Some (op_request op, st)"
    using tasksD(2) [OF ok, of m] c c' same by (cases "m = n") auto
qed

lemma tasks_equal:
  assumes "tasks_ok w" and "w_clients w' = w_clients w" "w_tasks w' = w_tasks w" "w_system w' = w_system w"
  shows "tasks_ok w'"
  using assms by (simp only: tasks_ok_def task_ok_def)

text \<open>A client that has no task comes, goes, or is greeted.\<close>

lemma tasks_client:
  assumes ok: "world_ok X maximum w" and none: "\<And>i. w_tasks w (n, i) = None"
    and c: "w_clients w' = (w_clients w)(n := v)" "\<And>s c. v = Some (Active s c) \<Longrightarrow> cn_operations c = []"
    and same: "w_tasks w' = w_tasks w" "takes (w_system w') = takes (w_system w)"
  shows "tasks_ok w'"
proof (rule tasks_okI)
  fix m j rq st assume "w_tasks w' (m, j) = Some (rq, st)"
  then have t: "w_tasks w (m, j) = Some (rq, st)" by (simp add: same)
  then have "m \<noteq> n" using none by auto
  then show "task_ok w' m j rq st"
    by (intro task_kept [OF ok t takes_keptI(1) [OF same(2)]]) (simp add: c(1))
next
  fix m s2 c2 op assume "w_clients w' m = Some (Active s2 c2)" "cn_phase c2 \<noteq> Finished" "op \<in> set (cn_operations c2)"
  then show "\<exists>st. w_tasks w' (m, op_request_id op) = Some (op_request op, st)"
    using tasksD(2) [OF ok, of m] c same by (cases "m = n") auto
qed

lemma tasks_started:
  assumes ok: "world_ok X maximum w" and c: "w_clients w n = Some (Active s c)" "cn_phase c = Serving" "op_request_id op \<notin> cn_ids c"
    and c': "w_clients w' = (w_clients w)(n \<mapsto> Active s' c')" "cn_operations c' = cn_operations c @ [op]"
    and rq: "request_ok (op_request op)" "\<And>v token. op_request op \<noteq> Hello v token"
    and put: "w_tasks w' = (w_tasks w)((n, op_request_id op) \<mapsto> (op_request op, Spawned m))"
    and sys: "w_system w' = w_system w"
  shows "tasks_ok w'"
proof (rule tasks_okI)
  fix k j rq2 st2 assume t2: "w_tasks w' (k, j) = Some (rq2, st2)"
  show "task_ok w' k j rq2 st2"
  proof (cases "(k, j) = (n, op_request_id op)")
    case True
    then have "k = n" "j = op_request_id op" "rq2 = op_request op" "st2 = Spawned m" using t2 put by simp_all
    then show ?thesis using rq c' by (auto simp: task_ok_def stage_ok_def)
  next
    case False
    then have "w_tasks w (k, j) = Some (rq2, st2)" using t2 put by (simp split: if_splits)
    then show ?thesis
      by (rule task_kept [OF ok _ takes_keptI(1)]) (use c(1) c' sys in \<open>auto\<close>)
  qed
next
  fix k s2 c2 op2 assume a: "w_clients w' k = Some (Active s2 c2)" "cn_phase c2 \<noteq> Finished" "op2 \<in> set (cn_operations c2)"
  have "op_request_id op \<notin> op_request_id ` set (cn_operations c)" by (rule free_id(1) [OF ok c])
  then show "\<exists>st. w_tasks w' (k, op_request_id op2) = Some (op_request op2, st)"
    using tasksD(2) [OF ok, of k] a c(1,2) c' put by (cases "k = n") (auto simp: image_iff)
qed

lemma tasks_removed:
  assumes ok: "world_ok X maximum w" and c: "w_clients w n = Some (Active s c)" "op \<in> set (cn_operations c)"
    and c': "w_clients w' = (w_clients w)(n \<mapsto> Active s' c')" "cn_operations c' = remove1 op (cn_operations c)"
      "cn_phase c' \<noteq> Finished \<Longrightarrow> cn_phase c \<noteq> Finished"
    and put: "w_tasks w' = (w_tasks w)((n, op_request_id op) := None)"
    and sys: "w_system w' = w_system w"
  shows "tasks_ok w'"
proof -
  have "conn_ok c" using ok c(1) by (auto simp: world_ok_def clients_ok_def)
  then have dist: "distinct (map op_request_id (cn_operations c))" by (simp add: conn_ok_def)
  then have ops: "set (cn_operations c') = set (cn_operations c) - {op}"
    using c'(2) by (simp add: distinct_map set_remove1_eq)
  have ids: "op_request_id op2 \<noteq> op_request_id op" if "op2 \<in> set (cn_operations c')" for op2
    using that dist c(2) ops by (auto simp: distinct_map dest: inj_onD)
  show ?thesis
  proof (rule tasks_okI)
    fix k j rq2 st2 assume "w_tasks w' (k, j) = Some (rq2, st2)"
    then have t2: "w_tasks w (k, j) = Some (rq2, st2)" and ne: "(k, j) \<noteq> (n, op_request_id op)"
      using put by (simp_all split: if_splits)
    show "task_ok w' k j rq2 st2"
    proof (rule task_kept [OF ok t2 takes_keptI(1)])
      fix s0 c0 op0 assume "w_clients w k = Some (Active s0 c0)" "op0 \<in> set (cn_operations c0)" "op_request_id op0 = j"
      then show "\<exists>s' c'. w_clients w' k = Some (Active s' c') \<and> op0 \<in> set (cn_operations c')"
        using c(1) c'(1) ne ops by (cases "k = n") auto
    qed (simp add: sys)
  next
    fix k s2 c2 op2 assume a: "w_clients w' k = Some (Active s2 c2)" "cn_phase c2 \<noteq> Finished" "op2 \<in> set (cn_operations c2)"
    show "\<exists>st. w_tasks w' (k, op_request_id op2) = Some (op_request op2, st)"
    proof (cases "k = n")
      case True
      then have "op2 \<in> set (cn_operations c')" "cn_phase c \<noteq> Finished" using a c'(1,3) by simp_all
      then show ?thesis using True tasksD(2) [OF ok c(1), of op2] ids ops put by auto
    next
      case False
      then show ?thesis using a tasksD(2) [OF ok, of k] c'(1) put by auto
    qed
  qed
qed

lemma step_tasks_ok:
  assumes ok: "world_ok X maximum w" and step: "server_step X token maximum w ev w'"
  shows "tasks_ok w'"
proof -
  have tasks: "tasks_ok w" using ok by (simp add: world_ok_def)
  have new: "w_tasks w (n, i) = None" if "\<And>s c. w_clients w n \<noteq> Some (Active s c)" for n i
    using tasksD(1) [OF ok, of n i] that by (cases "w_tasks w (n, i)") auto
  show ?thesis
    using step
  proof (cases rule: server_stepE)
    case (arrived a l input)
    show ?thesis
      using arrived(3)
    proof (cases rule: accept_cases)
      case refused
      then show ?thesis by (intro tasks_equal [OF tasks]) (simp_all add: arrived(2) split: accepted.split)
    next
      case (served m)
      then have "m \<notin> given_numbers (w_listener w)" by (simp add: given_numbers_def word_le_nat_alt)
      then have "w_clients w m = None" using ok by (auto simp: world_ok_def numbers_ok_def)
      then show ?thesis
        by (intro tasks_client [OF ok new, of m w' "Some (Greeting input)"]) (simp_all add: arrived(2) served(1))
    qed
  next
    case (greeted n s io1 io2 wfault t out rest)
    show ?thesis
      by (rule tasks_client [OF ok new, of n w' "Some (Active rest connection_new)"])
        (simp_all add: greeted(2,3) connection_new_def)
  next
    case (rejected n s io1 io2 wfault t)
    show ?thesis by (rule tasks_client [OF ok new, of n w' None]) (simp_all add: rejected(2,3))
  next
    case (framed n s c io1 io2 opcode i body rest)
    show ?thesis
    proof (cases rule: on_frame_cases [of opcode i body c])
      case nothing
      then show ?thesis
        by (intro tasks_conn [OF ok framed(3), where c' = "on_frame opcode i body c" and s' = rest])
          (use framed in \<open>simp_all add: spawn_task_def\<close>)
    next
      case (started rq)
      have "request_ok rq" using decode_request_dec [OF started(1)] by simp
      then show ?thesis
        by (intro tasks_started [OF ok framed(3,4), where op = "\<lparr>op_request_id = i, op_opcode = opcode, op_request = rq\<rparr>"
              and c' = "on_frame opcode i body c" and s' = rest and m = "maximum - free_connections (w_listener w)"])
          (use started(2-4) framed(2) in \<open>simp_all add: spawn_started [OF started(4)]\<close>)
    qed
  next
    case (dispatched n i rq conns env now now1 now2 out sh s k now3)
    have "stage_ok (w_system w') n rq (stage_of k out)"
      using dispatch_outcomes [OF dispatched(4)] ok dispatched(2)
      by (cases out) (auto simp: stage_ok_def stage_of_def after_dispatch_def world_ok_def sys_ok_def)
    then show ?thesis
      by (rule tasks_put [OF ok dispatched(3), rotated 3]) (use dispatched(2,5) in simp_all)
  next
    case (handed n i rq conns)
    show ?thesis
      by (rule tasks_put [OF ok handed(3), where st' = "Blocking conns (if rq = Stats then Some (rpc_stats (rpc (w_system w))) else None)"])
        (use handed in \<open>simp_all add: stage_ok_def takes_keptI\<close>)
  next
    case (ran n i rq conns j env now r sh)
    show ?thesis
      by (rule tasks_put [OF ok ran(3), where st' = "Replied r"]) (simp_all add: ran(2) stage_ok_def takes_keptI)
  next
    case (orphaned rq conns j env now r sh)
    show ?thesis by (rule tasks_equal [OF tasks]) (simp_all add: orphaned(2))
  next
    case (stepped m j rq' k e \<sigma>)
    note turn = take_turn_step [OF stepped(4)]
    have kept: "takes_kept (w_system w) (w_system w')"
      by (rule takes_keptI(2)) (use progress_frame(3) [where ev = e and \<sigma>' = \<sigma>] turn stepped(2) in simp)
    show ?thesis
    proof (rule tasks_okI)
      fix n i rq st assume "w_tasks w' (n, i) = Some (rq, st)"
      then have "w_tasks w (n, i) = Some (rq, st)" using stepped(2) by simp
      then show "task_ok w' n i rq st" by (rule task_kept [OF ok _ kept]) (simp add: stepped(2))
    qed (use stepped(2) tasksD(2) [OF ok] in simp)
  next
    case (took n i rq k tk e now1 now2 res s)
    show ?thesis
      by (rule tasks_put [OF ok took(3), where st' = "Replied (take_reply res)"]) (simp_all add: took(2) stage_ok_def)
  next
    case (took_none n i rq k tk e now)
    show ?thesis
      by (rule tasks_put [OF ok took_none(3), where st' = "Replied (Inr (take_body None))"]) (simp_all add: took_none(2) stage_ok_def)
  next
    case (answering n i rq t now r s)
    show ?thesis
      by (rule tasks_put [OF ok answering(3), where st' = "Replied (rpc_body r)"])
        (simp_all add: answering(2) stage_ok_def takes_keptI)
  next
    case (finishing n s c op rq r)
    show ?thesis
      by (rule tasks_removed [OF ok finishing(3,4), where c' = "on_finished op r c" and s' = s])
        (simp_all add: finishing(2), simp_all add: on_finished_def split: prod.splits)
  next
    case (retiring n s c r rest)
    show ?thesis by (rule tasks_conn [OF ok retiring(3), where c' = "on_retired r rest c" and s' = s]) (use retiring in \<open>simp_all add: on_retired_def\<close>)
  next
    case (wrote n s c r)
    have "cn_phase c = Finished \<Longrightarrow> cn_phase (on_written r c) = Finished" "cn_operations (on_written r c) = cn_operations c"
      by (auto simp: on_written_def)
    then show ?thesis by (intro tasks_conn [OF ok wrote(3), where c' = "on_written r c" and s' = s]) (use wrote in auto)
  next
    case (failed n s c)
    show ?thesis by (rule tasks_conn [OF ok failed(3), where c' = "c\<lparr>cn_phase := Finished\<rparr>" and s' = s]) (use failed in simp_all)
  next
    case (cancelling n s c i rq st)
    show ?thesis
    proof (rule tasks_okI)
      fix m j rq2 st2 assume "w_tasks w' (m, j) = Some (rq2, st2)"
      then have t2: "w_tasks w (m, j) = Some (rq2, st2)" using cancelling(2) by (simp split: if_splits)
      show "task_ok w' m j rq2 st2" by (rule task_kept [OF ok t2]) (simp_all add: cancelling(2))
    next
      fix m s2 c2 op assume "w_clients w' m = Some (Active s2 c2)" "cn_phase c2 \<noteq> Finished" "op \<in> set (cn_operations c2)"
      then show "\<exists>st. w_tasks w' (m, op_request_id op) = Some (op_request op, st)"
        using tasksD(2) [OF ok, of m s2 c2 op] cancelling(2-4) by auto
    qed
  next
    case (left n s c st)
    show ?thesis by (rule tasks_conn [OF ok left(3), where c' = c and s' = s]) (use left in \<open>auto\<close>)
  next
    case (gone n s c)
    show ?thesis by (rule tasks_client [OF ok, of n w' None]) (use gone in simp_all)
  qed
qed

section \<open>Runs\<close>

definition world_inv :: "externals \<Rightarrow> nat \<Rightarrow> world \<Rightarrow> bool" where
  "world_inv X maximum w = (json_objects (ex_to_vec X) (ex_from_slice X) \<and> world_ok X maximum w)"

interpretation world_sys: invariant_system "server_step X token maximum" "world_inv X maximum" for X token maximum
proof unfold_locales
  fix w ev w' assume inv: "world_inv X maximum w" and step: "server_step X token maximum w ev w'"
  then have json: "json_objects (ex_to_vec X) (ex_from_slice X)" and ok: "world_ok X maximum w" by (simp_all add: world_inv_def)
  show "world_inv X maximum w'"
    unfolding world_inv_def world_ok_def
    using json step_sys_ok [OF ok step] step_clients_ok [OF ok step] step_tasks_ok [OF ok step] step_held_ok [OF ok step]
      step_numbers_ok [OF ok step] step_store_served [OF ok step json] step_orphans_ok [OF ok step] by blast
qed

text \<open>The server starts in the invariant.\<close>

lemma serving_system:
  assumes "serve_start env crc now components config dirs file = (Inr sv, dirs', file')"
  shows "w_system (serving sv) = system_new (cfg_max_rpc_calls config) (of_nat (cfg_max_rpc_bytes config))"
  using serve_start_reachable(3) [OF assms] by (simp add: serving_def system_new_def)

lemma serving_inv:
  assumes start: "serve_start env (ex_crc X) now components config dirs file = (Inr sv, dirs', file')"
    and json: "json_objects (ex_to_vec X) (ex_from_slice X)"
  shows "world_inv X (cfg_max_connections config) (serving sv)"
proof -
  have "sys_ok (w_system (serving sv))" unfolding serving_system [OF start] by (rule sys_new_ok)
  moreover have "clients_ok (serving sv)" "tasks_ok (serving sv)" "orphans_ok (serving sv)"
    by (simp_all add: serving_def clients_ok_def tasks_ok_def orphans_ok_def)
  moreover have "held_ok (serving sv)"
    by (auto simp: serving_def held_ok_def partitions_def tickets_held_def takes_held_def)
  moreover have "numbers_ok (cfg_max_connections config) (serving sv)"
    using serve_start_reachable(3,5) [OF start]
    by (auto simp: serving_def numbers_ok_def system_new_def rpc_new_def)
  moreover have "store_served X (serving sv)"
    using serve_start_reachable(1,2) [OF start] by (simp add: serving_def store_served_def)
  ultimately show ?thesis using json by (simp add: world_inv_def world_ok_def)
qed

lemma served_run_ok:
  assumes "serve_start env (ex_crc X) now components config dirs file = (Inr sv, dirs', file')"
    and "json_objects (ex_to_vec X) (ex_from_slice X)"
    and "runs (server_step X token (cfg_max_connections config)) (serving sv) evs w"
  shows "world_ok X (cfg_max_connections config) w"
  using world_sys.run_inv [OF assms(3) serving_inv [OF assms(1,2)]] by (simp add: world_inv_def)

end
