(* ===== verification/World_Trace.thy ===== *)
theory World_Trace
  imports World_Safe
begin

text \<open>
  What a run of the server is to its parts: a run of the scheduler, of the accept loop and of every
  connection; and what the responses that have been written go back to.
\<close>

section \<open>The scheduler and the accept loop\<close>

lemma events_of_member: "x \<in> set (events_of f evs) \<longleftrightarrow> (\<exists>ev \<in> set evs. x \<in> set (f ev))"
  by (simp add: events_of_def)

text \<open>A property that every step from the invariant takes along holds of a run.\<close>

lemma run_induct [consumes 2, case_names start step]:
  assumes run: "runs (server_step X token maximum) w evs w'" and inv: "world_inv X maximum w"
    and start: "P [] w"
    and step: "\<And>evs v ev u. P evs v \<Longrightarrow> world_ok X maximum v \<Longrightarrow> json_objects (ex_to_vec X) (ex_from_slice X) \<Longrightarrow>
      server_step X token maximum v ev u \<Longrightarrow> P (evs @ [ev]) u"
  shows "P evs w'"
  using run inv start
proof (induction rule: runs.induct)
  case (runs_snoc w evs v ev u)
  have "world_inv X maximum v" by (rule world_sys.run_inv [OF runs_snoc(1,4)])
  then show ?case using step runs_snoc by (auto simp: world_inv_def)
qed

lemma run_scheduler:
  assumes "runs (server_step X token maximum) w evs w'" and "world_inv X maximum w"
  shows "runs rpc_step (w_system w) (events_of rpc_events evs) (w_system w')"
  using assms
proof (induction rule: run_induct)
  case (step evs v ev u)
  from runs_append [OF step_runs [OF step(2,4)] step(1)] show ?case by simp
qed (simp add: runs_nil)

lemma accept_one: "accept_step maximum l ev l' \<Longrightarrow> runs (accept_step maximum) l [ev] l'"
  by (rule runs_one)

lemma free_below:
  assumes "numbers_ok maximum w" and "w_clients w n \<noteq> None"
  shows "free_connections (w_listener w) < maximum"
proof -
  have "0 < card (dom (w_clients w))"
    using numbersD(5) [OF assms(1)] assms(2) by (auto simp: card_gt_0_iff)
  then show ?thesis using numbersD(6) [OF assms(1)] by simp
qed

lemma step_accepts:
  assumes ok: "world_ok X maximum w" and step: "server_step X token maximum w ev w'"
  shows "runs (accept_step maximum) (w_listener w) (accept_events ev) (w_listener w')"
proof -
  have num: "numbers_ok maximum w" using ok by (simp add: world_ok_def)
  show ?thesis
    using step
  proof (cases rule: server_stepE)
    case (arrived a l input)
    then show ?thesis using accept_one [OF accept_step.accepted] by simp
  next
    case (rejected n s io1 io2 wfault t)
    then show ?thesis using accept_one [OF accept_step.closed [OF free_below [OF num, of n]]] by simp
  next
    case (gone n s c)
    then show ?thesis using accept_one [OF accept_step.closed [OF free_below [OF num, of n]]] by simp
  qed (simp_all add: runs_nil)
qed

lemma run_accepts:
  assumes "runs (server_step X token maximum) w evs w'" and "world_inv X maximum w"
  shows "runs (accept_step maximum) (w_listener w) (events_of accept_events evs) (w_listener w')"
  using assms
proof (induction rule: run_induct)
  case (step evs v ev u)
  from runs_append [OF step_accepts [OF step(2,4)] step(1)] show ?case by simp
qed (simp add: runs_nil)

section \<open>The connections\<close>

lemma conn_one: "conn_step c ev c' \<Longrightarrow> runs conn_step c [ev] c'"
  by (rule runs_one)

lemma read_frame_id: "read_frame authenticated io1 io2 s = Inr ((opcode, i, body), rest) \<Longrightarrow> i \<noteq> 0"
  by (auto simp: read_frame_def and_then_def Let_def split: sum.splits if_splits prod.splits)

lemma step_conn:
  assumes step: "server_step X token maximum w ev w'"
    and "w_clients w n = Some (Active s c)" "w_clients w' n = Some (Active s' c')"
  shows "runs conn_step c (conn_events n ev) c'"
  using step
proof (cases rule: server_stepE)
  case (framed m s1 c1 io1 io2 opcode i body rest)
  show ?thesis
  proof (cases "m = n")
    case True
    then show ?thesis
      using assms(2,3) framed conn_one [OF conn_step.received [OF framed(4) read_frame_id [OF framed(5)], of opcode body]] by simp
  qed (use assms(2,3) framed(1,2) in \<open>simp add: runs_nil\<close>)
next
  case (finishing m s1 c1 op rq r)
  show ?thesis
  proof (cases "m = n")
    case True
    then show ?thesis using assms(2,3) finishing conn_one [OF conn_step.finished [OF finishing(4), of r]] by simp
  qed (use assms(2,3) finishing(1,2) in \<open>simp add: runs_nil\<close>)
next
  case (retiring m s1 c1 r rest)
  show ?thesis
  proof (cases "m = n")
    case True
    then show ?thesis using assms(2,3) retiring conn_one [OF conn_step.retired [OF retiring(4,5)]] by simp
  qed (use assms(2,3) retiring(1,2) in \<open>simp add: runs_nil\<close>)
next
  case (wrote m s1 c1 r)
  show ?thesis
  proof (cases "m = n")
    case True
    then show ?thesis using assms(2,3) wrote conn_one [OF conn_step.written [OF wrote(4)]] by simp
  qed (use assms(2,3) wrote(1,2) in \<open>simp add: runs_nil\<close>)
next
  case (failed m s1 c1)
  show ?thesis
  proof (cases "m = n")
    case True
    then show ?thesis using assms(2,3) failed conn_one [OF conn_step.lost [OF failed(4)]] by simp
  qed (use assms(2,3) failed(1,2) in \<open>simp add: runs_nil\<close>)
qed (use assms(2,3) in \<open>auto simp: runs_nil split: accepted.splits if_splits\<close>)

text \<open>The steps that make a client, greet it, or end it say nothing of its connection.\<close>

lemma step_conn_silent:
  assumes step: "server_step X token maximum w ev w'"
  shows "conn_events n ev \<noteq> [] \<Longrightarrow> (\<exists>s c. w_clients w n = Some (Active s c)) \<and> (\<exists>s c. w_clients w' n = Some (Active s c))"
    and "w_clients w' n = Some (Active s c) \<Longrightarrow>
      (\<exists>s' c'. w_clients w n = Some (Active s' c')) \<or> c = connection_new \<and> (\<exists>s'. w_clients w n = Some (Greeting s'))"
    and "w_clients w' n = Some (Greeting s) \<Longrightarrow> w_clients w n = Some (Greeting s) \<or> ev = Arrived (Served n)"
  using step by (cases rule: server_stepE; auto split: if_splits accepted.splits)+

lemma step_given_numbers:
  assumes step: "server_step X token maximum w ev w'"
  shows "given_numbers (w_listener w) \<subseteq> given_numbers (w_listener w')"
    and "ev = Arrived (Served n) \<Longrightarrow> n \<notin> given_numbers (w_listener w)"
proof -
  have sub: "given_numbers l \<subseteq> given_numbers l'" if "accept l = (a, l')" for a l l'
    using that by (cases rule: accept_cases) (auto intro!: given_numbers_mono)
  show "given_numbers (w_listener w) \<subseteq> given_numbers (w_listener w')"
    using step by (cases rule: server_stepE) (use sub in \<open>auto simp: given_numbers_def released_def\<close>)
  show "n \<notin> given_numbers (w_listener w)" if arr: "ev = Arrived (Served n)"
  proof -
    obtain l where "accept (w_listener w) = (Served n, l)"
      using step by (cases rule: server_stepE) (use arr in auto)
    then show ?thesis by (cases rule: accept_cases) (auto simp: given_numbers_def word_le_nat_alt)
  qed
qed

definition conn_hist :: "server_event list \<Rightarrow> world \<Rightarrow> u64 \<Rightarrow> bool" where
  "conn_hist evs w n =
     ((\<exists>c. runs conn_step connection_new (events_of (conn_events n) evs) c
         \<and> (\<forall>s c'. w_clients w n = Some (Active s c') \<longrightarrow> c' = c))
      \<and> ((\<exists>s. w_clients w n = Some (Greeting s)) \<or> n \<notin> given_numbers (w_listener w) \<longrightarrow> events_of (conn_events n) evs = []))"

lemma conn_hist_step:
  assumes hist: "conn_hist evs w n" and ok: "world_ok X maximum w" and step: "server_step X token maximum w ev w'"
  shows "conn_hist (evs @ [ev]) w' n"
proof -
  have num: "numbers_ok maximum w" using ok by (simp add: world_ok_def)
  let ?ls = "events_of (conn_events n) evs"
  note silent = step_conn_silent [OF step]
  obtain c where run: "runs conn_step connection_new ?ls c" and c: "\<And>s c'. w_clients w n = Some (Active s c') \<Longrightarrow> c' = c"
    using hist unfolding conn_hist_def by blast
  show ?thesis
  proof (cases "\<exists>s c. w_clients w n = Some (Active s c)")
    case True
    then obtain s where s: "w_clients w n = Some (Active s c)" using c by blast
    then have "n \<in> given_numbers (w_listener w)" using numbersD(2) [OF num] by auto
    then have n: "n \<in> given_numbers (w_listener w')" using step_given_numbers(1) [OF step] by blast
    have "ev \<noteq> Arrived (Served n)" using step_given_numbers(2) [OF step] \<open>n \<in> given_numbers (w_listener w)\<close> by blast
    then have "w_clients w' n \<noteq> Some (Greeting s')" for s' using silent(3) [of n s'] s by auto
    moreover have "\<exists>c'. runs conn_step connection_new (?ls @ conn_events n ev) c' \<and> (\<forall>s' c2. w_clients w' n = Some (Active s' c2) \<longrightarrow> c2 = c')"
    proof (cases "\<exists>s c. w_clients w' n = Some (Active s c)")
      case True
      then obtain s' c' where s': "w_clients w' n = Some (Active s' c')" by blast
      then show ?thesis using runs_append [OF step_conn [OF step s s'] run] by auto
    next
      case False
      then have "conn_events n ev = []" using silent(1) [of n] by blast
      then show ?thesis using False run by auto
    qed
    ultimately show ?thesis using n by (simp add: conn_hist_def)
  next
    case False
    then have none: "conn_events n ev = []" using silent(1) by blast
    have new: "c' = connection_new \<and> ?ls = []" if "w_clients w' n = Some (Active s c')" for s c'
      using silent(2) [OF that] False hist by (auto simp: conn_hist_def)
    have "?ls = []" if g: "w_clients w' n = Some (Greeting s)" for s
    proof (cases "w_clients w n = Some (Greeting s)")
      case True
      then show ?thesis using hist by (auto simp: conn_hist_def)
    next
      case False
      then show ?thesis using silent(3) [OF g] step_given_numbers(2) [OF step] hist by (auto simp: conn_hist_def)
    qed
    moreover have "?ls = []" if "n \<notin> given_numbers (w_listener w')"
      using that step_given_numbers(1) [OF step] hist by (auto simp: conn_hist_def)
    moreover have "\<exists>c'. runs conn_step connection_new ?ls c' \<and> (\<forall>s' c2. w_clients w' n = Some (Active s' c2) \<longrightarrow> c2 = c')"
      using new run runs_nil [of conn_step connection_new] by (metis (no_types, lifting))
    ultimately show ?thesis using none by (auto simp: conn_hist_def)
  qed
qed

lemma run_connections:
  assumes "runs (server_step X token maximum) w evs w'" and "world_inv X maximum w" and "w_clients w = Map.empty"
  shows "conn_hist evs w' n"
  using assms(1,2)
proof (induction rule: run_induct)
  case start
  then show ?case using assms(3) runs_nil [of conn_step connection_new] by (auto simp: conn_hist_def)
next
  case (step evs v ev u)
  then show ?case by (intro conn_hist_step)
qed

section \<open>What a connection has answered\<close>

text \<open>An operation goes back to a frame, and a response to a refusal or to the end of an operation.\<close>

definition was_received :: "conn_event list \<Rightarrow> operation \<Rightarrow> bool" where
  "was_received ls op =
     (\<exists>body. Received (op_opcode op) (op_request_id op) body \<in> set ls \<and> decode_request (op_opcode op) body = Inr (op_request op))"

definition response_for :: "operation \<Rightarrow> error + bytes \<Rightarrow> response \<Rightarrow> bool" where
  "response_for op res r = (rs_request_id r = op_request_id op \<and> response_of (op_opcode op) res = (rs_opcode r, rs_body r))"

definition goes_back :: "conn_event list \<Rightarrow> response \<Rightarrow> bool" where
  "goes_back ls r = ((\<exists>close. refusal close r) \<or> (\<exists>op res. OpFinished op res \<in> set ls \<and> response_for op res r))"

definition conn_trace_ok :: "conn_event list \<Rightarrow> connection \<Rightarrow> bool" where
  "conn_trace_ok ls c =
     ((\<forall>op \<in> set (cn_operations c). was_received ls op)
      \<and> (\<forall>op res. OpFinished op res \<in> set ls \<longrightarrow> was_received ls op)
      \<and> (\<forall>r \<in> set (cn_responses c) \<union> set_option (cn_writing c). goes_back ls r))"

lemma was_received_mono: "was_received ls op \<Longrightarrow> was_received (ls @ [ev]) op"
  by (auto simp: was_received_def)

lemma goes_back_mono: "goes_back ls r \<Longrightarrow> goes_back (ls @ [ev]) r"
  by (auto simp: goes_back_def)

lemma refuse_responses:
  assumes "close \<longleftrightarrow> err_code e = PROTOCOL"
  shows "r \<in> set (cn_responses (refuse i e permit close c)) \<Longrightarrow> r \<in> set (cn_responses c) \<or> refusal close r"
  using assms by (auto simp: refuse_def refusal_def)

lemma on_frame_responses:
  assumes "r \<in> set (cn_responses (on_frame opcode i body c))"
  shows "r \<in> set (cn_responses c) \<or> (\<exists>close. refusal close r)"
  using assms
  by (auto simp: on_frame_def Let_def admitted_def refuse_def refusal_def error_new_def
      split: if_splits option.splits sum.splits)

lemma conn_trace_step:
  assumes ok: "conn_trace_ok ls c" and step: "conn_step c ev c'"
  shows "conn_trace_ok (ls @ [ev]) c'"
proof -
  have ops: "op \<in> set (cn_operations c) \<Longrightarrow> was_received (ls @ [ev]) op"
    and fin: "OpFinished op res \<in> set ls \<Longrightarrow> was_received (ls @ [ev]) op"
    and rs: "r \<in> set (cn_responses c) \<Longrightarrow> goes_back (ls @ [ev]) r" "cn_writing c = Some r \<Longrightarrow> goes_back (ls @ [ev]) r" for op res r
    using ok was_received_mono goes_back_mono by (auto simp: conn_trace_ok_def)
  show ?thesis
    using step
  proof (cases rule: conn_stepE)
    case (received i opcode body)
    have "was_received (ls @ [ev]) op" if "op \<in> set (cn_operations c')" for op
      using on_frame_cases [of opcode i body c]
    proof cases
      case nothing
      then show ?thesis using that ops received(2) by simp
    next
      case (started rq)
      then show ?thesis using that ops received(1,2) by (auto simp: was_received_def)
    qed
    moreover have "goes_back (ls @ [ev]) r" if "r \<in> set (cn_responses c')" for r
      using on_frame_responses [OF that [unfolded received(2)]]
      by (elim disjE) (use rs(1) in blast, simp add: goes_back_def)
    moreover have "cn_writing c' = cn_writing c"
      using received(2) by (auto simp: on_frame_def Let_def refuse_def admitted_def split: option.split sum.split)
    ultimately show ?thesis using fin rs(2) received(1) by (auto simp: conn_trace_ok_def)
  next
    case (finished op r)
    obtain x y where "response_of (op_opcode op) r = (x, y)" by (cases "response_of (op_opcode op) r")
    then obtain r0 where r0: "cn_responses c' = cn_responses c @ [r0]" "response_for op r r0"
      using finished(2)
      by (intro that [of "\<lparr>rs_opcode = x, rs_request_id = op_request_id op, rs_body = y, rs_permit = True, rs_written = False\<rparr>"])
        (simp_all add: on_finished_def response_for_def)
    have "goes_back (ls @ [ev]) r0" using r0(2) finished(1) by (auto simp: goes_back_def)
    then have "goes_back (ls @ [ev]) r'" if "r' \<in> set (cn_responses c')" for r'
      using that rs(1) r0(1) by auto
    moreover have "set (cn_operations c') \<subseteq> set (cn_operations c)" "cn_writing c' = cn_writing c"
      using finished(2) by (auto simp: on_finished_def split: prod.splits dest: set_remove1_subset [THEN subsetD])
    ultimately show ?thesis using ops fin rs(2) finished(1,3) by (auto simp: conn_trace_ok_def)
  next
    case (retired r rest)
    then show ?thesis using ops fin rs by (auto simp: conn_trace_ok_def on_retired_def)
  next
    case (written r)
    then show ?thesis using ops fin rs by (auto simp: conn_trace_ok_def on_written_def)
  next
    case lost
    then show ?thesis using ops fin rs by (auto simp: conn_trace_ok_def)
  qed
qed

lemma conn_trace_run: "runs conn_step connection_new ls c \<Longrightarrow> conn_trace_ok ls c"
proof (induction connection_new ls c rule: runs.induct)
  case runs_nil
  then show ?case by (simp add: conn_trace_ok_def connection_new_def)
next
  case (runs_snoc ls c ev c')
  then show ?case by (intro conn_trace_step)
qed

end
