(* ===== verification/World_History.thy ===== *)
theory World_History
  imports World_Trace
begin

text \<open>
  What has happened before an event of a run of the server: the frame behind every task, the event
  behind every result, the HELLO behind every connection, and what the store holds.
\<close>

section \<open>Events and the states they happen in\<close>

lemma run_event:
  assumes "runs step w evs w'" and "ev \<in> set evs"
  obtains evs1 v u where "runs step w evs1 v" "step v ev u" "set evs1 \<subseteq> set evs"
  using assms
proof (induction arbitrary: thesis rule: runs.induct)
  case (runs_snoc w evs t l u)
  show ?case
  proof (cases "ev = l")
    case True
    then show ?thesis using runs_snoc.prems(1) [OF runs_snoc.hyps(1)] runs_snoc.hyps(2) by auto
  next
    case False
    then show ?thesis using runs_snoc.IH runs_snoc.prems by (metis (no_types, opaque_lifting) UnCI Un_iff list.set(1) list.set(2) set_append insertE singletonD subset_iff)
  qed
qed simp

lemma received_framed: "Received opcode i body \<in> set (events_of (conn_events n) evs) \<longleftrightarrow> Framed n opcode i body \<in> set evs"
proof -
  have "Received opcode i body \<in> set (conn_events n ev) \<longleftrightarrow> ev = Framed n opcode i body" for ev
    by (cases ev) auto
  then show ?thesis by (simp add: events_of_member)
qed

lemma finished_finishing: "OpFinished op r \<in> set (events_of (conn_events n) evs) \<longleftrightarrow> Finishing n op r \<in> set evs"
proof -
  have "OpFinished op r \<in> set (conn_events n ev) \<longleftrightarrow> ev = Finishing n op r" for ev
    by (cases ev) auto
  then show ?thesis by (simp add: events_of_member)
qed

section \<open>Requests\<close>

definition asked :: "server_event list \<Rightarrow> u64 \<Rightarrow> u32 \<Rightarrow> request \<Rightarrow> bool" where
  "asked evs n i rq = (\<exists>opcode body. Framed n opcode i body \<in> set evs \<and> decode_request opcode body = Inr rq)"

lemma asked_mono: "asked evs n i rq \<Longrightarrow> set evs \<subseteq> set evs' \<Longrightarrow> asked evs' n i rq"
  by (auto simp: asked_def)

text \<open>The tasks on whose behalf an event happens.\<close>

fun on_behalf :: "server_event \<Rightarrow> (u64 \<times> u32 \<times> request) option" where
  "on_behalf (Dispatched n i rq out k) = Some (n, i, rq)"
| "on_behalf (Handed n i rq) = Some (n, i, rq)"
| "on_behalf (Ran n i rq r) = Some (n, i, rq)"
| "on_behalf (Stepped n i rq e) = Some (n, i, rq)"
| "on_behalf (Took n i rq res) = Some (n, i, rq)"
| "on_behalf (TookNone n i rq k) = Some (n, i, rq)"
| "on_behalf (Answering n i rq t r) = Some (n, i, rq)"
| "on_behalf _ = None"

lemma on_behalf_task:
  assumes "server_step X token maximum w ev w'" and "on_behalf ev = Some (n, i, rq)"
  shows "\<exists>st. w_tasks w (n, i) = Some (rq, st)"
  using assms by (cases rule: server_stepE) auto

lemma task_asked:
  assumes run: "runs (server_step X token maximum) w evs w'" "world_inv X maximum w" "w_clients w = Map.empty"
    and t: "w_tasks w' (n, i) = Some (rq, st)"
  shows "asked evs n i rq"
proof -
  have "world_ok X maximum w'" using world_sys.run_inv [OF run(1,2)] by (simp add: world_inv_def)
  then obtain s c op where op: "w_clients w' n = Some (Active s c)" "op \<in> set (cn_operations c)"
      "op_request_id op = i" "op_request op = rq"
    using tasksD(1) t by blast
  then have "conn_trace_ok (events_of (conn_events n) evs) c"
    using run_connections [OF run, of n] conn_trace_run by (auto simp: conn_hist_def)
  then have "was_received (events_of (conn_events n) evs) op" using op(2) by (simp add: conn_trace_ok_def)
  then show ?thesis using op(3,4) by (auto simp: was_received_def asked_def received_framed)
qed

lemma event_asked:
  assumes run: "runs (server_step X token maximum) w evs w'" "world_inv X maximum w" "w_clients w = Map.empty"
    and ev: "ev \<in> set evs" "on_behalf ev = Some (n, i, rq)"
  shows "asked evs n i rq"
proof (rule run_event [OF run(1) ev(1)])
  fix evs1 v u assume r1: "runs (server_step X token maximum) w evs1 v" and st: "server_step X token maximum v ev u" "set evs1 \<subseteq> set evs"
  then obtain st' where "w_tasks v (n, i) = Some (rq, st')" using on_behalf_task [OF _ ev(2)] by blast
  from asked_mono [OF task_asked [OF r1 run(2,3) this] st(2)] show ?thesis .
qed

section \<open>Results\<close>

fun result_of :: "server_event \<Rightarrow> (u64 \<times> u32 \<times> request \<times> (error + bytes)) option" where
  "result_of (Dispatched n i rq (Reply r) k) = Some (n, i, rq, r)"
| "result_of (Ran n i rq r) = Some (n, i, rq, r)"
| "result_of (Took n i rq res) = Some (n, i, rq, take_reply res)"
| "result_of (TookNone n i rq k) = Some (n, i, rq, Inr (take_body None))"
| "result_of (Answering n i rq t r) = Some (n, i, rq, rpc_body r)"
| "result_of _ = None"

text \<open>What has brought a task where it is.\<close>

definition task_from :: "server_event list \<Rightarrow> u64 \<Rightarrow> u32 \<Rightarrow> request \<Rightarrow> stage \<Rightarrow> bool" where
  "task_from evs n i rq st =
     (case st of
        Replied r \<Rightarrow> (\<exists>ev \<in> set evs. result_of ev = Some (n, i, rq, r))
      | OnTicket t \<Rightarrow> (\<exists>k. Dispatched n i rq (AwaitTicket t) k \<in> set evs)
      | _ \<Rightarrow> True)"

lemma task_from_mono: "task_from evs n i rq st \<Longrightarrow> task_from (evs @ [ev]) n i rq st"
  by (auto simp: task_from_def split: stage.splits)

lemma spawn_tasks:
  "w_tasks (spawn_task n conns c c' w) = w_tasks w
   \<or> (\<exists>i rq. w_tasks (spawn_task n conns c c' w) = (w_tasks w)((n, i) \<mapsto> (rq, Spawned conns)))"
  by (auto simp: spawn_task_def split: list.split)

text \<open>A task that a step changes has what the event says.\<close>

lemma step_task_from:
  assumes step: "server_step X token maximum w ev w'" and t: "w_tasks w' (n, i) = Some (rq, st)"
  shows "w_tasks w (n, i) = Some (rq, st) \<or> task_from [ev] n i rq st"
  using step
proof (cases rule: server_stepE)
  case (framed m s c io1 io2 opcode j body rest)
  then show ?thesis
    using t spawn_tasks [of m "maximum - free_connections (w_listener w)" c "on_frame opcode j body c"
        "put_conn m rest (on_frame opcode j body c) w"]
    by (auto simp: task_from_def split: if_splits)
next
  case (dispatched m j rq' conns env now now1 now2 out sh s k now3)
  then show ?thesis using t by (cases out) (auto simp: task_from_def stage_of_def split: if_splits)
qed (use t in \<open>auto simp: task_from_def split: if_splits\<close>)

lemma run_task_from:
  assumes "runs (server_step X token maximum) w evs w'" and "w_tasks w = Map.empty"
    and "w_tasks w' (n, i) = Some (rq, st)"
  shows "task_from evs n i rq st"
  using assms
proof (induction arbitrary: rq st rule: runs.induct)
  case (runs_snoc w evs v ev u)
  show ?case
    using step_task_from [OF runs_snoc.hyps(2) runs_snoc.prems(2)]
  proof
    assume "w_tasks v (n, i) = Some (rq, st)"
    then show ?thesis by (intro task_from_mono runs_snoc.IH [OF runs_snoc.prems(1)])
  next
    assume "task_from [ev] n i rq st"
    then show ?thesis by (auto simp: task_from_def split: stage.splits)
  qed
qed simp

lemma finishing_result:
  assumes run: "runs (server_step X token maximum) w evs w'" "world_inv X maximum w" "w_tasks w = Map.empty"
    and ev: "Finishing n op r \<in> set evs"
  shows "\<exists>ev \<in> set evs. result_of ev = Some (n, op_request_id op, op_request op, r)"
proof (rule run_event [OF run(1) ev])
  fix evs1 v u
  assume r1: "runs (server_step X token maximum) w evs1 v" and st: "server_step X token maximum v (Finishing n op r) u" "set evs1 \<subseteq> set evs"
  have ok: "world_ok X maximum v" using world_sys.run_inv [OF r1 run(2)] by (simp add: world_inv_def)
  from st(1) obtain s c rq where t: "w_clients v n = Some (Active s c)" "op \<in> set (cn_operations c)"
      "w_tasks v (n, op_request_id op) = Some (rq, Replied r)"
    by (cases rule: server_stepE) auto
  have "rq = op_request op" by (rule task_request [OF ok t])
  then show ?thesis using run_task_from [OF r1 run(3) t(3)] st(2) by (auto simp: task_from_def)
qed

text \<open>A response that is written is a refusal, or the result of a request that a frame carried.\<close>

lemma wrote_result:
  assumes run: "runs (server_step X token maximum) w evs w'" "world_inv X maximum w" "w_clients w = Map.empty" "w_tasks w = Map.empty"
    and ev: "Wrote n r \<in> set evs" and body: "rs_opcode r \<noteq> 255"
  obtains opcode body rq out where "Framed n opcode (rs_request_id r) body \<in> set evs" "decode_request opcode body = Inr rq"
    "rs_opcode r = or opcode 128" "rs_body r = out" "\<exists>ev \<in> set evs. result_of ev = Some (n, rs_request_id r, rq, Inr out)"
proof (rule run_event [OF run(1) ev])
  fix evs1 v u
  assume r1: "runs (server_step X token maximum) w evs1 v" and st: "server_step X token maximum v (Wrote n r) u" "set evs1 \<subseteq> set evs"
  from st(1) obtain s c where c: "w_clients v n = Some (Active s c)" "cn_writing c = Some r"
    by (cases rule: server_stepE) auto
  let ?ls = "events_of (conn_events n) evs1"
  have tr: "conn_trace_ok ?ls c" using run_connections [OF r1 run(2,3), of n] conn_trace_run c(1) by (auto simp: conn_hist_def)
  then have "goes_back ?ls r" using c(2) by (simp add: conn_trace_ok_def)
  then obtain op res where op: "OpFinished op res \<in> set ?ls" "response_for op res r"
    using body by (auto simp: goes_back_def refusal_def)
  then have "was_received ?ls op" using tr by (auto simp: conn_trace_ok_def)
  then obtain bd where bd: "Framed n (op_opcode op) (op_request_id op) bd \<in> set evs" "decode_request (op_opcode op) bd = Inr (op_request op)"
    using st(2) by (auto simp: was_received_def received_framed)
  obtain out where out: "res = Inr out" using op(2) body by (cases res) (auto simp: response_for_def response_of_def)
  have "Finishing n op res \<in> set evs1" using op(1) by (simp add: finished_finishing)
  then have "\<exists>ev \<in> set evs. result_of ev = Some (n, op_request_id op, op_request op, Inr out)"
    using finishing_result [OF r1 run(2,4)] st(2) out by blast
  then show thesis
    using that [of "op_opcode op" bd "op_request op" out] bd op(2) out by (simp add: response_for_def response_of_def)
qed

end
