(* ===== verification/World_Calls.thy ===== *)
theory World_Calls
  imports World_History
begin

text \<open>
  A call in a run of the server: the frames of the caller and of the worker behind an answer; and
  what is left when the clients have gone.
\<close>

section \<open>Where the events of the scheduler come from\<close>

lemma stepped_progress:
  assumes "runs (server_step X token maximum) w evs w'" and "Stepped n i rq e \<in> set evs"
  shows "take_progress e"
  using assms by (rule run_event) (erule server_stepE; simp add: take_turn_step)

lemma scheduler_event:
  assumes run: "runs (server_step X token maximum) w evs w'" and e: "e \<in> set (events_of rpc_events evs)" "\<not> take_progress e"
  obtains ev where "ev \<in> set evs" "e \<in> set (rpc_events ev)" "\<And>n i rq e. ev \<noteq> Stepped n i rq e"
proof -
  obtain ev where ev: "ev \<in> set evs" "e \<in> set (rpc_events ev)" using e(1) by (auto simp: events_of_member)
  have "ev \<noteq> Stepped n i rq e'" for n i rq e' using ev e(2) stepped_progress [OF run] by auto
  then show thesis using that ev by blast
qed

lemmas dispatch_events_splits = request.splits dispatched_as.splits sum.splits

lemma unit_result_Inr: "unit_result r = Inr u \<longleftrightarrow> (\<exists>out. r = Inr out)" "Inr u = unit_result r \<longleftrightarrow> (\<exists>out. r = Inr out)"
  by (auto simp: unit_result_def split: sum.splits)

lemma completed_origin:
  assumes "runs (server_step X token maximum) w evs w'" and "Completed wk cid failed q (Inr ()) \<in> set (events_of rpc_events evs)"
  shows "\<exists>i out k. Dispatched wk i (Complete cid failed q) (Reply (Inr out)) k \<in> set evs"
proof -
  have "\<not> take_progress (Completed wk cid failed q (Inr ()))" by simp
  from scheduler_event [OF assms this] obtain ev where ev: "ev \<in> set evs" "Completed wk cid failed q (Inr ()) \<in> set (rpc_events ev)"
    "\<And>n i rq e. ev \<noteq> Stepped n i rq e" by metis
  show ?thesis
    by (cases ev; use ev in \<open>auto simp: dispatch_events_def unit_result_Inr split: dispatch_events_splits stage.splits\<close>)
qed

lemma tried_origin:
  assumes "runs (server_step X token maximum) w evs w'" and "Tried wk (Dispatch j) \<in> set (events_of rpc_events evs)"
  shows "\<exists>i rq. Took wk i rq (Dispatch j) \<in> set evs"
proof -
  have "\<not> take_progress (Tried wk (Dispatch j))" by simp
  from scheduler_event [OF assms this] obtain ev where ev: "ev \<in> set evs" "Tried wk (Dispatch j) \<in> set (rpc_events ev)"
    "\<And>n i rq e. ev \<noteq> Stepped n i rq e" by metis
  show ?thesis by (cases ev) (use ev in \<open>auto simp: dispatch_events_def split: dispatch_events_splits stage.splits\<close>)
qed

lemma registered_origin:
  assumes "runs (server_step X token maximum) w evs w'" and "Registered wk name (Inr ()) \<in> set (events_of rpc_events evs)"
  shows "\<exists>i conc lim out k. Dispatched wk i (Register name conc lim) (Reply (Inr out)) k \<in> set evs"
proof -
  have "\<not> take_progress (Registered wk name (Inr ()))" by simp
  from scheduler_event [OF assms this] obtain ev where ev: "ev \<in> set evs" "Registered wk name (Inr ()) \<in> set (rpc_events ev)"
    "\<And>n i rq e. ev \<noteq> Stepped n i rq e" by metis
  show ?thesis
    by (cases ev; use ev in \<open>auto simp: dispatch_events_def unit_result_Inr split: dispatch_events_splits stage.splits\<close>) blast
qed

lemma requested_origin:
  assumes "runs (server_step X token maximum) w evs w'" and "Requested c name p (Inr t) \<in> set (events_of rpc_events evs)"
  shows "\<exists>i ms k. Dispatched c i (request.Rpc name ms p) (AwaitTicket t) k \<in> set evs"
proof -
  have "\<not> take_progress (Requested c name p (Inr t))" by simp
  from scheduler_event [OF assms this] obtain ev where ev: "ev \<in> set evs" "Requested c name p (Inr t) \<in> set (rpc_events ev)"
    "\<And>n i rq e. ev \<noteq> Stepped n i rq e" by metis
  show ?thesis by (cases ev) (use ev in \<open>auto simp: dispatch_events_def split: dispatch_events_splits stage.splits\<close>)
qed

lemma ids_of_once: "distinct (ids_of f ls) \<Longrightarrow> e \<in> set ls \<Longrightarrow> e' \<in> set ls \<Longrightarrow> f e = Some i \<Longrightarrow> f e' = Some i \<Longrightarrow> e = e'"
proof (induction ls rule: rev_induct)
  case (snoc l ls)
  have mem: "d \<in> set ls \<Longrightarrow> f d = Some i \<Longrightarrow> i \<in> set (ids_of f ls)" for d
    by (force simp: ids_of_def map_filter_def image_iff)
  show ?case using snoc mem by (auto split: option.splits)
qed simp

section \<open>The answer of a call\<close>

lemma answer_completed:
  assumes run: "runs (server_step X token maximum) w evs w'" "world_inv X maximum w"
    and new: "w_system w = system_new n0 b0" and ev: "Answering n i rq t (Inr q) \<in> set evs"
  obtains wk ic cid out k where "Dispatched wk ic (Complete cid False q) (Reply (Inr out)) k \<in> set evs"
proof (rule run_event [OF run(1) ev])
  fix evs1 v u
  assume r1: "runs (server_step X token maximum) w evs1 v" and st: "server_step X token maximum v (Answering n i rq t (Inr q)) u" "set evs1 \<subseteq> set evs"
  have "runs rpc_step (system_new n0 b0) (events_of rpc_events evs1) (w_system v)" using run_scheduler [OF r1 run(2)] new by simp
  from run_ok_runs [OF this] have tr: "trace_ok (events_of rpc_events evs1) (rpc (w_system v))" by (simp add: run_ok_def)
  obtain now s where "ticket_poll now t (rpc (w_system v)) = Some (Inr q, s)"
    using st(1) by (cases rule: server_stepE) auto
  then have "channels (rpc (w_system v)) (tk_call_id t) = Some (Sent (Inr q))"
    by (auto simp: ticket_poll_def split: option.splits channel.splits if_splits)
  then obtain wk where "Completed wk (tk_call_id t) False q (Inr ()) \<in> set (events_of rpc_events evs1)"
    using tr unfolding trace_ok_def completes_ok_def by blast
  from completed_origin [OF r1 this] show thesis using that st(2) by blast
qed

lemma rpc_body_Inr: "rpc_body r = Inr out \<longleftrightarrow> (\<exists>q. r = Inr q \<and> out = to_be_bytes (of_nat (length q) :: u32) @ q)"
  by (cases r) (auto simp: rpc_body_def and_then_def)

text \<open>Only a TAKE takes.\<close>

lemma took_take:
  assumes run: "runs (server_step X token maximum) w evs w'" "world_inv X maximum w" and ev: "Took n i rq res \<in> set evs"
  obtains wait where "rq = Take wait"
proof (rule run_event [OF run(1) ev])
  fix evs1 v u assume r1: "runs (server_step X token maximum) w evs1 v" and st: "server_step X token maximum v (Took n i rq res) u"
  have ok: "world_ok X maximum v" using world_sys.run_inv [OF r1 run(2)] by (simp add: world_inv_def)
  from st obtain k where "w_tasks v (n, i) = Some (rq, Taking k)" by (cases rule: server_stepE) auto
  from task_okD(2) [OF ok this] show thesis using that by (auto simp: stage_ok_def)
qed

section \<open>Authentication\<close>

definition hello_accepted :: "externals \<Rightarrow> rstring \<Rightarrow> bytes \<Rightarrow> bool" where
  "hello_accepted X token s = (\<exists>io1 io2 wfault t out rest. handshake (ex_ct_eq X) token io1 io2 wfault t s = Inr (True, out, rest))"

lemma greeted_accepted:
  assumes "runs (server_step X token maximum) w evs w'" and "Greeted n s \<in> set evs"
  shows "hello_accepted X token s"
  using assms by (rule run_event) (erule server_stepE; simp add: hello_accepted_def; blast)

lemma active_greeted:
  assumes "runs (server_step X token maximum) w evs w'" and "w_clients w = Map.empty" and "w_clients w' n = Some (Active s c)"
  shows "\<exists>s. Greeted n s \<in> set evs"
  using assms
proof (induction arbitrary: s c rule: runs.induct)
  case (runs_snoc w evs v ev u)
  show ?case
  proof (cases "\<exists>s c. w_clients v n = Some (Active s c)")
    case True
    then show ?thesis using runs_snoc.IH [OF runs_snoc.prems(1)] by auto
  next
    case False
    from runs_snoc.hyps(2) have "\<exists>s. ev = Greeted n s"
      by (cases rule: server_stepE) (use False runs_snoc.prems(2) in \<open>auto split: if_splits accepted.splits\<close>)
    then show ?thesis by auto
  qed
qed simp

text \<open>Whatever is done on behalf of a client, and every frame that is read from it.\<close>

fun acts_for :: "server_event \<Rightarrow> u64 option" where
  "acts_for (Framed n opcode i body) = Some n"
| "acts_for (Orphaned rq r) = None"
| "acts_for ev = map_option fst (on_behalf ev)"

lemma act_active:
  assumes "world_ok X maximum w" and "server_step X token maximum w ev w'" and "acts_for ev = Some n"
  shows "\<exists>s c. w_clients w n = Some (Active s c)"
proof -
  have task: "\<exists>s c. w_clients w m = Some (Active s c)" if "w_tasks w (m, i) = Some (rq, st)" for m i rq st
    using tasksD(1) [OF assms(1) that] by blast
  show ?thesis using assms(2) by (cases rule: server_stepE) (use assms(3) task in auto)
qed

lemma act_greeted:
  assumes run: "runs (server_step X token maximum) w evs w'" "world_inv X maximum w" "w_clients w = Map.empty"
    and step: "server_step X token maximum w' ev w''" "acts_for ev = Some n"
  shows "\<exists>s. Greeted n s \<in> set evs \<and> hello_accepted X token s"
proof -
  have "world_ok X maximum w'" using world_sys.run_inv [OF run(1,2)] by (simp add: world_inv_def)
  from act_active [OF this step] obtain s c where "w_clients w' n = Some (Active s c)" by blast
  from active_greeted [OF run(1,3) this] show ?thesis using greeted_accepted [OF run(1)] by blast
qed

section \<open>When the clients have gone\<close>

text \<open>
  A scheduler without connections has nothing left: it is the one of the start, apart from its four
  counters, the next identifier, the outcomes of past calls, none of which is still awaited, and the
  wake-up counts of past workers.
\<close>

definition idle_scheduler :: "nat \<Rightarrow> u64 \<Rightarrow> state \<Rightarrow> bool" where
  "idle_scheduler n b s =
     (s = (rpc_new n b)\<lparr>next_id := next_id s, accepted := accepted s, completed := completed s, rejected := rejected s,
             timed_out := timed_out s, channels := channels s, notifies := notifies s\<rparr>
      \<and> (\<forall>i. channels s i \<noteq> Some Open))"

lemma hm_all_none:
  assumes "\<And>k. hm_get m k = None"
  shows "m = []"
  using assms [of "fst (hd m)"] by (cases m) (auto simp: hm_get_def split: if_splits)

lemma no_connections:
  assumes ok: "rpc_ok s" and none: "connections s = {}"
  shows "idle_scheduler (max_calls s) (max_bytes s) s"
proof -
  have w: "hm_get (workers s) x = None" for x
    using worker_connected [OF ok] none by (cases "hm_get (workers s) x") auto
  have r: "hm_get (routes s) name = None" for name
  proof (cases "hm_get (routes s) name")
    case (Some rt)
    then have "route_workers rt \<noteq> []" "\<forall>x \<in> set (route_workers rt). hm_get (workers s) x \<noteq> None"
      using ok by (auto simp: rpc_inv_def routes_ok_def)
    then show ?thesis using w by (cases "route_workers rt") auto
  qed
  have c: "hm_get (calls s) i = None" for i
  proof (cases "hm_get (calls s) i")
    case (Some c)
    then have "owner c = None \<Longrightarrow> hm_get (routes s) (call_route c) \<noteq> None" "owner c = Some x \<Longrightarrow> hm_get (workers s) x \<noteq> None" for x
      using ok by (auto simp: rpc_inv_def calls_ok_def)
    then show ?thesis using w r by (cases "owner c") auto
  qed
  have "calls s = []" by (rule hm_all_none [OF c])
  moreover from this have "unat (rpc_retained_bytes s) = 0" using ok by (simp add: rpc_inv_def budget_ok_def hm.total_0 hm.total_def)
  moreover have "channels s i \<noteq> Some Open" for i
    using ok c [of i] by (auto simp: rpc_inv_def channels_ok_def holds_sender_def)
  ultimately show ?thesis
    using hm_all_none [OF r] hm_all_none [OF w] none by (simp add: idle_scheduler_def unat_eq_0 rpc_new_def)
qed

lemma no_clients:
  assumes ok: "world_ok X maximum w" and none: "w_clients w = Map.empty"
  shows "idle_scheduler (max_calls (rpc (w_system w))) (max_bytes (rpc (w_system w))) (rpc (w_system w))" and "w_tasks w = Map.empty" and "tickets (w_system w) = {}" and "takes (w_system w) = []"
    and "free_connections (w_listener w) = maximum"
proof -
  have num: "numbers_ok maximum w" and sys: "sys_ok (w_system w)" and held: "held_ok w" using ok by (simp_all add: world_ok_def)
  have "connections (rpc (w_system w)) = {}" using numbersD(4) [OF num] none by auto
  then show "idle_scheduler (max_calls (rpc (w_system w))) (max_bytes (rpc (w_system w))) (rpc (w_system w))" using sys no_connections by (simp add: sys_ok_def)
  have t: "w_tasks w (n, i) = None" for n i
    using tasksD(1) [OF ok, of n i] none by (cases "w_tasks w (n, i)") auto
  then show tasks: "w_tasks w = Map.empty" by auto
  show "tickets (w_system w) = {}" using held by (simp add: held_ok_def partitions_def tickets_held_def tasks)
  have "hm_get (takes (w_system w)) k = None" for k
    using held by (auto simp: held_ok_def partitions_def takes_held_def tasks)
  then show "takes (w_system w) = []" by (rule hm_all_none)
  show "free_connections (w_listener w) = maximum" using numbersD(6) [OF num] none by simp
qed

end
