(* ===== verification/World_Progress.thy ===== *)
theory World_Progress
  imports World_Calls Rpc_Queue
begin

text \<open>
  Progress: from every state that the server reaches, each operation can be brought to its response
  by steps of its own task, whatever the other clients do, and each client can be cleaned up.
\<close>

section \<open>An operation can finish\<close>

text \<open>The steps of one operation: those of its own task, the loop of its \<open>take\<close> included, and its end.\<close>

fun own_event :: "u64 \<Rightarrow> operation \<Rightarrow> server_event \<Rightarrow> bool" where
  "own_event n op (Finishing m op' r) = (m = n \<and> op' = op)"
| "own_event n op ev = (case on_behalf ev of Some (m, i, rq) \<Rightarrow> m = n \<and> i = op_request_id op \<and> rq = op_request op | None \<Rightarrow> False)"

definition can_finish :: "externals \<Rightarrow> rstring \<Rightarrow> nat \<Rightarrow> u64 \<Rightarrow> operation \<Rightarrow> world \<Rightarrow> bool" where
  "can_finish X token maximum n op w =
     (\<exists>evs w' r. runs (server_step X token maximum) w (evs @ [Finishing n op r]) w' \<and> list_all (own_event n op) evs)"

lemma runs_cons: "step s l t \<Longrightarrow> runs step t ls u \<Longrightarrow> runs step s (l # ls) u"
  using runs_append [OF _ runs_one] by fastforce

lemma can_finish_step:
  assumes "server_step X token maximum w ev v" and "own_event n op ev" and "can_finish X token maximum n op v"
  shows "can_finish X token maximum n op w"
proof -
  obtain evs w' r where run: "runs (server_step X token maximum) v (evs @ [Finishing n op r]) w'" "list_all (own_event n op) evs"
    using assms(3) by (auto simp: can_finish_def)
  from runs_cons [OF assms(1) run(1)] have "runs (server_step X token maximum) w ((ev # evs) @ [Finishing n op r]) w'" by simp
  moreover have "list_all (own_event n op) (ev # evs)" using run(2) assms(2) by simp
  ultimately show ?thesis unfolding can_finish_def by blast
qed

text \<open>An operation of a connection that is served, whose task is at a stage.\<close>

definition operating :: "world \<Rightarrow> u64 \<Rightarrow> operation \<Rightarrow> stage \<Rightarrow> bool" where
  "operating w n op st =
     ((\<exists>s c. w_clients w n = Some (Active s c) \<and> cn_phase c \<noteq> Finished \<and> op \<in> set (cn_operations c))
      \<and> w_tasks w (n, op_request_id op) = Some (op_request op, st))"

lemma operating_put:
  assumes "operating w n op st" and "w_clients v = w_clients w"
  shows "operating (put_task n (op_request_id op) (Some (op_request op, st')) v) n op st'"
  using assms by (simp add: operating_def)

lemma operating_task: "operating w n op st \<Longrightarrow> w_tasks w (n, op_request_id op) = Some (op_request op, st)"
  by (simp add: operating_def)

lemma finish_replied:
  assumes "operating w n op (Replied r)"
  shows "can_finish X token maximum n op w"
proof -
  obtain s c where c: "w_clients w n = Some (Active s c)" "op \<in> set (cn_operations c)"
    using assms by (auto simp: operating_def)
  from runs_one [of "server_step X token maximum", OF finishing [OF c operating_task [OF assms]]]
  obtain w' where "runs (server_step X token maximum) w ([] @ [Finishing n op r]) w'" by auto
  moreover have "list_all (own_event n op) []" by simp
  ultimately show ?thesis unfolding can_finish_def by blast
qed

lemma finish_ticket:
  assumes op: "operating w n op (OnTicket t)"
  shows "can_finish X token maximum n op w"
proof -
  obtain r s where "ticket_poll (tk_deadline t) t (rpc (w_system w)) = Some (r, s)"
    by (cases "ticket_poll (tk_deadline t) t (rpc (w_system w))") (auto simp: ticket_poll_def split: option.splits channel.splits)
  from answering [OF operating_task [OF op] this, of X token maximum] show ?thesis
    by (rule can_finish_step) (simp, rule finish_replied, rule operating_put [OF op], simp)
qed

lemma finish_blocking:
  assumes op: "operating w n op (Blocking conns j)"
  shows "can_finish X token maximum n op w"
proof -
  obtain r sh where "blocking_operation no_faults (ex_crc X) (ex_to_vec X) (ex_from_slice X) 0 conns j (op_request op) (w_store w) = (r, sh)"
    using prod.exhaust by metis
  from ran [OF operating_task [OF op] this, of token maximum] show ?thesis
    by (rule can_finish_step) (simp, rule finish_replied, rule operating_put [OF op], simp)
qed

lemma finish_waiting:
  assumes op: "operating w n op (Taking k)" and tk: "hm_get (takes (w_system w)) k = Some tk" "tk_phase tk = Waiting e"
  shows "can_finish X token maximum n op w"
  using took_none [OF operating_task [OF op] tk order_refl, of X token maximum]
  by (rule can_finish_step) (simp, rule finish_replied, rule operating_put [OF op], simp)

lemma finish_trying:
  assumes op: "operating w n op (Taking k)" and tk: "hm_get (takes (w_system w)) k = Some tk" "tk_phase tk = Trying e"
    and inv: "rpc_ok (rpc (w_system w))"
  shows "can_finish X token maximum n op w"
proof -
  obtain res s where t: "try_take_once (tk_worker tk) 0 0 (rpc (w_system w)) = Some (res, s)" "take_spec (tk_worker tk) 0 0 (rpc (w_system w)) res s"
    using try_take_once_spec [OF inv, of "tk_worker tk" 0 0] by blast
  have "res \<noteq> Again" using t(2) by (auto simp: take_spec_def split: option.splits if_splits list.splits)
  show ?thesis
  proof (cases "res = Idle")
    case True
    let ?v = "w\<lparr>w_system := (w_system w)\<lparr>rpc := s, takes := hm_insert k (tk\<lparr>tk_phase := Waiting e\<rparr>) (takes (w_system w))\<rparr>\<rparr>"
    have "take_turn k (w_system w) (Tried (tk_worker tk) Idle) (w_system ?v)"
      using turn_idle [OF tk] t(1) True by simp
    from stepped [OF operating_task [OF op] this, of X token maximum]
    have step: "server_step X token maximum w (Stepped n (op_request_id op) (op_request op) (Tried (tk_worker tk) Idle)) ?v" by simp
    have "can_finish X token maximum n op ?v"
      by (rule finish_waiting [where k = k and e = e and tk = "tk\<lparr>tk_phase := Waiting e\<rparr>"]) (use op in \<open>simp_all add: operating_def\<close>)
    then show ?thesis by (rule can_finish_step [OF step, rotated]) simp
  next
    case False
    from took [OF operating_task [OF op] tk t(1) False \<open>res \<noteq> Again\<close>, of X token maximum] show ?thesis
      by (rule can_finish_step) (simp, rule finish_replied, rule operating_put [OF op], simp)
  qed
qed

lemma finish_taking:
  assumes op: "operating w n op (Taking k)" and tk: "hm_get (takes (w_system w)) k = Some tk"
    and inv: "rpc_ok (rpc (w_system w))"
  shows "can_finish X token maximum n op w"
proof (cases "tk_phase tk")
  case Starting
  let ?tk = "tk\<lparr>tk_phase := Trying (notifies (rpc (w_system w)) ! tk_notify tk)\<rparr>"
  let ?v = "w\<lparr>w_system := (w_system w)\<lparr>takes := hm_insert k ?tk (takes (w_system w))\<rparr>\<rparr>"
  have "take_turn k (w_system w) (Enabled k) (w_system ?v)" using turn_enable [OF tk Starting] by simp
  from stepped [OF operating_task [OF op] this, of X token maximum]
  have step: "server_step X token maximum w (Stepped n (op_request_id op) (op_request op) (Enabled k)) ?v" by simp
  have "can_finish X token maximum n op ?v"
    by (rule finish_trying [where k = k and tk = ?tk]) (use op inv in \<open>simp_all add: operating_def\<close>)
  then show ?thesis by (rule can_finish_step [OF step, rotated]) simp
next
  case (Trying e)
  then show ?thesis by (rule finish_trying [OF op tk _ inv])
next
  case (Waiting e)
  then show ?thesis by (rule finish_waiting [OF op tk])
qed

lemma finish_spawned:
  assumes op: "operating w n op (Spawned conns)" and ok: "world_ok X maximum w"
  shows "can_finish X token maximum n op w"
proof (cases "store_request (op_request op)")
  case True
  from handed [OF operating_task [OF op] True, of X token maximum] show ?thesis
    by (rule can_finish_step) (simp, rule finish_blocking, rule operating_put [OF op], simp)
next
  case False
  have sys: "sys_ok (w_system w)" using ok by (simp add: world_ok_def)
  have hello: "\<And>v tok. op_request op \<noteq> Hello v tok" using task_okD(4) [OF ok operating_task [OF op]] by blast
  obtain out s where d: "dispatch no_faults (ex_crc X) (ex_to_vec X) (ex_from_slice X) 0 0 0 conns n (op_request op) (w_store w, rpc (w_system w))
      = Some (out, w_store w, s)"
    by (rule dispatch_scheduler [OF sys False hello])
  obtain k where k: "hm_get (takes (w_system w)) k = None" using fresh_take sys by (auto simp: sys_ok_def)
  let ?v = "put_task n (op_request_id op) (Some (op_request op, stage_of k out))
      (w\<lparr>w_store := w_store w, w_system := after_dispatch n k 0 out s (w_system w)\<rparr>)"
  have step: "server_step X token maximum w (Dispatched n (op_request_id op) (op_request op) out k) ?v"
    by (rule dispatched [OF operating_task [OF op] d k False])
  have ok': "rpc_ok (rpc (w_system ?v))" using step_sys_ok [OF ok step] by (simp add: sys_ok_def)
  have at: "operating ?v n op (stage_of k out)" by (rule operating_put [OF op]) simp
  have "can_finish X token maximum n op ?v"
  proof (cases out)
    case (Reply r)
    then show ?thesis using finish_replied at by (simp add: stage_of_def)
  next
    case (AwaitTicket t)
    then show ?thesis using finish_ticket at by (simp add: stage_of_def)
  next
    case (AwaitTake m ms)
    then have "hm_get (takes (w_system ?v)) k \<noteq> None" by (simp add: after_dispatch_def)
    then obtain tk where "hm_get (takes (w_system ?v)) k = Some tk" by blast
    then show ?thesis using finish_taking [OF _ _ ok'] at AwaitTake by (simp add: stage_of_def)
  qed
  then show ?thesis using can_finish_step [OF step] by simp
qed

lemma operation_can_finish:
  assumes ok: "world_ok X maximum w" and c: "w_clients w n = Some (Active s c)" "cn_phase c \<noteq> Finished" "op \<in> set (cn_operations c)"
  shows "can_finish X token maximum n op w"
proof -
  obtain st where t: "w_tasks w (n, op_request_id op) = Some (op_request op, st)" using tasksD(2) [OF ok c] by blast
  have op: "operating w n op st" using c t by (auto simp: operating_def)
  show ?thesis
  proof (cases st)
    case (Taking k)
    then obtain tk where "hm_get (takes (w_system w)) k = Some tk" using take_member [OF ok] t by blast
    then show ?thesis using finish_taking op Taking ok by (auto simp: world_ok_def sys_ok_def)
  qed (use op finish_spawned [OF _ ok] finish_blocking finish_ticket finish_replied in auto)
qed

section \<open>A client can leave\<close>

fun leaving_event :: "u64 \<Rightarrow> server_event \<Rightarrow> bool" where
  "leaving_event n (Rejected m) = (m = n)"
| "leaving_event n (Failed m) = (m = n)"
| "leaving_event n (Cancelling m i st) = (m = n)"
| "leaving_event n (Left m) = (m = n)"
| "leaving_event n (Gone m) = (m = n)"
| "leaving_event n ev = False"

definition can_leave :: "externals \<Rightarrow> rstring \<Rightarrow> nat \<Rightarrow> u64 \<Rightarrow> world \<Rightarrow> bool" where
  "can_leave X token maximum n w =
     (\<exists>evs w'. runs (server_step X token maximum) w evs w' \<and> list_all (leaving_event n) evs
        \<and> w_clients w' = (w_clients w)(n := None)
        \<and> free_connections (w_listener w') = free_connections (w_listener w) + 1)"

lemma can_leave_step:
  assumes step: "server_step X token maximum w ev v" and ev: "leaving_event n ev" and v: "can_leave X token maximum n v"
    and c: "(w_clients v)(n := None) = (w_clients w)(n := None)" and l: "w_listener v = w_listener w"
  shows "can_leave X token maximum n w"
proof -
  obtain evs w' where run: "runs (server_step X token maximum) v evs w'" "list_all (leaving_event n) evs"
      "w_clients w' = (w_clients v)(n := None)" "free_connections (w_listener w') = free_connections (w_listener v) + 1"
    using v by (auto simp: can_leave_def)
  note runs_cons [OF step run(1)]
  moreover have "list_all (leaving_event n) (ev # evs)" using run(2) ev by simp
  moreover have "w_clients w' = (w_clients w)(n := None)" using run(3) c by simp
  ultimately show ?thesis using run(4) l unfolding can_leave_def by metis
qed

lemma can_leave_last:
  assumes "server_step X token maximum w ev (forget n w)" and "leaving_event n ev"
  shows "can_leave X token maximum n w"
proof -
  have "runs (server_step X token maximum) w [ev] (forget n w)" by (rule runs_one [of "server_step X token maximum", OF assms(1)])
  moreover have "w_clients (forget n w) = (w_clients w)(n := None)"
    "free_connections (w_listener (forget n w)) = free_connections (w_listener w) + 1"
    by (simp_all add: released_def)
  moreover have "list_all (leaving_event n) [ev]" using assms(2) by simp
  ultimately show ?thesis unfolding can_leave_def by blast
qed

definition tasks_of :: "u64 \<Rightarrow> world \<Rightarrow> u32 set" where
  "tasks_of n w = {i. w_tasks w (n, i) \<noteq> None}"

lemma finite_tasks_of: "finite (tasks_of n w)"
  by (rule finite_subset [OF subset_UNIV finite])

lemma leave_disconnected:
  assumes c: "w_clients w n = Some (Active s c)" "cn_phase c = Finished" and t: "tasks_of n w = {}"
    and n: "n \<notin> connections (rpc (w_system w))"
  shows "can_leave X token maximum n w"
proof -
  have "\<forall>i. w_tasks w (n, i) = None" using t unfolding tasks_of_def by blast
  from can_leave_last [OF gone [OF c this n]] show ?thesis by simp
qed

lemma leave_finished:
  assumes "world_inv X maximum w" and "w_clients w n = Some (Active s c)" "cn_phase c = Finished"
  shows "can_leave X token maximum n w"
  using assms
proof (induction "card (tasks_of n w)" arbitrary: w)
  case 0
  then have none: "tasks_of n w = {}" using finite_tasks_of [of n w] by simp
  have "rpc_ok (rpc (w_system w))" using 0(2) by (simp add: world_inv_def world_ok_def sys_ok_def)
  then obtain u where u: "disconnect n (rpc (w_system w)) = Some u" "connections u = connections (rpc (w_system w)) - {n}"
    by (rule disconnect_spec [where conn = n])
  let ?v = "w\<lparr>w_system := (w_system w)\<lparr>rpc := u\<rparr>\<rparr>"
  have "can_leave X token maximum n ?v"
    by (rule leave_disconnected [where s = s and c = c]) (use 0(3,4) none u(2) in \<open>simp_all add: tasks_of_def\<close>)
  then show ?case by (rule can_leave_step [OF left [OF 0(3,4) u(1)], rotated]) simp_all
next
  case (Suc k)
  then obtain i where i: "i \<in> tasks_of n w" by (metis card.empty ex_in_conv nat.distinct(1))
  then obtain rq st where t: "w_tasks w (n, i) = Some (rq, st)" by (auto simp: tasks_of_def)
  let ?v = "put_task n i None (w\<lparr>w_system := abort_task st (w_system w), w_orphans := w_orphans w @ orphan rq st\<rparr>)"
  have step: "server_step X token maximum w (Cancelling n i st) ?v" for token by (rule cancelling [OF Suc(4,5) t])
  have "tasks_of n ?v = tasks_of n w - {i}" by (auto simp: tasks_of_def)
  then have "k = card (tasks_of n ?v)" using Suc(2) i finite_tasks_of [of n w] by simp
  moreover have "world_inv X maximum ?v" by (rule world_sys.inv_step [OF Suc(3) step])
  ultimately have "can_leave X token maximum n ?v" by (rule Suc(1)) (use Suc(4,5) in simp_all)
  then show ?case by (rule can_leave_step [OF step, rotated]) simp_all
qed

lemma served_can_leave:
  assumes inv: "world_inv X maximum w" and c: "w_clients w n = Some (Active s c)"
  shows "can_leave X token maximum n w"
proof (cases "cn_phase c = Finished")
  case True
  then show ?thesis by (rule leave_finished [OF inv c])
next
  case False
  note step = failed [OF c False, of X token maximum]
  have "can_leave X token maximum n (put_conn n s (c\<lparr>cn_phase := Finished\<rparr>) w)"
    by (rule leave_finished [OF world_sys.inv_step [OF inv step], of n s "c\<lparr>cn_phase := Finished\<rparr>"]) simp_all
  then show ?thesis by (rule can_leave_step [OF step, rotated]) simp_all
qed

text \<open>A client that does not greet in time is turned away, whatever it has sent.\<close>

lemma handshake_late: "HELLO_TIMEOUT < io_elapsed io1 \<Longrightarrow> handshake ct_eq token io1 io2 wfault t s = Inl io_error.TimedOut"
  by (simp add: handshake_def read_frame_def timeout_def and_then_def)

lemma greeting_rejected:
  assumes c: "w_clients w n = Some (Greeting s)"
  shows "server_step X token maximum w (Rejected n) (forget n w)"
proof (rule rejected [OF c refl])
  let ?late = "\<lparr>io_fault = None, io_elapsed = HELLO_TIMEOUT + 1\<rparr>"
  show "\<forall>out rest. handshake (ex_ct_eq X) token ?late ?late None 0 s \<noteq> Inr (True, out, rest)"
    by (simp add: handshake_late)
qed

lemma client_can_leave:
  assumes inv: "world_inv X maximum w" and c: "w_clients w n \<noteq> None"
  shows "can_leave X token maximum n w"
proof -
  obtain cl where cl: "w_clients w n = Some cl" using c by blast
  show ?thesis
  proof (cases cl)
    case (Greeting s)
    then show ?thesis using can_leave_last [OF greeting_rejected] cl by simp
  next
    case (Active s c)
    then show ?thesis using served_can_leave [OF inv] cl by simp
  qed
qed

end
