(* ===== verification/World_Store.thy ===== *)
theory World_Store
  imports World_History
begin

text \<open>
  The store in a run of the server: its history is what it was at the start followed by the batches
  of the publishes that succeeded, in their order, and on disk it survives a loss of power.
\<close>

section \<open>One operation\<close>

fun commits :: "server_event \<Rightarrow> log_record list" where
  "commits (Ran n i (Publish rs) (Inr reply)) = rs"
| "commits (Orphaned (Publish rs) (Inr reply)) = rs"
| "commits _ = []"

fun batches_failed :: "server_event \<Rightarrow> log_record list list" where
  "batches_failed (Ran n i (Publish rs) (Inl e)) = [rs]"
| "batches_failed (Orphaned (Publish rs) (Inl e)) = [rs]"
| "batches_failed _ = []"

definition appended :: "request \<Rightarrow> error + bytes \<Rightarrow> log_record list" where
  "appended rq r = (case (rq, r) of (Publish rs, Inr reply) \<Rightarrow> rs | _ \<Rightarrow> [])"

lemma commits_appended: "commits (Ran n i rq r) = appended rq r" "commits (Orphaned rq r) = appended rq r"
  by (auto simp: appended_def split: request.split sum.split)

lemma publish_history:
  assumes "store_ok s" and "batch_ok rs" and "publish env crc rs s = (r, s')"
  shows "history s' = history s @ appended (Publish rs) r"
    and "r = Inr reply \<Longrightarrow> reply = publish_receipt s rs"
    and "st_wal s' = None \<longleftrightarrow> st_wal s = None"
  using assms by (cases rule: publish_cases; auto simp: appended_def)+

text \<open>What an operation on a usable store can be.\<close>

lemma blocking_cases:
  assumes run: "blocking_operation env crc to_vec from_slice now conns j rq sh = (r, sh')"
    and reach: "store_reachable crc (sh_store sh)" "\<not> sh_poisoned sh" and rq: "request_ok rq" "store_request rq" "rq = Stats \<longrightarrow> j \<noteq> None"
    and json: "json_objects to_vec from_slice"
  obtains (publish) rs where "rq = Publish rs" "publish env crc rs (sh_store sh) = (r, sh_store sh')"
  | (reads) "\<not> (\<exists>rs. rq = Publish rs)" "sh_store sh' = sh_store sh \<or> (\<exists>n m. sh_store sh' = fetched (sh_store sh) n m)"
proof -
  have ok: "store_ok (sh_store sh)" by (rule store_reachable_ok [OF reach(1)])
  obtain q where q: "rq = Stats \<Longrightarrow> j = Some q" using rq(3) by auto
  obtain r' s' where op: "store_operation env crc to_vec from_slice now conns j rq (sh_store sh) = Some (r', s')"
    by (rule store_operation_total [OF reach(1) rq(1,2) json q]) auto
  then have sh': "r' = r" "sh_store sh' = s'" using run reach(2) by (auto simp: blocking_operation_def)
  show thesis
  proof (cases rq)
    case (Publish rs)
    then show thesis using publish op sh' by (simp add: store_operation_def)
  next
    case (Fetch f)
    obtain ans where "fetch f (sh_store sh) = Some (ans, s')"
      using op Fetch by (auto simp: store_operation_def split: option.splits prod.splits sum.splits)
    then have "s' = sh_store sh \<or> (\<exists>n m. s' = fetched (sh_store sh) n m)"
      using fetch_some [OF ok, of f ans s'] rq(1) Fetch by simp
    then show thesis using reads Fetch sh' by simp
  next
    case Stats
    then have "s' = sh_store sh" using op by (auto simp: store_operation_def split: option.splits)
    then show thesis using reads Stats sh' by simp
  qed (use rq(2) in simp_all)
qed

text \<open>The store operation of an event, on the store that the lock gives it.\<close>

lemma step_store:
  assumes ok: "world_ok X maximum w" and step: "server_step X token maximum w ev w'"
  obtains (untouched) "w_store w' = w_store w" "commits ev = []" "batches_failed ev = []" "\<not> (\<exists>n i rq r. ev = Ran n i rq r)"
  | (operation) rq r env now conns j where "ev = Orphaned rq r \<or> (\<exists>n i. ev = Ran n i rq r)"
      "blocking_operation env (ex_crc X) (ex_to_vec X) (ex_from_slice X) now conns j rq (w_store w) = (r, w_store w')"
      "request_ok rq" "store_request rq" "rq = Stats \<longrightarrow> j \<noteq> None"
  using step
proof (cases rule: server_stepE)
  case (dispatched n i rq conns env now now1 now2 out sh s k now3)
  have "sh = w_store w" by (rule dispatch_keeps_store [OF dispatched(4,6)]) (use task_okD(4) [OF ok dispatched(3)] in simp)
  then show thesis using untouched dispatched(1,2) by simp
next
  case (ran n i rq conns j env now r sh)
  show thesis
  proof (rule operation)
    show "ev = Orphaned rq r \<or> (\<exists>n i. ev = Ran n i rq r)" using ran(1) by blast
    show "blocking_operation env (ex_crc X) (ex_to_vec X) (ex_from_slice X) now conns j rq (w_store w) = (r, w_store w')"
      using ran(2,4) by simp
  qed (use task_okD(2,3) [OF ok ran(3)] in \<open>simp_all add: stage_ok_def\<close>)
next
  case (orphaned rq conns j env now r sh)
  show thesis
  proof (rule operation)
    show "ev = Orphaned rq r \<or> (\<exists>n i. ev = Ran n i rq r)" using orphaned(1) by blast
    show "blocking_operation env (ex_crc X) (ex_to_vec X) (ex_from_slice X) now conns j rq (w_store w) = (r, w_store w')"
      using orphaned(2,4) by simp
  qed (use ok orphaned(3) in \<open>auto simp: world_ok_def orphans_ok_def\<close>)
qed (use untouched in simp_all)

section \<open>The history of a run\<close>

abbreviation served_history :: "world \<Rightarrow> log_record list" where
  "served_history w \<equiv> history (sh_store (w_store w))"

lemma world_store:
  assumes "world_ok X maximum w"
  shows "store_reachable (ex_crc X) (sh_store (w_store w))" and "\<not> sh_poisoned (w_store w)" and "store_ok (sh_store (w_store w))"
  using assms store_reachable_ok by (auto simp: world_ok_def store_served_def)

lemma step_history:
  assumes ok: "world_ok X maximum w" and json: "json_objects (ex_to_vec X) (ex_from_slice X)"
    and step: "server_step X token maximum w ev w'"
  shows "served_history w' = served_history w @ commits ev
    \<and> (st_wal (sh_store (w_store w')) = None \<longleftrightarrow> st_wal (sh_store (w_store w)) = None)"
  using ok step
proof (cases rule: step_store)
  case (operation rq r env now conns j)
  have com: "commits ev = appended rq r" using operation(1) by (auto simp: commits_appended)
  show ?thesis
    using operation(2) world_store(1,2) [OF ok] operation(3-5) json
  proof (cases rule: blocking_cases)
    case (publish rs)
    have "batch_ok rs" using operation(3) publish(1) by simp
    from publish_history(1,3) [OF world_store(3) [OF ok] this publish(2)] show ?thesis using com publish(1) by simp
  next
    case reads
    have "appended rq r = []" using reads(1) by (cases rq) (simp_all add: appended_def)
    then show ?thesis using com reads(2) by auto
  qed
qed simp

lemma run_history:
  assumes "runs (server_step X token maximum) w evs w'" and "world_inv X maximum w"
  shows "served_history w' = served_history w @ events_of commits evs
    \<and> (st_wal (sh_store (w_store w')) = None \<longleftrightarrow> st_wal (sh_store (w_store w)) = None)"
  using assms
proof (induction rule: run_induct)
  case (step evs v ev u)
  then show ?case using step_history [OF step(2,3,4)] by simp
qed simp

lemma runs_snocE:
  assumes "runs step w (evs @ evs') w'"
  obtains v where "runs step w evs v" "runs step v evs' w'"
  using assms
proof (induction evs' arbitrary: w' thesis rule: rev_induct)
  case Nil
  then show ?case using runs_nil by fastforce
next
  case (snoc ev evs')
  from snoc.prems(2) obtain u where "runs step w (evs @ evs') u" "step u ev w'"
    by (cases rule: runs.cases) (auto simp flip: append_assoc)
  then show ?case using snoc.IH snoc.prems(1) runs_snoc by metis
qed

text \<open>The receipt of a publish names the place of its records, there to stay.\<close>

lemma receipt_place:
  assumes run: "runs (server_step X token maximum) w evs w'" "world_inv X maximum w"
    and ev: "Ran n i (Publish rs) (Inr reply) \<in> set evs"
  obtains first where "reply = receipt (of_nat first + 1) (of_nat first + of_nat (length rs)) (of_nat (length rs)) (st_wal (sh_store (w_store w)) \<noteq> None)"
    "take (length rs) (drop first (served_history w')) = rs" "length (served_history w) \<le> first"
proof -
  obtain evs1 evs2 where evs: "evs = evs1 @ Ran n i (Publish rs) (Inr reply) # evs2" using split_list [OF ev] by blast
  obtain v where r1: "runs (server_step X token maximum) w evs1 v"
      and r2: "runs (server_step X token maximum) v ([Ran n i (Publish rs) (Inr reply)] @ evs2) w'"
    using run(1) unfolding evs by (auto elim: runs_snocE)
  obtain u where r3: "runs (server_step X token maximum) v [Ran n i (Publish rs) (Inr reply)] u"
      and r4: "runs (server_step X token maximum) u evs2 w'"
    using r2 by (rule runs_snocE)
  have st: "server_step X token maximum v (Ran n i (Publish rs) (Inr reply)) u"
    using r3 by (cases rule: runs.cases) (auto elim: runs_nilE)
  have iv: "world_inv X maximum v" and iu: "world_inv X maximum u"
    using world_sys.run_inv [OF r1 run(2)] world_sys.run_inv [OF r3] by simp_all
  have ok: "world_ok X maximum v" and json: "json_objects (ex_to_vec X) (ex_from_slice X)" using iv by (simp_all add: world_inv_def)
  have h: "served_history v = served_history w @ events_of commits evs1"
    "st_wal (sh_store (w_store v)) = None \<longleftrightarrow> st_wal (sh_store (w_store w)) = None"
    using run_history [OF r1 run(2)] by simp_all
  have hu: "served_history u = served_history v @ rs" using step_history [OF ok json st] by simp
  have h': "served_history w' = served_history u @ events_of commits evs2" using run_history [OF r4 iu] by simp
  from ok st have "reply = publish_receipt (sh_store (w_store v)) rs"
  proof (cases rule: step_store)
    case (operation rq r env now conns j)
    then have e: "rq = Publish rs" "r = Inr reply" by auto
    show ?thesis
      using operation(2) world_store(1,2) [OF ok] operation(3-5) json
    proof (cases rule: blocking_cases)
      case (publish rs')
      have "batch_ok rs" using operation(3) e by simp
      from publish_history(2) [OF world_store(3) [OF ok] this] show ?thesis using publish e by simp
    qed (use e in simp)
  qed simp
  moreover have "last_sequence (sh_store (w_store v)) = of_nat (length (served_history v))" by (rule last_sequence_history)
  ultimately show thesis
    using that [of "length (served_history v)"] h hu h' by (simp add: publish_receipt_def)
qed

section \<open>A server on disk\<close>

text \<open>A request that is waiting has come in a frame.\<close>

definition fits_frame :: "request \<Rightarrow> bool" where
  "fits_frame rq = (length (request_body rq) \<le> MAX_FRAME - 5)"

definition requests_fit :: "world \<Rightarrow> bool" where
  "requests_fit w =
     ((\<forall>n i rq st. w_tasks w (n, i) = Some (rq, st) \<longrightarrow> fits_frame rq)
      \<and> (\<forall>(rq, conns, j) \<in> set (w_orphans w). fits_frame rq))"

lemma step_task_request:
  assumes step: "server_step X token maximum w ev w'" and t: "w_tasks w' (n, i) = Some (rq, st)"
  shows "(\<exists>st. w_tasks w (n, i) = Some (rq, st)) \<or> fits_frame rq"
  using step
proof (cases rule: server_stepE)
  case (framed m s c io1 io2 opcode j body rest)
  have len: "length body \<le> MAX_FRAME - 5" using framed(5) by (simp add: read_frame_iff)
  show ?thesis
  proof (cases rule: on_frame_cases [of opcode j body c])
    case nothing
    then show ?thesis using t framed(2) by (auto simp: spawn_task_def)
  next
    case (started q)
    have "w_tasks w' = (w_tasks w)((m, j) \<mapsto> (q, Spawned (maximum - free_connections (w_listener w))))"
      using framed(2) spawn_started [OF started(4)] by simp
    moreover have "fits_frame q" using len decode_request_dec [OF started(1)] by (simp add: fits_frame_def)
    ultimately show ?thesis using t by (auto split: if_splits)
  qed
qed (use t in \<open>auto split: if_splits\<close>)

lemma step_requests_fit:
  assumes fit: "requests_fit w" and step: "server_step X token maximum w ev w'"
  shows "requests_fit w'"
proof -
  have tasks: "fits_frame rq" if "w_tasks w (n, i) = Some (rq, st)" for n i rq st
    using fit that unfolding requests_fit_def by blast
  have orphans: "fits_frame rq" if "(rq, conns, j) \<in> set (w_orphans w)" for rq conns j
    using fit that unfolding requests_fit_def by blast
  have "fits_frame rq" if "(rq, conns, j) \<in> set (w_orphans w')" for rq conns j
    using step
  proof (cases rule: server_stepE)
    case (orphaned q c2 j2 env now r sh)
    then show ?thesis using that orphans by (auto dest: set_remove1_subset [THEN subsetD])
  next
    case (cancelling n s c i q st)
    then show ?thesis using that orphans tasks by (auto simp: orphan_def split: stage.splits)
  qed (use that orphans in auto)
  moreover have "fits_frame rq" if "w_tasks w' (n, i) = Some (rq, st)" for n i rq st
    using step_task_request [OF step that] tasks by blast
  ultimately show ?thesis unfolding requests_fit_def by blast
qed

definition on_disk :: "externals \<Rightarrow> u64 \<Rightarrow> u64 \<Rightarrow> server_event list \<Rightarrow> world \<Rightarrow> bool" where
  "on_disk X retained wal evs w =
     (requests_fit w \<and> st_max_retained_bytes (sh_store (w_store w)) = retained \<and> st_max_wal_bytes (sh_store (w_store w)) = wal
      \<and> (\<exists>unc. disk_state (ex_crc X) (sh_store (w_store w)) unc
           \<and> (\<forall>rs. unc = Some rs \<longrightarrow> (\<exists>ev \<in> set evs. rs \<in> set (batches_failed ev)))))"

lemma disk_state_fetched: "disk_state crc s unc \<Longrightarrow> disk_state crc (fetched s n m) unc"
proof -
  have "st_max_wal_bytes (fetched s n m) = st_max_wal_bytes s" by (simp add: fetched_def)
  moreover have "next_batch (fetched s n m) rs = next_batch s rs" for rs by (simp add: next_batch_def)
  ultimately show "disk_state crc s unc \<Longrightarrow> disk_state crc (fetched s n m) unc"
    by (cases unc) (simp_all add: disk_state_def)
qed

lemma step_on_disk:
  assumes disk: "on_disk X retained wal evs w" and ok: "world_ok X maximum w"
    and json: "json_objects (ex_to_vec X) (ex_from_slice X)" and step: "server_step X token maximum w ev w'"
  shows "on_disk X retained wal (evs @ [ev]) w'"
proof -
  have fit: "requests_fit w" "requests_fit w'" using disk step_requests_fit [OF _ step] by (simp_all add: on_disk_def)
  obtain unc where unc: "disk_state (ex_crc X) (sh_store (w_store w)) unc"
      "\<And>rs. unc = Some rs \<Longrightarrow> \<exists>ev \<in> set evs. rs \<in> set (batches_failed ev)"
    using disk unfolding on_disk_def by blast
  have max: "st_max_retained_bytes (sh_store (w_store w)) = retained" "st_max_wal_bytes (sh_store (w_store w)) = wal"
    using disk by (simp_all add: on_disk_def)
  show ?thesis
    using ok step
  proof (cases rule: step_store)
    case untouched
    then show ?thesis using unc max fit by (auto simp: on_disk_def)
  next
    case (operation rq r env now conns j)
    show ?thesis
      using operation(2) world_store(1,2) [OF ok] operation(3-5) json
    proof (cases rule: blocking_cases)
      case (publish rs)
      have "fits_frame rq"
        using step operation(1) fit(1) by (cases rule: server_stepE) (auto simp: requests_fit_def)
      then have "batch_fits (next_batch (sh_store (w_store w)) rs)"
        using operation(3) publish(1) by (simp add: publishable_fits publishable_def fits_frame_def)
      note p = publish_disk_state [OF unc(1) world_store(3) [OF ok] this publish(2)]
      let ?unc = "if poisoned (sh_store (w_store w')) \<and> \<not> poisoned (sh_store (w_store w)) then Some rs else unc"
      have "\<exists>ev' \<in> set (evs @ [ev]). rs' \<in> set (batches_failed ev')" if "?unc = Some rs'" for rs'
      proof (cases "poisoned (sh_store (w_store w')) \<and> \<not> poisoned (sh_store (w_store w))")
        case True
        then obtain e where "r = Inl e" using p(5) by blast
        then have "rs' \<in> set (batches_failed ev)" using operation(1) publish(1) True that by auto
        then show ?thesis by auto
      next
        case False
        then have "unc = Some rs'" using that by auto
        then show ?thesis using unc(2) by auto
      qed
      then show ?thesis
        unfolding on_disk_def using fit(2) p(2,6,7) max by blast
    next
      case reads
      then have "disk_state (ex_crc X) (sh_store (w_store w')) unc" using unc(1) disk_state_fetched by auto
      moreover have "st_max_retained_bytes (sh_store (w_store w')) = retained" "st_max_wal_bytes (sh_store (w_store w')) = wal"
        using reads(2) max by (auto simp: fetched_def)
      moreover have "\<exists>ev' \<in> set (evs @ [ev]). rs' \<in> set (batches_failed ev')" if "unc = Some rs'" for rs'
        using unc(2) [OF that] by auto
      ultimately show ?thesis unfolding on_disk_def using fit(2) by blast
    qed
  qed
qed

lemma run_on_disk:
  assumes "runs (server_step X token maximum) w evs w'" and "world_inv X maximum w" and "on_disk X retained wal [] w"
  shows "on_disk X retained wal evs w'"
  using assms(1,2)
proof (induction rule: run_induct)
  case start
  then show ?case by (rule assms(3))
next
  case (step evs v ev u)
  then show ?case by (intro step_on_disk)
qed

end
