(* ===== verification/World_Demo.thy ===== *)
theory World_Demo
  imports World_Progress World_Store Rpc_Demo Store_Properties
begin

text \<open>
  Concrete runs of the server, evaluated: two clients connect, one publishes, and one calls the
  route that the other has registered.
\<close>

lemma server_one: "server_step X token maximum w ev w' \<Longrightarrow> runs (server_step X token maximum) w [ev] w'"
  by (rule runs_one)

lemma server_cons: "server_step X token maximum w ev v \<Longrightarrow> runs (server_step X token maximum) v evs w'
    \<Longrightarrow> runs (server_step X token maximum) w (ev # evs) w'"
  by (rule runs_cons)

lemma server_append: "runs (server_step X token maximum) v evs' w' \<Longrightarrow> runs (server_step X token maximum) w evs v
    \<Longrightarrow> runs (server_step X token maximum) w (evs @ evs') w'"
  by (rule runs_append)

section \<open>A server and its clients\<close>

definition demo_externals :: externals where
  "demo_externals = \<lparr>ex_crc = sample_crc, ex_to_vec = (\<lambda>_. []), ex_from_slice = (\<lambda>_. Some (JObject [])), ex_ct_eq = (=)\<rparr>"

definition demo_config :: "bool \<Rightarrow> config" where
  "demo_config memory =
     \<lparr>cfg_listen = \<lparr>ip = V4 [127, 0, 0, 1], port = 7447\<rparr>, cfg_data_dir = [], cfg_memory = memory,
      cfg_max_retained_bytes = 1000, cfg_max_wal_bytes = 1000, cfg_max_connections = 2, cfg_max_rpc_calls = 4,
      cfg_max_rpc_bytes = 10000, cfg_token = []\<rparr>"

lemma demo_json: "json_objects (ex_to_vec demo_externals) (ex_from_slice demo_externals)"
  by (simp add: json_objects_def demo_externals_def)

definition demo_server :: "store \<Rightarrow> server" where
  "demo_server s = \<lparr>sv_store = \<lparr>sh_store = s, sh_poisoned = False\<rparr>, sv_rpc = rpc_new 4 10000,
     sv_listener = \<lparr>connection_id = 0, free_connections = 2\<rparr>, sv_token = []\<rparr>"

lemma demo_start_memory:
  "serve_start no_faults (ex_crc X) 0 (\<lambda>_. []) (demo_config True) {} None = (Inr (demo_server (store_memory 0 1000 1000)), {}, None)"
  by (simp add: serve_start_def demo_config_def demo_server_def)

lemma demo_start_disk:
  obtains s dirs f where "serve_start no_faults (ex_crc X) 0 (\<lambda>_. []) (demo_config False) {} None = (Inr (demo_server s), dirs, f)"
proof -
  obtain s dirs f where "store_disk no_faults (ex_crc X) 0 [] {} None 1000 1000 = (Inr s, dirs, Some f)"
    using store_disk_fresh [of 1000 None "ex_crc X" 0 "[]" "{}" 1000] by auto
  then show thesis using that [of s dirs "Some f"] by (simp add: serve_start_def demo_config_def demo_server_def)
qed

text \<open>Two clients: what they are, and the tasks they have.\<close>

definition demo_world :: "shared_store \<Rightarrow> system \<Rightarrow> client \<Rightarrow> client \<Rightarrow> (u32 \<Rightarrow> (request \<times> stage) option)
    \<Rightarrow> (u32 \<Rightarrow> (request \<times> stage) option) \<Rightarrow> world" where
  "demo_world sh \<sigma> x1 x2 t1 t2 =
     \<lparr>w_listener = \<lparr>connection_id = 2, free_connections = 0\<rparr>, w_store = sh, w_system = \<sigma>,
      w_clients = [1 \<mapsto> x1, 2 \<mapsto> x2],
      w_tasks = (\<lambda>(n, i). if n = 1 then t1 i else if n = 2 then t2 i else None), w_orphans = []\<rparr>"

lemma demo_world_simps [simp]:
  "w_listener (demo_world sh \<sigma> x1 x2 t1 t2) = \<lparr>connection_id = 2, free_connections = 0\<rparr>"
  "w_store (demo_world sh \<sigma> x1 x2 t1 t2) = sh" "w_system (demo_world sh \<sigma> x1 x2 t1 t2) = \<sigma>"
  "w_clients (demo_world sh \<sigma> x1 x2 t1 t2) = [1 \<mapsto> x1, 2 \<mapsto> x2]"
  "w_tasks (demo_world sh \<sigma> x1 x2 t1 t2) (1, i) = t1 i" "w_tasks (demo_world sh \<sigma> x1 x2 t1 t2) (2, i) = t2 i"
  "(demo_world sh \<sigma> x1 x2 t1 t2)\<lparr>w_store := sh'\<rparr> = demo_world sh' \<sigma> x1 x2 t1 t2"
  "(demo_world sh \<sigma> x1 x2 t1 t2)\<lparr>w_system := \<sigma>'\<rparr> = demo_world sh \<sigma>' x1 x2 t1 t2"
  "put_task 1 i v (demo_world sh \<sigma> x1 x2 t1 t2) = demo_world sh \<sigma> x1 x2 (t1(i := v)) t2"
  "put_task 2 i v (demo_world sh \<sigma> x1 x2 t1 t2) = demo_world sh \<sigma> x1 x2 t1 (t2(i := v))"
  "put_conn 1 s c (demo_world sh \<sigma> x1 x2 t1 t2) = demo_world sh \<sigma> (Active s c) x2 t1 t2"
  "put_conn 2 s c (demo_world sh \<sigma> x1 x2 t1 t2) = demo_world sh \<sigma> x1 (Active s c) t1 t2"
  by (auto simp: demo_world_def put_task_def put_conn_def fun_eq_iff)

text \<open>What a request that starts an operation does to its connection.\<close>

definition with_operation :: "u32 \<Rightarrow> request \<Rightarrow> connection \<Rightarrow> connection" where
  "with_operation i q c = c\<lparr>cn_ids := insert i (cn_ids c), cn_permits := cn_permits c - 1,
     cn_operations := cn_operations c @ [\<lparr>op_request_id = i, op_opcode = request_opcode q, op_request = q\<rparr>]\<rparr>"

definition request_frame :: "u32 \<Rightarrow> request \<Rightarrow> bytes" where
  "request_frame i q = envelope (request_opcode q) i (request_body q)"

lemma on_frame_with_operation:
  assumes "request_ok q" and "\<And>v tok. q \<noteq> Hello v tok" and "i \<notin> cn_ids c" and "0 < cn_permits c"
  shows "on_frame (request_opcode q) i (request_body q) c = with_operation i q c"
proof -
  have "request_error True (Inr q) = None" using assms(2) by (cases q) (auto simp: request_error_def)
  then show ?thesis
    using assms decode_request_enc [OF assms(1)] by (simp add: on_frame_def Let_def admitted_def with_operation_def)
qed

lemma demo_frame:
  assumes "w_clients w n = Some (Active (request_frame i q @ rest) c)" and "cn_phase c = Serving" and "i \<noteq> 0"
    and "request_ok q" "length (request_body q) \<le> MAX_FRAME - 5" and "\<And>v tok. q \<noteq> Hello v tok" and "i \<notin> cn_ids c" "0 < cn_permits c"
  shows "server_step X token maximum w (Framed n (request_opcode q) i (request_body q))
    (put_task n i (Some (q, Spawned (maximum - free_connections (w_listener w)))) (put_conn n rest (with_operation i q c) w))"
proof -
  let ?io = "\<lparr>io_fault = None, io_elapsed = 0\<rparr>"
  have "read_frame True ?io ?io (request_frame i q @ rest) = Inr ((request_opcode q, i, request_body q), rest)"
    unfolding read_frame_iff using assms(3,5) by (simp add: request_frame_def)
  from framed [OF assms(1,2) this on_frame_with_operation [OF assms(4,6,7,8), symmetric], of X token maximum]
  show ?thesis by (simp add: spawn_task_def with_operation_def)
qed

section \<open>Two clients are greeted\<close>

definition hello_frame :: bytes where
  "hello_frame = request_frame 1 (Hello 1 [])"

definition two_connected :: system where
  "two_connected = demo_system (connected 2 (connected 1 (rpc_new 4 10000))) [] {}"

definition greeting_events :: "bytes \<Rightarrow> bytes \<Rightarrow> server_event list" where
  "greeting_events in1 in2 = [Arrived (Served 1), Greeted 1 (hello_frame @ in1), Arrived (Served 2), Greeted 2 (hello_frame @ in2)]"

lemma hello_handshake:
  "handshake (ex_ct_eq demo_externals) [] \<lparr>io_fault = None, io_elapsed = 0\<rparr> \<lparr>io_fault = None, io_elapsed = 0\<rparr> None 0 (hello_frame @ rest)
    = Inr (True, response_frame 129 1 (to_be_bytes (1 :: u16)), rest)"
proof -
  have ok: "request_ok (Hello 1 [])" by (simp add: string_ok_def)
  have "length (request_body (Hello 1 [])) \<le> MAX_FRAME - 5" by (simp add: MAX_FRAME_def)
  then have "read_frame False \<lparr>io_fault = None, io_elapsed = 0\<rparr> \<lparr>io_fault = None, io_elapsed = 0\<rparr> (hello_frame @ rest)
      = Inr ((1, 1, request_body (Hello 1 [])), rest)"
    unfolding read_frame_iff by (simp add: hello_frame_def request_frame_def)
  moreover have "hello_error (=) [] (decode_request 1 (request_body (Hello 1 []))) = None"
    using decode_request_enc [OF ok] by (simp add: hello_error_def)
  moreover have "write_response None 0 (or 1 128) 1 (to_be_bytes (1 :: u16)) = Inr (response_frame 129 1 (to_be_bytes (1 :: u16)))"
    by (simp add: write_response_Inr)
  ultimately show ?thesis unfolding demo_externals_def handshake_def by (simp add: and_then_def)
qed

lemma demo_accepts:
  "accept \<lparr>connection_id = 0, free_connections = 2\<rparr> = (Served 1, \<lparr>connection_id = 1, free_connections = 1\<rparr>)"
  "accept \<lparr>connection_id = 1, free_connections = 1\<rparr> = (Served 2, \<lparr>connection_id = 2, free_connections = 0\<rparr>)"
  by (simp_all add: accept_def checked_add_def)

definition greet :: "u64 \<Rightarrow> bytes \<Rightarrow> world \<Rightarrow> world" where
  "greet n rest w = put_conn n rest connection_new w
     \<lparr>w_system := (w_system w)\<lparr>rpc := connected n (rpc (w_system w)), known := insert n (known (w_system w))\<rparr>\<rparr>"

definition admit_client :: "u64 \<Rightarrow> nat \<Rightarrow> bytes \<Rightarrow> world \<Rightarrow> world" where
  "admit_client n k s w = w\<lparr>w_listener := \<lparr>connection_id = n, free_connections = k\<rparr>, w_clients := (w_clients w)(n \<mapsto> Greeting s)\<rparr>"

lemma demo_admits:
  assumes "accept (w_listener w) = (Served n, \<lparr>connection_id = n, free_connections = k\<rparr>)"
  shows "runs (server_step demo_externals [] 2) w [Arrived (Served n), Greeted n (hello_frame @ rest)]
    (greet n rest (admit_client n k (hello_frame @ rest) w))"
proof -
  let ?w = "admit_client n k (hello_frame @ rest) w"
  have "server_step demo_externals [] 2 w (Arrived (Served n)) ?w"
    using arrived [OF assms, of demo_externals "[]" 2 "hello_frame @ rest"] by (simp add: admit_client_def)
  moreover have "w_clients ?w n = Some (Greeting (hello_frame @ rest))" by (simp add: admit_client_def)
  from greeted [OF this hello_handshake] have "server_step demo_externals [] 2 ?w (Greeted n (hello_frame @ rest)) (greet n rest ?w)"
    by (simp add: greet_def)
  ultimately show ?thesis using server_cons server_one by metis
qed

lemma greet_simps [simp]:
  "w_listener (greet n rest w) = w_listener w" "w_store (greet n rest w) = w_store w" "w_tasks (greet n rest w) = w_tasks w"
  "w_orphans (greet n rest w) = w_orphans w" "w_clients (greet n rest w) = (w_clients w)(n \<mapsto> Active rest connection_new)"
  "w_system (greet n rest w) = (w_system w)\<lparr>rpc := connected n (rpc (w_system w)), known := insert n (known (w_system w))\<rparr>"
  "w_listener (admit_client n k s w) = \<lparr>connection_id = n, free_connections = k\<rparr>" "w_store (admit_client n k s w) = w_store w"
  "w_tasks (admit_client n k s w) = w_tasks w" "w_orphans (admit_client n k s w) = w_orphans w"
  "w_clients (admit_client n k s w) = (w_clients w)(n \<mapsto> Greeting s)" "w_system (admit_client n k s w) = w_system w"
  by (simp_all add: greet_def admit_client_def)

lemma greeting_run:
  "runs (server_step demo_externals [] 2) (serving (demo_server s)) (greeting_events in1 in2)
     (demo_world \<lparr>sh_store = s, sh_poisoned = False\<rparr> two_connected (Active in1 connection_new) (Active in2 connection_new) Map.empty Map.empty)"
proof -
  let ?w0 = "serving (demo_server s)"
  let ?w1 = "greet 1 in1 (admit_client 1 1 (hello_frame @ in1) ?w0)"
  let ?w2 = "greet 2 in2 (admit_client 2 0 (hello_frame @ in2) ?w1)"
  have "accept (w_listener ?w0) = (Served 1, \<lparr>connection_id = 1, free_connections = 1\<rparr>)"
    by (simp add: serving_def demo_server_def demo_accepts(1) [simplified])
  note first = demo_admits [OF this, of in1]
  have "accept (w_listener ?w1) = (Served 2, \<lparr>connection_id = 2, free_connections = 0\<rparr>)"
    using demo_accepts(2) by simp
  note second = demo_admits [OF this, of in2]
  have "?w2 = demo_world \<lparr>sh_store = s, sh_poisoned = False\<rparr> two_connected (Active in1 connection_new) (Active in2 connection_new) Map.empty Map.empty"
    by (rule world.equality) (auto simp: demo_world_def serving_def demo_server_def two_connected_def demo_system_def fun_eq_iff)
  then show ?thesis using server_append [OF second first] by (simp add: greeting_events_def)
qed

section \<open>A response\<close>

definition demo_op_of :: "u32 \<Rightarrow> request \<Rightarrow> operation" where
  "demo_op_of i q = \<lparr>op_request_id = i, op_opcode = request_opcode q, op_request = q\<rparr>"

definition demo_response :: "u32 \<Rightarrow> request \<Rightarrow> bytes \<Rightarrow> response" where
  "demo_response i q out = \<lparr>rs_opcode = or (request_opcode q) 128, rs_request_id = i, rs_body = out, rs_permit = True, rs_written = False\<rparr>"

lemma response_run:
  assumes c: "w_clients w n = Some (Active s c)" "cn_phase c = Serving" "cn_responses c = []" "cn_writing c = None"
      "cn_operations c = [demo_op_of i q]"
    and t: "w_tasks w (n, i) = Some (q, Replied (Inr out))"
  obtains w' where "runs (server_step X token maximum) w
      [Finishing n (demo_op_of i q) (Inr out), Retiring n i, Wrote n (demo_response i q out)] w'"
    "w_store w' = w_store w"
proof -
  let ?op = "demo_op_of i q" and ?r = "demo_response i q out"
  let ?c1 = "on_finished ?op (Inr out) c"
  let ?w1 = "put_task n i None (put_conn n s ?c1 w)"
  have c1: "cn_responses ?c1 = [?r]" "cn_writing ?c1 = None" "cn_phase ?c1 = Serving"
    using c by (simp_all add: on_finished_def response_of_def demo_op_of_def demo_response_def)
  have id: "op_request_id ?op = i" "rs_request_id ?r = i" by (simp_all add: demo_op_of_def demo_response_def)
  have "?op \<in> set (cn_operations c)" using c(5) by simp
  from finishing [OF c(1) this, of q "Inr out"] have 1: "server_step X token maximum w (Finishing n ?op (Inr out)) ?w1"
    using t id by simp
  let ?c2 = "on_retired ?r [] ?c1"
  let ?w2 = "put_conn n s ?c2 ?w1"
  have at1: "w_clients ?w1 n = Some (Active s ?c1)" by simp
  have "server_step X token maximum ?w1 (Retiring n i) ?w2"
    using retiring [OF at1 c1(2) c1(1), of X token maximum] id by simp
  moreover have at2: "w_clients ?w2 n = Some (Active s ?c2)" "cn_writing ?c2 = Some ?r" "cn_phase ?c2 = Serving"
    using c1(3) by (simp_all add: on_retired_def)
  then have "server_step X token maximum ?w2 (Wrote n ?r) (put_conn n s (on_written ?r ?c2) ?w2)"
    by (intro wrote) simp_all
  ultimately have "runs (server_step X token maximum) w [Finishing n ?op (Inr out), Retiring n i, Wrote n ?r]
      (put_conn n s (on_written ?r ?c2) ?w2)"
    using 1 server_cons server_one by metis
  then show thesis by (rule that) simp
qed

section \<open>A publish\<close>

abbreviation demo_publish :: request where
  "demo_publish \<equiv> Publish [sample_record]"

definition stored_events :: "(error + bytes) \<Rightarrow> server_event list" where
  "stored_events r = greeting_events (request_frame 2 demo_publish) [] @
     [Framed 1 2 2 (request_body demo_publish), Handed 1 2 demo_publish, Ran 1 2 demo_publish r]"

lemma connection_new_simps [simp]:
  "cn_ids connection_new = {}" "cn_permits connection_new = 32" "cn_operations connection_new = []"
  "cn_responses connection_new = []" "cn_writing connection_new = None" "cn_phase connection_new = Serving"
  by (simp_all add: connection_new_def MAX_IN_FLIGHT_def)

lemma with_operation_simps [simp]:
  "cn_ids (with_operation i q c) = insert i (cn_ids c)" "cn_permits (with_operation i q c) = cn_permits c - 1"
  "cn_operations (with_operation i q c) = cn_operations c @ [demo_op_of i q]"
  "cn_responses (with_operation i q c) = cn_responses c" "cn_writing (with_operation i q c) = cn_writing c" "cn_phase (with_operation i q c) = cn_phase c"
  by (simp_all add: with_operation_def demo_op_of_def)

lemma stored_run:
  assumes b: "blocking_operation no_faults sample_crc (\<lambda>_. []) (\<lambda>_. Some (JObject [])) 0 2 None demo_publish
      \<lparr>sh_store = s, sh_poisoned = False\<rparr> = (r, sh)"
  shows "runs (server_step demo_externals [] 2) (serving (demo_server s)) (stored_events r)
    (demo_world sh two_connected (Active [] (with_operation 2 demo_publish connection_new)) (Active [] connection_new)
       [2 \<mapsto> (demo_publish, Replied r)] Map.empty)"
proof -
  let ?sh = "\<lparr>sh_store = s, sh_poisoned = False\<rparr>" and ?c = "with_operation 2 demo_publish connection_new"
  let ?w = "\<lambda>sh x1 t1. demo_world sh two_connected x1 (Active [] connection_new) t1 Map.empty"
  have ok: "request_ok demo_publish" "length (request_body demo_publish) \<le> MAX_FRAME - 5"
    using sample_batch_ok sample_encoded by (simp_all add: MAX_FRAME_def)
  have 1: "server_step demo_externals [] 2 (?w ?sh (Active (request_frame 2 demo_publish) connection_new) Map.empty)
      (Framed 1 2 2 (request_body demo_publish)) (?w ?sh (Active [] ?c) [2 \<mapsto> (demo_publish, Spawned 2)])"
    using demo_frame [of "?w ?sh (Active (request_frame 2 demo_publish) connection_new) Map.empty" 1 2 demo_publish "[]"
        connection_new demo_externals "[]" 2] ok by simp
  have 2: "server_step demo_externals [] 2 (?w ?sh (Active [] ?c) [2 \<mapsto> (demo_publish, Spawned 2)])
      (Handed 1 2 demo_publish) (?w ?sh (Active [] ?c) [2 \<mapsto> (demo_publish, Blocking 2 None)])"
    using handed [of "?w ?sh (Active [] ?c) [2 \<mapsto> (demo_publish, Spawned 2)]" 1 2 demo_publish 2 demo_externals "[]" 2] by simp
  have 3: "server_step demo_externals [] 2 (?w ?sh (Active [] ?c) [2 \<mapsto> (demo_publish, Blocking 2 None)])
      (Ran 1 2 demo_publish r) (?w sh (Active [] ?c) [2 \<mapsto> (demo_publish, Replied r)])"
    using ran [of "?w ?sh (Active [] ?c) [2 \<mapsto> (demo_publish, Blocking 2 None)]" 1 2 demo_publish 2 None no_faults demo_externals 0 r sh "[]" 2] b
    by (simp add: demo_externals_def)
  show ?thesis
    unfolding stored_events_def
    using server_append [OF server_cons [OF 1 server_cons [OF 2 server_one [OF 3]]] greeting_run [of s]] by simp
qed

lemma demo_publish_memory:
  obtains sh where "blocking_operation no_faults sample_crc (\<lambda>_. []) (\<lambda>_. Some (JObject [])) 0 2 None demo_publish
      \<lparr>sh_store = store_memory 0 1000 1000, sh_poisoned = False\<rparr> = (Inr (receipt 1 1 1 False), sh)"
proof -
  let ?s = "store_memory 0 1000 1000"
  have s: "st_wal ?s = None" "\<not> poisoned ?s" "history ?s = []" "last_sequence ?s = 0" "st_max_retained_bytes ?s = 1000"
    by (simp_all add: store_memory_def history_def last_sequence_def)
  have "total_cost (history ?s @ [sample_record]) \<le> unat (st_max_retained_bytes ?s)" using sample_cost s by simp
  from publish_eq [OF store_memory_ok sample_batch_ok s(2) this, of no_faults sample_crc] s
  have "publish no_faults sample_crc [sample_record] ?s = (Inr (receipt 1 1 1 False), published ?s [sample_record])"
    by (simp add: publish_receipt_def)
  then show thesis using that by (simp add: blocking_operation_def store_operation_def)
qed

definition published_events :: "server_event list" where
  "published_events = stored_events (Inr (receipt 1 1 1 False)) @
     [Finishing 1 (demo_op_of 2 demo_publish) (Inr (receipt 1 1 1 False)), Retiring 1 2,
      Wrote 1 (demo_response 2 demo_publish (receipt 1 1 1 False))]"

lemma published_run:
  obtains w where "runs (server_step demo_externals [] 2) (serving (demo_server (store_memory 0 1000 1000))) published_events w"
proof -
  obtain sh where b: "blocking_operation no_faults sample_crc (\<lambda>_. []) (\<lambda>_. Some (JObject [])) 0 2 None demo_publish
      \<lparr>sh_store = store_memory 0 1000 1000, sh_poisoned = False\<rparr> = (Inr (receipt 1 1 1 False), sh)"
    by (rule demo_publish_memory)
  let ?w = "demo_world sh two_connected (Active [] (with_operation 2 demo_publish connection_new)) (Active [] connection_new)
       [2 \<mapsto> (demo_publish, Replied (Inr (receipt 1 1 1 False)))] Map.empty"
  obtain w' where "runs (server_step demo_externals [] 2) ?w [Finishing 1 (demo_op_of 2 demo_publish) (Inr (receipt 1 1 1 False)),
      Retiring 1 2, Wrote 1 (demo_response 2 demo_publish (receipt 1 1 1 False))] w'"
    by (rule response_run [of ?w 1 "[]" "with_operation 2 demo_publish connection_new" 2 demo_publish "receipt 1 1 1 False" demo_externals "[]" 2]) simp_all
  from server_append [OF this stored_run [OF b]] show thesis using that by (simp add: published_events_def)
qed

section \<open>A call\<close>

abbreviation demo_reg :: request where "demo_reg \<equiv> Register echo 1 8"
abbreviation demo_rpc :: request where "demo_rpc \<equiv> request.Rpc echo 5000 [7]"
abbreviation demo_tk :: request where "demo_tk \<equiv> Take 1"
abbreviation demo_done :: request where "demo_done \<equiv> Complete 1 False [9]"

lemma demo_requests_ok:
  "request_ok demo_reg" "request_ok demo_rpc" "request_ok demo_tk" "request_ok demo_done"
  "length (request_body demo_reg) \<le> MAX_FRAME - 5" "length (request_body demo_rpc) \<le> MAX_FRAME - 5"
  "length (request_body demo_tk) \<le> MAX_FRAME - 5" "length (request_body demo_done) \<le> MAX_FRAME - 5"
  by (simp_all add: valid_topic_def topic_byte_def is_ascii_alphanumeric_def echo_def str_def MAX_PAYLOAD_def MAX_FRAME_def put_string_def)

definition waiting_op :: "take_phase \<Rightarrow> take_op" where
  "waiting_op ph = \<lparr>tk_worker = 2, tk_notify = 0, tk_end = 1000000, tk_phase = ph\<rparr>"

definition worker_input :: bytes where
  "worker_input = request_frame 2 demo_reg @ request_frame 3 demo_tk @ request_frame 4 demo_done"

abbreviation caller_conn :: connection where "caller_conn \<equiv> with_operation 2 demo_rpc connection_new"
abbreviation worker_conn1 :: connection where "worker_conn1 \<equiv> with_operation 2 demo_reg connection_new"
abbreviation worker_conn2 :: connection where "worker_conn2 \<equiv> with_operation 3 demo_tk worker_conn1"
abbreviation worker_conn3 :: connection where "worker_conn3 \<equiv> with_operation 4 demo_done worker_conn2"

abbreviation call_world :: "system \<Rightarrow> client \<Rightarrow> client \<Rightarrow> (u32 \<Rightarrow> (request \<times> stage) option) \<Rightarrow> (u32 \<Rightarrow> (request \<times> stage) option) \<Rightarrow> world" where
  "call_world \<equiv> demo_world \<lparr>sh_store = store_memory 0 1000 1000, sh_poisoned = False\<rparr>"

lemma registering_run:
  "runs (server_step demo_externals [] 2) (call_world two_connected (Active in1 connection_new) (Active worker_input connection_new) Map.empty Map.empty)
     [Framed 2 6 2 (request_body demo_reg), Dispatched 2 2 demo_reg (Reply (Inr [])) 0]
     (call_world (demo_system (demo_ready (demo_worker 0 0)) [] {}) (Active in1 connection_new)
        (Active (request_frame 3 demo_tk @ request_frame 4 demo_done) worker_conn1) Map.empty [2 \<mapsto> (demo_reg, Replied (Inr []))])"
proof -
  let ?rest = "request_frame 3 demo_tk @ request_frame 4 demo_done"
  let ?w0 = "call_world two_connected (Active in1 connection_new) (Active worker_input connection_new) Map.empty Map.empty"
  let ?w1 = "call_world two_connected (Active in1 connection_new) (Active ?rest worker_conn1) Map.empty [2 \<mapsto> (demo_reg, Spawned 2)]"
  have 1: "server_step demo_externals [] 2 ?w0 (Framed 2 6 2 (request_body demo_reg)) ?w1"
    using demo_frame [of ?w0 2 2 demo_reg ?rest connection_new demo_externals "[]" 2] demo_requests_ok
    by (simp add: worker_input_def)
  have "dispatch no_faults (ex_crc demo_externals) (ex_to_vec demo_externals) (ex_from_slice demo_externals) 0 0 0 2 2 demo_reg
      (w_store ?w1, rpc (w_system ?w1)) = Some (Reply (Inr []), w_store ?w1, demo_ready (demo_worker 0 0))"
    using demo_register by (simp add: dispatch_def two_connected_def demo_system_def empty_reply_def and_then_def)
  from dispatched [OF _ this, of 2 0 "[]" 2 0]
  have 2: "server_step demo_externals [] 2 ?w1 (Dispatched 2 2 demo_reg (Reply (Inr [])) 0)
     (call_world (demo_system (demo_ready (demo_worker 0 0)) [] {}) (Active in1 connection_new)
        (Active ?rest worker_conn1) Map.empty [2 \<mapsto> (demo_reg, Replied (Inr []))])"
    by (simp add: stage_of_def after_dispatch_def two_connected_def demo_system_def hm_get_def)
  show ?thesis by (rule server_cons [OF 1 server_one [OF 2]])
qed

lemma requesting_run:
  "runs (server_step demo_externals [] 2)
     (call_world (demo_system (demo_ready (demo_worker 0 0)) [] {}) (Active (request_frame 2 demo_rpc) connection_new) x2 Map.empty t2)
     [Framed 1 7 2 (request_body demo_rpc), Dispatched 1 2 demo_rpc (AwaitTicket demo_ticket) 0]
     (call_world (demo_system (demo_state [1] (demo_worker 0 0) [(1, demo_call None)] 0 Open 1) [] {demo_ticket})
        (Active [] caller_conn) x2 [2 \<mapsto> (demo_rpc, OnTicket demo_ticket)] t2)"
proof -
  let ?\<sigma> = "demo_system (demo_ready (demo_worker 0 0)) [] {}"
  let ?w0 = "call_world ?\<sigma> (Active (request_frame 2 demo_rpc) connection_new) x2 Map.empty t2"
  let ?w1 = "call_world ?\<sigma> (Active [] caller_conn) x2 [2 \<mapsto> (demo_rpc, Spawned 2)] t2"
  let ?s = "demo_state [1] (demo_worker 0 0) [(1, demo_call None)] 0 Open 1"
  have 1: "server_step demo_externals [] 2 ?w0 (Framed 1 7 2 (request_body demo_rpc)) ?w1"
    using demo_frame [of ?w0 1 2 demo_rpc "[]" connection_new demo_externals "[]" 2] demo_requests_ok by simp
  have "dispatch no_faults (ex_crc demo_externals) (ex_to_vec demo_externals) (ex_from_slice demo_externals) 0 0 0 2 1 demo_rpc
      (w_store ?w1, rpc (w_system ?w1)) = Some (AwaitTicket demo_ticket, w_store ?w1, ?s)"
    using demo_request by (simp add: dispatch_def demo_system_def)
  from dispatched [OF _ this, of 2 0 "[]" 2 0]
  have 2: "server_step demo_externals [] 2 ?w1 (Dispatched 1 2 demo_rpc (AwaitTicket demo_ticket) 0)
     (call_world (demo_system ?s [] {demo_ticket}) (Active [] caller_conn) x2 [2 \<mapsto> (demo_rpc, OnTicket demo_ticket)] t2)"
    by (simp add: stage_of_def after_dispatch_def demo_system_def hm_get_def)
  show ?thesis by (rule server_cons [OF 1 server_one [OF 2]])
qed

lemma taking_run:
  "runs (server_step demo_externals [] 2)
     (call_world (demo_system (demo_state [1] (demo_worker 0 0) [(1, demo_call None)] 0 Open 1) [] {demo_ticket})
        x1 (Active (request_frame 3 demo_tk @ rest) worker_conn1) t1 [2 \<mapsto> (demo_reg, Replied (Inr []))])
     [Framed 2 8 3 (request_body demo_tk), Dispatched 2 3 demo_tk (AwaitTake 0 1) 0, Stepped 2 3 demo_tk (Enabled 0),
      Took 2 3 demo_tk (Dispatch demo_job)]
     (call_world (demo_system (demo_state [] (demo_worker 1 0) [(1, demo_call (Some 2))] 0 Open 1) [] {demo_ticket})
        x1 (Active rest worker_conn2) t1 [2 \<mapsto> (demo_reg, Replied (Inr [])), 3 \<mapsto> (demo_tk, Replied (Inr (job_encode demo_job)))])"
proof -
  let ?q = "\<lambda>m. demo_state [1] (demo_worker 0 m) [(1, demo_call None)] 0 Open 1"
  let ?t2 = "\<lambda>st. [2 \<mapsto> (demo_reg, Replied (Inr [])), 3 \<mapsto> (demo_tk, st)]"
  let ?start = "call_world (demo_system (?q 0) [] {demo_ticket}) x1 (Active (request_frame 3 demo_tk @ rest) worker_conn1) t1
      [2 \<mapsto> (demo_reg, Replied (Inr []))]"
  let ?w = "\<lambda>\<sigma> st. call_world \<sigma> x1 (Active rest worker_conn2) t1 (?t2 st)"
  let ?\<sigma> = "demo_system (?q 0) [] {demo_ticket}"
  let ?\<tau> = "\<lambda>ph. demo_system (?q 1) [(0, waiting_op ph)] {demo_ticket}"
  let ?s = "demo_state [] (demo_worker 1 1) [(1, demo_call (Some 2))] 0 Open 1"
  let ?\<upsilon> = "demo_system (demo_state [] (demo_worker 1 0) [(1, demo_call (Some 2))] 0 Open 1) [] {demo_ticket}"
  have 1: "server_step demo_externals [] 2 ?start (Framed 2 8 3 (request_body demo_tk)) (?w ?\<sigma> (Spawned 2))"
    using demo_frame [of ?start 2 3 demo_tk rest worker_conn1 demo_externals "[]" 2] demo_requests_ok by simp
  have "dispatch no_faults (ex_crc demo_externals) (ex_to_vec demo_externals) (ex_from_slice demo_externals) 0 0 0 2 2 demo_tk
      (w_store (?w ?\<sigma> (Spawned 2)), rpc (w_system (?w ?\<sigma> (Spawned 2)))) = Some (AwaitTake 0 1, w_store (?w ?\<sigma> (Spawned 2)), ?q 1)"
    using demo_take by (simp add: dispatch_def demo_system_def)
  from dispatched [OF _ this, of 3 0 "[]" 2 0]
  have 2: "server_step demo_externals [] 2 (?w ?\<sigma> (Spawned 2)) (Dispatched 2 3 demo_tk (AwaitTake 0 1) 0) (?w (?\<tau> Starting) (Taking 0))"
    by (simp add: stage_of_def after_dispatch_def demo_system_def hm_get_def hm_insert_def waiting_op_def)
  have "take_turn 0 (?\<tau> Starting) (Enabled 0) (?\<tau> (Trying 1))"
    using turn_enable [of "?\<tau> Starting" 0 "waiting_op Starting"]
    by (simp add: demo_system_def waiting_op_def hm_insert_def hm_get_def demo_state_def)
  then have 3: "server_step demo_externals [] 2 (?w (?\<tau> Starting) (Taking 0)) (Stepped 2 3 demo_tk (Enabled 0)) (?w (?\<tau> (Trying 1)) (Taking 0))"
    using stepped [of "?w (?\<tau> Starting) (Taking 0)" 2 3 demo_tk 0 "Enabled 0" "?\<tau> (Trying 1)" demo_externals "[]" 2] by simp
  have tk: "hm_get (takes (w_system (?w (?\<tau> (Trying 1)) (Taking 0)))) 0 = Some (waiting_op (Trying 1))"
    "tk_phase (waiting_op (Trying 1)) = Trying 1"
    by (simp_all add: demo_system_def hm_get_def waiting_op_def)
  have "try_take_once (tk_worker (waiting_op (Trying 1))) 1 1 (rpc (w_system (?w (?\<tau> (Trying 1)) (Taking 0)))) = Some (Dispatch demo_job, ?s)"
    using demo_dispatch by (simp add: waiting_op_def demo_system_def)
  from took [OF _ tk this, of 2 3 demo_tk demo_externals "[]" 2]
  have 4: "server_step demo_externals [] 2 (?w (?\<tau> (Trying 1)) (Taking 0)) (Took 2 3 demo_tk (Dispatch demo_job))
      (?w ?\<upsilon> (Replied (Inr (job_encode demo_job))))"
    by (simp add: end_take_def demo_guard demo_system_def hm_get_def hm_remove_def waiting_op_def take_reply_def take_body_def)
  show ?thesis by (rule server_cons [OF 1 server_cons [OF 2 server_cons [OF 3 server_one [OF 4]]]])
qed

lemma answering_run:
  "runs (server_step demo_externals [] 2)
     (call_world (demo_system (demo_state [] (demo_worker 1 0) [(1, demo_call (Some 2))] 0 Open 1) [] {demo_ticket})
        x1 (Active (request_frame 4 demo_done) worker_conn2) [2 \<mapsto> (demo_rpc, OnTicket demo_ticket)] t2)
     [Framed 2 9 4 (request_body demo_done), Dispatched 2 4 demo_done (Reply (Inr [])) 0,
      Answering 1 2 demo_rpc demo_ticket (Inr [9])]
     (call_world (demo_system (demo_state [] (demo_worker 0 0) [] 1 (Sent (Inr [9])) 2) [] {})
        x1 (Active [] worker_conn3) [2 \<mapsto> (demo_rpc, Replied (rpc_body (Inr [9])))] (t2(4 \<mapsto> (demo_done, Replied (Inr [])))))"
proof -
  let ?\<sigma> = "demo_system (demo_state [] (demo_worker 1 0) [(1, demo_call (Some 2))] 0 Open 1) [] {demo_ticket}"
  let ?s = "demo_state [] (demo_worker 0 0) [] 1 (Sent (Inr [9])) 2"
  let ?start = "call_world ?\<sigma> x1 (Active (request_frame 4 demo_done) worker_conn2) [2 \<mapsto> (demo_rpc, OnTicket demo_ticket)] t2"
  let ?w = "\<lambda>\<sigma> v st. call_world \<sigma> x1 (Active [] worker_conn3) [2 \<mapsto> (demo_rpc, v)] (t2(4 \<mapsto> (demo_done, st)))"
  have 1: "server_step demo_externals [] 2 ?start (Framed 2 9 4 (request_body demo_done)) (?w ?\<sigma> (OnTicket demo_ticket) (Spawned 2))"
    using demo_frame [of ?start 2 4 demo_done "[]" worker_conn2 demo_externals "[]" 2] demo_requests_ok by simp
  have "dispatch no_faults (ex_crc demo_externals) (ex_to_vec demo_externals) (ex_from_slice demo_externals) 2 0 0 2 2 demo_done
      (w_store (?w ?\<sigma> (OnTicket demo_ticket) (Spawned 2)), rpc (w_system (?w ?\<sigma> (OnTicket demo_ticket) (Spawned 2))))
      = Some (Reply (Inr []), w_store (?w ?\<sigma> (OnTicket demo_ticket) (Spawned 2)), ?s)"
    using demo_complete by (simp add: dispatch_def demo_system_def empty_reply_def and_then_def)
  from dispatched [OF _ this, of 4 0 "[]" 2 0]
  have 2: "server_step demo_externals [] 2 (?w ?\<sigma> (OnTicket demo_ticket) (Spawned 2)) (Dispatched 2 4 demo_done (Reply (Inr [])) 0)
      (?w (demo_system ?s [] {demo_ticket}) (OnTicket demo_ticket) (Replied (Inr [])))"
    by (simp add: stage_of_def after_dispatch_def demo_system_def hm_get_def)
  have no_call: "cancel 1 ?s = ?s" by (simp add: cancel_def demo_state_def hm_get_def)
  have "ticket_poll 3 demo_ticket (rpc (w_system (?w (demo_system ?s [] {demo_ticket}) (OnTicket demo_ticket) (Replied (Inr []))))) = Some (Inr [9], ?s)"
    using demo_poll by (simp add: demo_system_def)
  from answering [OF _ this, of 1 2 demo_rpc demo_externals "[]" 2]
  have 3: "server_step demo_externals [] 2 (?w (demo_system ?s [] {demo_ticket}) (OnTicket demo_ticket) (Replied (Inr [])))
      (Answering 1 2 demo_rpc demo_ticket (Inr [9])) (?w (demo_system ?s [] {}) (Replied (rpc_body (Inr [9]))) (Replied (Inr [])))"
    using no_call by (simp add: demo_system_def demo_ticket_def)
  show ?thesis by (rule server_cons [OF 1 server_cons [OF 2 server_one [OF 3]]])
qed

definition called_events :: "server_event list" where
  "called_events =
     greeting_events (request_frame 2 demo_rpc) worker_input
     @ [Framed 2 6 2 (request_body demo_reg), Dispatched 2 2 demo_reg (Reply (Inr [])) 0]
     @ [Framed 1 7 2 (request_body demo_rpc), Dispatched 1 2 demo_rpc (AwaitTicket demo_ticket) 0]
     @ [Framed 2 8 3 (request_body demo_tk), Dispatched 2 3 demo_tk (AwaitTake 0 1) 0, Stepped 2 3 demo_tk (Enabled 0),
        Took 2 3 demo_tk (Dispatch demo_job)]"

definition answered_events :: "server_event list" where
  "answered_events = called_events
     @ [Framed 2 9 4 (request_body demo_done), Dispatched 2 4 demo_done (Reply (Inr [])) 0, Answering 1 2 demo_rpc demo_ticket (Inr [9])]
     @ [Finishing 1 (demo_op_of 2 demo_rpc) (Inr [0, 0, 0, 1, 9]), Retiring 1 2, Wrote 1 (demo_response 2 demo_rpc [0, 0, 0, 1, 9])]"

abbreviation called_world :: world where
  "called_world \<equiv> call_world (demo_system (demo_state [] (demo_worker 1 0) [(1, demo_call (Some 2))] 0 Open 1) [] {demo_ticket})
     (Active [] caller_conn) (Active (request_frame 4 demo_done) worker_conn2) [2 \<mapsto> (demo_rpc, OnTicket demo_ticket)]
     [2 \<mapsto> (demo_reg, Replied (Inr [])), 3 \<mapsto> (demo_tk, Replied (Inr (job_encode demo_job)))]"

lemma called_run: "runs (server_step demo_externals [] 2) (serving (demo_server (store_memory 0 1000 1000))) called_events called_world"
  unfolding called_events_def
  using server_append [OF taking_run server_append [OF requesting_run server_append [OF registering_run greeting_run]]] by simp

lemma answered_run:
  obtains w where "runs (server_step demo_externals [] 2) (serving (demo_server (store_memory 0 1000 1000))) answered_events w"
proof -
  let ?w = "call_world (demo_system (demo_state [] (demo_worker 0 0) [] 1 (Sent (Inr [9])) 2) [] {})
        (Active [] caller_conn) (Active [] worker_conn3) [2 \<mapsto> (demo_rpc, Replied (rpc_body (Inr [9])))]
        [2 \<mapsto> (demo_reg, Replied (Inr [])), 3 \<mapsto> (demo_tk, Replied (Inr (job_encode demo_job))), 4 \<mapsto> (demo_done, Replied (Inr []))]"
  have body: "rpc_body (Inr [9]) = Inr [0, 0, 0, 1, 9]"
    by (simp add: rpc_body_def and_then_def to_be_bytes_def codec_simps)
  obtain w' where "runs (server_step demo_externals [] 2) ?w [Finishing 1 (demo_op_of 2 demo_rpc) (Inr [0, 0, 0, 1, 9]),
      Retiring 1 2, Wrote 1 (demo_response 2 demo_rpc [0, 0, 0, 1, 9])] w'"
    by (rule response_run [of ?w 1 "[]" caller_conn 2 demo_rpc "[0, 0, 0, 1, 9]" demo_externals "[]" 2]) (simp_all add: body)
  from server_append [OF this server_append [OF answering_run called_run]]
  show thesis by (intro that) (simp add: answered_events_def)
qed

end
