(* ===== verification/World_Order.thy ===== *)
theory World_Order
  imports World_Calls
begin

text \<open>
  The order of events in a run of the server: from the response that is written back, step by step,
  to the frame that asked for it, and from the answer of a call to the worker that gave it.
\<close>

section \<open>Parts of a run\<close>

text \<open>A run that stays among the states of a predicate.\<close>

definition staying :: "('s \<Rightarrow> bool) \<Rightarrow> ('s \<Rightarrow> 'l \<Rightarrow> 's \<Rightarrow> bool) \<Rightarrow> 's \<Rightarrow> 'l \<Rightarrow> 's \<Rightarrow> bool" where
  "staying P step s l t = (step s l t \<and> P s \<and> P t)"

lemma runs_mono: "runs step s ls t \<Longrightarrow> (\<And>s l t. step s l t \<Longrightarrow> step' s l t) \<Longrightarrow> runs step' s ls t"
  by (induction rule: runs.induct) (auto intro: runs_nil runs_snoc)

lemma staying_runs: "runs (staying P step) s ls t \<Longrightarrow> runs step s ls t"
  by (erule runs_mono) (simp add: staying_def)

lemma staying_weaken: "runs (staying P step) s ls t \<Longrightarrow> (\<And>s. P s \<Longrightarrow> Q s) \<Longrightarrow> runs (staying Q step) s ls t"
  by (erule runs_mono) (simp add: staying_def)

lemma runs_split: "runs step s (ls @ ls') u \<Longrightarrow> \<exists>t. runs step s ls t \<and> runs step t ls' u"
proof (induction ls' arbitrary: u rule: rev_induct)
  case Nil
  then show ?case using runs_nil [of step u] by auto
next
  case (snoc l ls')
  from snoc.prems have "runs step s ((ls @ ls') @ [l]) u" by simp
  then obtain v where "runs step s (ls @ ls') v" "step v l u" by (cases rule: runs.cases) auto
  then show ?case using snoc.IH runs_snoc by metis
qed

lemma runs_split_one:
  assumes "runs step s (ls @ l # ls') u"
  obtains v v' where "runs step s ls v" "step v l v'" "runs step v' ls' u"
proof -
  have "runs step s ((ls @ [l]) @ ls') u" using assms by simp
  from runs_split [OF this] obtain v' where v': "runs step s (ls @ [l]) v'" "runs step v' ls' u" by blast
  from v'(1) obtain v where "runs step s ls v" "step v l v'" by (cases rule: runs.cases) auto
  then show thesis using that v'(2) by blast
qed

lemma staying_event:
  assumes "runs (staying P step) s ls t" and "l \<in> set ls"
  obtains u v where "step u l v" "P u" "P v"
proof -
  obtain ls1 ls2 where "ls = ls1 @ l # ls2" using split_list [OF assms(2)] by blast
  then show thesis using runs_split_one [of "staying P step" s ls1 l ls2 t] assms(1) that by (auto simp: staying_def)
qed

text \<open>The last step of a run that makes a predicate true, which stays true from there.\<close>

lemma last_rise:
  assumes "runs step s ls t" and "P t" and "\<not> P s"
  obtains ls1 l ls2 u v where "ls = ls1 @ l # ls2" "runs step s ls1 u" "step u l v" "\<not> P u" "P v" "runs (staying P step) v ls2 t"
  using assms
proof (induction arbitrary: thesis rule: runs.induct)
  case (runs_snoc s ls t l u)
  show ?case
  proof (cases "P t")
    case True
    then obtain ls1 l1 ls2 t1 v where 1: "ls = ls1 @ l1 # ls2" "runs step s ls1 t1" "step t1 l1 v" "\<not> P t1" "P v"
        "runs (staying P step) v ls2 t"
      using runs_snoc.IH runs_snoc.prems(3) by blast
    have "runs (staying P step) v (ls2 @ [l]) u"
      by (rule runs.runs_snoc [OF 1(6)]) (simp add: staying_def runs_snoc.hyps(2) True runs_snoc.prems(2))
    then show ?thesis using runs_snoc.prems(1) [of ls1 l1 "ls2 @ [l]" t1 v] 1 by simp
  next
    case False
    then show ?thesis
      using runs_snoc.prems(1) [of ls l "[]" t u] runs_snoc.hyps runs_snoc.prems(2) runs_nil [of "staying P step" u] by simp
  qed
qed simp

section \<open>Identifiers within a connection\<close>

text \<open>
  An operation and a response that is not a refusal never share an identifier, and refusals are the
  responses with the opcode 255 whose receipt the loop awaits.
\<close>

definition conn_unique :: "connection \<Rightarrow> bool" where
  "conn_unique c =
     (distinct (map op_request_id (cn_operations c) @ map rs_request_id (filter (\<lambda>r. \<not> rs_written r) (cn_responses c)))
      \<and> (\<forall>r \<in> set (cn_responses c). rs_written r \<longrightarrow> rs_opcode r = 255))"

lemma refuse_unique: "conn_unique c \<Longrightarrow> conn_unique (refuse i e permit close c)"
  by (auto simp: conn_unique_def refuse_def)

lemma admitted_unique: "conn_unique c \<Longrightarrow> conn_unique (admitted i c)"
  by (simp add: conn_unique_def admitted_def)

lemma on_frame_unique:
  assumes u: "conn_unique c" and ok: "conn_ok c" and phase: "cn_phase c = Serving"
  shows "conn_unique (on_frame opcode i body c)"
proof (cases "i \<in> cn_ids c")
  case True
  then show ?thesis using refuse_unique [OF u] by (simp add: on_frame_def)
next
  case False
  then have new: "i \<notin> set (in_flight c)" using ok phase by (simp add: conn_ok_def)
  have "conn_unique (admitted i c\<lparr>cn_operations := cn_operations (admitted i c) @ [\<lparr>op_request_id = i, op_opcode = opcode, op_request = rq\<rparr>]\<rparr>)" for rq
    using u new by (auto simp: conn_unique_def admitted_def in_flight_def)
  then show ?thesis
    using refuse_unique [OF admitted_unique [OF u]] admitted_unique [OF u] False
    by (auto simp: on_frame_def Let_def split: option.split sum.split)
qed

lemma conn_unique_step:
  assumes "conn_step c l c'" and u: "conn_unique c" and ok: "conn_ok c"
  shows "conn_unique c'"
  using assms(1)
proof (cases rule: conn_stepE)
  case (received i opcode body)
  then show ?thesis using on_frame_unique [OF u ok] by simp
next
  case (finished op r)
  have ms: "mset (cn_operations c) = add_mset op (mset (remove1 op (cn_operations c)))" using finished(3) by simp
  have "image_mset op_request_id (mset (cn_operations c))
      = add_mset (op_request_id op) (image_mset op_request_id (mset (remove1 op (cn_operations c))))"
    by (subst ms, rule image_mset_add_mset)
  then have "mset (map op_request_id (cn_operations c) @ map rs_request_id (filter (\<lambda>r. \<not> rs_written r) (cn_responses c)))
      = mset (map op_request_id (cn_operations c') @ map rs_request_id (filter (\<lambda>r. \<not> rs_written r) (cn_responses c')))"
    by (simp add: finished on_finished_def split: prod.split)
  then have "distinct (map op_request_id (cn_operations c') @ map rs_request_id (filter (\<lambda>r. \<not> rs_written r) (cn_responses c')))"
    using u unfolding conn_unique_def by (metis mset_eq_imp_distinct_iff)
  then show ?thesis using u by (auto simp: conn_unique_def finished on_finished_def split: prod.split)
next
  case (retired r rest)
  then show ?thesis using u by (auto simp: conn_unique_def on_retired_def split: if_splits)
qed (use u in \<open>simp_all add: conn_unique_def on_written_def\<close>)

definition ids_apart :: "world \<Rightarrow> bool" where
  "ids_apart w = (\<forall>n s c. w_clients w n = Some (Active s c) \<longrightarrow> conn_unique c)"

lemma conn_unique_runs: "runs conn_step c ls c' \<Longrightarrow> conn_unique c \<Longrightarrow> conn_ok c \<Longrightarrow> conn_unique c' \<and> conn_ok c'"
  by (induction rule: runs.induct) (auto intro: conn_unique_step conn_step_ok)

lemma ids_apart_run:
  assumes "runs (server_step X token maximum) w evs w'" and "world_inv X maximum w" and "w_clients w = Map.empty"
  shows "ids_apart w'"
proof -
  have "conn_unique connection_new" by (simp add: conn_unique_def connection_new_def)
  then show ?thesis
    using run_connections [OF assms] conn_unique_runs connection_new_ok by (fastforce simp: ids_apart_def conn_hist_def)
qed

lemma ids_apartD:
  assumes "ids_apart w" and "w_clients w n = Some (Active s c)" and "r \<in> set (cn_responses c)" "rs_opcode r \<noteq> 255"
    and "op \<in> set (cn_operations c)"
  shows "op_request_id op \<noteq> rs_request_id r"
  using assms by (force simp: ids_apart_def conn_unique_def)

section \<open>Waiting for a response\<close>

text \<open>
  A request is pending while its task runs, its response is queued or its response is being written.
  The end of an operation and the retirement of a response are the events that may not come in between.
\<close>

definition pending :: "u64 \<Rightarrow> u32 \<Rightarrow> world \<Rightarrow> bool" where
  "pending n i w = (\<exists>s c. w_clients w n = Some (Active s c) \<and> i \<in> set (unanswered c))"

fun ends :: "u64 \<Rightarrow> u32 \<Rightarrow> server_event \<Rightarrow> bool" where
  "ends n i (Finishing m op r) = (m = n \<and> op_request_id op = i)"
| "ends n i _ = False"

fun retires :: "u64 \<Rightarrow> server_event \<Rightarrow> bool" where
  "retires n (Retiring m i) = (m = n)"
| "retires n _ = False"

text \<open>The invariants that hold all along, which the steps of a run that stays within a predicate keep.\<close>

definition sound :: "externals \<Rightarrow> nat \<Rightarrow> world \<Rightarrow> bool" where
  "sound X maximum w = (world_ok X maximum w \<and> ids_apart w)"

lemma sound_run:
  assumes "runs (server_step X token maximum) w evs w'" and "world_inv X maximum w" and "w_clients w = Map.empty"
  shows "sound X maximum w'"
  using ids_apart_run [OF assms] world_sys.run_inv [OF assms(1,2)] by (simp add: sound_def world_inv_def)

lemma staying_cons: "step s l t \<Longrightarrow> P s \<Longrightarrow> P t \<Longrightarrow> runs (staying P step) t ls u \<Longrightarrow> runs (staying P step) s (l # ls) u"
  using runs_append [OF _ runs_one, of "staying P step" t ls u s l] by (simp add: staying_def)

lemma staying_append: "runs (staying P step) s ls t \<Longrightarrow> runs (staying P step) t ls' u \<Longrightarrow> runs (staying P step) s (ls @ ls') u"
  by (rule runs_append)

lemma writing_steps [simp]:
  "cn_writing (on_frame opcode i body c) = cn_writing c" "cn_writing (on_finished op res c) = cn_writing c"
  "cn_writing (on_retired r rest c) = Some r" "cn_writing (on_written r c) = None" "cn_writing connection_new = None"
  by (simp_all add: on_frame_def refuse_def admitted_def Let_def on_finished_def on_retired_def on_written_def connection_new_def
      split: option.split sum.split prod.split)

lemma responses_steps:
  "r \<in> set (cn_responses (on_frame opcode i body c)) \<Longrightarrow> rs_opcode r \<noteq> 255 \<Longrightarrow> r \<in> set (cn_responses c)"
  "r \<in> set (cn_responses (on_finished op res c)) \<Longrightarrow> r \<in> set (cn_responses c) \<or> response_for op res r"
  "cn_responses (on_retired r0 rest c) = rest" "cn_responses (on_written r0 c) = cn_responses c" "cn_responses connection_new = []"
  by (auto simp: on_frame_def refuse_def admitted_def Let_def on_finished_def on_retired_def on_written_def connection_new_def
      response_for_def split: option.splits sum.splits prod.splits if_splits)

text \<open>What a step of the server does to a connection is at most one step of it.\<close>

lemma conn_events_one: "conn_events n ev = [] \<or> (\<exists>e. conn_events n ev = [e])"
  by (cases ev) auto

lemma conn_events_of:
  "conn_events n ev = [OpFinished op r] \<Longrightarrow> ev = Finishing n op r" "conn_events n ev = [Retired i] \<Longrightarrow> ev = Retiring n i"
  by (cases ev; simp split: if_splits)+

lemma runs_singleE: "runs step s [l] t \<Longrightarrow> step s l t"
proof -
  assume "runs step s [l] t"
  then have "runs step s ([] @ [l]) t" by simp
  then obtain u where "runs step s [] u" "step u l t" by (cases rule: runs.cases) auto
  then show ?thesis by (metis runs_nilE)
qed

lemma conn_change:
  assumes st: "server_step X token maximum u l v" and c: "w_clients v n = Some (Active s c)"
  obtains (new) "c = connection_new" | (same) s' where "w_clients u n = Some (Active s' c)"
    | (step) s' c' e where "w_clients u n = Some (Active s' c')" "conn_events n l = [e]" "conn_step c' e c"
  using step_conn_silent(2) [OF st c]
proof
  assume "\<exists>s' c'. w_clients u n = Some (Active s' c')"
  then obtain s' c' where u: "w_clients u n = Some (Active s' c')" by blast
  have run: "runs conn_step c' (conn_events n l) c" by (rule step_conn [OF st u c])
  from conn_events_one [of n l] show thesis
  proof
    assume "conn_events n l = []"
    then have "c = c'" using run by (metis runs_nilE)
    then show thesis using that(2) u by blast
  next
    assume "\<exists>e. conn_events n l = [e]"
    then obtain e where e: "conn_events n l = [e]" by blast
    then have "conn_step c' e c" using run runs_singleE by metis
    then show thesis using that(3) u e by blast
  qed
qed (use that(1) in blast)

text \<open>From the response being written back to its retirement.\<close>

lemma response_retired:
  assumes run: "runs (server_step X token maximum) w evs w'" "world_inv X maximum w" "w_clients w = Map.empty"
    and c: "w_clients w' n = Some (Active s c)" "cn_writing c = Some r"
  obtains ls1 ls2 u s' c' where "evs = ls1 @ Retiring n (rs_request_id r) # ls2" "runs (server_step X token maximum) w ls1 u"
    "w_clients u n = Some (Active s' c')" "r \<in> set (cn_responses c')" "\<not> list_ex (retires n) ls2"
    "runs (staying (pending n (rs_request_id r)) (server_step X token maximum)) u (Retiring n (rs_request_id r) # ls2) w'"
proof -
  let ?P = "\<lambda>x. \<exists>s c. w_clients x n = Some (Active s c) \<and> cn_writing c = Some r"
  obtain ls1 l ls2 u v where rise: "evs = ls1 @ l # ls2" "runs (server_step X token maximum) w ls1 u"
      "server_step X token maximum u l v" "\<not> ?P u" "?P v" "runs (staying ?P (server_step X token maximum)) v ls2 w'"
    by (rule last_rise [OF run(1), of ?P]) (use c run(3) in auto)
  obtain s1 c1 where v: "w_clients v n = Some (Active s1 c1)" "cn_writing c1 = Some r" using rise(5) by blast
  obtain s' c' where q: "l = Retiring n (rs_request_id r)" "w_clients u n = Some (Active s' c')" "r \<in> set (cn_responses c')"
    using rise(3) v(1)
  proof (cases rule: conn_change)
    case (step s' c' e)
    from step(3) show thesis
    proof (cases rule: conn_stepE)
      case (retired r' rest)
      then show thesis using that step conn_events_of(2) v(2) by auto
    qed (use step(1) rise(4) v(2) in auto)
  qed (use rise(4) v(2) in auto)
  have "\<not> retires n l'" if "l' \<in> set ls2" for l'
    using rise(6) that
  proof (rule staying_event)
    fix x y assume "server_step X token maximum x l' y" "?P x"
    then show ?thesis by (cases rule: server_stepE) auto
  qed
  then have none: "\<not> list_ex (retires n) ls2" by (auto simp: list_ex_iff)
  have pend: "pending n (rs_request_id r) x" if "?P x" for x
    using that by (auto simp: pending_def unanswered_def)
  have "pending n (rs_request_id r) u" using q(2,3) by (auto simp: pending_def unanswered_def in_flight_def)
  from staying_cons [where P = "pending n (rs_request_id r)", OF rise(3) this pend [OF rise(5)] staying_weaken [OF rise(6) pend]]
  show thesis using that q rise(1,2) none by blast
qed

text \<open>From a queued response, unless it is a refusal, back to the end of its operation.\<close>

lemma response_finished:
  assumes run: "runs (server_step X token maximum) w evs w'" "world_inv X maximum w" "w_clients w = Map.empty"
    and c: "w_clients w' n = Some (Active s c)" "r \<in> set (cn_responses c)" "rs_opcode r \<noteq> 255"
  obtains ls1 ls2 u op res where "evs = ls1 @ Finishing n op res # ls2" "runs (server_step X token maximum) w ls1 u"
    "w_tasks u (n, op_request_id op) = Some (op_request op, Replied res)" "response_for op res r"
    "\<exists>s c. w_clients u n = Some (Active s c) \<and> op \<in> set (cn_operations c)"
    "\<not> list_ex (ends n (rs_request_id r)) ls2"
    "runs (staying (pending n (rs_request_id r)) (server_step X token maximum)) u (Finishing n op res # ls2) w'"
proof -
  let ?Q = "\<lambda>x. \<exists>s c. w_clients x n = Some (Active s c) \<and> r \<in> set (cn_responses c)"
  let ?P = "\<lambda>x. sound X maximum x \<and> ?Q x"
  have P: "?P w'" "\<not> ?P w" using sound_run [OF run] c(1,2) run(3) by auto
  obtain ls1 l ls2 u v where rise: "evs = ls1 @ l # ls2" "runs (server_step X token maximum) w ls1 u"
      "server_step X token maximum u l v" "\<not> ?P u" "?P v" "runs (staying ?P (server_step X token maximum)) v ls2 w'"
    by (rule last_rise [OF run(1), of ?P, OF P])
  have sound: "sound X maximum u" by (rule sound_run [OF rise(2) run(2,3)])
  then have ok: "world_ok X maximum u" by (simp add: sound_def)
  have rise4: "\<not> ?Q u" using rise(4) sound by blast
  obtain s1 c1 where v: "w_clients v n = Some (Active s1 c1)" "r \<in> set (cn_responses c1)" using rise(5) by blast
  obtain op res where fin: "l = Finishing n op res" "response_for op res r"
    using rise(3) v(1)
  proof (cases rule: conn_change)
    case (step s' c' e)
    then have old: "r \<notin> set (cn_responses c')" using rise4 by blast
    from step(3) show thesis
    proof (cases rule: conn_stepE)
      case (finished op res)
      then show thesis using that step(2) conn_events_of(1) responses_steps(2) v(2) old by blast
    next
      case (received i opcode body)
      then show thesis using responses_steps(1) v(2) old c(3) by blast
    qed (use old v(2) in \<open>auto simp: responses_steps\<close>)
  qed (use rise4 v(2) in \<open>auto simp: responses_steps\<close>)
  obtain rq where t: "\<exists>s c. w_clients u n = Some (Active s c) \<and> op \<in> set (cn_operations c)" "w_tasks u (n, op_request_id op) = Some (rq, Replied res)"
    using rise(3) fin(1) by (cases rule: server_stepE) auto
  then have q: "l = Finishing n op res" "w_tasks u (n, op_request_id op) = Some (op_request op, Replied res)" "response_for op res r"
      "\<exists>s c. w_clients u n = Some (Active s c) \<and> op \<in> set (cn_operations c)"
    using fin task_request [OF ok] by blast+
  have "\<not> ends n (rs_request_id r) l'" if "l' \<in> set ls2" for l'
    using rise(6) that
  proof (rule staying_event)
    fix x y assume st: "server_step X token maximum x l' y" and P: "?P x"
    then obtain s1 c1 where x: "ids_apart x" "w_clients x n = Some (Active s1 c1)" "r \<in> set (cn_responses c1)" by (auto simp: sound_def)
    from st show ?thesis by (cases rule: server_stepE) (use ids_apartD [OF x c(3)] x(2) in auto)
  qed
  then have none: "\<not> list_ex (ends n (rs_request_id r)) ls2" by (auto simp: list_ex_iff)
  have pend: "pending n (rs_request_id r) x" if "?P x" for x
    using that by (auto simp: pending_def unanswered_def in_flight_def)
  have pu: "pending n (rs_request_id r) u"
    using q(3,4) by (auto simp: pending_def unanswered_def in_flight_def response_for_def)
  from staying_cons [where P = "pending n (rs_request_id r)", OF rise(3) this pend [OF rise(5)] staying_weaken [OF rise(6) pend]]
  show thesis using that q rise(1,2) none pu by blast
qed

text \<open>A task belongs to an operation, which is pending; the end of the operation ends it.\<close>

lemma task_pending: "world_ok X maximum w \<Longrightarrow> w_tasks w (n, i) = Some x \<Longrightarrow> pending n i w"
  by (cases x) (use tasksD(1) in \<open>fastforce simp: pending_def unanswered_def in_flight_def\<close>)

lemma ends_task: "server_step X token maximum u l v \<Longrightarrow> ends n i l \<Longrightarrow> w_tasks v (n, i) = None"
  by (cases rule: server_stepE) auto

text \<open>From what a task has come to back to the event that brought it there.\<close>

lemma task_reached:
  assumes run: "runs (server_step X token maximum) w evs w'" "world_inv X maximum w" "w_clients w = Map.empty" "w_tasks w = Map.empty"
    and t: "w_tasks w' (n, i) = Some (rq, st)"
  obtains ls1 ev ls2 u v where "evs = ls1 @ ev # ls2" "runs (server_step X token maximum) w ls1 u" "server_step X token maximum u ev v"
    "w_tasks u (n, i) \<noteq> Some (rq, st)" "w_tasks v (n, i) = Some (rq, st)" "\<not> list_ex (ends n i) (ev # ls2)"
    "runs (staying (pending n i) (server_step X token maximum)) v ls2 w'"
proof -
  let ?P = "\<lambda>x. sound X maximum x \<and> w_tasks x (n, i) = Some (rq, st)"
  have P: "?P w'" "\<not> ?P w" using sound_run [OF run(1-3)] t run(4) by auto
  obtain ls1 l ls2 u v where rise: "evs = ls1 @ l # ls2" "runs (server_step X token maximum) w ls1 u"
      "server_step X token maximum u l v" "\<not> ?P u" "?P v" "runs (staying ?P (server_step X token maximum)) v ls2 w'"
    by (rule last_rise [OF run(1), of ?P, OF P])
  have u: "w_tasks u (n, i) \<noteq> Some (rq, st)" using rise(4) sound_run [OF rise(2) run(2,3)] by blast
  have "\<not> ends n i l'" if "l' \<in> set ls2" for l'
    by (rule staying_event [OF rise(6) that]) (use ends_task in fastforce)
  moreover have "\<not> ends n i l" using ends_task [OF rise(3), of n i] rise(5) by auto
  ultimately have none: "\<not> list_ex (ends n i) (l # ls2)" by (auto simp: list_ex_iff)
  have "pending n i x" if "?P x" for x using that task_pending by (auto simp: sound_def)
  from staying_weaken [where Q = "pending n i", OF rise(6) this] show thesis using that rise(1-3,5) u none by blast
qed

text \<open>A task is spawned when its frame is read.\<close>

lemma spawned_framed:
  assumes step: "server_step X token maximum u ev v" and t: "w_tasks v (n, i) = Some (rq, st)" "\<And>st. w_tasks u (n, i) \<noteq> Some (rq, st)"
  obtains opcode body where "ev = Framed n opcode i body" "decode_request opcode body = Inr rq"
  using step
proof (cases rule: server_stepE)
  case (framed m s c io1 io2 opcode j body rest)
  let ?c = "on_frame opcode j body c"
  have "cn_operations ?c = cn_operations c \<or> (\<exists>rq. decode_request opcode body = Inr rq
      \<and> cn_operations ?c = cn_operations c @ [\<lparr>op_request_id = j, op_opcode = opcode, op_request = rq\<rparr>])"
    by (auto simp: on_frame_def refuse_def admitted_def Let_def split: option.split sum.split)
  then show thesis
  proof
    assume "cn_operations ?c = cn_operations c"
    then show thesis using t framed by (simp add: spawn_task_def)
  next
    assume "\<exists>rq. decode_request opcode body = Inr rq
      \<and> cn_operations ?c = cn_operations c @ [\<lparr>op_request_id = j, op_opcode = opcode, op_request = rq\<rparr>]"
    then show thesis using t(1) t(2) [of st] framed that by (auto simp: spawn_task_def split: if_splits)
  qed
qed (use t in \<open>auto split: if_splits\<close>)

lemma task_framed:
  assumes run: "runs (server_step X token maximum) w evs w'" "world_inv X maximum w" "w_clients w = Map.empty" "w_tasks w = Map.empty"
    and t: "w_tasks w' (n, i) = Some (rq, st)"
  obtains ls1 opcode body ls2 u v where "evs = ls1 @ Framed n opcode i body # ls2" "decode_request opcode body = Inr rq"
    "runs (server_step X token maximum) w ls1 u" "server_step X token maximum u (Framed n opcode i body) v"
    "\<not> list_ex (ends n i) ls2" "runs (staying (pending n i) (server_step X token maximum)) v ls2 w'"
proof -
  let ?P = "\<lambda>x. sound X maximum x \<and> (\<exists>st. w_tasks x (n, i) = Some (rq, st))"
  have P: "?P w'" "\<not> ?P w" using sound_run [OF run(1-3)] t run(4) by auto
  obtain ls1 l ls2 u v where rise: "evs = ls1 @ l # ls2" "runs (server_step X token maximum) w ls1 u"
      "server_step X token maximum u l v" "\<not> ?P u" "?P v" "runs (staying ?P (server_step X token maximum)) v ls2 w'"
    by (rule last_rise [OF run(1), of ?P, OF P])
  have u: "w_tasks u (n, i) \<noteq> Some (rq, st)" for st using rise(4) sound_run [OF rise(2) run(2,3)] by blast
  obtain st' where v: "w_tasks v (n, i) = Some (rq, st')" using rise(5) by blast
  obtain opcode body where f: "l = Framed n opcode i body" "decode_request opcode body = Inr rq"
    by (rule spawned_framed [OF rise(3) v u])
  have "\<not> ends n i l'" if "l' \<in> set ls2" for l'
    by (rule staying_event [OF rise(6) that]) (use ends_task in fastforce)
  then have none: "\<not> list_ex (ends n i) ls2" by (auto simp: list_ex_iff)
  have "pending n i x" if "?P x" for x using that task_pending by (auto simp: sound_def)
  from staying_weaken [where Q = "pending n i", OF rise(6) this] show thesis using that rise(1-3) f none by blast
qed

section \<open>A call and its worker\<close>

lemma scheduler_trace:
  assumes "runs (server_step X token maximum) w evs w'" and "world_inv X maximum w" and "w_system w = system_new n0 b0"
  shows "trace_ok (events_of rpc_events evs) (rpc (w_system w'))"
proof -
  have "runs rpc_step (system_new n0 b0) (events_of rpc_events evs) (w_system w')" using run_scheduler [OF assms(1,2)] assms(3) by simp
  from run_ok_runs [OF this] show ?thesis by (simp add: run_ok_def)
qed

lemma completed_tried: "trace_ok ls s \<Longrightarrow> Completed w i failed p (Inr ()) \<in> set ls \<Longrightarrow> \<exists>j. Tried w (Dispatch j) \<in> set ls \<and> job_call_id j = i"
  unfolding trace_ok_def completes_ok_def by blast

lemma tried_requested: "trace_ok ls s \<Longrightarrow> Tried w (Dispatch j) \<in> set ls \<Longrightarrow>
    \<exists>c name d. Requested c name (job_payload j) (Inr \<lparr>tk_call_id = job_call_id j, tk_deadline = d\<rparr>) \<in> set ls
      \<and> Registered w name (Inr ()) \<in> set ls"
  unfolding trace_ok_def dispatches_ok_def by blast

text \<open>An identifier that is given out once marks one place of a run.\<close>

lemma once_split:
  assumes eq: "ls1 @ x # ls2 = ls1' @ y # ls2'" and d: "distinct (concat (map g (ls1 @ x # ls2)))"
    and i: "i \<in> set (g x)" "i \<in> set (g y)"
  shows "ls1 = ls1' \<and> x = y \<and> ls2 = ls2'"
proof -
  have d': "distinct (concat (map g (ls1' @ y # ls2')))" using d unfolding eq .
  from eq obtain us where "ls1 @ us = ls1' \<and> x # ls2 = us @ y # ls2' \<or> ls1 = ls1' @ us \<and> us @ x # ls2 = y # ls2'"
    unfolding append_eq_append_conv2 by blast
  then show ?thesis
  proof
    assume us: "ls1 @ us = ls1' \<and> x # ls2 = us @ y # ls2'"
    show ?thesis
    proof (cases us)
      case (Cons z zs)
      then have "ls2 = zs @ y # ls2'" using us by simp
      then show ?thesis using d i by auto
    qed (use us in simp)
  next
    assume us: "ls1 = ls1' @ us \<and> us @ x # ls2 = y # ls2'"
    show ?thesis
    proof (cases us)
      case (Cons z zs)
      then have "ls2' = zs @ x # ls2" using us by simp
      then show ?thesis using d' i by auto
    qed (use us in simp)
  qed
qed

lemma ids_of_events: "ids_of f (events_of g evs) = concat (map (\<lambda>ev. ids_of f (g ev)) evs)"
  by (induction evs) (simp_all add: events_of_def ids_of_def map_filter_def)

text \<open>
  Between the admission of a call and its answer, one worker, which had registered the route before,
  has taken it and then completed it with the answer.
\<close>

lemma answer_order:
  assumes run: "runs (server_step X token maximum) w evs w'" "world_inv X maximum w" and new: "w_system w = system_new n0 b0"
    and evs: "evs = A @ Dispatched n i (request.Rpc name ms p) (AwaitTicket t) k # B"
    and ch: "channels (rpc (w_system w')) (tk_call_id t) = Some (Sent (Inr q))"
  obtains E1 wk iw wait j E2 ic out kc E3 ir conc lim out' kr where
    "B = E1 @ Took wk iw (Take wait) (Dispatch j) # E2
       @ Dispatched wk ic (Complete (tk_call_id t) False q) (Reply (Inr out)) kc # E3"
    "job_call_id j = tk_call_id t" "job_payload j = p"
    "Dispatched wk ir (Register name conc lim) (Reply (Inr out')) kr
       \<in> set (A @ Dispatched n i (request.Rpc name ms p) (AwaitTicket t) k # E1)"
proof -
  let ?S = "server_step X token maximum" and ?D = "Dispatched n i (request.Rpc name ms p) (AwaitTicket t) k"
  let ?id = "\<lambda>ev. ids_of accepted_id (rpc_events ev)"
  have prefix: "\<exists>v. runs ?S w P v \<and> trace_ok (events_of rpc_events P) (rpc (w_system v))" if "evs = P @ R" for P R
    using runs_split [of ?S w P R w'] run(1) scheduler_trace [OF _ run(2) new] that by blast
  note tr = scheduler_trace [OF run new]
  obtain wk where "Completed wk (tk_call_id t) False q (Inr ()) \<in> set (events_of rpc_events evs)"
    using tr ch unfolding trace_ok_def completes_ok_def by blast
  from completed_origin [OF run(1) this] obtain ic out kc where
    "Dispatched wk ic (Complete (tk_call_id t) False q) (Reply (Inr out)) kc \<in> set evs" by blast
  then obtain P1 P2 where P: "evs = P1 @ Dispatched wk ic (Complete (tk_call_id t) False q) (Reply (Inr out)) kc # P2" (is "_ = _ @ ?C # _")
    using split_list by fast
  have C: "events_of rpc_events (P1 @ [?C]) = events_of rpc_events P1 @ [Completed wk (tk_call_id t) False q (Inr ())]"
    by (simp add: dispatch_events_def unit_result_def)
  obtain v1 where "runs ?S w P1 v1" using prefix [OF P] by blast
  have "evs = (P1 @ [?C]) @ P2" using P by simp
  from prefix [OF this] obtain v2 :: world where v2: "trace_ok (events_of rpc_events (P1 @ [?C])) (rpc (w_system v2))" by blast
  from completed_tried [OF v2 [unfolded C], of wk "tk_call_id t" False q]
  obtain j where j: "Tried wk (Dispatch j) \<in> set (events_of rpc_events P1)" "job_call_id j = tk_call_id t" by auto
  obtain iw rt where took: "Took wk iw rt (Dispatch j) \<in> set P1" using tried_origin [OF \<open>runs ?S w P1 v1\<close> j(1)] by blast
  obtain wait where "rt = Take wait" by (rule took_take [OF \<open>runs ?S w P1 v1\<close> run(2) took])
  then obtain Q1 Q2 where Q: "P1 = Q1 @ Took wk iw (Take wait) (Dispatch j) # Q2" (is "_ = _ @ ?T # _") using split_list [OF took] by blast
  have "evs = Q1 @ ?T # Q2 @ ?C # P2" using P Q by simp
  from prefix [OF this] obtain v3 where r3: "runs ?S w Q1 v3" by blast
  have "evs = (Q1 @ [?T]) @ Q2 @ ?C # P2" using P Q by simp
  from prefix [OF this] obtain v4 :: world where v4: "trace_ok (events_of rpc_events (Q1 @ [?T])) (rpc (w_system v4))" by blast
  from tried_requested [OF v4, of wk j]
  obtain c name' d where req: "Requested c name' (job_payload j) (Inr \<lparr>tk_call_id = job_call_id j, tk_deadline = d\<rparr>) \<in> set (events_of rpc_events Q1)"
      "Registered wk name' (Inr ()) \<in> set (events_of rpc_events Q1)" by auto
  obtain i' ms' k' where "Dispatched c i' (request.Rpc name' ms' (job_payload j)) (AwaitTicket \<lparr>tk_call_id = job_call_id j, tk_deadline = d\<rparr>) k' \<in> set Q1"
    (is "?D' \<in> _") using requested_origin [OF r3 req(1)] by blast
  then obtain S1 S2 where S: "Q1 = S1 @ ?D' # S2" using split_list by fast
  have "distinct (concat (map ?id evs))" using tr by (simp add: trace_ok_def accepts_ok_def ids_of_events)
  moreover have "tk_call_id t \<in> set (?id ?D)" "tk_call_id t \<in> set (?id ?D')"
    by (simp_all add: dispatch_events_def ids_of_def map_filter_def j(2))
  moreover have "A @ ?D # B = S1 @ ?D' # (S2 @ ?T # Q2 @ ?C # P2)" using evs P Q S by simp
  ultimately have u: "A = S1" "?D = ?D'" "B = S2 @ ?T # Q2 @ ?C # P2"
    using once_split [of A ?D B S1 ?D' "S2 @ ?T # Q2 @ ?C # P2" ?id "tk_call_id t"] evs by auto
  obtain ir conc lim out' kr where "Dispatched wk ir (Register name' conc lim) (Reply (Inr out')) kr \<in> set Q1"
    using registered_origin [OF r3 req(2)] by blast
  then show thesis using that u j(2) S by auto
qed

lemma opcode_of:
  assumes "decode_request opcode body = Inr rq"
  shows "opcode = request_opcode rq" and "or opcode 128 \<noteq> 255"
  using decode_request_dec [OF assms] by (cases rq; simp)+

section \<open>From a response back to its frame\<close>

lemma operation_opcode:
  assumes run: "runs (server_step X token maximum) w evs w'" "world_inv X maximum w" "w_clients w = Map.empty"
    and op: "w_clients w' n = Some (Active s c)" "op \<in> set (cn_operations c)"
  shows "op_opcode op = request_opcode (op_request op) \<and> or (op_opcode op) 128 \<noteq> 255"
proof -
  have "conn_trace_ok (events_of (conn_events n) evs) c"
    using run_connections [OF run, of n] conn_trace_run op(1) by (auto simp: conn_hist_def)
  then have "was_received (events_of (conn_events n) evs) op" using op(2) by (simp add: conn_trace_ok_def)
  then obtain body where "decode_request (op_opcode op) body = Inr (op_request op)" by (auto simp: was_received_def)
  from opcode_of [OF this] show ?thesis by simp
qed

text \<open>
  A success that is being written is the result of the request of one frame, and from that frame on
  the request has been pending.
\<close>

lemma response_framed:
  assumes run: "runs (server_step X token maximum) w evs w'" "world_inv X maximum w" "w_clients w = Map.empty" "w_tasks w = Map.empty"
    and c: "w_clients w' n = Some (Active s c)" "cn_writing c = Some r" "rs_opcode r \<noteq> 255"
  obtains ls1 opcode body ls2 u v rq where "evs = ls1 @ Framed n opcode (rs_request_id r) body # ls2"
    "decode_request opcode body = Inr rq" "rs_opcode r = or opcode 128"
    "\<exists>ev \<in> set evs. result_of ev = Some (n, rs_request_id r, rq, Inr (rs_body r))"
    "runs (server_step X token maximum) w ls1 u" "server_step X token maximum u (Framed n opcode (rs_request_id r) body) v"
    "runs (staying (pending n (rs_request_id r)) (server_step X token maximum)) v ls2 w'"
proof -
  let ?i = "rs_request_id r"
  obtain ls1 ls2 u s1 c1 where 1: "evs = ls1 @ Retiring n ?i # ls2" "runs (server_step X token maximum) w ls1 u"
      "w_clients u n = Some (Active s1 c1)" "r \<in> set (cn_responses c1)"
      "runs (staying (pending n ?i) (server_step X token maximum)) u (Retiring n ?i # ls2) w'"
    by (rule response_retired [OF run(1-3) c(1,2)])
  obtain ls3 ls4 v op res where 2: "ls1 = ls3 @ Finishing n op res # ls4" "runs (server_step X token maximum) w ls3 v"
      "w_tasks v (n, op_request_id op) = Some (op_request op, Replied res)" "response_for op res r"
      "runs (staying (pending n ?i) (server_step X token maximum)) v (Finishing n op res # ls4) u"
      "\<exists>s c. w_clients v n = Some (Active s c) \<and> op \<in> set (cn_operations c)"
    by (rule response_finished [OF 1(2) run(2,3) 1(3,4) c(3)])
  have id: "op_request_id op = ?i" using 2(4) by (simp add: response_for_def)
  obtain out where out: "res = Inr out" using 2(4) c(3) by (cases res) (auto simp: response_for_def response_of_def)
  then have body: "rs_body r = out" "rs_opcode r = or (op_opcode op) 128" using 2(4) by (simp_all add: response_for_def response_of_def)
  obtain ls5 opcode bd ls6 x y where 3: "ls3 = ls5 @ Framed n opcode ?i bd # ls6" "decode_request opcode bd = Inr (op_request op)"
      "runs (server_step X token maximum) w ls5 x" "server_step X token maximum x (Framed n opcode ?i bd) y"
      "runs (staying (pending n ?i) (server_step X token maximum)) y ls6 v"
    using task_framed [OF 2(2) run(2-4) 2(3)] unfolding id by metis
  have eq: "evs = ls5 @ Framed n opcode ?i bd # ls6 @ (Finishing n op res # ls4) @ Retiring n ?i # ls2" using 1(1) 2(1) 3(1) by simp
  have "op_opcode op = request_opcode (op_request op)" using operation_opcode [OF 2(2) run(2,3)] 2(6) by blast
  then have "rs_opcode r = or opcode 128" using body(2) opcode_of(1) [OF 3(2)] by simp
  moreover have "\<exists>ev \<in> set evs. result_of ev = Some (n, ?i, op_request op, Inr (rs_body r))"
    using finishing_result [OF run(1,2,4), of n op res] eq id out body(1) by auto
  moreover have "runs (staying (pending n ?i) (server_step X token maximum)) y
      (ls6 @ (Finishing n op res # ls4) @ Retiring n ?i # ls2) w'"
    by (rule staying_append [OF 3(5) staying_append [OF 2(5) 1(5)]])
  ultimately show thesis using that eq 3(2-4) by blast
qed

text \<open>The requests and the responses under an identifier.\<close>

fun asks :: "u64 \<Rightarrow> u32 \<Rightarrow> server_event \<Rightarrow> bool" where
  "asks n i (Framed m opcode j body) = (m = n \<and> j = i)"
| "asks n i _ = False"

fun answers :: "u64 \<Rightarrow> u32 \<Rightarrow> server_event \<Rightarrow> bool" where
  "answers n i (Wrote m r) = (m = n \<and> rs_request_id r = i)"
| "answers n i _ = False"

lemma count_asks: "count (mset (concat (map received_id (events_of (conn_events n) evs)))) i = length (filter (asks n i) evs)"
proof (induction evs rule: rev_induct)
  case (snoc ev evs)
  have "count (mset (concat (map received_id (conn_events n ev)))) i = (if asks n i ev then 1 else 0)" by (cases ev) auto
  then show ?case using snoc by simp
qed simp

lemma count_answers: "count (mset (concat (map answered_id (events_of (conn_events n) evs)))) i = length (filter (answers n i) evs)"
proof (induction evs rule: rev_induct)
  case (snoc ev evs)
  have "count (mset (concat (map answered_id (conn_events n ev)))) i = (if answers n i ev then 1 else 0)" by (cases ev) auto
  then show ?case using snoc by simp
qed simp

lemma not_pending:
  assumes run: "runs (server_step X token maximum) w evs w'" "world_inv X maximum w" "w_clients w = Map.empty"
    and all: "length (filter (asks n i) evs) = length (filter (answers n i) evs)"
  shows "\<not> pending n i w'"
proof
  assume "pending n i w'"
  then obtain s c where c: "w_clients w' n = Some (Active s c)" "i \<in> set (unanswered c)" by (auto simp: pending_def)
  have "runs conn_step connection_new (events_of (conn_events n) evs) c"
    using run_connections [OF run, of n] c(1) by (auto simp: conn_hist_def)
  from arg_cong [OF unanswered_run [OF this], of "\<lambda>m. count m i"]
  have "count (mset (unanswered c)) i = 0"
    using all by (simp only: count_union count_asks count_answers) (simp add: unanswered_def in_flight_def connection_new_def)
  then show False using c(2) by (simp add: count_eq_zero_iff)
qed

text \<open>
  The response that is written under an identifier is the one of its last frame, when all earlier
  frames under it had been answered.
\<close>

lemma response_to_frame:
  assumes run: "runs (server_step X token maximum) w evs w'" "world_inv X maximum w" "w_clients w = Map.empty" "w_tasks w = Map.empty"
    and evs: "evs = A @ Framed n opcode (rs_request_id r) body # B @ Wrote n r # C" and r: "rs_opcode r \<noteq> 255"
    and last: "\<not> list_ex (asks n (rs_request_id r)) B"
    and all: "length (filter (asks n (rs_request_id r)) A) = length (filter (answers n (rs_request_id r)) A)"
  obtains rq where "decode_request opcode body = Inr rq" "rs_opcode r = or opcode 128"
    "\<exists>ev \<in> set evs. result_of ev = Some (n, rs_request_id r, rq, Inr (rs_body r))"
proof -
  let ?S = "server_step X token maximum" and ?i = "rs_request_id r"
  let ?F = "Framed n opcode ?i body"
  have "runs ?S w ((A @ ?F # B) @ Wrote n r # C) w'" using run(1) evs by simp
  then obtain v v' where v: "runs ?S w (A @ ?F # B) v" "?S v (Wrote n r) v'" by (rule runs_split_one)
  obtain s c where c: "w_clients v n = Some (Active s c)" "cn_writing c = Some r" using v(2) by (cases rule: server_stepE) auto
  obtain ls1 opcode' body' ls2 x y rq where f: "A @ ?F # B = ls1 @ Framed n opcode' ?i body' # ls2"
      "decode_request opcode' body' = Inr rq" "rs_opcode r = or opcode' 128"
      "\<exists>ev \<in> set (A @ ?F # B). result_of ev = Some (n, ?i, rq, Inr (rs_body r))"
      "runs ?S w ls1 x" "?S x (Framed n opcode' ?i body') y" "runs (staying (pending n ?i) ?S) y ls2 v"
    by (rule response_framed [OF v(1) run(2-4) c r])
  let ?F' = "Framed n opcode' ?i body'"
  have "?F = ?F'"
    using f(1) unfolding append_eq_append_conv2
  proof (elim exE disjE conjE)
    fix us assume us: "A @ us = ls1" "?F # B = us @ ?F' # ls2"
    then show ?thesis using last by (cases us) (auto simp: list_ex_iff)
  next
    fix us assume us: "A = ls1 @ us" "us @ ?F # B = ?F' # ls2"
    show ?thesis
    proof (cases us)
      case (Cons z zs)
      then have z: "z = ?F'" "ls2 = zs @ ?F # B" using us(2) by simp_all
      obtain p p' where p: "runs (staying (pending n ?i) ?S) y zs p" "staying (pending n ?i) ?S p ?F p'"
        using f(7) unfolding z(2) by (rule runs_split_one)
      have "runs ?S w (ls1 @ [?F'] @ zs) p"
        by (rule runs_append [OF runs_append [OF staying_runs [OF p(1)] runs_one [of ?S, OF f(6)]] f(5)])
      then have "runs ?S w A p" using us(1) Cons z(1) by simp
      from not_pending [OF this run(2,3) all] show ?thesis using p(2) by (simp add: staying_def)
    qed (use us in simp)
  qed
  then show thesis using that f(2,3) f(4) evs by auto
qed

section \<open>The answer of a call\<close>

lemma answer_step:
  assumes step: "server_step X token maximum v ev u" and ok: "world_ok X maximum v"
    and res: "result_of ev = Some (n, i, request.Rpc name ms p, Inr out)"
  obtains t q where "ev = Answering n i (request.Rpc name ms p) t (Inr q)" "out = to_be_bytes (of_nat (length q) :: u32) @ q"
  using step
proof (cases rule: server_stepE)
  case (dispatched n' i' rq conns env now now1 now2 out' sh s k now3)
  then show thesis using res by (cases out') (auto simp: dispatch_def split: option.splits sum.splits prod.splits)
next
  case (ran n' i' rq conns j env now r sh)
  then show thesis using res task_okD(2) [OF ok ran(3)] by (simp add: stage_ok_def)
next
  case (took n' i' rq k tk e now1 now2 r s)
  then show thesis using res task_okD(2) [OF ok took(3)] by (auto simp: stage_ok_def)
next
  case (took_none n' i' rq k tk e now)
  then show thesis using res task_okD(2) [OF ok took_none(3)] by (auto simp: stage_ok_def)
next
  case (answering n' i' rq t now r s)
  then show thesis using that res by (auto simp: rpc_body_Inr)
qed (use res in simp_all)

text \<open>
  The answer of a call that is being written, back to its frame: the order of what has happened to
  the call. Nothing in between has ended the operation before, and nothing has been retired since.
\<close>

lemma answer_story:
  assumes run: "runs (server_step X token maximum) w evs w'" "world_inv X maximum w" "w_clients w = Map.empty" "w_tasks w = Map.empty"
    and new: "w_system w = system_new n0 b0"
    and c: "w_clients w' n = Some (Active s c)" "cn_writing c = Some r" and r: "rs_opcode r = 135"
  obtains name ms p body t k q op E0 E1 E2 wk iw wait j E3 ic out kc E4 E5 E6 E7 ir conc lim out' kr where
    "evs = E0 @ Framed n 7 (rs_request_id r) body
       # E1 @ Dispatched n (rs_request_id r) (request.Rpc name ms p) (AwaitTicket t) k
       # E2 @ Took wk iw (Take wait) (Dispatch j)
       # E3 @ Dispatched wk ic (Complete (tk_call_id t) False q) (Reply (Inr out)) kc
       # E4 @ Answering n (rs_request_id r) (request.Rpc name ms p) t (Inr q)
       # E5 @ Finishing n op (Inr (rs_body r))
       # E6 @ Retiring n (rs_request_id r) # E7"
    "decode_request 7 body = Inr (request.Rpc name ms p)"
    "op_request_id op = rs_request_id r" "rs_body r = to_be_bytes (of_nat (length q) :: u32) @ q"
    "job_call_id j = tk_call_id t" "job_payload j = p"
    "\<not> list_ex (ends n (rs_request_id r)) (E1 @ E2 @ E3 @ E4 @ E5 @ E6)" "\<not> list_ex (retires n) E7"
    "Dispatched wk ir (Register name conc lim) (Reply (Inr out')) kr
       \<in> set (E0 @ E1 @ E2)"
proof -
  let ?i = "rs_request_id r" and ?S = "server_step X token maximum"
  obtain F7 E7 u s1 c1 where 7: "evs = F7 @ Retiring n ?i # E7" "runs ?S w F7 u" "w_clients u n = Some (Active s1 c1)"
      "r \<in> set (cn_responses c1)" "\<not> list_ex (retires n) E7"
    by (rule response_retired [OF run(1-3) c])
  have "rs_opcode r \<noteq> 255" using r by simp
  then obtain F6 E6 v op res where 6: "F7 = F6 @ Finishing n op res # E6" "runs ?S w F6 v"
      "w_tasks v (n, op_request_id op) = Some (op_request op, Replied res)" "response_for op res r"
      "\<not> list_ex (ends n ?i) E6" "\<exists>s c. w_clients v n = Some (Active s c) \<and> op \<in> set (cn_operations c)"
    by (metis response_finished [OF 7(2) run(2,3) 7(3,4)])
  have id: "op_request_id op = ?i" using 6(4) by (simp add: response_for_def)
  obtain out where out: "res = Inr out" using 6(4) r by (cases res) (auto simp: response_for_def response_of_def)
  then have body: "rs_body r = out" "or (op_opcode op) 128 = 135" using 6(4) r by (simp_all add: response_for_def response_of_def)
  have "op_opcode op = request_opcode (op_request op)" using operation_opcode [OF 6(2) run(2,3)] 6(6) by blast
  then obtain name ms p where rq: "op_request op = request.Rpc name ms p" using body(2) by (cases "op_request op") simp_all
  obtain F5 ev E5 x y where 5: "F6 = F5 @ ev # E5" "runs ?S w F5 x" "?S x ev y"
      "w_tasks x (n, ?i) \<noteq> Some (op_request op, Replied res)" "w_tasks y (n, ?i) = Some (op_request op, Replied res)"
      "\<not> list_ex (ends n ?i) (ev # E5)"
    by (rule task_reached [OF 6(2) run(2-4) 6(3) [unfolded id]])
  have "result_of ev = Some (n, ?i, request.Rpc name ms p, Inr out)"
    using step_task_from [OF 5(3,5)] 5(4) rq out by (auto simp: task_from_def)
  then obtain t q where ans: "ev = Answering n ?i (request.Rpc name ms p) t (Inr q)" "out = to_be_bytes (of_nat (length q) :: u32) @ q"
    using answer_step [OF 5(3)] world_sys.run_inv [OF 5(2) run(2)] unfolding world_inv_def by metis
  obtain now s' where task: "w_tasks x (n, ?i) = Some (request.Rpc name ms p, OnTicket t)"
      "ticket_poll now t (rpc (w_system x)) = Some (Inr q, s')"
    using 5(3) ans(1) by (cases rule: server_stepE) auto
  have ch: "channels (rpc (w_system x)) (tk_call_id t) = Some (Sent (Inr q))"
    using task(2) by (auto simp: ticket_poll_def split: option.splits channel.splits if_splits)
  obtain F2 ev2 B x2 y2 where 2: "F5 = F2 @ ev2 # B" "runs ?S w F2 x2" "?S x2 ev2 y2"
      "w_tasks x2 (n, ?i) \<noteq> Some (request.Rpc name ms p, OnTicket t)" "w_tasks y2 (n, ?i) = Some (request.Rpc name ms p, OnTicket t)"
      "\<not> list_ex (ends n ?i) (ev2 # B)"
    by (rule task_reached [OF 5(2) run(2-4) task(1)])
  obtain k where k: "ev2 = Dispatched n ?i (request.Rpc name ms p) (AwaitTicket t) k"
    using step_task_from [OF 2(3,5)] 2(4) by (auto simp: task_from_def)
  then obtain st where "w_tasks x2 (n, ?i) = Some (request.Rpc name ms p, st)" using on_behalf_task [OF 2(3)] by fastforce
  then obtain E0 opcode bd E1 where 1: "F2 = E0 @ Framed n opcode ?i bd # E1" "decode_request opcode bd = Inr (request.Rpc name ms p)"
      "\<not> list_ex (ends n ?i) E1"
    by (metis task_framed [OF 2(2) run(2-4)])
  have "opcode = 7" using opcode_of(1) [OF 1(2)] by simp
  obtain E2 wk iw wait j E3 ic out1 kc E4 ir conc lim out' kr where o:
    "B = E2 @ Took wk iw (Take wait) (Dispatch j) # E3
       @ Dispatched wk ic (Complete (tk_call_id t) False q) (Reply (Inr out1)) kc # E4"
    "job_call_id j = tk_call_id t" "job_payload j = p"
    "Dispatched wk ir (Register name conc lim) (Reply (Inr out')) kr \<in> set (F2 @ ev2 # E2)"
    by (rule answer_order [OF 5(2) run(2) new 2(1) [unfolded k] ch, folded k])
  have reg: "Dispatched wk ir (Register name conc lim) (Reply (Inr out')) kr \<in> set (E0 @ E1 @ E2)" using o(4) 1(1) k by auto
  have none: "\<not> list_ex (ends n ?i) (E1 @ E2 @ E3 @ E4 @ E5 @ E6)" using 1(3) 2(6) 5(6) 6(5) o(1) by simp
  have eq: "evs = E0 @ Framed n 7 ?i bd
       # E1 @ Dispatched n ?i (request.Rpc name ms p) (AwaitTicket t) k
       # E2 @ Took wk iw (Take wait) (Dispatch j)
       # E3 @ Dispatched wk ic (Complete (tk_call_id t) False q) (Reply (Inr out1)) kc
       # E4 @ Answering n ?i (request.Rpc name ms p) t (Inr q)
       # E5 @ Finishing n op (Inr (rs_body r))
       # E6 @ Retiring n ?i # E7"
    using 7(1) 6(1) 5(1) 2(1) 1(1) o(1) \<open>opcode = 7\<close> ans(1) k out body(1) by simp
  have dec: "decode_request 7 bd = Inr (request.Rpc name ms p)" using 1(2) \<open>opcode = 7\<close> by simp
  have pay: "rs_body r = to_be_bytes (of_nat (length q) :: u32) @ q" using body(1) ans(2) by simp
  show thesis by (rule that [OF eq dec id pay o(2,3) none 7(5) reg])
qed

end
