(* ===== verification/Server_Properties.thy ===== *)
theory Server_Properties
  imports Startup Rpc_Trace Codec Wal_Properties
begin

text \<open>
  Properties of the server, \<open>crates/velobus/src/main.rs\<close>: the configurations it accepts, the frames
  it reads, who passes the handshake, and what a connection does with the frames that follow.
\<close>

section \<open>Configuration\<close>

text \<open>
  C39. The configurations that some command line gives are exactly those with all budgets in their
  ranges, the token of the environment within the protocol limit, a token or a loopback listener,
  and the default data directory when the store is in memory. No order or repetition of options
  gets around a range or the rule that a public listener needs a token.
\<close>

theorem config_exact: "(\<exists>args. config_parse args token = Inr c) \<longleftrightarrow> config_ok token c"
proof
  assume ok: "config_ok token c"
  then obtain s where "parse_socket_addr s = Some (cfg_listen c)" by (auto simp: config_ok_def)
  then show "\<exists>args. config_parse args token = Inr c" using config_args_parse [OF ok] by blast
qed (auto dest: config_parse_ok)

section \<open>Frames\<close>

text \<open>
  C38. A frame is read exactly when the bytes start with the envelope of an opcode, a nonzero request
  identifier and a body within the frame limit, the reads meet no fault and the time limits hold;
  the bytes after the envelope are left for the next frame.
\<close>

theorem frame_exact:
  "read_frame authenticated io1 io2 s = Inr ((op, i, body), rest) \<longleftrightarrow>
     s = envelope op i body @ rest \<and> i \<noteq> 0 \<and> length body \<le> MAX_FRAME - 5
     \<and> io_fault io1 = None \<and> io_fault io2 = None \<and> (authenticated \<or> io_elapsed io1 \<le> HELLO_TIMEOUT)
     \<and> io_elapsed io2 \<le> BODY_TIMEOUT"
  by (rule read_frame_iff)

section \<open>Handshake\<close>

lemma hello_error_None:
  assumes "\<And>a b. ct_eq a b \<longleftrightarrow> a = b"
  shows "hello_error ct_eq token r = None \<longleftrightarrow> r = Inr (Hello 1 token)"
  using assms by (auto simp: hello_error_def split: sum.splits request.splits)

lemma decode_hello_iff:
  assumes "string_ok 65535 token"
  shows "decode_request op body = Inr (Hello 1 token) \<longleftrightarrow> op = 1 \<and> body = request_body (Hello 1 token)"
  using assms decode_request_dec [of op body "Hello 1 token"] decode_request_enc [of "Hello 1 token"] by auto

lemma handshake_True:
  "handshake ct_eq token io1 io2 wfault t s = Inr (True, out, rest) \<longleftrightarrow>
     (\<exists>op i body. read_frame False io1 io2 s = Inr ((op, i, body), rest)
        \<and> hello_error ct_eq token (decode_request op body) = None
        \<and> write_response wfault t (or op 128) i (to_be_bytes (1 :: u16)) = Inr out)"
  by (auto simp: handshake_def and_then_eq_Inr split: option.splits)

text \<open>
  C17. Given that the comparison of the crate \<open>subtle\<close> is equality, a connection goes on to serve
  requests exactly when its first frame is a HELLO of version 1 that carries the configured token,
  byte for byte, was read in time and could be answered; the answer is the version, under the
  identifier of that frame.
\<close>

theorem handshake_authenticates:
  assumes "\<And>a b. ct_eq a b \<longleftrightarrow> a = b" and "string_ok 65535 token"
  shows "handshake ct_eq token io1 io2 wfault t s = Inr (True, out, rest) \<longleftrightarrow>
     (\<exists>i. s = envelope 1 i (request_body (Hello 1 token)) @ rest \<and> i \<noteq> 0
        \<and> out = envelope 129 i (to_be_bytes (1 :: u16))
        \<and> io_fault io1 = None \<and> io_fault io2 = None \<and> io_elapsed io1 \<le> HELLO_TIMEOUT
        \<and> io_elapsed io2 \<le> BODY_TIMEOUT \<and> wfault = None \<and> t \<le> WRITE_TIMEOUT)"
proof -
  have body: "length (request_body (Hello 1 token)) \<le> MAX_FRAME - 5"
    using assms(2) by (simp add: string_ok_def MAX_FRAME_def)
  have out: "response_frame (or 1 128) i (to_be_bytes (1 :: u16)) = envelope 129 i (to_be_bytes (1 :: u16))" for i
    by (simp add: response_frame_small MAX_FRAME_def)
  show ?thesis
    unfolding handshake_True hello_error_None [OF assms(1)] decode_hello_iff [OF assms(2)] read_frame_iff write_response_Inr
    using body out by auto
qed

text \<open>The witness: an empty token, as on a loopback listener.\<close>

lemma handshake_authenticates_witness:
  "handshake (=) [] \<lparr>io_fault = None, io_elapsed = 5\<rparr> \<lparr>io_fault = None, io_elapsed = 7\<rparr> None 3
     (envelope 1 9 (request_body (Hello 1 [])) @ [1, 2]) = Inr (True, envelope 129 9 [0, 1], [1, 2])"
proof -
  have "string_ok 65535 []" by (simp add: string_ok_def)
  moreover have "to_be_bytes (1 :: u16) = [0, 1]" by (simp add: to_be_bytes_def codec_simps)
  ultimately show ?thesis
    using handshake_authenticates [of "(=)" "[]" "\<lparr>io_fault = None, io_elapsed = 5\<rparr>" "\<lparr>io_fault = None, io_elapsed = 7\<rparr>"
        None 3 "envelope 1 9 (request_body (Hello 1 [])) @ [1, 2]" "envelope 129 9 [0, 1]" "[1, 2]"]
    by (auto simp: HELLO_TIMEOUT_def BODY_TIMEOUT_def WRITE_TIMEOUT_def)
qed

section \<open>Serving\<close>

lemma reachable_ok: "runs conn_step connection_new ls c \<Longrightarrow> conn_ok c"
  using conn_sys.run_inv connection_new_ok by blast

text \<open>
  C19. In every run of a connection at most 32 operations run, a permit is held by every operation
  and every response of one that is not yet retired and by nothing else, the set of live
  identifiers is exact while frames are read, and every frame received is answered exactly once:
  the identifiers received are those answered, with those in flight or being written, counted with
  multiplicity.
\<close>

theorem connection_accounting:
  assumes "runs conn_step connection_new ls c"
  shows "cn_permits c + held_permits c = 32 \<and> length (cn_operations c) \<le> 32
    \<and> (if cn_phase c = Serving then distinct (in_flight c) \<and> cn_ids c = set (in_flight c) else True)
    \<and> mset (concat (map received_id ls)) = mset (concat (map answered_id ls)) + mset (unanswered c)"
proof -
  have ok: "conn_ok c" by (rule reachable_ok [OF assms])
  then have permits: "cn_permits c + held_permits c = 32" by (simp add: conn_ok_def MAX_IN_FLIGHT_def)
  moreover have "length (cn_operations c) \<le> held_permits c" by (simp add: held_permits_def)
  moreover have "unanswered connection_new = []" by (simp add: unanswered_def in_flight_def connection_new_def)
  ultimately show ?thesis
    using ok unanswered_run [OF assms] by (simp add: conn_ok_def add.commute)
qed

text \<open>
  A connection that receives a frame with an unknown opcode: the refusal is queued, retired and
  written, and the connection closes.
\<close>

definition refused_error :: error where
  "refused_error = error_new PROTOCOL (str ''unknown opcode'')"

definition refused_response :: response where
  "refused_response =
     \<lparr>rs_opcode = 255, rs_request_id = 7, rs_body = error_body refused_error, rs_permit = True, rs_written = True\<rparr>"

definition refused_connection :: connection where
  "refused_connection =
     \<lparr>cn_ids = {7}, cn_permits = 31, cn_operations = [], cn_responses = [refused_response], cn_writing = None,
      cn_phase = AwaitReceipt True\<rparr>"

lemma decode_unknown: "decode_request 200 [] = Inl refused_error"
  by (simp add: decode_request_def Let_def refused_error_def)

lemma refused_run: "runs conn_step connection_new [Received 200 7 []] refused_connection"
proof -
  have "on_frame 200 7 [] connection_new = refused_connection"
    unfolding on_frame_def decode_unknown
    by (simp add: connection_new_def request_error_def refuse_def admitted_def refused_connection_def
        refused_response_def refused_error_def error_new_def MAX_IN_FLIGHT_def)
  moreover have "conn_step connection_new (Received 200 7 []) (on_frame 200 7 [] connection_new)"
    by (rule conn_step.received) (simp_all add: connection_new_def)
  ultimately show ?thesis using runs_snoc [OF runs_nil, of conn_step connection_new "Received 200 7 []"] by simp
qed

lemma retired_run:
  "runs conn_step connection_new [Received 200 7 [], Retired 7] (on_retired refused_response [] refused_connection)"
proof -
  have "conn_step refused_connection (Retired (rs_request_id refused_response))
      (on_retired refused_response [] refused_connection)"
    by (rule conn_step.retired) (simp_all add: refused_connection_def)
  then show ?thesis using runs_snoc [OF refused_run] by (fastforce simp: refused_response_def)
qed

lemma connection_accounting_witness:
  "cn_permits refused_connection + held_permits refused_connection = 32
   \<and> mset (concat (map received_id [Received 200 7 []])) = {#7#}
   \<and> mset (unanswered refused_connection) = {#7#}"
  using connection_accounting [OF refused_run]
  by (simp add: held_permits_def unanswered_def in_flight_def refused_connection_def refused_response_def)

text \<open>
  A frame received starts an operation exactly when its identifier is not in flight, one of the 32
  permits is free, and it decodes to a request other than HELLO.
\<close>

theorem request_started_exactly:
  assumes "runs conn_step connection_new ls c" and "cn_phase c = Serving"
  shows "cn_operations (on_frame opcode i body c) =
       cn_operations c @ [\<lparr>op_request_id = i, op_opcode = opcode, op_request = rq\<rparr>] \<longleftrightarrow>
     i \<notin> set (in_flight c) \<and> held_permits c < 32 \<and> decode_request opcode body = Inr rq
     \<and> rq \<notin> range (\<lambda>(v, token). Hello v token)"
proof -
  have ok: "conn_ok c" by (rule reachable_ok [OF assms(1)])
  have ids: "cn_ids c = set (in_flight c)" and permits: "0 < cn_permits c \<longleftrightarrow> held_permits c < 32"
    using ok assms(2) by (auto simp: conn_ok_def MAX_IN_FLIGHT_def)
  have none: "request_error p (Inr q) = None \<longleftrightarrow> p \<and> q \<notin> range (\<lambda>(v, token). Hello v token)" for p q
    by (auto simp: request_error_def image_iff split: request.splits)
  have ops: "cn_operations (admitted i c) = cn_operations c" by (simp add: admitted_def)
  show ?thesis
  proof (cases "i \<in> cn_ids c")
    case True
    then show ?thesis using ids by (simp add: on_frame_def conn_stepI_fields)
  next
    case False
    show ?thesis
    proof (cases "decode_request opcode body")
      case (Inl e)
      then have "request_error (0 < cn_permits c) (decode_request opcode body) \<noteq> None"
        by (simp add: request_error_def)
      then show ?thesis using False Inl by (auto simp: on_frame_def Let_def conn_stepI_fields ops)
    next
      case (Inr q)
      then show ?thesis
        using False ids permits none [of "0 < cn_permits c" q]
        by (cases "request_error (0 < cn_permits c) (Inr q)")
          (auto simp: on_frame_def Let_def conn_stepI_fields ops simp del: range_eqI)
    qed
  qed
qed

lemma request_started_exactly_witness:
  "cn_operations (on_frame 5 7 [] connection_new) = [\<lparr>op_request_id = 7, op_opcode = 5, op_request = Ping\<rparr>]"
proof -
  have "decode_request 5 [] = Inr Ping" using decode_request_enc [of Ping] by simp
  moreover have "cn_phase connection_new = Serving" "cn_operations connection_new = []"
    "in_flight connection_new = []" "held_permits connection_new = 0"
    by (simp_all add: connection_new_def in_flight_def held_permits_def)
  ultimately show ?thesis
    using request_started_exactly [OF runs_nil [of conn_step connection_new], of 5 7 "[]" Ping] by auto
qed

text \<open>
  Unless the socket, a task or the peer fails, a connection ends only by writing an error frame
  with the code PROTOCOL, completely, before it closes.
\<close>

theorem closed_only_after_refusal:
  assumes "runs conn_step connection_new ls c" and "conn_step c ev c'" and "cn_phase c \<noteq> Finished"
    and "cn_phase c' = Finished" and "ev \<noteq> Lost"
  shows "\<exists>i e. ev = Written i (response_frame 255 i (error_body e)) \<and> err_code e = PROTOCOL"
proof -
  have ok: "conn_ok c" by (rule reachable_ok [OF assms(1)])
  from assms(2) show ?thesis
  proof (cases rule: conn_stepE)
    case (written r)
    then have "rs_written r" "cn_phase c = AwaitReceipt True"
      using assms(3,4) by (auto simp: on_written_def split: conn_phase.splits if_splits)
    then have "refusal True r"
      using ok written by (auto simp: conn_ok_def receipts_def append_eq_Cons_conv)
    then show ?thesis using written by (auto simp: refusal_def written_frame_def)
  qed (use assms(3-5) in \<open>auto simp: on_frame_def on_finished_def on_retired_def refuse_def admitted_def Let_def
      split: if_splits option.splits sum.splits prod.splits\<close>)
qed

lemma closed_only_after_refusal_witness:
  "cn_phase (on_written refused_response (on_retired refused_response [] refused_connection)) = Finished
   \<and> (\<exists>i e. Written 7 (written_frame refused_response) = Written i (response_frame 255 i (error_body e))
        \<and> err_code e = PROTOCOL)"
proof -
  let ?c = "on_retired refused_response [] refused_connection"
  have f: "cn_phase (on_written refused_response ?c) = Finished"
    by (simp add: on_written_def on_retired_def refused_response_def refused_connection_def)
  have "conn_step ?c (Written (rs_request_id refused_response) (written_frame refused_response)) (on_written refused_response ?c)"
    by (rule conn_step.written) (simp_all add: on_retired_def refused_connection_def)
  then have "conn_step ?c (Written 7 (written_frame refused_response)) (on_written refused_response ?c)"
    by (simp add: refused_response_def)
  from closed_only_after_refusal [OF retired_run this _ f] f show ?thesis
    by (simp add: on_retired_def refused_connection_def)
qed

section \<open>Requests\<close>

text \<open>
  Given that the renderer of JSON renders objects as objects, every request the decoder lets
  through, other than a second HELLO, returns on a reachable store and after any run of the
  scheduler: it does not panic, it leaves the lock of the store usable and the store reachable, its
  effect on the scheduler is a step of the system that the theorems on runs speak of, and its
  reply, if it is not an error, STATS or awaited, fits a frame.
\<close>

theorem dispatch_total:
  assumes "store_reachable crc (sh_store sh)" and "\<not> sh_poisoned sh" and "runs rpc_step (system_new n b) ls \<sigma>"
    and "decode_request opcode body = Inr rq" and "rq \<notin> range (\<lambda>(v, token). Hello v token)"
    and "json_objects to_vec from_slice"
  shows "\<exists>out sh' s'. dispatch env crc to_vec from_slice now now1 now2 conns conn rq (sh, rpc \<sigma>) = Some (out, sh', s')
    \<and> store_reachable crc (sh_store sh') \<and> \<not> sh_poisoned sh'
    \<and> (\<exists>\<sigma>'. rpc \<sigma>' = s' \<and> (\<sigma>' = \<sigma> \<or> (\<exists>ev. rpc_step \<sigma> ev \<sigma>')))
    \<and> reply_fits rq out"
proof -
  have ok: "sys_ok \<sigma>" using run_ok_runs [OF assms(3)] by (simp add: run_ok_def)
  have rq: "request_ok rq" "\<And>v token. rq \<noteq> Hello v token" using decode_request_dec [OF assms(4)] assms(5) by auto
  show ?thesis
    by (rule dispatch_refines [OF assms(1,2) ok rq assms(6), of env now now1 now2 conns conn])
      (unfold rpc_steps_to_def, blast)
qed

text \<open>The witness: a publish as the first request of a server that was started in memory.\<close>

lemma dispatch_total_witness:
  "\<exists>out sh' s'. dispatch no_faults sample_crc (\<lambda>_. []) (\<lambda>_. Some (JObject [])) 5 5 5 1 1 (Publish [sample_record])
     (\<lparr>sh_store = store_memory 0 1000 1000, sh_poisoned = False\<rparr>, rpc (system_new 10 1000)) = Some (out, sh', s')
   \<and> store_reachable sample_crc (sh_store sh') \<and> \<not> sh_poisoned sh'
   \<and> reply_fits (Publish [sample_record]) out"
proof -
  have "batch_ok [sample_record]" using sample_record_ok by (simp add: batch_ok_def MAX_BATCH_def)
  then have d: "decode_request 2 (request_body (Publish [sample_record])) = Inr (Publish [sample_record])"
    using decode_request_enc [of "Publish [sample_record]"] by simp
  have sh: "store_reachable sample_crc (sh_store \<lparr>sh_store = store_memory 0 1000 1000, sh_poisoned = False\<rparr>)"
    "\<not> sh_poisoned \<lparr>sh_store = store_memory 0 1000 1000, sh_poisoned = False\<rparr>"
    by (simp_all add: store_reachable.memory)
  have json: "json_objects (\<lambda>_. []) (\<lambda>_. Some (JObject []))" by (simp add: json_objects_def)
  have "Publish [sample_record] \<notin> range (\<lambda>(v, token). Hello v token)" by auto
  from dispatch_total [OF sh runs_nil d this json, of no_faults 5 5 5 1 1 10 1000] show ?thesis by blast
qed

end
