(* ===== verification/World_Properties.thy ===== *)
theory World_Properties
  imports World_Demo World_Order Server_Properties
begin

text \<open>
  What the whole server guarantees, from its start and over any interleaving of its tasks: the
  properties that connect what a client is told to what other clients and the disk have seen.
\<close>

section \<open>A server that runs\<close>

text \<open>A server that has been started with a configuration and has come to a state by some events.\<close>

definition serves :: "externals \<Rightarrow> config \<Rightarrow> server \<Rightarrow> server_event list \<Rightarrow> world \<Rightarrow> bool" where
  "serves X config sv evs w =
     ((\<exists>env now components dirs file dirs' file'.
         serve_start env (ex_crc X) now components config dirs file = (Inr sv, dirs', file'))
      \<and> runs (server_step X (cfg_token config) (cfg_max_connections config)) (serving sv) evs w)"

lemma servesD:
  assumes "serves X config sv evs w" and "json_objects (ex_to_vec X) (ex_from_slice X)"
  shows "runs (server_step X (cfg_token config) (cfg_max_connections config)) (serving sv) evs w"
    and "world_inv X (cfg_max_connections config) (serving sv)"
    and "world_ok X (cfg_max_connections config) w"
    and "w_system (serving sv) = system_new (cfg_max_rpc_calls config) (of_nat (cfg_max_rpc_bytes config))"
    and "st_wal (sh_store (w_store (serving sv))) \<noteq> None \<longleftrightarrow> \<not> cfg_memory config"
proof -
  obtain env now components dirs wal_file dirs' wal_file' where
      start: "serve_start env (ex_crc X) now components config dirs wal_file = (Inr sv, dirs', wal_file')"
    and run: "runs (server_step X (cfg_token config) (cfg_max_connections config)) (serving sv) evs w"
    using assms(1) unfolding serves_def by blast
  show "runs (server_step X (cfg_token config) (cfg_max_connections config)) (serving sv) evs w" by (rule run)
  show "world_inv X (cfg_max_connections config) (serving sv)" by (rule serving_inv [OF start assms(2)])
  show "world_ok X (cfg_max_connections config) w" by (rule served_run_ok [OF start assms(2) run])
  show "w_system (serving sv) = system_new (cfg_max_rpc_calls config) (of_nat (cfg_max_rpc_bytes config))"
    by (rule serving_system [OF start])
  show "st_wal (sh_store (w_store (serving sv))) \<noteq> None \<longleftrightarrow> \<not> cfg_memory config"
    using start
    by (auto simp: serve_start_def serving_def Let_def store_memory_def store_disk_def split: if_splits sum.splits prod.splits)
qed

lemma serving_empty [simp]: "w_clients (serving sv) = Map.empty" "w_tasks (serving sv) = Map.empty"
  "w_listener (serving sv) = sv_listener sv" "w_store (serving sv) = sv_store sv"
  by (simp_all add: serving_def)

text \<open>The server of the witnesses.\<close>

lemma demo_serves:
  "serves demo_externals (demo_config True) (demo_server (store_memory 0 1000 1000)) evs w \<longleftrightarrow>
     runs (server_step demo_externals [] 2) (serving (demo_server (store_memory 0 1000 1000))) evs w"
proof -
  have "cfg_token (demo_config True) = []" "cfg_max_connections (demo_config True) = 2" by (simp_all add: demo_config_def)
  then show ?thesis using demo_start_memory [of demo_externals] unfolding serves_def by metis
qed

section \<open>The server and its parts\<close>

text \<open>
  C12. The server refines its parts. Whatever the interleaving of its tasks, what a run of the server
  does to the scheduler is a run of the scheduler from its start, what it does to the accept loop is
  a run of that loop, and what it does to a connection is a run of the connection since it was
  greeted: all that is proved of the runs of a part holds of it in the server.
\<close>

theorem server_refines:
  assumes "serves X config sv evs w" and "json_objects (ex_to_vec X) (ex_from_slice X)"
  shows "runs rpc_step (system_new (cfg_max_rpc_calls config) (of_nat (cfg_max_rpc_bytes config)))
      (events_of rpc_events evs) (w_system w)
    \<and> runs (accept_step (cfg_max_connections config)) (sv_listener sv) (events_of accept_events evs) (w_listener w)
    \<and> (\<forall>n s c. w_clients w n = Some (Active s c) \<longrightarrow> runs conn_step connection_new (events_of (conn_events n) evs) c)"
proof -
  note d = servesD [OF assms]
  have "runs conn_step connection_new (events_of (conn_events n) evs) c" if "w_clients w n = Some (Active s c)" for n s c
    using run_connections [OF d(1,2), of n] that by (auto simp: conn_hist_def)
  then show ?thesis using run_scheduler [OF d(1,2)] run_accepts [OF d(1,2)] d(4) by simp
qed

lemma server_refines_witness:
  "runs rpc_step (system_new 4 10000) (events_of rpc_events called_events) (w_system called_world)
   \<and> runs conn_step connection_new (events_of (conn_events 1) called_events) caller_conn"
proof -
  have s: "serves demo_externals (demo_config True) (demo_server (store_memory 0 1000 1000)) called_events called_world"
    using called_run demo_serves by blast
  have "w_clients called_world 1 = Some (Active [] caller_conn)" by simp
  then show ?thesis using server_refines [OF s demo_json] by (simp add: demo_config_def)
qed

text \<open>
  C16. Tasks are typed, and own what they hold. Every task of the server has a request that the decoder
  lets through, at a stage that such a request can be at, and belongs to one operation of a connection
  that is served; a ticket or a TAKE of the scheduler is held by exactly one task, and every operation
  of a connection that has not finished has its task.
\<close>

theorem tasks_typed:
  assumes "serves X config sv evs w" and "json_objects (ex_to_vec X) (ex_from_slice X)"
  shows "(\<forall>n i rq st. w_tasks w (n, i) = Some (rq, st) \<longrightarrow> request_ok rq \<and> stage_ok (w_system w) n rq st
        \<and> (\<exists>s c op. w_clients w n = Some (Active s c) \<and> op \<in> set (cn_operations c)
             \<and> op_request_id op = i \<and> op_request op = rq))
    \<and> (\<forall>t. t \<in> tickets (w_system w) \<longleftrightarrow> (\<exists>!x. \<exists>rq. w_tasks w x = Some (rq, OnTicket t)))
    \<and> (\<forall>k. hm_get (takes (w_system w)) k \<noteq> None \<longleftrightarrow> (\<exists>!x. \<exists>rq. w_tasks w x = Some (rq, Taking k)))
    \<and> (\<forall>n s c op. w_clients w n = Some (Active s c) \<and> cn_phase c \<noteq> Finished \<and> op \<in> set (cn_operations c) \<longrightarrow>
        (\<exists>st. w_tasks w (n, op_request_id op) = Some (op_request op, st)))"
proof -
  note ok = servesD(3) [OF assms]
  have held: "partitions (\<lambda>x. tickets_held (w_tasks w x)) tk_call_id (tickets (w_system w))"
    "partitions (\<lambda>x. takes_held (w_tasks w x)) (\<lambda>k. k) (dom (hm_get (takes (w_system w))))"
    using ok by (simp_all add: world_ok_def held_ok_def)
  have mem: "t \<in> tickets_held v \<longleftrightarrow> (\<exists>rq. v = Some (rq, OnTicket t))" "k \<in> takes_held v \<longleftrightarrow> (\<exists>rq. v = Some (rq, Taking k))" for t k v
    by (auto simp: tickets_held_def takes_held_def split: option.splits stage.splits)
  show ?thesis
    using task_okD(2,3) [OF ok] tasksD [OF ok] partitions_once [OF held(1), unfolded mem] partitions_once [OF held(2), unfolded mem domIff]
    by blast
qed

lemma tasks_typed_witness: "\<exists>!x. \<exists>rq. w_tasks called_world x = Some (rq, OnTicket demo_ticket)"
proof -
  have s: "serves demo_externals (demo_config True) (demo_server (store_memory 0 1000 1000)) called_events called_world"
    using called_run demo_serves by blast
  have "demo_ticket \<in> tickets (w_system called_world)" by (simp add: demo_system_def)
  then show ?thesis using tasks_typed [OF s demo_json] by blast
qed

section \<open>What a client is told\<close>

text \<open>The result of a publish comes from the store.\<close>

lemma publish_result:
  assumes run: "runs (server_step X token maximum) w evs w'" "world_inv X maximum w"
    and ev: "ev \<in> set evs" "result_of ev = Some (n, i, Publish rs, r)"
  shows "Ran n i (Publish rs) r \<in> set evs"
proof (rule run_event [OF run(1) ev(1)])
  fix evs1 v u assume r1: "runs (server_step X token maximum) w evs1 v" and st: "server_step X token maximum v ev u"
  have ok: "world_ok X maximum v" using world_sys.run_inv [OF r1 run(2)] by (simp add: world_inv_def)
  show ?thesis
    using st
  proof (cases rule: server_stepE)
    case (dispatched n' i' rq conns env now now1 now2 out' sh s k now3)
    then show ?thesis using ev(2) by (cases out') auto
  next
    case (ran n' i' rq conns j env now r sh)
    then show ?thesis using ev by simp
  next
    case (took n' i' rq k tk e now1 now2 res s)
    then show ?thesis using ev(2) task_okD(2) [OF ok took(3)] by (auto simp: stage_ok_def)
  next
    case (took_none n' i' rq k tk e now)
    then show ?thesis using ev(2) task_okD(2) [OF ok took_none(3)] by (auto simp: stage_ok_def)
  next
    case (answering n' i' rq t now r s)
    then show ?thesis using ev(2) task_okD(2) [OF ok answering(3)] by (auto simp: stage_ok_def)
  qed (use ev(2) in simp_all)
qed

text \<open>
  C3. A receipt is true. A client that is written a receipt, the response 130, had sent a PUBLISH
  frame under that identifier; the receipt gives a range of sequence numbers whose records in the
  history, in every later state, are exactly the records of that frame, and says whether they are on
  disk.
\<close>

theorem publish_end_to_end:
  assumes "serves X config sv evs w" and "json_objects (ex_to_vec X) (ex_from_slice X)"
    and "Wrote n r \<in> set evs" and "rs_opcode r = 130"
  shows "\<exists>body rs first. Framed n 2 (rs_request_id r) body \<in> set evs \<and> decode_request 2 body = Inr (Publish rs)
    \<and> rs_body r = receipt (of_nat first + 1) (of_nat first + of_nat (length rs)) (of_nat (length rs)) (\<not> cfg_memory config)
    \<and> take (length rs) (drop first (served_history w)) = rs"
proof -
  note d = servesD [OF assms(1,2)]
  have "rs_opcode r \<noteq> 255" using assms(4) by simp
  from wrote_result [OF d(1,2) serving_empty(1,2) assms(3) this] obtain opcode body rq out where
    f: "Framed n opcode (rs_request_id r) body \<in> set evs" "decode_request opcode body = Inr rq" "rs_opcode r = or opcode 128"
    "rs_body r = out" "\<exists>ev \<in> set evs. result_of ev = Some (n, rs_request_id r, rq, Inr out)" by blast
  have op: "opcode = request_opcode rq" by (rule opcode_of(1) [OF f(2)])
  then obtain rs where rq: "rq = Publish rs" using f(3) assms(4) by (cases rq) simp_all
  have "Ran n (rs_request_id r) (Publish rs) (Inr out) \<in> set evs" using publish_result [OF d(1,2)] f(5) rq by blast
  from receipt_place [OF d(1,2) this] obtain first where
    "out = receipt (of_nat first + 1) (of_nat first + of_nat (length rs)) (of_nat (length rs)) (\<not> cfg_memory config)"
    "take (length rs) (drop first (served_history w)) = rs"
    using d(5) by auto
  then show ?thesis using f(1,2,4) rq op by auto
qed

lemma publish_end_to_end_witness:
  "\<exists>w. serves demo_externals (demo_config True) (demo_server (store_memory 0 1000 1000)) published_events w
     \<and> (\<exists>body rs first. Framed 1 2 2 body \<in> set published_events \<and> decode_request 2 body = Inr (Publish rs)
          \<and> receipt 1 1 1 False = receipt (of_nat first + 1) (of_nat first + of_nat (length rs)) (of_nat (length rs)) False
          \<and> take (length rs) (drop first (served_history w)) = rs)"
proof -
  obtain w where s: "serves demo_externals (demo_config True) (demo_server (store_memory 0 1000 1000)) published_events w"
    using published_run demo_serves by blast
  let ?r = "demo_response 2 demo_publish (receipt 1 1 1 False)"
  have "Wrote 1 ?r \<in> set published_events" by (simp add: published_events_def)
  from publish_end_to_end [OF s demo_json this] have
    "\<exists>body rs first. Framed 1 2 2 body \<in> set published_events \<and> decode_request 2 body = Inr (Publish rs)
          \<and> receipt 1 1 1 False = receipt (of_nat first + 1) (of_nat first + of_nat (length rs)) (of_nat (length rs)) False
          \<and> take (length rs) (drop first (served_history w)) = rs"
    by (simp add: demo_response_def demo_config_def)
  then show ?thesis using s by blast
qed

text \<open>
  C4. An answer is true. When a client is written the answer of a call, the response 135, all of this had
  happened before, in this order: the client sent an RPC frame under that identifier; the call was
  admitted with a ticket; a worker took the very call of that ticket, with the payload of the frame;
  that worker's COMPLETE, which names this call, was accepted with the payload of the answer; the
  client's task read this answer off its ticket; the operation of the frame ended with it, no other
  having ended under this identifier since the frame; and its response was retired, the last to be. The
  worker had registered the route of the frame, with success, before it took the call; and the worker's
  REGISTER, TAKE and COMPLETE were themselves frames that it had sent.
\<close>

theorem rpc_end_to_end:
  assumes "serves X config sv evs w" and "json_objects (ex_to_vec X) (ex_from_slice X)"
    and "evs = before @ Wrote n r # after" and "rs_opcode r = 135"
  shows "\<exists>name ms p body t k q op E0 E1 E2 wk iw wait j E3 ic out kc E4 E5 E6 E7 ir conc lim out' kr.
    before = E0 @ Framed n 7 (rs_request_id r) body
       # E1 @ Dispatched n (rs_request_id r) (request.Rpc name ms p) (AwaitTicket t) k
       # E2 @ Took wk iw (Take wait) (Dispatch j)
       # E3 @ Dispatched wk ic (Complete (tk_call_id t) False q) (Reply (Inr out)) kc
       # E4 @ Answering n (rs_request_id r) (request.Rpc name ms p) t (Inr q)
       # E5 @ Finishing n op (Inr (rs_body r))
       # E6 @ Retiring n (rs_request_id r) # E7
    \<and> decode_request 7 body = Inr (request.Rpc name ms p) \<and> op_request_id op = rs_request_id r
    \<and> job_call_id j = tk_call_id t \<and> job_payload j = p
    \<and> rs_body r = to_be_bytes (of_nat (length q) :: u32) @ q
    \<and> \<not> list_ex (ends n (rs_request_id r)) (E1 @ E2 @ E3 @ E4 @ E5 @ E6) \<and> \<not> list_ex (retires n) E7
    \<and> Dispatched wk ir (Register name conc lim) (Reply (Inr out')) kr \<in> set (E0 @ E1 @ E2)
    \<and> asked before wk ir (Register name conc lim) \<and> asked before wk iw (Take wait)
    \<and> asked before wk ic (Complete (tk_call_id t) False q)"
proof -
  note d = servesD [OF assms(1,2)] and none = serving_empty(1,2) [of sv]
  obtain v v' where v: "runs (server_step X (cfg_token config) (cfg_max_connections config)) (serving sv) before v"
      "server_step X (cfg_token config) (cfg_max_connections config) v (Wrote n r) v'"
    by (rule runs_split_one [OF d(1) [unfolded assms(3)]])
  obtain s c where c: "w_clients v n = Some (Active s c)" "cn_writing c = Some r"
    using v(2) by (cases rule: server_stepE) auto
  note asked = event_asked [OF v(1) d(2) none(1)]
  show ?thesis
  proof (rule answer_story [OF v(1) d(2) none d(4) c assms(4)], intro exI conjI)
    fix name ms p body t k q op E0 E1 E2 wk iw wait j E3 ic out kc E4 E5 E6 E7 ir conc lim out' kr
    assume eq: "before = E0 @ Framed n 7 (rs_request_id r) body
       # E1 @ Dispatched n (rs_request_id r) (request.Rpc name ms p) (AwaitTicket t) k
       # E2 @ Took wk iw (Take wait) (Dispatch j)
       # E3 @ Dispatched wk ic (Complete (tk_call_id t) False q) (Reply (Inr out)) kc
       # E4 @ Answering n (rs_request_id r) (request.Rpc name ms p) t (Inr q)
       # E5 @ Finishing n op (Inr (rs_body r))
       # E6 @ Retiring n (rs_request_id r) # E7"
      and reg: "Dispatched wk ir (Register name conc lim) (Reply (Inr out')) kr \<in> set (E0 @ E1 @ E2)"
    have mem: "Dispatched wk ir (Register name conc lim) (Reply (Inr out')) kr \<in> set before"
      "Took wk iw (Take wait) (Dispatch j) \<in> set before"
      "Dispatched wk ic (Complete (tk_call_id t) False q) (Reply (Inr out)) kc \<in> set before"
      using eq reg by auto
    show "asked before wk ir (Register name conc lim)" "asked before wk iw (Take wait)"
      "asked before wk ic (Complete (tk_call_id t) False q)"
      using asked [OF mem(1)] asked [OF mem(2)] asked [OF mem(3)] by simp_all
  qed
qed

lemma rpc_end_to_end_witness:
  "\<exists>w E0 E1 E2 E3 E4 name ms p t k wk iw wait j ic q out kc.
     serves demo_externals (demo_config True) (demo_server (store_memory 0 1000 1000)) answered_events w
     \<and> answered_events = E0 @ Dispatched 1 2 (request.Rpc name ms p) (AwaitTicket t) k
       # E1 @ Took wk iw (Take wait) (Dispatch j)
       # E2 @ Dispatched wk ic (Complete (tk_call_id t) False q) (Reply (Inr out)) kc
       # E3 @ Answering 1 2 (request.Rpc name ms p) t (Inr q) # E4
     \<and> job_call_id j = tk_call_id t \<and> job_payload j = p \<and> [0, 0, 0, 1, 9] = to_be_bytes (of_nat (length q) :: u32) @ q"
proof -
  obtain w where s: "serves demo_externals (demo_config True) (demo_server (store_memory 0 1000 1000)) answered_events w"
    using answered_run demo_serves by blast
  let ?r = "demo_response 2 demo_rpc [0, 0, 0, 1, 9]"
  have r: "rs_opcode ?r = 135" "rs_request_id ?r = 2" "rs_body ?r = [0, 0, 0, 1, 9]" by (simp_all add: demo_response_def)
  have "\<exists>before. answered_events = before @ Wrote 1 ?r # []" by (simp add: answered_events_def)
  then obtain before where eq: "answered_events = before @ Wrote 1 ?r # []" by blast
  from rpc_end_to_end [OF s demo_json eq r(1), unfolded r(2,3)]
  obtain name ms p body t k q op E0 E1 E2 wk iw wait j E3 ic out kc E4 E5 E6 E7 where
    story: "before = E0 @ Framed 1 7 2 body
       # E1 @ Dispatched 1 2 (request.Rpc name ms p) (AwaitTicket t) k
       # E2 @ Took wk iw (Take wait) (Dispatch j)
       # E3 @ Dispatched wk ic (Complete (tk_call_id t) False q) (Reply (Inr out)) kc
       # E4 @ Answering 1 2 (request.Rpc name ms p) t (Inr q)
       # E5 @ Finishing 1 op (Inr [0, 0, 0, 1, 9]) # E6 @ Retiring 1 2 # E7"
    "job_call_id j = tk_call_id t" "job_payload j = p" "[0, 0, 0, 1, 9] = to_be_bytes (of_nat (length q) :: u32) @ q"
    by (elim exE conjE) (rule that)
  have "answered_events = (E0 @ Framed 1 7 2 body # E1) @ Dispatched 1 2 (request.Rpc name ms p) (AwaitTicket t) k
       # E2 @ Took wk iw (Take wait) (Dispatch j)
       # E3 @ Dispatched wk ic (Complete (tk_call_id t) False q) (Reply (Inr out)) kc
       # E4 @ Answering 1 2 (request.Rpc name ms p) t (Inr q)
       # ((E5 @ Finishing 1 op (Inr [0, 0, 0, 1, 9]) # E6 @ Retiring 1 2 # E7) @ [Wrote 1 ?r])"
    unfolding eq story(1) by simp
  with s story(2-4) show ?thesis by blast
qed

section \<open>Who may act\<close>

text \<open>
  C7. Only clients that know the token act. Given that \<open>ct_eq\<close> of the crate \<open>subtle\<close> is equality, whenever
  the server reads a frame from a client or does anything on behalf of a request, the first bytes that
  this client had sent were a HELLO frame of version 1 with the configured token.
\<close>

theorem only_authenticated_act:
  assumes "serves X config sv evs w" and "json_objects (ex_to_vec X) (ex_from_slice X)"
    and "\<And>a b. ex_ct_eq X a b \<longleftrightarrow> a = b" and "string_ok 65535 (cfg_token config)"
    and "server_step X (cfg_token config) (cfg_max_connections config) w ev w'" and "acts_for ev = Some n"
  shows "\<exists>i rest. i \<noteq> 0 \<and> Greeted n (envelope 1 i (request_body (Hello 1 (cfg_token config))) @ rest) \<in> set evs"
proof -
  note d = servesD [OF assms(1,2)]
  obtain s where s: "Greeted n s \<in> set evs" "hello_accepted X (cfg_token config) s"
    using act_greeted [OF d(1,2) serving_empty(1) assms(5,6)] by blast
  obtain io1 io2 wfault t out rest where "handshake (ex_ct_eq X) (cfg_token config) io1 io2 wfault t s = Inr (True, out, rest)"
    using s(2) unfolding hello_accepted_def by blast
  then obtain op i body where r: "read_frame False io1 io2 s = Inr ((op, i, body), rest)"
      "hello_error (ex_ct_eq X) (cfg_token config) (decode_request op body) = None"
    unfolding handshake_True by blast
  then have "op = 1 \<and> body = request_body (Hello 1 (cfg_token config))"
    using hello_error_None [OF assms(3)] decode_hello_iff [OF assms(4)] by blast
  moreover have "s = envelope op i body @ rest \<and> i \<noteq> 0" using r(1) unfolding read_frame_iff by blast
  ultimately show ?thesis using s(1) by auto
qed

lemma only_authenticated_act_witness:
  "\<exists>w'. server_step demo_externals [] 2 called_world (Framed 2 9 4 (request_body demo_done)) w'
     \<and> (\<exists>i rest. i \<noteq> 0 \<and> Greeted 2 (envelope 1 i (request_body (Hello 1 [])) @ rest) \<in> set called_events)"
proof -
  have s: "serves demo_externals (demo_config True) (demo_server (store_memory 0 1000 1000)) called_events called_world"
    using called_run demo_serves by blast
  obtain w' where step: "server_step demo_externals [] 2 called_world (Framed 2 9 4 (request_body demo_done)) w'"
    using demo_frame [of called_world 2 4 demo_done "[]" worker_conn2 demo_externals "[]" 2] demo_requests_ok by auto
  have c: "cfg_token (demo_config True) = []" "cfg_max_connections (demo_config True) = 2" by (simp_all add: demo_config_def)
  have eq: "ex_ct_eq demo_externals a b \<longleftrightarrow> a = b" for a b by (simp add: demo_externals_def)
  have "string_ok 65535 []" by (simp add: string_ok_def)
  from only_authenticated_act [OF s demo_json eq, of _ w' 2, unfolded c, OF this step] step show ?thesis by auto
qed

section \<open>Progress\<close>

text \<open>
  C8. No operation is stuck. In every state that the server reaches, each operation of a connection
  that has not ended can be brought to its response by steps of its own task alone (the turns of the
  loop of a TAKE are those of its own TAKE): it panics nowhere, waits for no other client for ever, and
  an awaited ticket or TAKE ends at its deadline at the latest.
\<close>

theorem operations_finish:
  assumes "serves X config sv evs w" and "json_objects (ex_to_vec X) (ex_from_slice X)"
    and "w_clients w n = Some (Active s c)" and "cn_phase c \<noteq> Finished" and "op \<in> set (cn_operations c)"
  shows "\<exists>evs' w' r. runs (server_step X (cfg_token config) (cfg_max_connections config)) w (evs' @ [Finishing n op r]) w'
    \<and> list_all (own_event n op) evs'"
  using operation_can_finish [OF servesD(3) [OF assms(1,2)] assms(3-5)] unfolding can_finish_def .

lemma operations_finish_witness:
  "\<exists>evs' w' r. runs (server_step demo_externals [] 2) called_world (evs' @ [Finishing 1 (demo_op_of 2 demo_rpc) r]) w'
     \<and> list_all (own_event 1 (demo_op_of 2 demo_rpc)) evs'"
proof -
  have s: "serves demo_externals (demo_config True) (demo_server (store_memory 0 1000 1000)) called_events called_world"
    using called_run demo_serves by blast
  have c: "cfg_token (demo_config True) = []" "cfg_max_connections (demo_config True) = 2" by (simp_all add: demo_config_def)
  have "w_clients called_world 1 = Some (Active [] caller_conn)" by simp
  from operations_finish [OF s demo_json this, of "demo_op_of 2 demo_rpc", unfolded c] show ?thesis by simp
qed

text \<open>
  C15. Every client can be cleaned up, and nothing of it stays. From every state that the server
  reaches, each client, whether it has greeted or not, can be brought to its end by steps of its own,
  none of which panics, the other clients are untouched and its permit comes back. A client that has
  not greeted cannot hold its permit by being slow: whatever it has sent, a handshake whose HELLO has
  not begun to arrive within 60 seconds ends with a time-out, one whose body or whose answer takes more
  than 10 seconds fails, and a client whose handshake fails is removed in one step. When no client is left,
  the scheduler is the one of the start, apart from its counters, the next identifier and the
  outcomes and wake-up counts of past calls and workers: it has no connection, worker, route or call
  and has reserved no byte; no task, ticket or TAKE is left, and all permits are back.
\<close>

theorem clients_leave_nothing:
  assumes "serves X config sv evs w" and "json_objects (ex_to_vec X) (ex_from_slice X)"
  shows "(\<forall>n. w_clients w n \<noteq> None \<longrightarrow>
      (\<exists>evs' w'. runs (server_step X (cfg_token config) (cfg_max_connections config)) w evs' w'
         \<and> list_all (leaving_event n) evs' \<and> w_clients w' = (w_clients w)(n := None)
         \<and> free_connections (w_listener w') = free_connections (w_listener w) + 1))
    \<and> (\<forall>n s. w_clients w n = Some (Greeting s) \<longrightarrow>
         server_step X (cfg_token config) (cfg_max_connections config) w (Rejected n) (forget n w)
         \<and> (\<forall>io1 io2 wfault t out rest.
              (HELLO_TIMEOUT < io_elapsed io1 \<longrightarrow>
                 handshake (ex_ct_eq X) (cfg_token config) io1 io2 wfault t s = Inl io_error.TimedOut)
              \<and> (BODY_TIMEOUT < io_elapsed io2 \<or> WRITE_TIMEOUT < t \<longrightarrow>
                 handshake (ex_ct_eq X) (cfg_token config) io1 io2 wfault t s \<noteq> Inr (True, out, rest))))
    \<and> (w_clients w = Map.empty \<longrightarrow>
         idle_scheduler (cfg_max_rpc_calls config) (of_nat (cfg_max_rpc_bytes config)) (rpc (w_system w))
         \<and> w_tasks w = Map.empty \<and> tickets (w_system w) = {} \<and> takes (w_system w) = []
         \<and> free_connections (w_listener w) = cfg_max_connections config)"
proof -
  note d = servesD [OF assms]
  have inv: "world_inv X (cfg_max_connections config) w" using d(3) assms(2) by (simp add: world_inv_def)
  have "runs rpc_step (system_new (cfg_max_rpc_calls config) (of_nat (cfg_max_rpc_bytes config)))
      (events_of rpc_events evs) (w_system w)"
    using run_scheduler [OF d(1,2)] d(4) by simp
  note limits = limits_run [OF this]
  have late: "handshake (ex_ct_eq X) (cfg_token config) io1 io2 wfault t s \<noteq> Inr (True, out, rest)"
    if "BODY_TIMEOUT < io_elapsed io2 \<or> WRITE_TIMEOUT < t" for io1 io2 wfault t out rest s
    using that by (auto simp: handshake_True read_frame_Inr [of _ io1 io2] write_response_Inr)
  show ?thesis
  proof (intro conjI allI impI)
    fix n assume "w_clients w n \<noteq> None"
    from client_can_leave [OF inv this] show
      "\<exists>evs' w'. runs (server_step X (cfg_token config) (cfg_max_connections config)) w evs' w'
         \<and> list_all (leaving_event n) evs' \<and> w_clients w' = (w_clients w)(n := None)
         \<and> free_connections (w_listener w') = free_connections (w_listener w) + 1"
      unfolding can_leave_def .
  qed (use greeting_rejected handshake_late late no_clients [OF d(3)] limits in simp_all)
qed

lemma clients_leave_nothing_witness:
  "\<exists>evs w. runs (server_step demo_externals [] 2) called_world evs w
     \<and> idle_scheduler (cfg_max_rpc_calls (demo_config True)) (of_nat (cfg_max_rpc_bytes (demo_config True))) (rpc (w_system w))
     \<and> tickets (w_system w) = {} \<and> free_connections (w_listener w) = 2"
proof -
  let ?run = "runs (server_step demo_externals [] 2)"
  have c: "cfg_token (demo_config True) = []" "cfg_max_connections (demo_config True) = 2" by (simp_all add: demo_config_def)
  have served: "serves demo_externals (demo_config True) (demo_server (store_memory 0 1000 1000)) (called_events @ evs) w"
    if "?run called_world evs w" for evs w
    using server_append [OF that called_run] demo_serves by blast
  note leave = clients_leave_nothing [OF served demo_json, unfolded c]
  have "w_clients called_world 1 \<noteq> None" by simp
  then obtain evs1 w1 where 1: "?run called_world evs1 w1" "w_clients w1 = (w_clients called_world)(1 := None)"
    using leave [OF runs_nil] by blast
  have "w_clients w1 2 \<noteq> None" using 1(2) by simp
  then obtain evs2 w2 where 2: "?run w1 evs2 w2" "w_clients w2 = (w_clients w1)(2 := None)"
    using leave [OF 1(1)] by blast
  have run: "?run called_world (evs1 @ evs2) w2" by (rule server_append [OF 2(1) 1(1)])
  have "w_clients w2 = Map.empty" using 1(2) 2(2) by (auto simp: fun_eq_iff)
  then show ?thesis using leave [OF run] run by blast
qed

section \<open>The log of a server\<close>

text \<open>
  C13. The history of the server is the log of its successful publishes: what it had recovered when it
  started, followed by the batches that PUBLISH requests have had stored, whole and in the order in
  which they were stored; nothing is ever removed, reordered or added otherwise.
\<close>

theorem history_is_log:
  assumes "serves X config sv evs w" and "json_objects (ex_to_vec X) (ex_from_slice X)"
  shows "served_history w = history (sh_store (sv_store sv)) @ events_of commits evs"
  using run_history [OF servesD(1,2) [OF assms]] by simp

lemma history_is_log_witness:
  "\<exists>w. runs (server_step demo_externals [] 2) (serving (demo_server (store_memory 0 1000 1000))) published_events w
     \<and> served_history w = [sample_record]"
proof -
  obtain w where run: "runs (server_step demo_externals [] 2) (serving (demo_server (store_memory 0 1000 1000))) published_events w"
    using published_run by blast
  then have "serves demo_externals (demo_config True) (demo_server (store_memory 0 1000 1000)) published_events w"
    using demo_serves by blast
  from history_is_log [OF this demo_json] run show ?thesis
    by (auto simp: demo_server_def store_memory_def history_def events_of_def published_events_def stored_events_def greeting_events_def)
qed

lemma serve_start_disk:
  assumes "\<not> cfg_memory config"
    and "store_disk env crc now (components (cfg_data_dir config)) dirs wal_file
        (of_nat (cfg_max_retained_bytes config)) (of_nat (cfg_max_wal_bytes config)) = (Inr s, dirs', wal_file')"
  shows "\<exists>sv. serve_start env crc now components config dirs wal_file = (Inr sv, dirs', wal_file') \<and> sh_store (sv_store sv) = s"
  using assms by (simp add: serve_start_def Let_def)

lemma serve_start_diskD:
  assumes "serve_start env crc now components config dirs wal_file = (Inr sv, dirs', wal_file')" and "\<not> cfg_memory config"
  shows "store_disk env crc now (components (cfg_data_dir config)) dirs wal_file
        (of_nat (cfg_max_retained_bytes config)) (of_nat (cfg_max_wal_bytes config)) = (Inr (sh_store (sv_store sv)), dirs', wal_file')"
  using assms by (auto simp: serve_start_def Let_def split: sum.splits prod.splits)

text \<open>
  C1. A server on disk survives a loss of power. It was started, under any outcomes of the system calls,
  on a fresh data directory or on a log that is on stable storage as it is (\<open>settled\<close>: a log left by a
  failed synchronization is not, and is the exception the manifest records). Let it serve any clients in
  any interleaving under any outcomes of the system calls, lose power in any state (any prefix of the
  unsynchronized bytes reaches the disk) and start it again with the same configuration and without a
  fault: it starts, and its history is what it had recovered at its start followed by the log of the
  publishes that have succeeded since, possibly followed by the batch of one publish that had failed. With
  C3, every receipt with the durable bit that was written to a client stays true.
\<close>

theorem server_survives:
  assumes "serve_start env (ex_crc X) now components config dirs wal_file = (Inr sv, dirs1, wal_file1)"
    and "settled wal_file"
    and "\<not> cfg_memory config" and "8 \<le> cfg_max_wal_bytes config" "cfg_max_wal_bytes config < 2 ^ 64"
    and "json_objects (ex_to_vec X) (ex_from_slice X)"
    and "runs (server_step X (cfg_token config) (cfg_max_connections config)) (serving sv) evs w"
  shows "\<exists>wal sv' dirs3 wal_file3. st_wal (sh_store (w_store w)) = Some wal
    \<and> serve_start no_faults (ex_crc X) later components config dirs2 (Some (crash k (wal_handle wal))) = (Inr sv', dirs3, wal_file3)
    \<and> (served_history (serving sv') = served_history (serving sv) @ events_of commits evs
       \<or> (\<exists>ev \<in> set evs. \<exists>rs \<in> set (batches_failed ev).
            served_history (serving sv') = served_history (serving sv) @ events_of commits evs @ rs))"
proof -
  let ?retained = "of_nat (cfg_max_retained_bytes config) :: u64" and ?wal = "of_nat (cfg_max_wal_bytes config) :: u64"
  let ?log = "history (sh_store (sv_store sv)) @ events_of commits evs"
  have max: "8 \<le> unat ?wal" using assms(4,5) by (simp add: unat_of_nat_lt)
  note s0 = store_disk_settled [OF serve_start_diskD [OF assms(1,3)] assms(2) max]
  have inv: "world_inv X (cfg_max_connections config) (serving sv)" by (rule serving_inv [OF assms(1,6)])
  have "on_disk X ?retained ?wal [] (serving sv)"
    using s0 by (auto simp: on_disk_def requests_fit_def serving_def)
  from run_on_disk [OF assms(7) inv this] obtain unc where
    u: "disk_state (ex_crc X) (sh_store (w_store w)) unc" "\<And>rs. unc = Some rs \<Longrightarrow> \<exists>ev \<in> set evs. rs \<in> set (batches_failed ev)"
      "st_max_retained_bytes (sh_store (w_store w)) = ?retained" "st_max_wal_bytes (sh_store (w_store w)) = ?wal"
    unfolding on_disk_def by blast
  have ok: "store_ok (sh_store (w_store w))" using world_store(3) served_run_ok [OF assms(1,6,7)] by blast
  have hist: "served_history w = ?log" using run_history [OF assms(7) inv] by simp
  obtain wal where wal: "st_wal (sh_store (w_store w)) = Some wal" using u(1) by (auto simp: disk_state_def)
  obtain s1 dirs3 f3 where again: "store_disk no_faults (ex_crc X) later (components (cfg_data_dir config)) dirs2
      (Some (crash k (wal_handle wal))) ?retained ?wal = (Inr s1, dirs3, Some f3)"
    "history s1 = ?log \<or> (\<exists>rs. unc = Some rs \<and> history s1 = ?log @ rs)"
    using store_restart [OF ok u(1) wal, of later "components (cfg_data_dir config)" dirs2 k] u(3,4) hist by auto
  obtain sv' where "serve_start no_faults (ex_crc X) later components config dirs2 (Some (crash k (wal_handle wal))) = (Inr sv', dirs3, Some f3)"
    "sh_store (sv_store sv') = s1"
    using serve_start_disk [where components = components, OF assms(3) again(1)] by blast
  moreover have "history s1 = ?log
      \<or> (\<exists>ev \<in> set evs. \<exists>rs \<in> set (batches_failed ev). history s1 = ?log @ rs)"
    using again(2) u(2) by blast
  ultimately show ?thesis using wal by auto
qed

text \<open>The witness: a fresh directory first, then a second loss of power after the restart on the log that is left.\<close>

lemma server_survives_witness:
  "\<exists>sv dirs1 wal_file1 r w wal sv1 dirs3 wal_file3 wal1 sv2 dirs4 wal_file4.
     serve_start no_faults sample_crc 0 (\<lambda>_. []) (demo_config False) {} None = (Inr sv, dirs1, wal_file1)
     \<and> runs (server_step demo_externals [] 2) (serving sv) (stored_events r) w \<and> st_wal (sh_store (w_store w)) = Some wal
     \<and> serve_start no_faults sample_crc 9 (\<lambda>_. []) (demo_config False) {} (Some (crash 5 (wal_handle wal))) = (Inr sv1, dirs3, wal_file3)
     \<and> st_wal (sh_store (sv_store sv1)) = Some wal1
     \<and> serve_start no_faults sample_crc 9 (\<lambda>_. []) (demo_config False) {} (Some (crash 0 (wal_handle wal1))) = (Inr sv2, dirs4, wal_file4)
     \<and> served_history (serving sv2) = served_history (serving sv1)"
proof -
  have X: "ex_crc demo_externals = sample_crc" by (simp add: demo_externals_def)
  have c: "cfg_token (demo_config False) = []" "cfg_max_connections (demo_config False) = 2" "\<not> cfg_memory (demo_config False)"
    "8 \<le> cfg_max_wal_bytes (demo_config False)" "cfg_max_wal_bytes (demo_config False) < 2 ^ 64" by (simp_all add: demo_config_def)
  have fresh: "settled None" by (simp add: settled_def)
  obtain s dirs1 wal_file1 where start: "serve_start no_faults (ex_crc demo_externals) 0 (\<lambda>_. []) (demo_config False) {} None
      = (Inr (demo_server s), dirs1, wal_file1)"
    by (rule demo_start_disk)
  obtain r sh where "blocking_operation no_faults sample_crc (\<lambda>_. []) (\<lambda>_. Some (JObject [])) 0 2 None demo_publish
      \<lparr>sh_store = s, sh_poisoned = False\<rparr> = (r, sh)"
    using prod.exhaust by metis
  note run = stored_run [OF this]
  from server_survives [OF start fresh c(3-5) demo_json, unfolded c, OF run, of 9 "{}" 5]
  obtain wal sv1 dirs3 wal_file3 where 1: "st_wal (sh_store sh) = Some wal"
    "serve_start no_faults (ex_crc demo_externals) 9 (\<lambda>_. []) (demo_config False) {} (Some (crash 5 (wal_handle wal))) = (Inr sv1, dirs3, wal_file3)"
    by (simp add: demo_world_def) blast
  from server_survives [OF 1(2) settled_crash c(3-5) demo_json runs_nil, of 9 "{}" 0]
  obtain wal1 sv2 dirs4 wal_file4 where 2: "st_wal (sh_store (sv_store sv1)) = Some wal1"
    "serve_start no_faults (ex_crc demo_externals) 9 (\<lambda>_. []) (demo_config False) {} (Some (crash 0 (wal_handle wal1))) = (Inr sv2, dirs4, wal_file4)"
    "served_history (serving sv2) = served_history (serving sv1)"
    by (auto simp: events_of_def)
  have "st_wal (sh_store (w_store (demo_world sh two_connected (Active [] (with_operation 2 demo_publish connection_new)) (Active [] connection_new)
       [2 \<mapsto> (demo_publish, Replied r)] Map.empty))) = Some wal"
    using 1(1) by (simp add: demo_world_def)
  with start run 1(2) 2 show ?thesis unfolding X by blast
qed

end
