(* ===== verification/Client_Text.thy ===== *)
theory Client_Text
  imports Utf8
begin

text \<open>
  Strings of the TypeScript client, \<open>packages/client/src\<close>: a JavaScript string is a sequence of
  16-bit code units. \<open>buffer_from\<close> is \<open>Buffer.from(s, 'utf8')\<close>, \<open>to_text\<close> is \<open>Buffer.toString('utf8')\<close> and
  what a \<open>TextDecoder\<close> returns for input it accepts. The lemmas show that what \<open>buffer_from\<close> writes is
  always valid UTF-8, and that valid UTF-8 survives the way through a string, so that two
  different keys or topics of the server never become one string of the client.
\<close>

type_synonym js_string = "u16 list"

definition js :: "string \<Rightarrow> js_string" where
  "js s = map of_char s"

section \<open>Code points\<close>

definition scalar_value :: "nat \<Rightarrow> bool" where
  "scalar_value c = (c < 0xD800 \<or> (0xE000 \<le> c \<and> c < 0x110000))"

definition high_surrogate :: "u16 \<Rightarrow> bool" where
  "high_surrogate u = (0xD800 \<le> unat u \<and> unat u < 0xDC00)"

definition low_surrogate :: "u16 \<Rightarrow> bool" where
  "low_surrogate u = (0xDC00 \<le> unat u \<and> unat u < 0xE000)"

text \<open>A surrogate without its partner is written as U+FFFD.\<close>

fun code_points :: "js_string \<Rightarrow> nat list" where
  "code_points [] = []"
| "code_points [u] = [if high_surrogate u \<or> low_surrogate u then 0xFFFD else unat u]"
| "code_points (u # v # us) =
     (if high_surrogate u \<and> low_surrogate v
      then (0x10000 + (unat u - 0xD800) * 0x400 + (unat v - 0xDC00)) # code_points us
      else (if high_surrogate u \<or> low_surrogate u then 0xFFFD else unat u) # code_points (v # us))"

definition utf16_point :: "nat \<Rightarrow> js_string" where
  "utf16_point c =
     (if c < 0x10000 then [of_nat c]
      else [of_nat (0xD800 + (c - 0x10000) div 0x400), of_nat (0xDC00 + (c - 0x10000) mod 0x400)])"

definition utf8_point :: "nat \<Rightarrow> bytes" where
  "utf8_point c =
     (if c < 0x80 then [of_nat c]
      else if c < 0x800 then [of_nat (0xC0 + c div 0x40), of_nat (0x80 + c mod 0x40)]
      else if c < 0x10000 then
        [of_nat (0xE0 + c div 0x1000), of_nat (0x80 + c div 0x40 mod 0x40), of_nat (0x80 + c mod 0x40)]
      else
        [of_nat (0xF0 + c div 0x40000), of_nat (0x80 + c div 0x1000 mod 0x40),
         of_nat (0x80 + c div 0x40 mod 0x40), of_nat (0x80 + c mod 0x40)])"

text \<open>The code point of one well-formed sequence of bytes.\<close>

fun point_of :: "bytes \<Rightarrow> nat" where
  "point_of [a] = unat a"
| "point_of [a, b] = (unat a - 0xC0) * 0x40 + (unat b - 0x80)"
| "point_of [a, b, c] = (unat a - 0xE0) * 0x1000 + (unat b - 0x80) * 0x40 + (unat c - 0x80)"
| "point_of [a, b, c, d] =
     (unat a - 0xF0) * 0x40000 + (unat b - 0x80) * 0x1000 + (unat c - 0x80) * 0x40 + (unat d - 0x80)"
| "point_of _ = 0xFFFD"

function decode_points :: "bytes \<Rightarrow> nat list" where
  "decode_points bs =
     (if bs = [] then []
      else (if fst (utf8_chunk bs) then point_of (take (snd (utf8_chunk bs)) bs) else 0xFFFD)
           # decode_points (drop (snd (utf8_chunk bs)) bs))"
  by pat_completeness auto
termination
  by (relation "measure length") (use utf8_chunk_decreases in \<open>auto simp del: length_drop\<close>)

declare decode_points.simps [simp del]

definition buffer_from :: "js_string \<Rightarrow> bytes" where
  "buffer_from s = concat (map utf8_point (code_points s))"

definition to_text :: "bytes \<Rightarrow> js_string" where
  "to_text bs = concat (map utf16_point (decode_points bs))"

section \<open>Writing a string\<close>

lemma scalar_replacement: "scalar_value 0xFFFD"
  by (simp add: scalar_value_def)

lemma unit_range: "unat (u :: u16) < 0x10000"
  using unat_lt [of u] by simp

lemma code_points_scalar: "\<forall>c\<in>set (code_points s). scalar_value c"
proof (induction s rule: code_points.induct)
  case (2 u)
  then show ?case using unit_range [of u] by (auto simp: scalar_value_def high_surrogate_def low_surrogate_def)
next
  case (3 u v us)
  have "scalar_value (0x10000 + (unat u - 0xD800) * 0x400 + (unat v - 0xDC00))"
    if "high_surrogate u" "low_surrogate v"
  proof -
    have "unat u - 0xD800 \<le> 0x3FF" "unat v - 0xDC00 \<le> 0x3FF"
      using that unfolding high_surrogate_def low_surrogate_def by linarith+
    then show ?thesis unfolding scalar_value_def by linarith
  qed
  moreover have "scalar_value (unat u)" if "\<not> high_surrogate u" "\<not> low_surrogate u"
    using that unit_range [of u] by (auto simp: scalar_value_def high_surrogate_def low_surrogate_def)
  ultimately show ?case using 3 scalar_replacement by auto
qed simp

lemma byte_le: "(a :: byte) \<le> b \<longleftrightarrow> unat a \<le> unat b"
  by (rule word_le_nat_alt)

lemma byte_of_nat: "n < 256 \<Longrightarrow> unat (of_nat n :: byte) = n"
  by (simp add: unat_byte)

text \<open>The bytes of a scalar value are one well-formed sequence, and its code point is the value.\<close>

lemmas byte_nat = word_le_nat_alt word_less_nat_alt word_unat_eq_iff byte_of_nat

lemma chunk_two: "0xC2 \<le> x \<Longrightarrow> x \<le> 0xDF \<Longrightarrow> y < 0x40 \<Longrightarrow>
    utf8_chunk [of_nat x, of_nat (0x80 + y)] = (True, 2)"
  by (simp add: utf8_char_width_def utf8_second_def is_continuation_def byte_nat del: of_nat_add)

lemma chunk_three:
  assumes "0xE0 \<le> x" "x \<le> 0xEF" "y < 0x40" "z < 0x40" "x = 0xE0 \<longrightarrow> 0x20 \<le> y" "x = 0xED \<longrightarrow> y < 0x20"
  shows "utf8_chunk [of_nat x, of_nat (0x80 + y), of_nat (0x80 + z)] = (True, 3)"
  using assms
  by (auto simp add: utf8_char_width_def utf8_second_def is_continuation_def byte_nat simp del: of_nat_add)

lemma chunk_four:
  assumes "0xF0 \<le> x" "x \<le> 0xF4" "y < 0x40" "z < 0x40" "w < 0x40" "x = 0xF0 \<longrightarrow> 0x10 \<le> y" "x = 0xF4 \<longrightarrow> y < 0x10"
  shows "utf8_chunk [of_nat x, of_nat (0x80 + y), of_nat (0x80 + z), of_nat (0x80 + w)] = (True, 4)"
  using assms
  by (auto simp add: utf8_char_width_def utf8_second_def is_continuation_def byte_nat simp del: of_nat_add)

lemma split_point: "c = c div 0x40 * 0x40 + c mod 0x40" "c div 0x40 = c div 0x1000 * 0x40 + c div 0x40 mod 0x40"
  "c div 0x1000 = c div 0x40000 * 0x40 + c div 0x1000 mod 0x40" for c :: nat
proof -
  have "c div 0x1000 = c div 0x40 div 0x40" "c div 0x40000 = c div 0x1000 div 0x40"
    by (simp_all add: div_mult2_eq [symmetric])
  then show "c div 0x40 = c div 0x1000 * 0x40 + c div 0x40 mod 0x40"
    "c div 0x1000 = c div 0x40000 * 0x40 + c div 0x1000 mod 0x40"
    by (simp_all only: div_mult_mod_eq)
qed (simp only: div_mult_mod_eq)

lemma utf8_point_chunk:
  assumes "scalar_value c"
  shows "utf8_chunk (utf8_point c) = (True, length (utf8_point c)) \<and> point_of (utf8_point c) = c"
proof -
  consider "c < 0x80" | "0x80 \<le> c" "c < 0x800" | "0x800 \<le> c" "c < 0x10000" | "0x10000 \<le> c" "c < 0x110000"
    using assms unfolding scalar_value_def by linarith
  then show ?thesis
  proof cases
    case 1
    then show ?thesis by (simp add: utf8_point_def utf8_char_width_def byte_nat)
  next
    case 2
    let ?x = "0xC0 + c div 0x40" and ?y = "c mod 0x40"
    have "2 \<le> c div 0x40" "c div 0x40 < 0x20"
      using 2 div_le_mono [of "0x80" c "0x40"] less_mult_imp_div_less [of c "0x20" "0x40"] by simp_all
    then have r: "0xC2 \<le> ?x" "?x \<le> 0xDF" "?y < 0x40" by simp_all
    have "unat (of_nat ?x :: byte) = ?x" "unat (of_nat (0x80 + ?y) :: byte) = 0x80 + ?y"
      using r by (intro byte_of_nat; linarith)+
    then show ?thesis
      using 2 chunk_two [OF r] split_point(1) [of c, symmetric] by (simp add: utf8_point_def del: of_nat_add utf8_chunk.simps)
  next
    case 3
    let ?x = "0xE0 + c div 0x1000" and ?y = "c div 0x40 mod 0x40" and ?z = "c mod 0x40"
    have s: "c = (c div 0x1000) * 0x1000 + ?y * 0x40 + ?z" using split_point [of c] by linarith
    have "c div 0x1000 < 0x10" using 3 less_mult_imp_div_less [of c "0x10" "0x1000"] by simp
    then have r: "0xE0 \<le> ?x" "?x \<le> 0xEF" "?y < 0x40" "?z < 0x40" by simp_all
    have e: "?x = 0xE0 \<longrightarrow> 0x20 \<le> ?y" "?x = 0xED \<longrightarrow> ?y < 0x20"
      using s r(3,4) 3 assms unfolding scalar_value_def by linarith+
    have "unat (of_nat ?x :: byte) = ?x" "unat (of_nat (0x80 + ?y) :: byte) = 0x80 + ?y"
      "unat (of_nat (0x80 + ?z) :: byte) = 0x80 + ?z"
      using r by (intro byte_of_nat; linarith)+
    then show ?thesis
      using 3 chunk_three [OF r e] s [symmetric] by (simp add: utf8_point_def del: of_nat_add utf8_chunk.simps)
  next
    case 4
    let ?x = "0xF0 + c div 0x40000" and ?y = "c div 0x1000 mod 0x40" and ?z = "c div 0x40 mod 0x40" and ?w = "c mod 0x40"
    have s: "c = (c div 0x40000) * 0x40000 + ?y * 0x1000 + ?z * 0x40 + ?w" using split_point [of c] by linarith
    have "c div 0x40000 < 5" using 4 less_mult_imp_div_less [of c 5 "0x40000"] by simp
    then have r: "0xF0 \<le> ?x" "?x \<le> 0xF4" "?y < 0x40" "?z < 0x40" "?w < 0x40" by simp_all
    have e: "?x = 0xF0 \<longrightarrow> 0x10 \<le> ?y" "?x = 0xF4 \<longrightarrow> ?y < 0x10"
      using s r(3-5) 4 by linarith+
    have "unat (of_nat ?x :: byte) = ?x" "unat (of_nat (0x80 + ?y) :: byte) = 0x80 + ?y"
      "unat (of_nat (0x80 + ?z) :: byte) = 0x80 + ?z" "unat (of_nat (0x80 + ?w) :: byte) = 0x80 + ?w"
      using r by (intro byte_of_nat; linarith)+
    then show ?thesis
      using 4 chunk_four [OF r e] s [symmetric] by (simp add: utf8_point_def del: of_nat_add utf8_chunk.simps)
  qed
qed

lemma utf8_point_nonempty: "utf8_point c \<noteq> []"
  by (simp add: utf8_point_def)

lemma utf8_point_valid: "scalar_value c \<Longrightarrow> utf8_valid (utf8_point c)"
  using utf8_point_chunk [of c] utf8_point_nonempty [of c] by (simp add: utf8_valid_step)

lemma utf8_points_valid: "\<forall>c\<in>set cs. scalar_value c \<Longrightarrow> utf8_valid (concat (map utf8_point cs))"
  by (induction cs) (auto intro: utf8_valid_append utf8_point_valid)

lemma buffer_from_valid: "utf8_valid (buffer_from s)"
  unfolding buffer_from_def by (rule utf8_points_valid [OF code_points_scalar])

section \<open>Reading a string\<close>

text \<open>The code point of a well-formed sequence is a scalar value, whose bytes are the sequence.\<close>

lemma byte_eq: "unat a = n \<Longrightarrow> of_nat n = (a :: byte)"
  by auto

lemma six_bits: "r < 0x40 \<Longrightarrow> (q * 0x40 + r) div 0x40 = q \<and> (q * 0x40 + r) mod 0x40 = r" for q r :: nat
  by simp

lemma div_six_bits: "c div 0x1000 = c div 0x40 div 0x40" "c div 0x40000 = c div 0x40 div 0x40 div 0x40" for c :: nat
  by (simp_all add: div_mult2_eq [symmetric])

lemma continuation_byte: "is_continuation b \<Longrightarrow> \<exists>y<0x40. b = of_nat (0x80 + y) \<and> unat b - 0x80 = y"
  by (intro exI [of _ "unat b - 0x80"]) (auto simp: is_continuation_def byte_nat simp del: of_nat_add intro: byte_eq)

lemma point_two:
  assumes "utf8_char_width a = 2" and "is_continuation b"
  shows "scalar_value (point_of [a, b]) \<and> utf8_point (point_of [a, b]) = [a, b]"
proof -
  obtain y where y: "y < 0x40" "b = of_nat (0x80 + y)" "unat b - 0x80 = y" using continuation_byte [OF assms(2)] by blast
  define x where "x = unat a - 0xC0"
  have x: "2 \<le> x" "x < 0x20" "unat a = 0xC0 + x"
    using assms(1) by (auto simp: utf8_char_width_def byte_nat x_def split: if_splits)
  have c: "point_of [a, b] = x * 0x40 + y" by (simp add: y(3) x_def)
  have r: "0x80 \<le> x * 0x40 + y" "x * 0x40 + y < 0x800" using x y(1) by linarith+
  have a: "of_nat (0xC0 + x) = a" using x(3) by (rule byte_eq)
  show ?thesis
    unfolding c using r six_bits [OF y(1), of x] a y(2) by (simp add: scalar_value_def utf8_point_def del: of_nat_add)
qed

lemma point_three:
  assumes "utf8_char_width a = 3" and "utf8_second a b" and "is_continuation c"
  shows "scalar_value (point_of [a, b, c]) \<and> utf8_point (point_of [a, b, c]) = [a, b, c]"
proof -
  have b: "is_continuation b"
    using assms(1,2) by (auto simp: utf8_second_def is_continuation_def utf8_char_width_def byte_nat split: if_splits)
  obtain y where y: "y < 0x40" "b = of_nat (0x80 + y)" "unat b - 0x80 = y" using continuation_byte [OF b] by blast
  obtain z where z: "z < 0x40" "c = of_nat (0x80 + z)" "unat c - 0x80 = z" using continuation_byte [OF assms(3)] by blast
  define x where "x = unat a - 0xE0"
  have x: "x < 0x10" "unat a = 0xE0 + x"
    using assms(1) by (auto simp: utf8_char_width_def byte_nat x_def split: if_splits)
  have u: "unat b = 0x80 + y" using y by (simp add: byte_of_nat del: of_nat_add)
  have e: "x = 0 \<longrightarrow> 0x20 \<le> y" "x = 0xD \<longrightarrow> y < 0x20"
    using assms(2) x(2) u by (auto simp: utf8_second_def byte_nat split: if_splits)
  let ?c = "(x * 0x40 + y) * 0x40 + z"
  have c: "point_of [a, b, c] = ?c" by (simp add: y(3) z(3) x_def)
  define p where "p = x * 0x40 + y"
  have "0x20 \<le> p" unfolding p_def using e by (cases "x = 0") simp_all
  moreover have "p < 0x360 \<or> 0x380 \<le> p" unfolding p_def using e(2) y(1) by (cases "x = 0xD") (simp, linarith)
  moreover have "p < 0x400" unfolding p_def using x(1) y(1) by linarith
  ultimately have r: "0x800 \<le> ?c" "?c < 0x10000" "?c < 0xD800 \<or> 0xE000 \<le> ?c"
    unfolding p_def [symmetric] using z(1) by auto
  have a: "of_nat (0xE0 + x) = a" using x(2) by (rule byte_eq)
  have s: "scalar_value ?c" using r by (auto simp: scalar_value_def)
  have "utf8_point ?c = [of_nat (0xE0 + ?c div 0x1000), of_nat (0x80 + ?c div 0x40 mod 0x40), of_nat (0x80 + ?c mod 0x40)]"
    using r by (simp add: utf8_point_def del: of_nat_add)
  also have "\<dots> = [a, b, c]"
    using six_bits [OF z(1), of "x * 0x40 + y"] six_bits [OF y(1), of x] a y(2) z(2)
    by (simp add: div_six_bits del: of_nat_add)
  finally show ?thesis using s unfolding c by simp
qed

lemma point_four:
  assumes "utf8_char_width a = 4" and "utf8_second a b" and "is_continuation c" and "is_continuation d"
  shows "scalar_value (point_of [a, b, c, d]) \<and> utf8_point (point_of [a, b, c, d]) = [a, b, c, d]"
proof -
  have b: "is_continuation b"
    using assms(1,2) by (auto simp: utf8_second_def is_continuation_def utf8_char_width_def byte_nat split: if_splits)
  obtain y where y: "y < 0x40" "b = of_nat (0x80 + y)" "unat b - 0x80 = y" using continuation_byte [OF b] by blast
  obtain z where z: "z < 0x40" "c = of_nat (0x80 + z)" "unat c - 0x80 = z" using continuation_byte [OF assms(3)] by blast
  obtain w where w: "w < 0x40" "d = of_nat (0x80 + w)" "unat d - 0x80 = w" using continuation_byte [OF assms(4)] by blast
  define x where "x = unat a - 0xF0"
  have x: "x \<le> 4" "unat a = 0xF0 + x"
    using assms(1) by (auto simp: utf8_char_width_def byte_nat x_def split: if_splits)
  have u: "unat b = 0x80 + y" using y by (simp add: byte_of_nat del: of_nat_add)
  have e: "x = 0 \<longrightarrow> 0x10 \<le> y" "x = 4 \<longrightarrow> y < 0x10"
    using assms(2) x(2) u by (auto simp: utf8_second_def byte_nat split: if_splits)
  let ?c = "((x * 0x40 + y) * 0x40 + z) * 0x40 + w"
  have c: "point_of [a, b, c, d] = ?c" by (simp add: y(3) z(3) w(3) x_def)
  define p where "p = x * 0x40 + y"
  have "0x10 \<le> p" unfolding p_def using e by (cases "x = 0") simp_all
  moreover have "p < 0x110" unfolding p_def using e(2) x(1) y(1) by (cases "x = 4") (simp, linarith)
  ultimately have r: "0x10000 \<le> ?c" "?c < 0x110000"
    unfolding p_def [symmetric] using z(1) w(1) by (simp_all add: algebra_simps)
  have a: "of_nat (0xF0 + x) = a" using x(2) by (rule byte_eq)
  have s: "scalar_value ?c" using r by (auto simp: scalar_value_def)
  have "utf8_point ?c = [of_nat (0xF0 + ?c div 0x40000), of_nat (0x80 + ?c div 0x1000 mod 0x40),
      of_nat (0x80 + ?c div 0x40 mod 0x40), of_nat (0x80 + ?c mod 0x40)]"
    using r by (simp add: utf8_point_def del: of_nat_add)
  also have "\<dots> = [a, b, c, d]"
    using six_bits [OF w(1), of "(x * 0x40 + y) * 0x40 + z"] six_bits [OF z(1), of "x * 0x40 + y"]
      six_bits [OF y(1), of x] a y(2) z(2) w(2)
    by (simp add: div_six_bits del: of_nat_add)
  finally show ?thesis using s unfolding c by simp
qed

lemma width_cases: "utf8_char_width a \<in> {0, 1, 2, 3, 4}"
  by (simp add: utf8_char_width_def)

lemma second_continuation: "utf8_char_width a = 2 \<Longrightarrow> utf8_second a b \<Longrightarrow> is_continuation b"
  by (auto simp: utf8_second_def is_continuation_def utf8_char_width_def byte_nat split: if_splits)

lemma chunk_point:
  assumes "fst (utf8_chunk bs)"
  shows "scalar_value (point_of (take (snd (utf8_chunk bs)) bs))
    \<and> utf8_point (point_of (take (snd (utf8_chunk bs)) bs)) = take (snd (utf8_chunk bs)) bs"
proof (cases bs rule: utf8_chunk.cases)
  case (2 a cs)
  consider "utf8_char_width a = 1" | "utf8_char_width a = 2" | "utf8_char_width a = 3" | "utf8_char_width a = 4"
    using assms width_cases [of a] by (auto simp: 2)
  then show ?thesis
  proof cases
    case 1
    then have "unat a < 0x80" by (auto simp: utf8_char_width_def byte_nat split: if_splits)
    then show ?thesis using 1 by (simp add: 2 scalar_value_def utf8_point_def)
  next
    case 2
    with assms \<open>bs = a # cs\<close> obtain b ds where "cs = b # ds" "utf8_second a b" by (auto split: list.splits if_splits)
    with 2 \<open>bs = a # cs\<close> show ?thesis using point_two [OF 2] second_continuation [OF 2] by simp
  next
    case 3
    with assms \<open>bs = a # cs\<close> obtain b c ds where "cs = b # c # ds" "utf8_second a b" "is_continuation c"
      by (auto split: list.splits if_splits)
    with 3 \<open>bs = a # cs\<close> show ?thesis using point_three [OF 3] by (simp add: numeral_3_eq_3 del: point_of.simps)
  next
    case 4
    with assms \<open>bs = a # cs\<close> obtain b c d ds where "cs = b # c # d # ds" "utf8_second a b" "is_continuation c" "is_continuation d"
      by (auto split: list.splits if_splits)
    with 4 \<open>bs = a # cs\<close> show ?thesis using point_four [OF 4] by (simp del: point_of.simps)
  qed
qed (use assms in simp)

lemma decode_points_step:
  "bs \<noteq> [] \<Longrightarrow> decode_points bs =
     (if fst (utf8_chunk bs) then point_of (take (snd (utf8_chunk bs)) bs) else 0xFFFD)
     # decode_points (drop (snd (utf8_chunk bs)) bs)"
  by (subst decode_points.simps) simp

lemma decode_points_Nil [simp]: "decode_points [] = []"
  by (simp add: decode_points.simps)

lemma decode_points_valid:
  assumes "utf8_valid bs"
  shows "concat (map utf8_point (decode_points bs)) = bs \<and> (\<forall>c\<in>set (decode_points bs). scalar_value c)"
  using assms
proof (induction bs rule: decode_points.induct)
  case (1 bs)
  show ?case
  proof (cases "bs = []")
    case False
    with 1 chunk_point [of bs] show ?thesis by (simp add: decode_points_step utf8_valid_step)
  qed simp
qed

lemma decode_points_scalar: "\<forall>c\<in>set (decode_points bs). scalar_value c"
proof (induction bs rule: decode_points.induct)
  case (1 bs)
  show ?case
  proof (cases "bs = []")
    case False
    with 1 chunk_point [of bs] scalar_replacement show ?thesis by (simp add: decode_points_step)
  qed simp
qed

lemma unit_of_nat: "n < 0x10000 \<Longrightarrow> unat (of_nat n :: u16) = n"
  by (rule unat_of_nat_lt) simp

lemma code_points_utf16:
  assumes "scalar_value c"
  shows "code_points (utf16_point c @ s) = c # code_points s"
proof (cases "c < 0x10000")
  case True
  then have u: "unat (of_nat c :: u16) = c" by (rule unit_of_nat)
  have "\<not> high_surrogate (of_nat c)" "\<not> low_surrogate (of_nat c)"
    using assms True unfolding high_surrogate_def low_surrogate_def u scalar_value_def by linarith+
  with True u show ?thesis by (cases s) (simp_all add: utf16_point_def)
next
  case False
  let ?h = "(c - 0x10000) div 0x400" and ?l = "(c - 0x10000) mod 0x400"
  have "c - 0x10000 < 0x400 * 0x400" using assms False unfolding scalar_value_def by linarith
  then have h: "?h < 0x400" by (rule less_mult_imp_div_less)
  have l: "?l < 0x400" by simp
  have u: "unat (of_nat (0xD800 + ?h) :: u16) = 0xD800 + ?h" "unat (of_nat (0xDC00 + ?l) :: u16) = 0xDC00 + ?l"
    using h l by (intro unit_of_nat; linarith)+
  have hl: "high_surrogate (of_nat (0xD800 + ?h))" "low_surrogate (of_nat (0xDC00 + ?l))"
    unfolding high_surrogate_def low_surrogate_def u using h l by linarith+
  have "0x10000 + ?h * 0x400 + ?l = c" using False div_mult_mod_eq [of "c - 0x10000" "0x400"] by linarith
  then show ?thesis using False u hl by (simp add: utf16_point_def del: of_nat_add)
qed

lemma code_points_concat:
  "\<forall>c\<in>set cs. scalar_value c \<Longrightarrow> code_points (concat (map utf16_point cs)) = cs"
  by (induction cs) (simp_all add: code_points_utf16)

text \<open>Valid bytes survive; so a string of the client determines them.\<close>

lemma buffer_from_to_text: "utf8_valid bs \<Longrightarrow> buffer_from (to_text bs) = bs"
  using decode_points_valid [of bs] by (simp add: buffer_from_def to_text_def code_points_concat)

lemma to_text_inj: "utf8_valid bs \<Longrightarrow> utf8_valid cs \<Longrightarrow> to_text bs = to_text cs \<longleftrightarrow> bs = cs"
  using buffer_from_to_text by metis

lemma to_text_Nil [simp]: "to_text [] = []"
  by (simp add: to_text_def)

lemma to_text_ascii: "\<forall>b\<in>set bs. b < 0x80 \<Longrightarrow> to_text bs = map (\<lambda>b. of_nat (unat b)) bs"
proof (induction bs)
  case (Cons b bs)
  then have w: "utf8_chunk (b # bs) = (True, 1)" by (simp add: utf8_char_width_def)
  have "unat b < 0x10000" using unat_lt [of b] by simp
  then show ?case using Cons w by (simp add: to_text_def decode_points_step utf16_point_def)
qed simp

section \<open>Cutting valid text at a character\<close>

lemma chunk_continuation:
  assumes "fst (utf8_chunk bs)" and "0 < n" and "n < snd (utf8_chunk bs)"
  shows "is_continuation (bs ! n)"
proof (cases bs rule: utf8_chunk.cases)
  case (2 a cs)
  have second: "utf8_second a b \<Longrightarrow> is_continuation b" if "utf8_char_width a \<noteq> 0" "utf8_char_width a \<noteq> 1" for b
    using that by (auto simp: utf8_second_def is_continuation_def utf8_char_width_def byte_nat split: if_splits)
  from assms 2 second show ?thesis
    by (auto simp: nth_Cons' less_Suc_eq numeral_eq_Suc split: list.splits if_splits)
qed (use assms in simp)

lemma utf8_valid_take:
  assumes "utf8_valid bs" and "n < length bs" and "\<not> is_continuation (bs ! n)"
  shows "utf8_valid (take n bs)"
  using assms
proof (induction bs arbitrary: n rule: utf8_valid.induct)
  case (1 bs)
  let ?k = "snd (utf8_chunk bs)"
  have ne: "bs \<noteq> []" using "1.prems"(2) by auto
  with "1.prems"(1) have ok: "fst (utf8_chunk bs)" "utf8_valid (drop ?k bs)" by (simp_all add: utf8_valid_step)
  show ?case
  proof (cases "n < ?k")
    case True
    then have "n = 0" using chunk_continuation [OF ok(1), of n] "1.prems"(3) by auto
    then show ?thesis by simp
  next
    case False
    have le: "?k \<le> length bs" using utf8_chunk_append [OF ok(1)] by simp
    have "utf8_valid (take (n - ?k) (drop ?k bs))"
      using "1.IH" [OF ne ok(2), of "n - ?k"] "1.prems" False le by simp
    moreover have "utf8_valid (take ?k bs)"
      using utf8_chunk_take [OF ok(1)] ne utf8_chunk_pos [OF ne] by (simp add: utf8_valid_step)
    moreover have "take n bs = take ?k bs @ take (n - ?k) (drop ?k bs)"
      using False by (metis le_add_diff_inverse not_le take_add)
    ultimately show ?thesis by (simp add: utf8_valid_append)
  qed
qed

end
