(* ===== verification/Client_Protocol.thy ===== *)
theory Client_Protocol
  imports Client_Text Frame
begin

text \<open>
  The protocol module of the TypeScript client, \<open>packages/client/src/protocol.ts\<close>: its limits,
  the checks of arguments, the \<open>Reader\<close> of response bodies, the incremental \<open>FrameDecoder\<close> and the
  envelope of a request. An exception is \<open>Inl\<close>; a number that the client reads from a response is a
  \<open>nat\<close> (an integer a JavaScript number holds exactly, or a bigint). Tests of the run-time type of
  arguments, which the types of TypeScript already fix, are not modelled.
\<close>

section \<open>Constants and errors\<close>

definition max_frame :: nat where "max_frame = 1048576"
definition max_payload :: nat where "max_payload = 262144"
definition max_fetch_bytes :: nat where "max_fetch_bytes = 524288"
definition max_u64 :: nat where "max_u64 = 0xffffffffffffffff"

lemmas client_limit_defs = max_frame_def max_payload_def max_fetch_bytes_def

text \<open>The two programs agree on the limits.\<close>

lemma limits_agree: "max_frame = MAX_FRAME" "max_payload = MAX_PAYLOAD" "max_fetch_bytes = MAX_FETCH_BYTES"
  by (simp_all add: client_limit_defs limit_defs)

datatype client_error =
    ProtocolError js_string
  | RangeError js_string
  | TypeError js_string
  | BrokerError nat js_string
  | BackpressureError
  | ConnectionClosedError js_string
  | RequestTimeoutError js_string
  | SocketError js_string

section \<open>Arguments\<close>

text \<open>A number is a whole one, another finite one (and whether it is negative), an infinity or NaN.\<close>

datatype js_number = Whole int | Fraction bool | NotFinite

definition max_safe_integer :: int where
  "max_safe_integer = 9007199254740991"

definition js_digits :: "nat \<Rightarrow> js_string" where
  "js_digits n = map (\<lambda>b. of_nat (unat b)) (decimal n)"

definition is_safe_integer :: "js_number \<Rightarrow> bool" where
  "is_safe_integer x = (case x of Whole v \<Rightarrow> \<bar>v\<bar> \<le> max_safe_integer | _ \<Rightarrow> False)"

definition integer :: "js_number \<Rightarrow> nat \<Rightarrow> nat \<Rightarrow> js_string \<Rightarrow> client_error + nat" where
  "integer value mn mx name =
     (case value of
        Whole v \<Rightarrow>
          if \<not> is_safe_integer value \<or> v < int mn \<or> v > int mx
          then Inl (RangeError (name @ js '' must be an integer between '' @ js_digits mn @ js '' and '' @ js_digits mx))
          else Inr (nat v)
      | _ \<Rightarrow>
          Inl (RangeError (name @ js '' must be an integer between '' @ js_digits mn @ js '' and '' @ js_digits mx)))"

text \<open>The regular expression \<open>/^[A-Za-z0-9._-]{1,255}$/\<close>.\<close>

definition topic_unit :: "u16 \<Rightarrow> bool" where
  "topic_unit u =
     ((0x41 \<le> u \<and> u \<le> 0x5A) \<or> (0x61 \<le> u \<and> u \<le> 0x7A) \<or> (0x30 \<le> u \<and> u \<le> 0x39)
      \<or> u = 0x2E \<or> u = 0x5F \<or> u = 0x2D)"

definition topic_pattern :: "js_string \<Rightarrow> bool" where
  "topic_pattern s = (1 \<le> length s \<and> length s \<le> 255 \<and> list_all topic_unit s)"

definition topic_bytes :: "js_string \<Rightarrow> bool \<Rightarrow> client_error + bytes" where
  "topic_bytes topic wildcard =
     (if \<not> (wildcard \<and> topic = js ''*'') \<and> \<not> topic_pattern topic
      then Inl (TypeError (js ''topic must contain 1..255 ASCII letters, digits, dots, underscores or hyphens''))
      else Inr (buffer_from topic))"

definition string_bytes :: "js_string \<Rightarrow> nat \<Rightarrow> js_string \<Rightarrow> client_error + bytes" where
  "string_bytes value mx name =
     (let bytes = buffer_from value
      in if length bytes > mx \<or> to_text bytes \<noteq> value
         then Inl (RangeError (name @ js '' must be valid UTF-8 and at most '' @ js_digits mx @ js '' bytes''))
         else Inr bytes)"

section \<open>Reader\<close>

definition decode_utf8 :: "bytes \<Rightarrow> client_error + js_string" where
  "decode_utf8 bytes =
     (if utf8_valid bytes then Inr (to_text bytes)
      else Inl (ProtocolError (js ''Response contains invalid UTF-8'')))"

record body_reader =
  br_bytes :: bytes
  br_offset :: nat

definition body_reader_new :: "bytes \<Rightarrow> body_reader" where
  "body_reader_new bytes = \<lparr>br_bytes = bytes, br_offset = 0\<rparr>"

definition body_take :: "nat \<Rightarrow> body_reader \<Rightarrow> client_error + bytes \<times> body_reader" where
  "body_take count r =
     (if count > length (br_bytes r) - br_offset r
      then Inl (ProtocolError (js ''Truncated response body''))
      else Inr (take count (drop (br_offset r) (br_bytes r)), r\<lparr>br_offset := br_offset r + count\<rparr>))"

definition body_number :: "nat \<Rightarrow> body_reader \<Rightarrow> client_error + nat \<times> body_reader" where
  "body_number width r = and_then (body_take width r) (\<lambda>(bs, r). Inr (be_nat bs, r))"

definition body_u8 :: "body_reader \<Rightarrow> client_error + nat \<times> body_reader" where
  "body_u8 = body_number 1"

definition body_u16 :: "body_reader \<Rightarrow> client_error + nat \<times> body_reader" where
  "body_u16 = body_number 2"

definition body_u32 :: "body_reader \<Rightarrow> client_error + nat \<times> body_reader" where
  "body_u32 = body_number 4"

definition body_u64 :: "body_reader \<Rightarrow> client_error + nat \<times> body_reader" where
  "body_u64 = body_number 8"

definition body_string :: "nat \<Rightarrow> body_reader \<Rightarrow> client_error + js_string \<times> body_reader" where
  "body_string mx r =
     and_then (body_u16 r) (\<lambda>(count, r).
       if count > mx then Inl (ProtocolError (js ''Response string exceeds its size limit''))
       else and_then (body_take count r) (\<lambda>(bs, r).
         and_then (decode_utf8 bs) (\<lambda>s. Inr (s, r))))"

definition body_payload :: "body_reader \<Rightarrow> client_error + bytes \<times> body_reader" where
  "body_payload r =
     and_then (body_u32 r) (\<lambda>(count, r).
       if count > max_payload then Inl (ProtocolError (js ''Response payload exceeds its size limit''))
       else body_take count r)"

definition body_bool :: "body_reader \<Rightarrow> client_error + bool \<times> body_reader" where
  "body_bool r =
     and_then (body_u8 r) (\<lambda>(value, r).
       if value > 1 then Inl (ProtocolError (js ''Invalid boolean in response'')) else Inr (value = 1, r))"

definition body_end :: "body_reader \<Rightarrow> client_error + unit" where
  "body_end r =
     (if br_offset r \<noteq> length (br_bytes r) then Inl (ProtocolError (js ''Trailing bytes in response'')) else Inr ())"

section \<open>The frame decoder\<close>

text \<open>
  The bytes of the length that have arrived, and the frame being filled: its length and the bytes
  that have arrived of it. A callback may throw; what it did to its own state stays.
\<close>

record frame_decoder =
  fd_prefix :: bytes
  fd_frame :: "(nat \<times> bytes) option"

definition decoder_new :: frame_decoder where
  "decoder_new = \<lparr>fd_prefix = [], fd_frame = None\<rparr>"

text \<open>The branch that is taken when no frame has been started: it uses up part of the chunk.\<close>

definition start_frame :: "frame_decoder \<Rightarrow> bytes \<Rightarrow> client_error option \<times> frame_decoder \<times> bytes" where
  "start_frame d chunk =
     (case fd_frame d of
        Some _ \<Rightarrow> (None, d, chunk)
      | None \<Rightarrow>
          (let count = min (4 - length (fd_prefix d)) (length chunk);
               d = d\<lparr>fd_prefix := fd_prefix d @ take count chunk\<rparr>;
               chunk = drop count chunk
           in if length (fd_prefix d) \<noteq> 4 then (None, d, chunk)
              else if be_nat (fd_prefix d) < 5 \<or> be_nat (fd_prefix d) > max_frame
              then (Some (ProtocolError (js ''Invalid response frame length'')), d, chunk)
              else (None, \<lparr>fd_prefix = [], fd_frame = Some (be_nat (fd_prefix d), [])\<rparr>, chunk)))"

partial_function (option) push ::
  "(bytes \<Rightarrow> 's \<Rightarrow> client_error option \<times> 's) \<Rightarrow> bytes \<Rightarrow> frame_decoder \<Rightarrow> 's
    \<Rightarrow> (client_error option \<times> frame_decoder \<times> 's) option" where
  "push on_frame chunk d s =
     (if chunk = [] then Some (None, d, s)
      else case start_frame d chunk of
        (Some e, d, chunk) \<Rightarrow> Some (Some e, d, s)
      | (None, d, chunk) \<Rightarrow>
          (case fd_frame d of
             None \<Rightarrow> push on_frame chunk d s
           | Some (len, got) \<Rightarrow>
               (let count = min (len - length got) (length chunk);
                    got = got @ take count chunk;
                    chunk = drop count chunk
                in if length got = len
                   then case on_frame got s of
                       (Some e, s) \<Rightarrow> Some (Some e, d\<lparr>fd_frame := None\<rparr>, s)
                     | (None, s) \<Rightarrow> push on_frame chunk (d\<lparr>fd_frame := None\<rparr>) s
                   else push on_frame chunk (d\<lparr>fd_frame := Some (len, got)\<rparr>) s)))"

definition client_envelope :: "u8 \<Rightarrow> nat \<Rightarrow> bytes \<Rightarrow> client_error + bytes" where
  "client_envelope opcode request_id body =
     (if length body + 5 > max_frame
      then Inl (RangeError (js ''Request exceeds '' @ js_digits max_frame @ js '' byte frame limit''))
      else Inr (be_bytes 4 (length body + 5) @ [opcode] @ be_bytes 4 request_id @ body))"

end
