(* ===== verification/Client_Frames.thy ===== *)
theory Client_Frames
  imports Client_Protocol
begin

text \<open>
  The frame decoder of the client against its specification: however the bytes of a stream are
  cut into chunks, \<open>push\<close> returns and hands its callback the frames of the stream, in order,
  and stops at the first thing that throws.
\<close>

section \<open>The frames of a stream\<close>

text \<open>What the callback does with a whole stream, and the bytes left over.\<close>

function stream ::
  "(bytes \<Rightarrow> 's \<Rightarrow> client_error option \<times> 's) \<Rightarrow> bytes \<Rightarrow> 's \<Rightarrow> client_error option \<times> bytes \<times> 's" where
  "stream f bs s =
     (let len = be_nat (take 4 bs)
      in if length bs < 4 then (None, bs, s)
         else if len < 5 \<or> len > max_frame then (Some (ProtocolError (js ''Invalid response frame length'')), bs, s)
         else if length bs < 4 + len then (None, bs, s)
         else case f (take len (drop 4 bs)) s of
             (Some e, s) \<Rightarrow> (Some e, bs, s)
           | (None, s) \<Rightarrow> stream f (drop (4 + len) bs) s)"
  by pat_completeness auto
termination
  by (relation "measure (\<lambda>(f, bs, s). length bs)") auto

declare stream.simps [simp del]

text \<open>The bytes a decoder holds.\<close>

definition decoder_ok :: "frame_decoder \<Rightarrow> bool" where
  "decoder_ok d =
     (case fd_frame d of
        None \<Rightarrow> length (fd_prefix d) < 4
      | Some (len, got) \<Rightarrow> fd_prefix d = [] \<and> 5 \<le> len \<and> len \<le> max_frame \<and> length got < len)"

definition held :: "frame_decoder \<Rightarrow> bytes" where
  "held d = (case fd_frame d of None \<Rightarrow> fd_prefix d | Some (len, got) \<Rightarrow> be_bytes 4 len @ got)"

lemma decoder_new_ok: "decoder_ok decoder_new \<and> held decoder_new = []"
  by (simp add: decoder_ok_def held_def decoder_new_def)

lemma prefix_number: "n \<le> max_frame \<Longrightarrow> be_nat (be_bytes 4 n) = n"
  by (simp add: be_nat_be_bytes max_frame_def)

lemma stream_short: "length bs < 4 \<Longrightarrow> stream f bs s = (None, bs, s)"
  by (simp add: stream.simps)

lemma stream_waiting:
  "5 \<le> len \<Longrightarrow> len \<le> max_frame \<Longrightarrow> length got < len \<Longrightarrow>
     stream f (be_bytes 4 len @ got) s = (None, be_bytes 4 len @ got, s)"
  by (simp add: stream.simps [of f "be_bytes 4 len @ got"] prefix_number)

lemma stream_held: "decoder_ok d \<Longrightarrow> stream f (held d) s = (None, held d, s)"
  by (auto simp: decoder_ok_def held_def stream_short stream_waiting split: option.splits)

lemma stream_frame:
  assumes "5 \<le> length frame" and "length frame \<le> max_frame"
  shows "stream f (be_bytes 4 (length frame) @ frame @ rest) s =
    (case f frame s of
       (Some e, s) \<Rightarrow> (Some e, be_bytes 4 (length frame) @ frame @ rest, s)
     | (None, s) \<Rightarrow> stream f rest s)"
  using assms
  by (simp add: stream.simps [of f "be_bytes 4 (length frame) @ frame @ rest"] prefix_number Let_def split: prod.split option.split)

section \<open>One chunk\<close>

definition matches :: "(client_error option \<times> frame_decoder \<times> 's) option \<Rightarrow> client_error option \<times> bytes \<times> 's \<Rightarrow> bool" where
  "matches p r =
     (case p of
        None \<Rightarrow> False
      | Some (e, d, s) \<Rightarrow> e = fst r \<and> s = snd (snd r) \<and> (e = None \<longrightarrow> decoder_ok d \<and> held d = fst (snd r)))"

lemma push_fill:
  assumes IH: "\<And>chunk d s. length chunk < n \<Longrightarrow> decoder_ok d \<Longrightarrow> matches (push f chunk d s) (stream f (held d @ chunk) s)"
    and d: "decoder_ok d" "fd_frame d = Some (len, got)" and chunk: "chunk \<noteq> []" "length chunk \<le> n"
  shows "matches (push f chunk d s) (stream f (held d @ chunk) s)"
proof -
  let ?k = "min (len - length got) (length chunk)"
  let ?got = "got @ take ?k chunk" and ?rest = "drop ?k chunk"
  have len: "fd_prefix d = []" "5 \<le> len" "len \<le> max_frame" "length got < len" using d by (simp_all add: decoder_ok_def)
  have r: "length ?rest < n" using len(4) chunk by (cases chunk) (auto simp: min_def)
  have held: "held d @ chunk = be_bytes 4 len @ ?got @ ?rest" using d(2) by (simp add: held_def)
  have s: "start_frame d chunk = (None, d, chunk)" by (simp add: start_frame_def d(2))
  show ?thesis
  proof (cases "length ?got = len")
    case True
    have p: "push f chunk d s = (case f ?got s of
        (Some e, s) \<Rightarrow> Some (Some e, d\<lparr>fd_frame := None\<rparr>, s) | (None, s) \<Rightarrow> push f ?rest (d\<lparr>fd_frame := None\<rparr>) s)"
      using chunk(1) True by (subst push.simps) (simp add: s d(2) Let_def del: length_append)
    have t: "stream f (held d @ chunk) s = (case f ?got s of
        (Some e, s) \<Rightarrow> (Some e, held d @ chunk, s) | (None, s) \<Rightarrow> stream f ?rest s)"
      using stream_frame [of ?got f ?rest s] len True unfolding held by metis
    have "decoder_ok (d\<lparr>fd_frame := None\<rparr>)" "held (d\<lparr>fd_frame := None\<rparr>) = []"
      using len by (simp_all add: decoder_ok_def held_def)
    then have m: "matches (push f ?rest (d\<lparr>fd_frame := None\<rparr>) s') (stream f ?rest s')" for s'
      using IH [OF r, of "d\<lparr>fd_frame := None\<rparr>" s'] by simp
    obtain thrown s' where c: "f ?got s = (thrown, s')" by fastforce
    show ?thesis unfolding p t c using m [of s'] by (cases thrown) (simp_all add: matches_def)
  next
    case False
    let ?d = "d\<lparr>fd_frame := Some (len, ?got)\<rparr>"
    have p: "push f chunk d s = push f ?rest ?d s"
      using chunk(1) False by (subst push.simps) (simp add: s d(2) Let_def del: length_append)
    have "decoder_ok ?d" "held ?d = be_bytes 4 len @ ?got"
      using len False by (auto simp: decoder_ok_def held_def min_def split: if_splits)
    then show ?thesis using IH [OF r, of ?d s] unfolding p held by simp
  qed
qed

lemma push_stream: "decoder_ok d \<Longrightarrow> matches (push f chunk d s) (stream f (held d @ chunk) s)"
proof (induction "length chunk" arbitrary: chunk d s rule: less_induct)
  case less
  consider "chunk = []" | len got where "chunk \<noteq> []" "fd_frame d = Some (len, got)" | "chunk \<noteq> []" "fd_frame d = None"
    by fastforce
  then show ?case
  proof cases
    case 1
    then show ?thesis using stream_held [OF less.prems, of f s] less.prems by (simp add: push.simps matches_def)
  next
    case 2
    then show ?thesis using push_fill [OF less.hyps less.prems 2(2,1)] by blast
  next
    case 3
    let ?k = "min (4 - length (fd_prefix d)) (length chunk)"
    let ?prefix = "fd_prefix d @ take ?k chunk" and ?rest = "drop ?k chunk"
    have pre: "length (fd_prefix d) < 4" "held d @ chunk = ?prefix @ ?rest"
      using less.prems 3 by (simp_all add: decoder_ok_def held_def)
    then have r: "length ?rest < length chunk" using 3 by (auto simp: min_def)
    show ?thesis
    proof (cases "length ?prefix = 4")
      case False
      let ?d = "d\<lparr>fd_prefix := ?prefix\<rparr>"
      have "push f chunk d s = push f ?rest ?d s"
        using 3 False by (subst push.simps) (simp add: start_frame_def Let_def del: length_append)
      moreover have "decoder_ok ?d" "held ?d = ?prefix"
        using 3 pre(1) False by (auto simp: decoder_ok_def held_def min_def split: if_splits)
      ultimately show ?thesis using less.hyps [OF r, of ?d s] pre(2) by simp
    next
      case four: True
      let ?len = "be_nat ?prefix"
      show ?thesis
      proof (cases "?len < 5 \<or> ?len > max_frame")
        case True
        have "take 4 (?prefix @ ?rest) = ?prefix" using four by (metis append_eq_conv_conj)
        then have t: "stream f (held d @ chunk) s
            = (Some (ProtocolError (js ''Invalid response frame length'')), held d @ chunk, s)"
          using True four unfolding pre(2) by (subst stream.simps) (simp add: Let_def del: append_assoc)
        have p: "push f chunk d s = Some (Some (ProtocolError (js ''Invalid response frame length'')),
            d\<lparr>fd_prefix := ?prefix\<rparr>, s)"
          using 3 four True by (subst push.simps) (simp add: start_frame_def Let_def del: length_append)
        show ?thesis unfolding p t by (simp add: matches_def)
      next
        case False
        let ?d = "\<lparr>fd_prefix = [], fd_frame = Some (?len, [])\<rparr>"
        have start: "start_frame d chunk = (None, ?d, ?rest)"
          using 3 four False by (simp add: start_frame_def Let_def del: length_append)
        have ok: "decoder_ok ?d" using False by (simp add: decoder_ok_def)
        have held: "held ?d = ?prefix" using be_bytes_be_nat [of ?prefix] four by (simp add: held_def del: length_append)
        have p: "push f chunk d s = push f ?rest ?d s" if "?rest \<noteq> []"
        proof -
          have "start_frame ?d ?rest = (None, ?d, ?rest)" by (simp add: start_frame_def)
          with 3 that show ?thesis by (subst (1 2) push.simps) (simp only: start if_False prod.case option.case)
        qed
        show ?thesis
        proof (cases "?rest = []")
          case False
          then show ?thesis using less.hyps [OF r ok, of s] pre(2) p held by simp
        next
          case True
          have "push f chunk d s = Some (None, ?d\<lparr>fd_frame := Some (?len, [])\<rparr>, s)"
            using 3 False \<open>\<not> (?len < 5 \<or> ?len > max_frame)\<close> True
            by (subst push.simps) (simp add: start push.simps)
          then show ?thesis using stream_held [OF ok, of f s] ok held pre(2) True by (simp add: matches_def)
        qed
      qed
    qed
  qed
qed

section \<open>Any cutting of the stream\<close>

text \<open>The chunks of a connection one after another, until something throws.\<close>

primrec push_all ::
  "(bytes \<Rightarrow> 's \<Rightarrow> client_error option \<times> 's) \<Rightarrow> bytes list \<Rightarrow> frame_decoder \<Rightarrow> 's
    \<Rightarrow> (client_error option \<times> frame_decoder \<times> 's) option" where
  "push_all f [] d s = Some (None, d, s)"
| "push_all f (chunk # chunks) d s =
     (case push f chunk d s of
        None \<Rightarrow> None
      | Some (Some e, d, s) \<Rightarrow> Some (Some e, d, s)
      | Some (None, d, s) \<Rightarrow> push_all f chunks d s)"

lemma stream_append:
  "(\<forall>rest s'. stream f bs s = (None, rest, s') \<longrightarrow> stream f (bs @ cs) s = stream f (rest @ cs) s')
   \<and> (\<forall>e rest s'. stream f bs s = (Some e, rest, s') \<longrightarrow> (\<exists>rest'. stream f (bs @ cs) s = (Some e, rest', s')))"
proof (induction f bs s rule: stream.induct)
  case (1 f bs s)
  let ?len = "be_nat (take 4 bs)"
  show ?case
  proof (cases "4 \<le> length bs \<and> 5 \<le> ?len \<and> ?len \<le> max_frame \<and> 4 + ?len \<le> length bs")
    case False
    then show ?thesis
      by (cases "length bs < 4") (auto simp add: stream.simps [of f bs] stream.simps [of f "bs @ cs"] Let_def not_le not_less)
  next
    case True
    let ?frame = "take ?len (drop 4 bs)" and ?rest = "drop (4 + ?len) bs"
    have s: "stream f (bs @ xs) s = (case f ?frame s of (Some e, s) \<Rightarrow> (Some e, bs @ xs, s) | (None, s) \<Rightarrow> stream f (?rest @ xs) s)" for xs
      using True by (subst stream.simps) (simp add: Let_def not_le not_less split: prod.split option.split)
    obtain thrown s1 where c: "f ?frame s = (thrown, s1)" by fastforce
    show ?thesis
    proof (cases thrown)
      case None
      then show ?thesis using s [of "[]"] s [of cs] c 1 [OF refl _ _ _ c [symmetric] None] True by (simp add: not_less)
    qed (use s [of "[]"] s [of cs] c in simp)
  qed
qed

lemma push_all_stream:
  "decoder_ok d \<Longrightarrow> matches (push_all f chunks d s) (stream f (held d @ concat chunks) s)"
proof (induction chunks arbitrary: d s)
  case Nil
  then show ?case using stream_held [OF Nil, of f s] by (simp add: matches_def)
next
  case (Cons chunk chunks)
  obtain e rest s1 where t: "stream f (held d @ chunk) s = (e, rest, s1)" by (cases "stream f (held d @ chunk) s")
  have "matches (push f chunk d s) (e, rest, s1)" using push_stream [OF Cons.prems, of f chunk s] by (simp add: t)
  then obtain d1 where p: "push f chunk d s = Some (e, d1, s1)" "e = None \<longrightarrow> decoder_ok d1 \<and> held d1 = rest"
    by (auto simp: matches_def split: option.splits)
  show ?case
  proof (cases e)
    case None
    then have "stream f (held d @ concat (chunk # chunks)) s = stream f (held d1 @ concat chunks) s1"
      using stream_append [of f "held d @ chunk" s "concat chunks"] t p(2) by simp
    then show ?thesis using Cons.IH [of d1 s1] p None by simp
  next
    case (Some x)
    then obtain rest' where "stream f (held d @ concat (chunk # chunks)) s = (Some x, rest', s1)"
      using stream_append [of f "held d @ chunk" s "concat chunks"] t by auto
    then show ?thesis using p Some by (simp add: matches_def)
  qed
qed

section \<open>Frames of the server\<close>

text \<open>What the callback gets of a frame the server writes, and what it does with several.\<close>

definition frame_data :: "u8 \<times> u32 \<times> bytes \<Rightarrow> bytes" where
  "frame_data r = (case r of (opcode, i, body) \<Rightarrow> opcode # to_be_bytes i @ body)"

primrec deliver ::
  "(bytes \<Rightarrow> 's \<Rightarrow> client_error option \<times> 's) \<Rightarrow> bytes list \<Rightarrow> 's \<Rightarrow> client_error option \<times> 's" where
  "deliver f [] s = (None, s)"
| "deliver f (frame # frames) s =
     (case f frame s of (Some e, s) \<Rightarrow> (Some e, s) | (None, s) \<Rightarrow> deliver f frames s)"

lemma envelope_prefix:
  "length body \<le> max_frame - 5 \<Longrightarrow> envelope op i body = be_bytes 4 (length (frame_data (op, i, body))) @ frame_data (op, i, body)"
  by (simp add: envelope_def frame_data_def to_be_bytes_def max_frame_def unat_of_nat_lt del: of_nat_add of_nat_Suc)

lemma stream_deliver:
  assumes "\<forall>(op, i, body)\<in>set rs. length body \<le> max_frame - 5"
  shows "\<exists>rest. stream f (concat (map (\<lambda>(op, i, body). envelope op i body) rs)) s
    = (fst (deliver f (map frame_data rs) s), rest, snd (deliver f (map frame_data rs) s))
    \<and> (fst (deliver f (map frame_data rs) s) = None \<longrightarrow> rest = [])"
  using assms
proof (induction rs arbitrary: s)
  case Nil
  then show ?case by (simp add: stream_short)
next
  case (Cons r rs)
  obtain op i body where r: "r = (op, i, body)" by (cases r)
  have n: "length body \<le> max_frame - 5" using Cons.prems by (simp add: r)
  have l: "5 \<le> length (frame_data r)" "length (frame_data r) \<le> max_frame"
    using n by (simp_all add: r frame_data_def max_frame_def)
  obtain thrown s1 where c: "f (frame_data r) s = (thrown, s1)" by fastforce
  have "stream f (envelope op i body @ xs) s = (case f (frame_data r) s of
      (Some e, s) \<Rightarrow> (Some e, envelope op i body @ xs, s) | (None, s) \<Rightarrow> stream f xs s)" for xs
    using stream_frame [OF l, of f xs s] unfolding r by (simp add: envelope_prefix [OF n] split: prod.split option.split)
  then show ?case using Cons c by (cases thrown) (auto simp: r)
qed

end
