(* ===== verification/Client_Calls.thy ===== *)
theory Client_Calls
  imports Client_Frames
begin

text \<open>
  The operations of the class \<open>Client\<close>, \<open>packages/client/src/index.ts\<close>: for each the checks of its
  arguments and the body of its request, and what it accepts of the body of the response. The
  function that parses a response is a closure over arguments of the call; an \<open>expectation\<close> is
  what it has captured. A buffer that is allocated and filled by offset is the concatenation of
  what is written to it. \<open>JSON.parse\<close> is a parameter.
\<close>

section \<open>Data\<close>

datatype js_payload = Text js_string | Binary bytes

record publish_record =
  pr_topic :: js_string
  pr_payload :: js_payload
  pr_key :: "js_string option"

record fetch_options =
  fo_after :: "int option"
  fo_limit :: "js_number option"
  fo_max_bytes :: "js_number option"
  fo_mode :: "js_string option"

record client_event =
  ce_sequence :: nat
  ce_topic :: js_string
  ce_key :: js_string
  ce_payload :: bytes

record expected_page =
  ep_topic :: js_string
  ep_after :: nat
  ep_limit :: nat
  ep_max_bytes :: nat
  ep_latest :: bool

datatype expectation =
    ExpectHello
  | ExpectNothing
  | ExpectReceipt nat
  | ExpectPage expected_page
  | ExpectPayload
  | ExpectJob
  | ExpectStats

datatype js_value =
    JsNull | JsBool bool | JsNumber js_number | JsString js_string | JsArray "js_value list"
  | JsObject "(js_string \<times> js_value) list"

record client_job =
  cj_call_id :: nat
  cj_remaining_ms :: nat
  cj_payload :: bytes

datatype client_value =
    Done
  | Receipt nat nat nat bool
  | Page nat "client_event list" bool
  | Payload bytes
  | Job "client_job option"
  | StatsValue js_value

section \<open>Requests\<close>

text \<open>\<open>payloadBytes\<close>.\<close>

definition payload_bytes :: "js_payload \<Rightarrow> client_error + bytes" where
  "payload_bytes p =
     (let bytes = (case p of Text s \<Rightarrow> buffer_from s | Binary bs \<Rightarrow> bs)
      in if length bytes > max_payload
         then Inl (RangeError (js ''payload exceeds '' @ js_digits max_payload @ js '' bytes''))
         else Inr bytes)"

definition hello_call :: "js_string option \<Rightarrow> client_error + u8 \<times> bytes \<times> expectation" where
  "hello_call token =
     and_then (string_bytes (case token of None \<Rightarrow> [] | Some t \<Rightarrow> t) 65535 (js ''token'')) (\<lambda>token.
       Inr (1, be_bytes 2 1 @ be_bytes 2 (length token) @ token, ExpectHello))"

definition request_call :: "js_string \<Rightarrow> js_payload \<Rightarrow> js_number option \<Rightarrow> client_error + u8 \<times> bytes \<times> expectation" where
  "request_call route payload timeout_arg =
     and_then (topic_bytes route False) (\<lambda>encoded_route.
     and_then (integer (case timeout_arg of None \<Rightarrow> Whole 5000 | Some t \<Rightarrow> t) 1 30000 (js ''timeoutMs'')) (\<lambda>deadline_ms.
     and_then (payload_bytes payload) (\<lambda>encoded_payload.
       Inr (7, be_bytes 2 (length encoded_route) @ encoded_route @ be_bytes 4 deadline_ms
          @ be_bytes 4 (length encoded_payload) @ encoded_payload, ExpectPayload))))"

text \<open>\<open>handle\<close> checks its arguments before it opens the connection it registers on.\<close>

definition register_call :: "js_string \<Rightarrow> js_number option \<Rightarrow> js_number option \<Rightarrow> client_error + u8 \<times> bytes \<times> expectation" where
  "register_call route conc queue_lim =
     and_then (topic_bytes route False) (\<lambda>encoded_route.
     and_then (integer (case conc of None \<Rightarrow> Whole 8 | Some n \<Rightarrow> n) 1 32 (js ''concurrency'')) (\<lambda>conc.
     and_then (integer (case queue_lim of None \<Rightarrow> Whole 128 | Some n \<Rightarrow> n) 1 4096 (js ''queueLimit'')) (\<lambda>queue_lim.
       Inr (6, be_bytes 2 (length encoded_route) @ encoded_route @ be_bytes 2 conc @ be_bytes 2 queue_lim,
            ExpectNothing))))"

definition take_call :: "u8 \<times> bytes \<times> expectation" where
  "take_call = (8, be_bytes 4 1000, ExpectJob)"

definition complete_call :: "nat \<Rightarrow> nat \<Rightarrow> bytes \<Rightarrow> u8 \<times> bytes \<times> expectation" where
  "complete_call call_id status payload =
     (9, be_bytes 8 call_id @ be_bytes 1 status @ be_bytes 4 (length payload) @ payload, ExpectNothing)"

text \<open>The loop over the records of a batch: the size is checked as it grows.\<close>

fun publish_loop :: "publish_record list \<Rightarrow> nat \<Rightarrow> client_error + bytes" where
  "publish_loop [] used = Inr []"
| "publish_loop (r # rs) used =
     and_then (topic_bytes (pr_topic r) False) (\<lambda>topic.
     and_then (string_bytes (case pr_key r of None \<Rightarrow> [] | Some k \<Rightarrow> k) 1024 (js ''key'')) (\<lambda>key.
     let payload = (case pr_payload r of Text s \<Rightarrow> buffer_from s | Binary bs \<Rightarrow> bs)
     in if length payload > max_payload
        then Inl (RangeError (js ''payload exceeds '' @ js_digits max_payload @ js '' bytes''))
        else
          let used = used + 2 + length topic + 2 + length key + 4 + length payload
          in if used + 5 > max_frame then Inl (RangeError (js ''Publication batch exceeds frame size limit''))
             else and_then (publish_loop rs used) (\<lambda>rest.
               Inr (be_bytes 2 (length topic) @ topic @ be_bytes 2 (length key) @ key
                    @ be_bytes 4 (length payload) @ payload @ rest))))"

definition publish_call :: "publish_record list \<Rightarrow> client_error + u8 \<times> bytes \<times> expectation" where
  "publish_call records =
     and_then (integer (Whole (int (length records))) 1 256 (js ''records.length'')) (\<lambda>expected_count.
     and_then (publish_loop records 2) (\<lambda>encoded.
       Inr (2, be_bytes 2 expected_count @ encoded, ExpectReceipt expected_count)))"

definition fetch_call :: "js_string \<Rightarrow> fetch_options \<Rightarrow> client_error + u8 \<times> bytes \<times> expectation" where
  "fetch_call topic opts =
     and_then (topic_bytes topic True) (\<lambda>encoded_topic.
     let after = (case fo_after opts of None \<Rightarrow> 0 | Some a \<Rightarrow> a)
     in if after < 0 \<or> after > int max_u64 then Inl (RangeError (js ''after must be an unsigned 64-bit bigint''))
        else
          and_then (integer (case fo_limit opts of None \<Rightarrow> Whole 128 | Some n \<Rightarrow> n) 1 256 (js ''limit'')) (\<lambda>limit.
          and_then (integer (case fo_max_bytes opts of None \<Rightarrow> Whole (int max_fetch_bytes) | Some n \<Rightarrow> n)
              1 max_fetch_bytes (js ''maxBytes'')) (\<lambda>max_bytes.
          let mode = (case fo_mode opts of None \<Rightarrow> js ''all'' | Some m \<Rightarrow> m)
          in if mode \<noteq> js ''all'' \<and> mode \<noteq> js ''latest'' then Inl (TypeError (js ''mode must be all or latest''))
             else Inr (3, be_bytes 2 (length encoded_topic) @ encoded_topic @ be_bytes 8 (nat after) @ be_bytes 2 limit
                 @ be_bytes 4 max_bytes @ be_bytes 1 (if mode = js ''latest'' then 1 else 0),
               ExpectPage \<lparr>ep_topic = topic, ep_after = nat after, ep_limit = limit, ep_max_bytes = max_bytes,
                 ep_latest = (mode = js ''latest'')\<rparr>))))"

definition stats_call :: "u8 \<times> bytes \<times> expectation" where
  "stats_call = (4, [], ExpectStats)"

definition ping_call :: "u8 \<times> bytes \<times> expectation" where
  "ping_call = (5, [], ExpectNothing)"

section \<open>The answer of a worker\<close>

text \<open>\<open>handlerErrorBytes\<close>: the text of an error, cut at a character when it is long.\<close>

fun cut_back :: "bytes \<Rightarrow> nat \<Rightarrow> nat" where
  "cut_back bs 0 = 0"
| "cut_back bs (Suc n) = (if and (bs ! Suc n) 0xC0 = 0x80 then cut_back bs n else Suc n)"

definition handler_error_bytes :: "js_string \<Rightarrow> bytes" where
  "handler_error_bytes message =
     (let bytes = buffer_from (take 4096 message)
      in if length bytes \<le> 4096 then bytes else take (cut_back bytes 4096) bytes)"

text \<open>
  What a slot of a worker completes its job with: the handler returns a payload or throws an error
  with a message, and a payload that is too large is an error too.
\<close>

definition error_text :: "client_error \<Rightarrow> js_string" where
  "error_text e =
     (case e of
        ProtocolError m \<Rightarrow> m | RangeError m \<Rightarrow> m | TypeError m \<Rightarrow> m | BrokerError _ m \<Rightarrow> m
      | BackpressureError \<Rightarrow> js ''Maximum pending requests reached; await an outstanding request before sending more''
      | ConnectionClosedError m \<Rightarrow> m | RequestTimeoutError m \<Rightarrow> m | SocketError m \<Rightarrow> m)"

definition handler_outcome :: "js_string + js_payload \<Rightarrow> nat \<times> bytes" where
  "handler_outcome h =
     (case h of
        Inl message \<Rightarrow> (1, handler_error_bytes message)
      | Inr p \<Rightarrow>
          (case payload_bytes p of
             Inl e \<Rightarrow> (1, handler_error_bytes (error_text e))
           | Inr bytes \<Rightarrow> (0, bytes)))"

definition answer_job :: "client_job \<Rightarrow> js_string + js_payload \<Rightarrow> u8 \<times> bytes \<times> expectation" where
  "answer_job j h = (case handler_outcome h of (status, output) \<Rightarrow> complete_call (cj_call_id j) status output)"

section \<open>Responses\<close>

definition parse_hello :: "bytes \<Rightarrow> client_error + client_value" where
  "parse_hello body =
     and_then (body_u16 (body_reader_new body)) (\<lambda>(version, r).
       if version \<noteq> 1 then Inl (ProtocolError (js ''Unsupported server protocol version''))
       else and_then (body_end r) (\<lambda>_. Inr Done))"

definition parse_nothing :: "bytes \<Rightarrow> client_error + client_value" where
  "parse_nothing body = and_then (body_end (body_reader_new body)) (\<lambda>_. Inr Done)"

definition parse_receipt :: "nat \<Rightarrow> bytes \<Rightarrow> client_error + client_value" where
  "parse_receipt expected_count body =
     and_then (body_u64 (body_reader_new body)) (\<lambda>(first_sequence, r).
     and_then (body_u64 r) (\<lambda>(last_seq, r).
     and_then (body_u16 r) (\<lambda>(count, r).
     and_then (body_bool r) (\<lambda>(durable, r).
     and_then (body_end r) (\<lambda>_.
       if count \<noteq> expected_count \<or> first_sequence = 0 \<or> int last_seq \<noteq> int first_sequence + int count - 1
       then Inl (ProtocolError (js ''Invalid publication sequence range or record count''))
       else Inr (Receipt first_sequence last_seq count durable))))))"

text \<open>The loop over the events of a page, with the keys seen and the previous sequence number.\<close>

fun page_loop ::
  "expected_page \<Rightarrow> nat \<Rightarrow> nat \<Rightarrow> nat \<Rightarrow> js_string list \<Rightarrow> client_event list \<Rightarrow> body_reader
    \<Rightarrow> client_error + client_event list \<times> body_reader" where
  "page_loop ep page_cursor 0 previous keys evs r = Inr (evs, r)"
| "page_loop ep page_cursor (Suc n) previous keys evs r =
     and_then (body_u64 r) (\<lambda>(sequence, r).
     and_then (body_string 255 r) (\<lambda>(event_topic, r).
     and_then (body_string 1024 r) (\<lambda>(key, r).
     and_then (body_payload r) (\<lambda>(payload, r).
       if sequence \<le> previous \<or> sequence > page_cursor \<or> \<not> topic_pattern event_topic
          \<or> (ep_topic ep \<noteq> js ''*'' \<and> event_topic \<noteq> ep_topic ep)
       then Inl (ProtocolError (js ''Invalid fetch event sequence or topic''))
       else if ep_latest ep \<and> key \<noteq> [] \<and> (event_topic @ [0] @ key) \<in> set keys
       then Inl (ProtocolError (js ''Duplicate keyed event in latest response''))
       else page_loop ep page_cursor n sequence
         (if ep_latest ep \<and> key \<noteq> [] then (event_topic @ [0] @ key) # keys else keys)
         (evs @ [\<lparr>ce_sequence = sequence, ce_topic = event_topic, ce_key = key, ce_payload = payload\<rparr>]) r))))"

definition parse_page :: "expected_page \<Rightarrow> bytes \<Rightarrow> client_error + client_value" where
  "parse_page ep body =
     and_then (body_u64 (body_reader_new body)) (\<lambda>(page_cursor, r).
     and_then (body_u16 r) (\<lambda>(count, r).
     and_then (body_bool r) (\<lambda>(has_more, r).
       if page_cursor < ep_after ep \<or> count > ep_limit ep \<or> length body - 11 > ep_max_bytes ep
          \<or> (has_more \<and> page_cursor = ep_after ep)
       then Inl (ProtocolError (js ''Invalid fetch cursor, count, progress or payload budget''))
       else and_then (page_loop ep page_cursor count (ep_after ep) [] [] r) (\<lambda>(evs, r).
         and_then (body_end r) (\<lambda>_. Inr (Page page_cursor evs has_more))))))"

definition parse_payload :: "bytes \<Rightarrow> client_error + client_value" where
  "parse_payload body =
     and_then (body_payload (body_reader_new body)) (\<lambda>(payload, r).
     and_then (body_end r) (\<lambda>_. Inr (Payload payload)))"

definition parse_job :: "bytes \<Rightarrow> client_error + client_value" where
  "parse_job body =
     and_then (body_bool (body_reader_new body)) (\<lambda>(present, r).
       if \<not> present then and_then (body_end r) (\<lambda>_. Inr (Job None))
       else
         and_then (body_u64 r) (\<lambda>(call_id, r).
         and_then (body_u32 r) (\<lambda>(remaining, r).
         and_then (body_payload r) (\<lambda>(payload, r).
         and_then (body_end r) (\<lambda>_.
           if call_id = 0 \<or> remaining > 30000
           then Inl (ProtocolError (js ''Invalid worker call ID or remaining deadline''))
           else Inr (Job (Some \<lparr>cj_call_id = call_id, cj_remaining_ms = remaining, cj_payload = payload\<rparr>)))))))"

section \<open>Statistics\<close>

definition js_field :: "js_string \<Rightarrow> (js_string \<times> js_value) list \<Rightarrow> js_value option" where
  "js_field name kvs = map_of kvs name"

text \<open>\<open>checkCount\<close>: a safe integer that is not negative.\<close>

definition count_field :: "(js_string \<times> js_value) list \<Rightarrow> js_string \<Rightarrow> bool" where
  "count_field kvs name =
     (case js_field name kvs of
        Some (JsNumber x) \<Rightarrow> is_safe_integer x \<and> (case x of Whole v \<Rightarrow> 0 \<le> v | _ \<Rightarrow> False)
      | _ \<Rightarrow> False)"

text \<open>The first field of a list that is no count.\<close>

definition bad_count :: "(js_string \<times> js_value) list \<Rightarrow> js_string list \<Rightarrow> js_string option" where
  "bad_count kvs names = find (\<lambda>name. \<not> count_field kvs name) names"

definition digit_unit :: "u16 \<Rightarrow> bool" where
  "digit_unit u = (0x30 \<le> u \<and> u \<le> 0x39)"

text \<open>\<open>/^(0|[1-9][0-9]*)$/\<close> and the value of the digits.\<close>

definition decimal_pattern :: "js_string \<Rightarrow> bool" where
  "decimal_pattern s = (s = js ''0'' \<or> (s \<noteq> [] \<and> hd s \<noteq> 0x30 \<and> list_all digit_unit s))"

definition digits_value :: "js_string \<Rightarrow> nat" where
  "digits_value s = foldl (\<lambda>n u. 10 * n + (unat u - 0x30)) 0 s"

definition valid_route_stats :: "js_value \<Rightarrow> client_error option" where
  "valid_route_stats route =
     (case route of
        JsObject kvs \<Rightarrow>
          (case js_field (js ''name'') kvs of
             Some (JsString name) \<Rightarrow>
               if topic_pattern name then
                 map_option (\<lambda>name. ProtocolError (js ''Invalid rpc stats field: '' @ name))
                   (bad_count kvs [js ''workers'', js ''concurrency'', js ''running'', js ''queued'', js ''queueLimit''])
               else Some (ProtocolError (js ''Invalid rpc route''))
           | _ \<Rightarrow> Some (ProtocolError (js ''Invalid rpc route'')))
      | _ \<Rightarrow> Some (ProtocolError (js ''Invalid rpc route'')))"

primrec first_error :: "('a \<Rightarrow> client_error option) \<Rightarrow> 'a list \<Rightarrow> client_error option" where
  "first_error f [] = None"
| "first_error f (x # xs) = (case f x of Some e \<Rightarrow> Some e | None \<Rightarrow> first_error f xs)"

definition validate_rpc_stats :: "js_value \<Rightarrow> client_error option" where
  "validate_rpc_stats value =
     (case value of
        JsObject kvs \<Rightarrow>
          (case bad_count kvs [js ''queued'', js ''running'', js ''retainedBytes'', js ''maxCalls'', js ''maxBytes'',
              js ''accepted'', js ''completed'', js ''rejected'', js ''timedOut''] of
             Some name \<Rightarrow> Some (ProtocolError (js ''Invalid rpc stats field: '' @ name))
           | None \<Rightarrow>
               (case js_field (js ''routes'') kvs of
                  Some (JsArray routes) \<Rightarrow> first_error valid_route_stats routes
                | _ \<Rightarrow> Some (ProtocolError (js ''Invalid rpc routes''))))
      | _ \<Rightarrow> Some (ProtocolError (js ''Invalid rpc stats object'')))"

definition valid_uptime :: "js_value option \<Rightarrow> bool" where
  "valid_uptime v =
     (case v of
        None \<Rightarrow> True
      | Some (JsNumber (Whole n)) \<Rightarrow> 0 \<le> n
      | Some (JsNumber (Fraction negative)) \<Rightarrow> \<not> negative
      | _ \<Rightarrow> False)"

definition parse_stats :: "(js_string \<Rightarrow> js_value option) \<Rightarrow> bytes \<Rightarrow> client_error + client_value" where
  "parse_stats json_parse body =
     (case and_then (decode_utf8 body) (\<lambda>text. case json_parse text of None \<Rightarrow> Inl (ProtocolError []) | Some v \<Rightarrow> Inr v) of
        Inl _ \<Rightarrow> Inl (ProtocolError (js ''Invalid stats JSON''))
      | Inr (JsObject kvs) \<Rightarrow>
          (let version = js_field (js ''version'') kvs;
               mode = js_field (js ''mode'') kvs;
               last_seq = js_field (js ''lastSequence'') kvs
           in if \<not> (case version of Some (JsString _) \<Rightarrow> True | _ \<Rightarrow> False)
                 \<or> (mode \<noteq> Some (JsString (js ''memory'')) \<and> mode \<noteq> Some (JsString (js ''disk'')))
                 \<or> \<not> (case last_seq of Some (JsString n) \<Rightarrow> decimal_pattern n \<and> digits_value n \<le> max_u64 | _ \<Rightarrow> False)
              then Inl (ProtocolError (js ''Invalid stats version, mode or lastSequence''))
              else
                (case bad_count kvs [js ''records'', js ''retainedBytes'', js ''maxRetainedBytes'', js ''walBytes'',
                    js ''maxWalBytes'', js ''publishedRecords'', js ''fetchedRecords'', js ''coalescedRecords'', js ''connections''] of
                   Some name \<Rightarrow> Inl (ProtocolError (js ''Invalid stats field: '' @ name))
                 | None \<Rightarrow>
                     if \<not> valid_uptime (js_field (js ''uptimeSeconds'') kvs)
                     then Inl (ProtocolError (js ''Invalid stats uptimeSeconds''))
                     else
                       (case js_field (js ''rpc'') kvs of
                          None \<Rightarrow> Inr (StatsValue (JsObject kvs))
                        | Some rpc_stats \<Rightarrow>
                            (case validate_rpc_stats rpc_stats of
                               Some e \<Rightarrow> Inl e
                             | None \<Rightarrow> Inr (StatsValue (JsObject kvs))))))
      | Inr _ \<Rightarrow> Inl (ProtocolError (js ''Invalid stats object'')))"

section \<open>Any response\<close>

definition parse_response :: "(js_string \<Rightarrow> js_value option) \<Rightarrow> expectation \<Rightarrow> bytes \<Rightarrow> client_error + client_value" where
  "parse_response json_parse expected body =
     (case expected of
        ExpectHello \<Rightarrow> parse_hello body
      | ExpectNothing \<Rightarrow> parse_nothing body
      | ExpectReceipt n \<Rightarrow> parse_receipt n body
      | ExpectPage ep \<Rightarrow> parse_page ep body
      | ExpectPayload \<Rightarrow> parse_payload body
      | ExpectJob \<Rightarrow> parse_job body
      | ExpectStats \<Rightarrow> parse_stats json_parse body)"

text \<open>The body of an error response, opcode 255.\<close>

definition parse_error :: "bytes \<Rightarrow> client_error + client_error" where
  "parse_error body =
     and_then (body_u16 (body_reader_new body)) (\<lambda>(code, r).
     and_then (body_string 65535 r) (\<lambda>(message, r).
     and_then (body_end r) (\<lambda>_.
       if code < 1 \<or> code > 12 then Inl (ProtocolError (js ''Unknown broker error code''))
       else Inr (BrokerError code message))))"

end
