(* ===== verification/Client_Requests.thy ===== *)
theory Client_Requests
  imports Client_Calls Codec
begin

text \<open>
  What the client sends, the server understands: the bytes of every call that passes the checks of
  the client are the documented layout of the request that was meant, within the limits of the
  server, so that \<open>decode_request\<close> returns that request.
\<close>

section \<open>Calls\<close>

datatype client_call =
    CallHello "js_string option"
  | CallRequest js_string js_payload "js_number option"
  | CallRegister js_string "js_number option" "js_number option"
  | CallTake
  | CallAnswer client_job "js_string + js_payload"
  | CallPublish "publish_record list"
  | CallFetch js_string fetch_options
  | CallStats
  | CallPing

fun call_message :: "client_call \<Rightarrow> client_error + u8 \<times> bytes \<times> expectation" where
  "call_message (CallHello token) = hello_call token"
| "call_message (CallRequest route payload timeout_arg) = request_call route payload timeout_arg"
| "call_message (CallRegister route conc queue_lim) = register_call route conc queue_lim"
| "call_message CallTake = Inr take_call"
| "call_message (CallAnswer j h) = Inr (answer_job j h)"
| "call_message (CallPublish records) = publish_call records"
| "call_message (CallFetch topic opts) = fetch_call topic opts"
| "call_message CallStats = Inr stats_call"
| "call_message CallPing = Inr ping_call"

text \<open>The request that a call means: a default where an option is absent, a string as its UTF-8.\<close>

definition whole :: "nat \<Rightarrow> js_number option \<Rightarrow> nat" where
  "whole dflt n = (case n of Some (Whole v) \<Rightarrow> nat v | _ \<Rightarrow> dflt)"

definition payload_of :: "js_payload \<Rightarrow> bytes" where
  "payload_of p = (case p of Text s \<Rightarrow> buffer_from s | Binary bs \<Rightarrow> bs)"

definition text_of :: "js_string option \<Rightarrow> bytes" where
  "text_of s = buffer_from (case s of None \<Rightarrow> [] | Some t \<Rightarrow> t)"

definition record_of :: "publish_record \<Rightarrow> log_record" where
  "record_of r = \<lparr>rec_topic = buffer_from (pr_topic r), rec_key = text_of (pr_key r), rec_payload = payload_of (pr_payload r)\<rparr>"

fun call_request :: "client_call \<Rightarrow> request" where
  "call_request (CallHello token) = Hello 1 (text_of token)"
| "call_request (CallRequest route payload timeout_arg) =
     request.Rpc (buffer_from route) (of_nat (whole 5000 timeout_arg)) (payload_of payload)"
| "call_request (CallRegister route conc queue_lim) =
     Register (buffer_from route) (whole 8 conc) (whole 128 queue_lim)"
| "call_request CallTake = Take 1000"
| "call_request (CallAnswer j h) =
     Complete (of_nat (cj_call_id j)) (fst (handler_outcome h) = 1) (snd (handler_outcome h))"
| "call_request (CallPublish records) = Publish (map record_of records)"
| "call_request (CallFetch topic opts) =
     Fetch \<lparr>fetch_topic = buffer_from topic,
       fetch_after = of_nat (nat (case fo_after opts of None \<Rightarrow> 0 | Some a \<Rightarrow> a)),
       fetch_limit = whole 128 (fo_limit opts), fetch_max_bytes = whole max_fetch_bytes (fo_max_bytes opts),
       fetch_latest = (fo_mode opts = Some (js ''latest''))\<rparr>"
| "call_request CallStats = Stats"
| "call_request CallPing = Ping"

text \<open>A job the client answers has come from \<open>parse_job\<close>, so its identifier has 64 bits.\<close>

fun call_ok :: "client_call \<Rightarrow> bool" where
  "call_ok (CallAnswer j h) = (cj_call_id j < 2 ^ 64)"
| "call_ok _ = True"

section \<open>Fields\<close>

lemma be_bytes_word:
  "v < 65536 \<Longrightarrow> be_bytes 2 v = to_be_bytes (of_nat v :: u16)"
  "v < 4294967296 \<Longrightarrow> be_bytes 4 v = to_be_bytes (of_nat v :: u32)"
  "v < 18446744073709551616 \<Longrightarrow> be_bytes 8 v = to_be_bytes (of_nat v :: u64)"
  "v < 256 \<Longrightarrow> be_bytes 1 v = [of_nat v]"
  by (simp_all add: to_be_bytes_def unat_of_nat_lt)

lemma integer_Inr:
  "integer x mn mx name = Inr n \<longleftrightarrow> x = Whole (int n) \<and> mn \<le> n \<and> n \<le> mx \<and> int n \<le> max_safe_integer"
  by (auto simp: integer_def is_safe_integer_def split: js_number.splits)

lemma whole_option:
  "integer (case n of None \<Rightarrow> Whole d | Some x \<Rightarrow> x) mn mx name = Inr v \<Longrightarrow> d = int dflt
    \<Longrightarrow> whole dflt n = v \<and> mn \<le> v \<and> v \<le> mx"
  by (auto simp: integer_Inr whole_def split: option.splits)

lemma topic_unit_byte:
  assumes "topic_unit u"
  shows "unat u < 0x80 \<and> topic_byte (of_nat (unat u))"
proof -
  have u: "unat u < 0x80" using assms by (auto simp: topic_unit_def word_le_nat_alt)
  then have "unat (of_nat (unat u) :: byte) = unat u" by (intro byte_of_nat) simp
  then show ?thesis
    using assms u
    by (auto simp: topic_unit_def topic_byte_def is_ascii_alphanumeric_def word_le_nat_alt word_unat_eq_iff
        simp del: unsigned_of_nat)
qed

lemma code_points_ascii: "list_all (\<lambda>u. unat u < 0x80) s \<Longrightarrow> code_points s = map unat s"
  by (induction s rule: code_points.induct) (auto simp: high_surrogate_def low_surrogate_def)

lemma buffer_from_ascii: "list_all (\<lambda>u. unat u < 0x80) s \<Longrightarrow> buffer_from s = map (\<lambda>u. of_nat (unat u)) s"
proof -
  assume a: "list_all (\<lambda>u. unat u < 0x80) s"
  have "concat (map utf8_point (map unat s)) = map (\<lambda>u. of_nat (unat u)) s"
    using a by (induction s) (auto simp: utf8_point_def)
  then show ?thesis by (simp add: buffer_from_def code_points_ascii [OF a])
qed

lemma topic_pattern_valid:
  assumes "topic_pattern s"
  shows "valid_topic (buffer_from s)"
proof -
  have "list_all (\<lambda>u. unat u < 0x80) s" "list_all (\<lambda>u. topic_byte (of_nat (unat u))) s"
    using assms topic_unit_byte by (auto simp: topic_pattern_def list_all_iff)
  then show ?thesis
    using assms by (auto simp: valid_topic_def buffer_from_ascii list_all_iff topic_pattern_def)
qed

lemma topic_bytes_strict: "topic_bytes s False = Inr bs \<Longrightarrow> bs = buffer_from s \<and> valid_topic (buffer_from s)"
  by (auto simp: topic_bytes_def topic_pattern_valid split: if_splits)

lemma buffer_from_star: "buffer_from (js ''*'') = str ''*''"
  by (subst buffer_from_ascii) (simp_all add: js_def str_def)

lemma topic_bytes_wildcard:
  "topic_bytes s True = Inr bs \<Longrightarrow> bs = buffer_from s \<and> (buffer_from s = str ''*'' \<or> valid_topic (buffer_from s))"
  by (auto simp: topic_bytes_def topic_pattern_valid buffer_from_star split: if_splits)

lemma string_bytes_Inr:
  "string_bytes s mx name = Inr bs \<Longrightarrow> bs = buffer_from s \<and> length (buffer_from s) \<le> mx \<and> utf8_valid (buffer_from s) \<and> to_text (buffer_from s) = s"
  by (auto simp: string_bytes_def Let_def buffer_from_valid split: if_splits)

lemma payload_bytes_Inr: "payload_bytes p = Inr bs \<longleftrightarrow> bs = payload_of p \<and> length (payload_of p) \<le> max_payload"
  by (auto simp: payload_bytes_def payload_of_def Let_def)

lemma valid_topic_length: "valid_topic t \<Longrightarrow> length t \<le> 255"
  by (simp add: valid_topic_def)

lemma topic_put: "valid_topic t \<Longrightarrow> be_bytes 2 (length t) @ t = put_string [] t"
  using valid_topic_length [of t] by (simp add: put_string_def be_bytes_word)

lemma topic_bytes_length: "topic_bytes s w = Inr bs \<Longrightarrow> length bs < 65536"
  using topic_bytes_strict [of s bs] topic_bytes_wildcard [of s bs] valid_topic_length [of bs]
  by (cases w) (auto simp: str_def)

lemma string_bytes_length: "string_bytes s mx name = Inr bs \<Longrightarrow> length bs \<le> mx"
  using string_bytes_Inr [of s mx name bs] by simp

section \<open>The bytes of an error\<close>

text \<open>The test of the loop that cuts: a byte with the bits 10 at the top continues a character.\<close>

lemma high_bits: "k = 6 \<Longrightarrow> and b 0xC0 = push_bit k (drop_bit k b)" for b :: byte
proof (rule bit_word_eqI)
  fix n assume k: "k = 6" and n: "n < LENGTH(8)"
  have "n \<in> {0, 1, 2, 3, 4, 5, 6, 7}" using n by auto
  then show "bit (and b 0xC0) n = bit (push_bit k (drop_bit k b)) n"
    using k by (auto simp: bit_and_iff bit_push_bit_iff bit_drop_bit_eq)
qed

lemma continuation_mask: "and b 0xC0 = 0x80 \<longleftrightarrow> is_continuation b" for b :: byte
proof -
  have "unat (drop_bit 6 b) = drop_bit 6 (unat b)" by (rule unat_drop_bit_eq)
  then have d: "unat (drop_bit 6 b) = unat b div 64" by (simp only: drop_bit_eq_div) simp
  have lt: "unat b < 256" using unat_lt [of b] by simp
  have "unat (push_bit 6 (drop_bit 6 b)) = take_bit LENGTH(8) (push_bit 6 (unat b div 64))"
    by (simp only: unsigned_push_bit_eq d)
  also have "\<dots> = unat b div 64 * 64" using lt by (simp add: take_bit_eq_mod push_bit_eq_mult)
  finally have "unat (push_bit 6 (drop_bit 6 b)) = unat b div 64 * 64" .
  then have "and b 0xC0 = 0x80 \<longleftrightarrow> unat b div 64 * 64 = 0x80"
    by (simp only: high_bits [OF refl] word_unat_eq_iff) simp
  also have "\<dots> \<longleftrightarrow> 0x80 \<le> unat b \<and> unat b \<le> 0xBF"
  proof -
    obtain q r where "unat b div 64 = q" "unat b = q * 64 + r" "r < 64"
      using that [of "unat b div 64" "unat b mod 64"] by simp
    moreover from \<open>r < 64\<close> have "q * 64 = 0x80 \<longleftrightarrow> 0x80 \<le> q * 64 + r \<and> q * 64 + r \<le> 0xBF"
      by (cases "q \<le> 1"; cases "q = 2") auto
    ultimately show ?thesis by simp
  qed
  finally show ?thesis by (simp add: is_continuation_def word_le_nat_alt)
qed

lemma cut_back_le: "cut_back bs n \<le> n"
  by (induction n) auto

text \<open>The cut is at a character, or there is nothing before it.\<close>

lemma cut_back_boundary: "cut_back bs n = 0 \<or> \<not> is_continuation (bs ! cut_back bs n)"
  by (induction n) (auto simp: continuation_mask)

lemma handler_error_text: "utf8_valid (handler_error_bytes m) \<and> length (handler_error_bytes m) \<le> 4096"
proof -
  let ?bs = "buffer_from (take 4096 m)" and ?n = "cut_back (buffer_from (take 4096 m)) 4096"
  have v: "utf8_valid ?bs" by (rule buffer_from_valid)
  have "utf8_valid (take ?n ?bs) \<and> length (take ?n ?bs) \<le> 4096" if long: "4096 < length ?bs"
  proof -
    have n: "?n < length ?bs" "?n \<le> 4096" using cut_back_le [of ?bs 4096] long by simp_all
    show ?thesis
      using cut_back_boundary [of ?bs 4096]
    proof
      assume "?n = 0"
      then show ?thesis by simp
    next
      assume "\<not> is_continuation (?bs ! ?n)"
      with v n(1) have "utf8_valid (take ?n ?bs)" by (intro utf8_valid_take)
      then show ?thesis using n by simp
    qed
  qed
  then show ?thesis using v by (simp add: handler_error_bytes_def Let_def)
qed

lemma handler_outcome_ok:
  "fst (handler_outcome h) \<le> 1 \<and> (fst (handler_outcome h) = 1 \<longrightarrow> utf8_valid (snd (handler_outcome h)))
   \<and> length (snd (handler_outcome h)) \<le> (if fst (handler_outcome h) = 1 then 4096 else max_payload)"
  using handler_error_text
  by (auto simp: handler_outcome_def payload_bytes_Inr split: sum.split)

section \<open>Every call\<close>

lemma hello_body:
  assumes "hello_call token = Inr (op, body, ex)"
  shows "op = request_opcode (call_request (CallHello token)) \<and> body = request_body (call_request (CallHello token))
    \<and> request_ok (call_request (CallHello token))"
proof -
  obtain t where t: "string_bytes (case token of None \<Rightarrow> [] | Some t \<Rightarrow> t) 65535 (js ''token'') = Inr t" "op = 1"
    "body = be_bytes 2 1 @ be_bytes 2 (length t) @ t"
    using assms by (auto simp: hello_call_def and_then_eq_Inr)
  note s = string_bytes_Inr [OF t(1)]
  have "length t < 65536" using string_bytes_length [OF t(1)] by simp
  then show ?thesis
    using s t(2,3) by (simp add: text_of_def string_ok_def put_string_def be_bytes_word)
qed

lemma request_call_body:
  assumes "request_call route p t = Inr (op, body, ex)"
  shows "op = request_opcode (call_request (CallRequest route p t)) \<and> body = request_body (call_request (CallRequest route p t))
    \<and> request_ok (call_request (CallRequest route p t))"
proof -
  obtain r d q where f: "topic_bytes route False = Inr r"
    "integer (case t of None \<Rightarrow> Whole 5000 | Some t \<Rightarrow> t) 1 30000 (js ''timeoutMs'') = Inr d"
    "payload_bytes p = Inr q" "op = 7"
    "body = be_bytes 2 (length r) @ r @ be_bytes 4 d @ be_bytes 4 (length q) @ q"
    using assms by (auto simp: request_call_def and_then_eq_Inr)
  note r = topic_bytes_strict [OF f(1)] and d = whole_option [OF f(2), of 5000, simplified] and q = f(3) [unfolded payload_bytes_Inr]
  have "length r < 65536" by (rule topic_bytes_length [OF f(1)])
  moreover have "length q < 4294967296" using q by (auto simp: max_payload_def)
  moreover have "(1 :: u32) \<le> of_nat d \<and> (of_nat d :: u32) \<le> 30000"
    using d by (simp add: word_le_nat_alt unat_of_nat_lt)
  ultimately show ?thesis
    using f(4,5) r d q by (simp add: be_bytes_word put_string_def max_payload_def MAX_PAYLOAD_def)
qed

lemma register_body:
  assumes "register_call route conc lim = Inr (op, body, ex)"
  shows "op = request_opcode (call_request (CallRegister route conc lim))
    \<and> body = request_body (call_request (CallRegister route conc lim)) \<and> request_ok (call_request (CallRegister route conc lim))"
proof -
  obtain r n l where f: "topic_bytes route False = Inr r"
    "integer (case conc of None \<Rightarrow> Whole 8 | Some n \<Rightarrow> n) 1 32 (js ''concurrency'') = Inr n"
    "integer (case lim of None \<Rightarrow> Whole 128 | Some n \<Rightarrow> n) 1 4096 (js ''queueLimit'') = Inr l" "op = 6"
    "body = be_bytes 2 (length r) @ r @ be_bytes 2 n @ be_bytes 2 l"
    using assms by (auto simp: register_call_def and_then_eq_Inr)
  note r = topic_bytes_strict [OF f(1)] and n = whole_option [OF f(2), of 8, simplified]
    and l = whole_option [OF f(3), of 128, simplified]
  have "length r < 65536" by (rule topic_bytes_length [OF f(1)])
  then show ?thesis using f(4,5) r n l by (simp add: be_bytes_word put_string_def)
qed

lemma answer_body:
  assumes "cj_call_id j < 2 ^ 64"
  shows "answer_job j h = (request_opcode (call_request (CallAnswer j h)), request_body (call_request (CallAnswer j h)), ExpectNothing)
    \<and> request_ok (call_request (CallAnswer j h))"
proof -
  obtain status out where h: "handler_outcome h = (status, out)" by fastforce
  have ok: "status \<le> 1" "status = 1 \<longrightarrow> utf8_valid out" "length out \<le> (if status = 1 then 4096 else max_payload)"
    using handler_outcome_ok [of h] by (simp_all add: h)
  then have "length out < 4294967296" by (simp add: max_payload_def split: if_splits)
  moreover have "status = 0 \<or> status = 1" using ok(1) by linarith
  ultimately show ?thesis
    using ok assms by (auto simp: answer_job_def h complete_call_def be_bytes_word max_payload_def MAX_PAYLOAD_def)
qed

lemma publish_loop_body:
  assumes "publish_loop rs used = Inr out"
  shows "out = concat (map (encode_record []) (map record_of rs)) \<and> list_all record_ok (map record_of rs)
    \<and> (rs \<noteq> [] \<longrightarrow> used + length out + 5 \<le> max_frame)"
  using assms
proof (induction rs arbitrary: used out)
  case (Cons r rs)
  obtain t k rest where f: "topic_bytes (pr_topic r) False = Inr t"
    "string_bytes (case pr_key r of None \<Rightarrow> [] | Some k \<Rightarrow> k) 1024 (js ''key'') = Inr k"
    "length (payload_of (pr_payload r)) \<le> max_payload"
    "used + 2 + length t + 2 + length k + 4 + length (payload_of (pr_payload r)) + 5 \<le> max_frame"
    "publish_loop rs (used + 2 + length t + 2 + length k + 4 + length (payload_of (pr_payload r))) = Inr rest"
    "out = be_bytes 2 (length t) @ t @ be_bytes 2 (length k) @ k @ be_bytes 4 (length (payload_of (pr_payload r)))
       @ payload_of (pr_payload r) @ rest"
    using Cons.prems by (auto simp: and_then_eq_Inr Let_def payload_of_def [symmetric] not_less split: if_splits)
  note t = topic_bytes_strict [OF f(1)] and k = string_bytes_Inr [OF f(2)] and IH = Cons.IH [OF f(5)]
  have small: "length t < 65536" "length k < 65536" "length (payload_of (pr_payload r)) < 4294967296"
    using topic_bytes_length [OF f(1)] string_bytes_length [OF f(2)] f(3) by (simp_all add: max_payload_def)
  have "record_ok (record_of r)"
    using t k f(3) by (simp add: record_ok_def record_of_def text_of_def max_payload_def MAX_PAYLOAD_def)
  moreover have "encode_record [] (record_of r) = be_bytes 2 (length t) @ t @ be_bytes 2 (length k) @ k
      @ be_bytes 4 (length (payload_of (pr_payload r))) @ payload_of (pr_payload r)"
    using t k small by (simp add: encode_record_parts record_of_def text_of_def put_string_def be_bytes_word)
  moreover have "used + length out + 5 \<le> max_frame"
    using f(4,5) IH [THEN conjunct2, THEN conjunct2] by (cases "rs = []") (auto simp: f(6))
  ultimately show ?case using IH f(6) by simp
qed simp

lemma publish_body:
  assumes "publish_call rs = Inr (op, body, ex)"
  shows "op = request_opcode (call_request (CallPublish rs)) \<and> body = request_body (call_request (CallPublish rs))
    \<and> request_ok (call_request (CallPublish rs)) \<and> ex = ExpectReceipt (length rs)"
proof -
  obtain n out where f: "integer (Whole (int (length rs))) 1 256 (js ''records.length'') = Inr n"
    "publish_loop rs 2 = Inr out" "op = 2" "body = be_bytes 2 n @ out" "ex = ExpectReceipt n"
    using assms by (auto simp: publish_call_def and_then_eq_Inr)
  have n: "n = length rs" "1 \<le> length rs" "length rs \<le> 256" using f(1) by (auto simp: integer_Inr)
  then show ?thesis
    using f(3-5) publish_loop_body [OF f(2)]
    by (simp add: encode_records_concat be_bytes_word batch_ok_def MAX_BATCH_def)
qed

lemma fetch_body:
  assumes "fetch_call topic opts = Inr (op, body, ex)"
  shows "op = request_opcode (call_request (CallFetch topic opts)) \<and> body = request_body (call_request (CallFetch topic opts))
    \<and> request_ok (call_request (CallFetch topic opts))"
proof -
  obtain t n b where f: "topic_bytes topic True = Inr t"
    "integer (case fo_limit opts of None \<Rightarrow> Whole 128 | Some n \<Rightarrow> n) 1 256 (js ''limit'') = Inr n"
    "integer (case fo_max_bytes opts of None \<Rightarrow> Whole (int max_fetch_bytes) | Some n \<Rightarrow> n) 1 max_fetch_bytes (js ''maxBytes'') = Inr b"
    "op = 3"
    and a: "\<not> (case fo_after opts of None \<Rightarrow> 0 | Some a \<Rightarrow> a) < 0" "\<not> (case fo_after opts of None \<Rightarrow> 0 | Some a \<Rightarrow> a) > int max_u64"
    and m: "\<not> ((case fo_mode opts of None \<Rightarrow> js ''all'' | Some m \<Rightarrow> m) \<noteq> js ''all''
        \<and> (case fo_mode opts of None \<Rightarrow> js ''all'' | Some m \<Rightarrow> m) \<noteq> js ''latest'')"
    and body: "body = be_bytes 2 (length t) @ t @ be_bytes 8 (nat (case fo_after opts of None \<Rightarrow> 0 | Some a \<Rightarrow> a))
        @ be_bytes 2 n @ be_bytes 4 b
        @ be_bytes 1 (if (case fo_mode opts of None \<Rightarrow> js ''all'' | Some m \<Rightarrow> m) = js ''latest'' then 1 else 0)"
    using assms unfolding fetch_call_def Let_def and_then_eq_Inr by (auto simp: and_then_eq_Inr split: if_splits)
  let ?a = "nat (case fo_after opts of None \<Rightarrow> 0 | Some a \<Rightarrow> a)"
  note t = topic_bytes_wildcard [OF f(1)] and n = whole_option [OF f(2), of 128, simplified]
    and b = whole_option [OF f(3), of max_fetch_bytes, simplified]
  have "?a < 18446744073709551616" using a by (simp add: max_u64_def)
  moreover have "length t < 65536" by (rule topic_bytes_length [OF f(1)])
  moreover have "(case fo_mode opts of None \<Rightarrow> js ''all'' | Some m \<Rightarrow> m) = js ''latest'' \<longleftrightarrow> fo_mode opts = Some (js ''latest'')"
    by (auto simp: js_def split: option.splits)
  moreover have "b < 4294967296" "n < 65536" using n b by (auto simp: max_fetch_bytes_def)
  ultimately show ?thesis
    using f(4) body t n b
    by (simp add: be_bytes_word put_string_def MAX_BATCH_def max_fetch_bytes_def MAX_FETCH_BYTES_def)
qed

lemma call_body:
  assumes "call_message c = Inr (op, body, ex)" and "call_ok c"
  shows "op = request_opcode (call_request c) \<and> body = request_body (call_request c) \<and> request_ok (call_request c)"
proof (cases c)
  case (CallAnswer j h)
  then show ?thesis using assms answer_body [of j h] by simp
next
  case CallTake
  then show ?thesis using assms be_bytes_word(2) [of 1000] by (simp add: take_call_def word_le_nat_alt)
next
  case (CallHello token)
  then show ?thesis using assms hello_body by simp
next
  case (CallRequest route p t)
  then show ?thesis using assms request_call_body by simp
next
  case (CallRegister route n l)
  then show ?thesis using assms register_body by simp
next
  case (CallPublish rs)
  then show ?thesis using assms publish_body by simp
next
  case (CallFetch topic opts)
  then show ?thesis using assms fetch_body by simp
qed (use assms in \<open>simp_all add: stats_call_def ping_call_def\<close>)

end
