(* ===== verification/Client_Responses.thy ===== *)
theory Client_Responses
  imports Client_Requests Store_Service Rpc
begin

text \<open>
  What the server answers, the client understands: the locale \<open>response_field\<close> is what an encoder of
  the server and a reader of the client promise each other, interpreted for integers, flags, strings
  and payloads, and from it the client's parser of every response accepts what the server encodes,
  with the value that was meant.
\<close>

section \<open>The contract of a field\<close>

definition body_rest :: "body_reader \<Rightarrow> bytes" where
  "body_rest r = drop (br_offset r) (br_bytes r)"

definition body_ok :: "body_reader \<Rightarrow> bool" where
  "body_ok r = (br_offset r \<le> length (br_bytes r))"

definition body_skip :: "nat \<Rightarrow> body_reader \<Rightarrow> body_reader" where
  "body_skip n r = r\<lparr>br_offset := br_offset r + n\<rparr>"

lemma body_new_simps [simp]: "body_rest (body_reader_new bs) = bs" "body_ok (body_reader_new bs)"
  by (simp_all add: body_rest_def body_ok_def body_reader_new_def)

lemma body_skip_simps:
  "body_rest (body_skip n r) = drop n (body_rest r)" "body_skip n (body_skip m r) = body_skip (m + n) r"
  by (simp_all add: body_rest_def body_skip_def add.commute)

lemma body_take_rest:
  assumes "body_rest r = bs @ rest"
  shows "body_take (length bs) r = Inr (bs, body_skip (length bs) r)"
proof -
  have "length (br_bytes r) - br_offset r = length bs + length rest"
    using assms by (metis body_rest_def length_append length_drop)
  then show ?thesis using assms by (simp add: body_take_def body_skip_def body_rest_def)
qed

lemma body_end_iff: "body_ok r \<Longrightarrow> body_end r = Inr () \<longleftrightarrow> body_rest r = []"
  by (auto simp: body_end_def body_ok_def body_rest_def)

locale response_field =
  fixes enc :: "'a \<Rightarrow> bytes"
    and read :: "body_reader \<Rightarrow> client_error + 'b \<times> body_reader"
    and view :: "'a \<Rightarrow> 'b"
    and ok :: "'a \<Rightarrow> bool"
  assumes reads: "ok x \<Longrightarrow> body_rest r = enc x @ rest \<Longrightarrow> read r = Inr (view x, body_skip (length (enc x)) r)"
begin

text \<open>Reading a field moves on to what follows it.\<close>

lemma read_step:
  assumes "body_ok r" and "body_rest r = enc x @ rest" and "ok x"
  obtains r' where "read r = Inr (view x, r')" and "body_rest r' = rest" and "body_ok r'"
proof
  show "read r = Inr (view x, body_skip (length (enc x)) r)" using assms(3,2) by (rule reads)
  show "body_rest (body_skip (length (enc x)) r) = rest" using assms(2) by (simp add: body_skip_simps)
  show "body_ok (body_skip (length (enc x)) r)"
  proof -
    have "length (br_bytes r) - br_offset r = length (enc x) + length rest"
      using assms(2) by (metis body_rest_def length_append length_drop)
    then show ?thesis using assms(1) by (simp add: body_ok_def body_skip_def)
  qed
qed

end

lemma body_number_reads:
  "length bs = n \<Longrightarrow> body_rest r = bs @ rest \<Longrightarrow> body_number n r = Inr (be_nat bs, body_skip (length bs) r)"
  using body_take_rest [of r bs rest] by (simp add: body_number_def)

lemma be_nat_word: "8 dvd LENGTH('a) \<Longrightarrow> be_nat (to_be_bytes (w :: 'a::len word)) = unat w"
  by (simp add: to_be_bytes_def be_nat_be_bytes byte_width)

interpretation u8_field: response_field "\<lambda>w. [w]" body_u8 unat "\<lambda>_. True"
proof unfold_locales
  fix w :: u8 and r rest assume "body_rest r = [w] @ rest"
  then show "body_u8 r = Inr (unat w, body_skip (length [w]) r)"
    using body_number_reads [of "[w]" 1 r rest] by (simp add: body_u8_def)
qed

interpretation u16_field: response_field "to_be_bytes :: u16 \<Rightarrow> bytes" body_u16 unat "\<lambda>_. True"
proof unfold_locales
  fix w :: u16 and r rest assume "body_rest r = to_be_bytes w @ rest"
  then show "body_u16 r = Inr (unat w, body_skip (length (to_be_bytes w)) r)"
    using body_number_reads [of "to_be_bytes w" 2 r rest] by (simp add: body_u16_def be_nat_word)
qed

interpretation u32_field: response_field "to_be_bytes :: u32 \<Rightarrow> bytes" body_u32 unat "\<lambda>_. True"
proof unfold_locales
  fix w :: u32 and r rest assume "body_rest r = to_be_bytes w @ rest"
  then show "body_u32 r = Inr (unat w, body_skip (length (to_be_bytes w)) r)"
    using body_number_reads [of "to_be_bytes w" 4 r rest] by (simp add: body_u32_def be_nat_word)
qed

interpretation u64_field: response_field "to_be_bytes :: u64 \<Rightarrow> bytes" body_u64 unat "\<lambda>_. True"
proof unfold_locales
  fix w :: u64 and r rest assume "body_rest r = to_be_bytes w @ rest"
  then show "body_u64 r = Inr (unat w, body_skip (length (to_be_bytes w)) r)"
    using body_number_reads [of "to_be_bytes w" 8 r rest] by (simp add: body_u64_def be_nat_word)
qed

interpretation flag_field: response_field "\<lambda>b. [if b then 1 else 0]" body_bool "\<lambda>b. b" "\<lambda>_. True"
proof unfold_locales
  fix b r rest assume "body_rest r = [if b then 1 else 0] @ rest"
  then show "body_bool r = Inr (b, body_skip (length [if b then 1 else 0 :: byte]) r)"
    using u8_field.reads [of r "if b then 1 else 0" rest] by (simp add: body_bool_def)
qed

interpretation text_field: response_field "put_string []" "body_string mx" to_text "string_ok mx" for mx
proof unfold_locales
  fix s r rest assume ok: "string_ok mx s" and r: "body_rest r = put_string [] s @ rest"
  let ?n = "of_nat (length s) :: u16"
  have n: "unat ?n = length s" using ok by (simp add: string_ok_def unat_of_nat_lt)
  have "body_u16 r = Inr (length s, body_skip 2 r)"
    using u16_field.reads [of r ?n "s @ rest"] r n by (simp add: put_string_def)
  moreover have "body_take (length s) (body_skip 2 r) = Inr (s, body_skip (length s) (body_skip 2 r))"
    using r by (intro body_take_rest [of _ _ rest]) (simp add: body_skip_simps put_string_def)
  ultimately show "body_string mx r = Inr (to_text s, body_skip (length (put_string [] s)) r)"
    using ok by (simp add: body_string_def decode_utf8_def string_ok_def body_skip_simps)
qed

definition encode_payload :: "bytes \<Rightarrow> bytes" where
  "encode_payload p = to_be_bytes (of_nat (length p) :: u32) @ p"

interpretation payload_field: response_field encode_payload body_payload "\<lambda>p. p" "\<lambda>p. length p \<le> MAX_PAYLOAD"
proof unfold_locales
  fix p r rest assume ok: "length p \<le> MAX_PAYLOAD" and r: "body_rest r = encode_payload p @ rest"
  let ?n = "of_nat (length p) :: u32"
  have n: "unat ?n = length p" using ok by (simp add: MAX_PAYLOAD_def unat_of_nat_lt)
  have "body_u32 r = Inr (length p, body_skip 4 r)"
    using u32_field.reads [of r ?n "p @ rest"] r n by (simp add: encode_payload_def)
  moreover have "body_take (length p) (body_skip 4 r) = Inr (p, body_skip (length p) (body_skip 4 r))"
    using r by (intro body_take_rest [of _ _ rest]) (simp add: body_skip_simps encode_payload_def)
  ultimately show "body_payload r = Inr (p, body_skip (length (encode_payload p)) r)"
    using ok by (simp add: body_payload_def body_skip_simps encode_payload_def max_payload_def MAX_PAYLOAD_def)
qed

section \<open>Single values\<close>

lemma hello_response: "parse_hello (to_be_bytes PROTOCOL) = Inr Done"
proof -
  obtain r where "body_u16 (body_reader_new (to_be_bytes PROTOCOL)) = Inr (unat PROTOCOL, r)" "body_rest r = []" "body_ok r"
    using u16_field.read_step [of "body_reader_new (to_be_bytes PROTOCOL)" PROTOCOL "[]"] by auto
  then show ?thesis using body_end_iff [of r] by (simp add: parse_hello_def PROTOCOL_def)
qed

lemma nothing_response: "parse_nothing [] = Inr Done"
  using body_end_iff [of "body_reader_new []"] by (simp add: parse_nothing_def)

lemma payload_response:
  assumes "length p \<le> MAX_PAYLOAD"
  shows "parse_payload (encode_payload p) = Inr (Payload p)"
proof -
  obtain r where "body_payload (body_reader_new (encode_payload p)) = Inr (p, r)" "body_rest r = []" "body_ok r"
    using payload_field.read_step [of "body_reader_new (encode_payload p)" p "[]"] assms by auto
  then show ?thesis using body_end_iff [of r] by (simp add: parse_payload_def)
qed

lemma job_response:
  assumes "job_call_id j \<noteq> 0" and "job_remaining_ms j \<le> 30000" and "length (job_payload j) \<le> MAX_PAYLOAD"
  shows "parse_job (job_encode j) = Inr (Job (Some
    \<lparr>cj_call_id = unat (job_call_id j), cj_remaining_ms = unat (job_remaining_ms j), cj_payload = job_payload j\<rparr>))"
proof -
  let ?r = "body_reader_new (job_encode j)"
  have "body_rest ?r = [if True then 1 else 0] @ to_be_bytes (job_call_id j) @ to_be_bytes (job_remaining_ms j)
      @ encode_payload (job_payload j) @ []"
    by (simp add: job_encode_def encode_payload_def)
  then obtain r1 where r1: "body_bool ?r = Inr (True, r1)" "body_ok r1"
      "body_rest r1 = to_be_bytes (job_call_id j) @ to_be_bytes (job_remaining_ms j) @ encode_payload (job_payload j) @ []"
    using flag_field.read_step [of ?r True] by auto
  obtain r2 where r2: "body_u64 r1 = Inr (unat (job_call_id j), r2)" "body_ok r2"
      "body_rest r2 = to_be_bytes (job_remaining_ms j) @ encode_payload (job_payload j) @ []"
    using u64_field.read_step [OF r1(2,3)] by auto
  obtain r3 where r3: "body_u32 r2 = Inr (unat (job_remaining_ms j), r3)" "body_ok r3"
      "body_rest r3 = encode_payload (job_payload j) @ []"
    using u32_field.read_step [OF r2(2,3)] by auto
  obtain r4 where "body_payload r3 = Inr (job_payload j, r4)" "body_ok r4" "body_rest r4 = []"
    using payload_field.read_step [OF r3(2,3) assms(3)] by auto
  then show ?thesis
    using r1(1) r2(1) r3(1) body_end_iff [of r4] assms(1,2)
    by (simp add: parse_job_def unat_eq_0 word_le_nat_alt)
qed

lemma no_job_response: "parse_job [0] = Inr (Job None)"
proof -
  obtain r where "body_bool (body_reader_new [0]) = Inr (False, r)" "body_rest r = []" "body_ok r"
    using flag_field.read_step [of "body_reader_new [0]" False "[]"] by auto
  then show ?thesis using body_end_iff [of r] by (simp add: parse_job_def)
qed

lemma receipt_response:
  assumes "1 \<le> n" "n \<le> 256" and "unat before + n < 2 ^ 64"
  shows "parse_receipt n (receipt (before + 1) (before + of_nat n) (of_nat n) durable)
    = Inr (Receipt (unat before + 1) (unat before + n) n durable)"
proof -
  let ?c = "of_nat n :: u16"
  let ?body = "to_be_bytes (before + 1) @ to_be_bytes (before + of_nat n) @ to_be_bytes ?c @ [if durable then 1 else 0]"
  have c: "ucast (of_nat n :: u64) = ?c"
    using assms(2) by (simp add: unsigned_of_nat take_bit_nat_eq_self)
  have body: "receipt (before + 1) (before + of_nat n) (of_nat n) durable = ?body" by (simp add: receipt_def c)
  have n: "unat (of_nat n :: u64) = n" "unat ?c = n" using assms(2) by (simp_all add: unat_of_nat_lt)
  have u: "unat (before + 1) = unat before + 1" "unat (before + of_nat n) = unat before + n"
    using assms(1,3) n by (simp_all add: unat_add_lt)
  let ?r = "body_reader_new ?body"
  obtain r1 where r1: "body_u64 ?r = Inr (unat before + 1, r1)" "body_ok r1"
      "body_rest r1 = to_be_bytes (before + of_nat n) @ to_be_bytes ?c @ [if durable then 1 else 0]"
    using u64_field.read_step [of ?r "before + 1"] u by auto
  obtain r2 where r2: "body_u64 r1 = Inr (unat before + n, r2)" "body_ok r2"
      "body_rest r2 = to_be_bytes ?c @ [if durable then 1 else 0]"
    using u64_field.read_step [OF r1(2,3)] u by auto
  obtain r3 where r3: "body_u16 r2 = Inr (n, r3)" "body_ok r3" "body_rest r3 = [if durable then 1 else 0] @ []"
    using u16_field.read_step [OF r2(2,3)] n by auto
  obtain r4 where "body_bool r3 = Inr (durable, r4)" "body_ok r4" "body_rest r4 = []"
    using flag_field.read_step [OF r3(2,3)] by auto
  then show ?thesis
    using r1(1) r2(1) r3(1) body_end_iff [of r4] by (simp add: parse_receipt_def body)
qed

lemma error_response:
  assumes "1 \<le> unat (err_code e)" "unat (err_code e) \<le> 12" and "string_ok 65535 (err_message e)"
  shows "parse_error (error_body e) = Inr (BrokerError (unat (err_code e)) (to_text (err_message e)))"
proof -
  let ?r = "body_reader_new (error_body e)"
  have "body_rest ?r = to_be_bytes (err_code e) @ put_string [] (err_message e) @ []"
    by (simp add: error_body_def put_string_def)
  then obtain r1 where r1: "body_u16 ?r = Inr (unat (err_code e), r1)" "body_ok r1"
      "body_rest r1 = put_string [] (err_message e) @ []"
    using u16_field.read_step [of ?r "err_code e"] by auto
  obtain r2 where "body_string 65535 r1 = Inr (to_text (err_message e), r2)" "body_ok r2" "body_rest r2 = []"
    using text_field.read_step [OF r1(2,3) assms(3)] by auto
  then show ?thesis using r1(1) body_end_iff [of r2] assms(1,2) by (simp add: parse_error_def)
qed

section \<open>Pages\<close>

definition client_view :: "event \<Rightarrow> client_event" where
  "client_view ev =
     \<lparr>ce_sequence = unat (ev_sequence ev), ce_topic = to_text (rec_topic (ev_record ev)),
      ce_key = to_text (rec_key (ev_record ev)), ce_payload = rec_payload (ev_record ev)\<rparr>"

definition encode_event :: "event \<Rightarrow> bytes" where
  "encode_event ev = to_be_bytes (ev_sequence ev) @ put_string [] (rec_topic (ev_record ev))
     @ put_string [] (rec_key (ev_record ev)) @ encode_payload (rec_payload (ev_record ev))"

lemma fetch_result_layout:
  "fetch_result_encode fr = to_be_bytes (fr_cursor fr) @ to_be_bytes (of_nat (length (fr_events fr)) :: u16)
     @ [if fr_has_more fr then 1 else 0] @ concat (map encode_event (fr_events fr))"
proof -
  have one: "encode_record (out @ to_be_bytes (ev_sequence ev)) (ev_record ev) = out @ encode_event ev" for out ev
    by (subst encode_record_out) (simp add: encode_record_parts encode_event_def encode_payload_def)
  have "foldl (\<lambda>out ev. encode_record (out @ to_be_bytes (ev_sequence ev)) (ev_record ev)) out evs
      = out @ concat (map encode_event evs)" for out evs
    by (induction evs arbitrary: out) (simp_all add: one)
  then show ?thesis by (simp add: fetch_result_encode_def)
qed

text \<open>Topics of the server as strings of the client.\<close>

lemma topic_byte_unit:
  assumes "topic_byte b"
  shows "topic_unit (of_nat (unat b)) \<and> (of_nat (unat b) :: u16) \<noteq> 0"
proof -
  have "unat (of_nat (unat b) :: u16) = unat b" using unat_lt [of b] by (intro unit_of_nat) simp
  then show ?thesis
    using assms by (auto simp: topic_byte_def is_ascii_alphanumeric_def topic_unit_def word_le_nat_alt word_unat_eq_iff
        simp del: unsigned_of_nat)
qed

lemma topic_text:
  assumes "valid_topic t"
  shows "topic_pattern (to_text t) \<and> 0 \<notin> set (to_text t)"
proof -
  define f where "f b = (of_nat (unat b) :: u16)" for b :: byte
  have ascii: "\<forall>b\<in>set t. b < 0x80" and t: "\<forall>b\<in>set t. topic_byte b"
    using assms by (auto simp: valid_topic_def list_all_iff intro: topic_byte_ascii)
  have u: "\<forall>b\<in>set t. topic_unit (f b) \<and> f b \<noteq> 0" using topic_byte_unit t unfolding f_def by blast
  have "to_text t = map f t" using to_text_ascii [OF ascii] unfolding f_def by blast
  then show ?thesis
    using assms u by (cases t) (auto simp: topic_pattern_def valid_topic_def list_all_iff)
qed

lemma topic_same: "valid_topic t \<Longrightarrow> topic_pattern s \<Longrightarrow> to_text t = s \<longleftrightarrow> t = buffer_from s"
proof -
  assume t: "valid_topic t" and s: "topic_pattern s"
  have "to_text (buffer_from s) = s"
  proof -
    have u: "list_all (\<lambda>u. unat u < 0x80) s" using s topic_unit_byte by (auto simp: topic_pattern_def list_all_iff)
    have "\<forall>b\<in>set (buffer_from s). b < 0x80"
      using topic_pattern_valid [OF s] by (auto simp: valid_topic_def list_all_iff intro: topic_byte_ascii)
    moreover have "of_nat (unat (of_nat (unat x) :: byte)) = x" if "unat x < 0x80" for x :: u16
    proof -
      have "unat (of_nat (unat x) :: byte) = unat x" using that by (intro byte_of_nat) simp
      then show ?thesis by (simp only: of_nat_unat ucast_id)
    qed
    ultimately show ?thesis
      using u by (simp add: to_text_ascii buffer_from_ascii [OF u] map_idI list_all_iff)
  qed
  then show ?thesis using buffer_from_to_text [OF valid_topic_utf8 [OF t]] by metis
qed

text \<open>The identity by which the client looks for duplicates tells keys of the server apart.\<close>

definition identity :: "event \<Rightarrow> js_string" where
  "identity ev = to_text (rec_topic (ev_record ev)) @ [0] @ to_text (rec_key (ev_record ev))"

lemma split_at_zero: "0 \<notin> set xs \<Longrightarrow> 0 \<notin> set xs' \<Longrightarrow> xs @ 0 # ys = xs' @ 0 # ys' \<Longrightarrow> xs = xs' \<and> ys = ys'"
proof (induction xs arbitrary: xs')
  case Nil
  then show ?case by (cases xs') auto
next
  case (Cons x xs)
  then show ?case by (cases xs') auto
qed

lemma identity_key:
  assumes "record_ok (ev_record x)" "record_ok (ev_record y)"
  shows "identity x = identity y \<longleftrightarrow> event_key x = event_key y"
proof
  assume e: "identity x = identity y"
  have t: "valid_topic (rec_topic (ev_record x))" "valid_topic (rec_topic (ev_record y))"
    "utf8_valid (rec_key (ev_record x))" "utf8_valid (rec_key (ev_record y))"
    using assms by (simp_all add: record_ok_def)
  have "to_text (rec_topic (ev_record x)) = to_text (rec_topic (ev_record y))
      \<and> to_text (rec_key (ev_record x)) = to_text (rec_key (ev_record y))"
    by (rule split_at_zero) (use topic_text [OF t(1)] topic_text [OF t(2)] e in \<open>simp_all add: identity_def\<close>)
  then show "event_key x = event_key y"
    using to_text_inj valid_topic_utf8 t by (auto simp: event_key_def)
qed (simp add: identity_def event_key_def)

text \<open>What the client asks of the events of a page.\<close>

definition page_events_ok :: "expected_page \<Rightarrow> nat \<Rightarrow> nat \<Rightarrow> js_string set \<Rightarrow> event list \<Rightarrow> bool" where
  "page_events_ok ep page_cursor previous seen evs =
     ((\<forall>ev\<in>set evs. record_ok (ev_record ev) \<and> previous < unat (ev_sequence ev) \<and> unat (ev_sequence ev) \<le> page_cursor
         \<and> (ep_topic ep \<noteq> js ''*'' \<longrightarrow> to_text (rec_topic (ev_record ev)) = ep_topic ep)
         \<and> (ep_latest ep \<and> rec_key (ev_record ev) \<noteq> [] \<longrightarrow> identity ev \<notin> seen))
      \<and> sorted_wrt (\<lambda>x y. ev_sequence x < ev_sequence y) evs
      \<and> (ep_latest ep \<longrightarrow> distinct (map identity (filter (\<lambda>ev. rec_key (ev_record ev) \<noteq> []) evs))))"

lemma page_loop_reads:
  assumes "page_events_ok ep page_cursor previous (set keys) evs"
    and "body_ok r" and "body_rest r = concat (map encode_event evs) @ rest"
  shows "\<exists>r'. page_loop ep page_cursor (length evs) previous keys acc r = Inr (acc @ map client_view evs, r')
    \<and> body_ok r' \<and> body_rest r' = rest"
  using assms
proof (induction evs arbitrary: previous keys acc r)
  case (Cons ev evs)
  let ?rec = "ev_record ev"
  have ok: "record_ok ?rec" "previous < unat (ev_sequence ev)" "unat (ev_sequence ev) \<le> page_cursor"
    "ep_topic ep \<noteq> js ''*'' \<longrightarrow> to_text (rec_topic ?rec) = ep_topic ep"
    "ep_latest ep \<and> rec_key ?rec \<noteq> [] \<longrightarrow> identity ev \<notin> set keys"
    using Cons.prems(1) by (auto simp: page_events_ok_def)
  have s: "string_ok 255 (rec_topic ?rec)" "string_ok 1024 (rec_key ?rec)" "length (rec_payload ?rec) \<le> MAX_PAYLOAD"
    "valid_topic (rec_topic ?rec)" "utf8_valid (rec_key ?rec)"
    using ok(1) string_ok_topic by (auto simp: record_ok_def string_ok_def)
  let ?rest = "concat (map encode_event evs) @ rest"
  have "body_rest r = to_be_bytes (ev_sequence ev) @ put_string [] (rec_topic ?rec) @ put_string [] (rec_key ?rec)
      @ encode_payload (rec_payload ?rec) @ ?rest"
    using Cons.prems(3) by (simp add: encode_event_def [of ev])
  then obtain r1 where r1: "body_u64 r = Inr (unat (ev_sequence ev), r1)" "body_ok r1"
      "body_rest r1 = put_string [] (rec_topic ?rec) @ put_string [] (rec_key ?rec) @ encode_payload (rec_payload ?rec) @ ?rest"
    using u64_field.read_step [OF Cons.prems(2)] by blast
  obtain r2 where r2: "body_string 255 r1 = Inr (to_text (rec_topic ?rec), r2)" "body_ok r2"
      "body_rest r2 = put_string [] (rec_key ?rec) @ encode_payload (rec_payload ?rec) @ ?rest"
    using text_field.read_step [OF r1(2,3) s(1)] by blast
  obtain r3 where r3: "body_string 1024 r2 = Inr (to_text (rec_key ?rec), r3)" "body_ok r3"
      "body_rest r3 = encode_payload (rec_payload ?rec) @ ?rest"
    using text_field.read_step [OF r2(2,3) s(2)] by blast
  obtain r4 where r4: "body_payload r3 = Inr (rec_payload ?rec, r4)" "body_ok r4" "body_rest r4 = ?rest"
    using payload_field.read_step [OF r3(2,3) s(3)] by blast
  have key: "to_text (rec_key ?rec) \<noteq> [] \<longleftrightarrow> rec_key ?rec \<noteq> []"
    using to_text_inj [OF s(5), of "[]"] by simp
  let ?keys = "if ep_latest ep \<and> rec_key ?rec \<noteq> [] then identity ev # keys else keys"
  have p: "\<forall>x\<in>set evs. record_ok (ev_record x) \<and> unat (ev_sequence x) \<le> page_cursor
      \<and> (ep_topic ep \<noteq> js ''*'' \<longrightarrow> to_text (rec_topic (ev_record x)) = ep_topic ep)
      \<and> (ep_latest ep \<and> rec_key (ev_record x) \<noteq> [] \<longrightarrow> identity x \<notin> set keys)"
    "\<forall>x\<in>set evs. ev_sequence ev < ev_sequence x" "sorted_wrt (\<lambda>x y. ev_sequence x < ev_sequence y) evs"
    using Cons.prems(1) unfolding page_events_ok_def by simp_all
  have d: "ep_latest ep \<longrightarrow> distinct (map identity (filter (\<lambda>ev. rec_key (ev_record ev) \<noteq> []) (ev # evs)))"
    using Cons.prems(1) unfolding page_events_ok_def by blast
  have "identity x \<notin> set ?keys" if "x \<in> set evs" "ep_latest ep" "rec_key (ev_record x) \<noteq> []" for x
    using p(1) d that by (cases "rec_key ?rec = []") (auto intro: rev_image_eqI)
  then have "page_events_ok ep page_cursor (unat (ev_sequence ev)) (set ?keys) evs"
    using p d unfolding page_events_ok_def word_less_nat_alt by (simp split: if_splits)
  from Cons.IH [OF this r4(2,3), of "acc @ [client_view ev]"] obtain r' where
    "page_loop ep page_cursor (length evs) (unat (ev_sequence ev)) ?keys (acc @ [client_view ev]) r4
       = Inr (acc @ map client_view (ev # evs), r')" "body_ok r'" "body_rest r' = rest"
    by auto
  moreover have "page_loop ep page_cursor (length (ev # evs)) previous keys acc r
      = page_loop ep page_cursor (length evs) (unat (ev_sequence ev)) ?keys (acc @ [client_view ev]) r4"
    using r1(1) r2(1) r3(1) r4(1) ok(2-5) topic_text [OF s(4)] key
    by (auto simp: client_view_def identity_def)
  ultimately show ?case by simp
qed simp

text \<open>What a call of \<open>fetch\<close> keeps to check the response is the request it has sent.\<close>

definition page_request :: "expected_page \<Rightarrow> fetch_request \<Rightarrow> bool" where
  "page_request ep rq =
     (fetch_topic rq = buffer_from (ep_topic ep) \<and> (ep_topic ep = js ''*'' \<or> topic_pattern (ep_topic ep))
      \<and> unat (fetch_after rq) = ep_after ep \<and> fetch_limit rq = ep_limit ep \<and> fetch_max_bytes rq = ep_max_bytes ep
      \<and> fetch_latest rq = ep_latest ep \<and> 1 \<le> ep_limit ep \<and> ep_limit ep \<le> 256)"

lemma fetch_call_page:
  assumes "fetch_call topic opts = Inr (op, body, ex)"
  obtains ep rq where "ex = ExpectPage ep" "call_request (CallFetch topic opts) = Fetch rq" "page_request ep rq"
proof -
  obtain t n b where f: "topic_bytes topic True = Inr t"
    "integer (case fo_limit opts of None \<Rightarrow> Whole 128 | Some n \<Rightarrow> n) 1 256 (js ''limit'') = Inr n"
    "integer (case fo_max_bytes opts of None \<Rightarrow> Whole (int max_fetch_bytes) | Some n \<Rightarrow> n) 1 max_fetch_bytes (js ''maxBytes'') = Inr b"
    and a: "\<not> (case fo_after opts of None \<Rightarrow> 0 | Some a \<Rightarrow> a) > int max_u64"
    and ex: "ex = ExpectPage \<lparr>ep_topic = topic, ep_after = nat (case fo_after opts of None \<Rightarrow> 0 | Some a \<Rightarrow> a),
      ep_limit = n, ep_max_bytes = b, ep_latest = ((case fo_mode opts of None \<Rightarrow> js ''all'' | Some m \<Rightarrow> m) = js ''latest'')\<rparr>"
    using assms unfolding fetch_call_def Let_def and_then_eq_Inr by (auto simp: and_then_eq_Inr split: if_splits)
  let ?a = "nat (case fo_after opts of None \<Rightarrow> 0 | Some a \<Rightarrow> a)"
  have "?a < 2 ^ 64" using a by (simp add: max_u64_def)
  then have after: "unat (of_nat ?a :: u64) = ?a" by (intro unat_of_nat_lt) simp
  have topic: "topic = js ''*'' \<or> topic_pattern topic" using f(1) by (auto simp: topic_bytes_def split: if_splits)
  have mode: "(case fo_mode opts of None \<Rightarrow> js ''all'' | Some m \<Rightarrow> m) = js ''latest'' \<longleftrightarrow> fo_mode opts = Some (js ''latest'')"
    by (cases "fo_mode opts") (simp_all add: js_def)
  show thesis
    using that [OF ex call_request.simps(7)] topic mode after whole_option [OF f(2), of 128] whole_option [OF f(3), of max_fetch_bytes]
    by (simp add: page_request_def)
qed

lemma events_record_ok: "store_ok s \<Longrightarrow> ev \<in> set (events s) \<Longrightarrow> record_ok (ev_record ev)"
  by (auto simp: store_ok_fields history_def list_all_iff)

lemma visible_identities:
  assumes "fetch_latest rq" and "\<forall>ev\<in>set evs. record_ok (ev_record ev)"
  shows "distinct (map identity (filter (\<lambda>ev. rec_key (ev_record ev) \<noteq> []) (visible rq evs)))"
  using assms(2)
proof (induction evs)
  case (Cons ev evs)
  have "identity ev \<notin> identity ` {x \<in> set (visible rq evs). rec_key (ev_record x) \<noteq> []}"
    if "\<not> superseded rq ev evs" "rec_key (ev_record ev) \<noteq> []"
    using that visible_set [of _ rq evs] Cons.prems identity_key
    by (auto simp: superseded_def coalesces_def assms(1))
  then show ?case using Cons by auto
qed simp

lemma page_response:
  assumes ok: "store_ok s" and rq: "page_request ep rq" and fetched: "fetch rq s = Some (Inr fr, s')"
  shows "parse_page ep (fetch_result_encode fr)
    = Inr (Page (unat (fr_cursor fr)) (map client_view (fr_events fr)) (fr_has_more fr))"
proof -
  have limit: "0 < fetch_limit rq" using rq by (simp add: page_request_def)
  have spec: "fetch_spec rq s = Inr fr" using fetch_some [OF ok limit fetched] by simp
  obtain seen rest where page: "fetch_after rq \<le> last_sequence s" "seen = scanned rq [] (window rq s)" "fr_events fr = visible rq seen"
    "unat (fr_cursor fr) = unat (fetch_after rq) + length seen" "fr_has_more fr \<longleftrightarrow> fr_cursor fr < last_sequence s"
    using fetch_spec_Inr [OF ok spec] by metis
  obtain seen' where range: "fr_events fr = visible rq seen'" "increasing seen'"
    "\<And>ev. ev \<in> set seen' \<longleftrightarrow> ev \<in> set (events s) \<and> fetch_after rq < ev_sequence ev \<and> ev_sequence ev \<le> fr_cursor fr"
    using fetch_spec_range [OF ok spec] by metis
  have fits: "fits_budget rq seen" unfolding page(2) by (rule scanned_fits) simp
  then have small: "length (fr_events fr) \<le> 256" "length (fr_events fr) \<le> ep_limit ep" "total_bytes (fr_events fr) \<le> ep_max_bytes ep"
    using rq by (simp_all add: fits_budget_def page(3) page_request_def)
  have recs: "\<forall>ev\<in>set (fr_events fr). record_ok (ev_record ev) \<and> fetch_after rq < ev_sequence ev \<and> ev_sequence ev \<le> fr_cursor fr
      \<and> topic_matches rq ev"
    using range(1,3) visible_set events_record_ok [OF ok] by metis
  have topics: "to_text (rec_topic (ev_record ev)) = ep_topic ep" if "ev \<in> set (fr_events fr)" "ep_topic ep \<noteq> js ''*''" for ev
  proof -
    have "topic_pattern (ep_topic ep)" using rq that(2) by (simp add: page_request_def)
    moreover have "valid_topic (rec_topic (ev_record ev))" using recs that(1) by (simp add: record_ok_def)
    moreover have "buffer_from (ep_topic ep) \<noteq> str ''*''"
      using topic_pattern_valid [OF calculation(1)]
      by (auto simp: valid_topic_def str_def topic_byte_def is_ascii_alphanumeric_def word_le_nat_alt)
    ultimately show ?thesis using recs that(1) rq topic_same by (auto simp: topic_matches_def page_request_def)
  qed
  have "distinct (map identity (filter (\<lambda>ev. rec_key (ev_record ev) \<noteq> []) (fr_events fr)))" if "ep_latest ep"
    using visible_identities [of rq seen'] range events_record_ok [OF ok] rq that by (auto simp: page_request_def)
  moreover have "sorted_wrt (\<lambda>x y. ev_sequence x < ev_sequence y) (fr_events fr)"
    using increasing_visible [OF range(2), of rq] unfolding increasing_def range(1) .
  ultimately have events_ok: "page_events_ok ep (unat (fr_cursor fr)) (ep_after ep) {} (fr_events fr)"
    using recs topics rq by (simp add: page_events_ok_def page_request_def word_less_nat_alt word_le_nat_alt)
  let ?body = "fetch_result_encode fr" and ?n = "of_nat (length (fr_events fr)) :: u16"
  have n: "unat ?n = length (fr_events fr)" using small(1) by (simp add: unat_of_nat_lt)
  obtain r1 where r1: "body_u64 (body_reader_new ?body) = Inr (unat (fr_cursor fr), r1)" "body_ok r1"
      "body_rest r1 = to_be_bytes ?n @ [if fr_has_more fr then 1 else 0] @ concat (map encode_event (fr_events fr)) @ []"
    using u64_field.read_step [of "body_reader_new ?body" "fr_cursor fr"] by (auto simp: fetch_result_layout)
  obtain r2 where r2: "body_u16 r1 = Inr (length (fr_events fr), r2)" "body_ok r2"
      "body_rest r2 = [if fr_has_more fr then 1 else 0] @ concat (map encode_event (fr_events fr)) @ []"
    using u16_field.read_step [OF r1(2,3)] n by auto
  obtain r3 where r3: "body_bool r2 = Inr (fr_has_more fr, r3)" "body_ok r3"
      "body_rest r3 = concat (map encode_event (fr_events fr)) @ []"
    using flag_field.read_step [OF r2(2,3)] by blast
  obtain r4 where r4: "page_loop ep (unat (fr_cursor fr)) (length (fr_events fr)) (ep_after ep) [] [] r3
      = Inr (map client_view (fr_events fr), r4)" "body_ok r4" "body_rest r4 = []"
    using page_loop_reads [of ep "unat (fr_cursor fr)" "ep_after ep" "[]" "fr_events fr" r3 "[]" "[]"] events_ok r3(2,3) by auto
  have "unat (fr_cursor fr) \<noteq> ep_after ep" if "fr_has_more fr"
  proof -
    have "fr_cursor fr < last_sequence s" using that page(5) by simp
    moreover have "fetch_after rq \<le> fr_cursor fr" using page(4) by (simp add: word_le_nat_alt)
    ultimately have "fetch_after rq < fr_cursor fr" by (intro fetch_spec_progress [OF ok spec]) simp
    then show ?thesis using rq by (simp add: page_request_def word_less_nat_alt)
  qed
  moreover have "\<not> unat (fr_cursor fr) < ep_after ep" using page(4) rq by (simp add: page_request_def)
  moreover have "length ?body - 11 \<le> ep_max_bytes ep" using small(3) by (simp add: fetch_result_encode_length)
  ultimately show ?thesis
    using r1(1) r2(1) r3(1) r4 small(2) body_end_iff [of r4] by (auto simp: parse_page_def)
qed

end
