(* ===== verification/Client.thy ===== *)
theory Client
  imports Client_Calls Hash_Map
begin

text \<open>
  The connection of the TypeScript client, the class \<open>Client\<close> of \<open>packages/client/src/index.ts\<close>: the
  requests it has in flight, its queue of frames, and what the events of its socket and its timers
  do to them. A promise is a number; what it was resolved or rejected with is in \<open>ts_settled\<close>.
  The services, child clients and observers that \<open>fail\<close> also informs are not part of the model.
\<close>

section \<open>State\<close>

record pending_request =
  pd_opcode :: u8
  pd_promise :: nat
  pd_expect :: expectation

record ts_client =
  ts_pending :: "(nat \<times> pending_request) list"
  ts_write_queue :: "bytes list"
  ts_written :: "bytes list"
  ts_blocked :: bool
  ts_closed :: bool
  ts_next_id :: nat
  ts_close_reason :: client_error
  ts_decoder :: frame_decoder
  ts_max_pending :: nat
  ts_promises :: nat
  ts_settled :: "(nat \<times> (client_error + client_value)) list"

definition closed_error :: client_error where
  "closed_error = ConnectionClosedError
     (js ''Nodara connection is closed; unfinished operations may have an unknown outcome'')"

definition ended_error :: client_error where
  "ended_error = ConnectionClosedError
     (js ''Nodara peer ended the connection; publication outcome may be unknown'')"

definition timed_out_error :: client_error where
  "timed_out_error = RequestTimeoutError
     (js ''Nodara transport request timed out; connection closed and operation outcome may be unknown'')"

definition ts_new :: "nat \<Rightarrow> ts_client" where
  "ts_new max_pending =
     \<lparr>ts_pending = [], ts_write_queue = [], ts_written = [], ts_blocked = False, ts_closed = False,
      ts_next_id = 1, ts_close_reason = closed_error, ts_decoder = decoder_new,
      ts_max_pending = max_pending, ts_promises = 0, ts_settled = []\<rparr>"

section \<open>Failing\<close>

definition ts_fail :: "client_error \<Rightarrow> ts_client \<Rightarrow> ts_client" where
  "ts_fail reason c =
     (if ts_closed c then c
      else c\<lparr>ts_closed := True, ts_close_reason := reason,
             ts_settled := ts_settled c @ map (\<lambda>(i, p). (pd_promise p, Inl reason)) (ts_pending c),
             ts_pending := [], ts_write_queue := []\<rparr>)"

section \<open>Sending\<close>

text \<open>What \<open>socket.write\<close> answers to the \<open>n\<close>-th frame: go on, wait for the drain, or an exception.\<close>

datatype write_answer = Accepted | Full | Threw client_error

function ts_flush :: "(nat \<Rightarrow> write_answer) \<Rightarrow> ts_client \<Rightarrow> ts_client" where
  "ts_flush socket c =
     (if ts_closed c \<or> ts_blocked c \<or> ts_write_queue c = [] then c
      else
        let frame = hd (ts_write_queue c);
            c = c\<lparr>ts_write_queue := tl (ts_write_queue c)\<rparr>
        in case socket (length (ts_written c)) of
             Accepted \<Rightarrow> ts_flush socket (c\<lparr>ts_written := ts_written c @ [frame], ts_blocked := False\<rparr>)
           | Full \<Rightarrow> ts_flush socket (c\<lparr>ts_written := ts_written c @ [frame], ts_blocked := True\<rparr>)
           | Threw e \<Rightarrow> ts_flush socket (ts_fail e c))"
  by pat_completeness auto
termination
  by (relation "measure (\<lambda>(socket, c). length (ts_write_queue c))") (auto simp: ts_fail_def)

declare ts_flush.simps [simp del]

definition ts_ensure_capacity :: "ts_client \<Rightarrow> client_error + unit" where
  "ts_ensure_capacity c =
     (if ts_closed c then Inl (ts_close_reason c)
      else if length (ts_pending c) \<ge> ts_max_pending c then Inl BackpressureError
      else Inr ())"

definition next_id :: "nat \<Rightarrow> nat" where
  "next_id i = (if i = 0xffffffff then 1 else i + 1)"

partial_function (option) free_id :: "(nat \<times> pending_request) list \<Rightarrow> nat \<Rightarrow> nat option" where
  "free_id requests i = (if hm_get requests i \<noteq> None then free_id requests (next_id i) else Some i)"

text \<open>\<open>send\<close>: the promise it returns, or the error it is rejected with; \<open>None\<close> if it finds no identifier.\<close>

definition ts_send ::
  "(nat \<Rightarrow> write_answer) \<Rightarrow> u8 \<times> bytes \<times> expectation \<Rightarrow> ts_client \<Rightarrow> ((client_error + nat) \<times> ts_client) option" where
  "ts_send socket rq c = (case rq of (opcode, body, expected) \<Rightarrow>
     (case ts_ensure_capacity c of
        Inl e \<Rightarrow> Some (Inl e, c)
      | Inr _ \<Rightarrow>
          (case free_id (ts_pending c) (ts_next_id c) of
             None \<Rightarrow> None
           | Some i \<Rightarrow>
               (let c = c\<lparr>ts_next_id := next_id i\<rparr>
                in case client_envelope opcode i body of
                     Inl e \<Rightarrow> Some (Inl e, c)
                   | Inr frame \<Rightarrow>
                       (let p = ts_promises c;
                            c = c\<lparr>ts_promises := p + 1,
                                  ts_pending := hm_insert i \<lparr>pd_opcode = opcode, pd_promise = p, pd_expect = expected\<rparr> (ts_pending c),
                                  ts_write_queue := ts_write_queue c @ [frame]\<rparr>
                        in Some (Inr p, ts_flush socket c))))))"

section \<open>Receiving\<close>

definition ts_settle :: "nat \<Rightarrow> client_error + client_value \<Rightarrow> ts_client \<Rightarrow> ts_client" where
  "ts_settle i outcome c =
     (case hm_get (ts_pending c) i of
        None \<Rightarrow> c
      | Some p \<Rightarrow> c\<lparr>ts_pending := hm_remove i (ts_pending c), ts_settled := ts_settled c @ [(pd_promise p, outcome)]\<rparr>)"

text \<open>\<open>receive\<close>, with what it throws; the decoder hands it frames of at least five bytes.\<close>

definition ts_receive :: "(js_string \<Rightarrow> js_value option) \<Rightarrow> bytes \<Rightarrow> ts_client \<Rightarrow> client_error option \<times> ts_client" where
  "ts_receive json_parse frame c =
     (if ts_closed c then (None, c)
      else
        let opcode = frame ! 0;
            i = be_nat (take 4 (drop 1 frame));
            body = drop 5 frame
        in case hm_get (ts_pending c) i of
             None \<Rightarrow> (Some (ProtocolError (js ''Response has an unknown request ID'')), c)
           | Some p \<Rightarrow>
               if i = 0 then (Some (ProtocolError (js ''Response has an unknown request ID'')), c)
               else if opcode \<noteq> 0xff \<and> opcode \<noteq> or (pd_opcode p) 0x80
               then (Some (ProtocolError (js ''Response opcode does not match request'')), c)
               else if opcode = 0xff
               then (case parse_error body of
                       Inl e \<Rightarrow> (Some e, c)
                     | Inr e \<Rightarrow> (None, ts_settle i (Inl e) c))
               else (case parse_response json_parse (pd_expect p) body of
                       Inl e \<Rightarrow> (Some e, c)
                     | Inr v \<Rightarrow> (None, ts_settle i (Inr v) c)))"

text \<open>The listener for data: what the decoder or \<open>receive\<close> throws ends the connection.\<close>

definition ts_data :: "(js_string \<Rightarrow> js_value option) \<Rightarrow> bytes \<Rightarrow> ts_client \<Rightarrow> ts_client option" where
  "ts_data json_parse chunk c =
     (if ts_closed c then Some c
      else case push (ts_receive json_parse) chunk (ts_decoder c) c of
        None \<Rightarrow> None
      | Some (None, d, c) \<Rightarrow> Some (c\<lparr>ts_decoder := d\<rparr>)
      | Some (Some e, d, c) \<Rightarrow> Some (ts_fail e (c\<lparr>ts_decoder := d\<rparr>)))"

text \<open>The other listeners, the timer of a request, which is cleared when the request settles, and \<open>close\<close>.\<close>

definition ts_drain :: "(nat \<Rightarrow> write_answer) \<Rightarrow> ts_client \<Rightarrow> ts_client" where
  "ts_drain socket c = ts_flush socket (c\<lparr>ts_blocked := False\<rparr>)"

definition ts_timer :: "nat \<Rightarrow> ts_client \<Rightarrow> ts_client" where
  "ts_timer i c = (if hm_get (ts_pending c) i = None then c else ts_fail timed_out_error c)"

definition ts_socket_error :: "client_error \<Rightarrow> ts_client \<Rightarrow> ts_client" where
  "ts_socket_error e c = ts_fail e c"

definition ts_socket_end :: "ts_client \<Rightarrow> ts_client" where
  "ts_socket_end c = ts_fail ended_error c"

definition ts_socket_close :: "ts_client \<Rightarrow> ts_client" where
  "ts_socket_close c = ts_fail (ts_close_reason c) c"

definition ts_close :: "ts_client \<Rightarrow> ts_client" where
  "ts_close c = ts_fail closed_error c"

section \<open>Steps\<close>

datatype ts_event =
    TsSend "u8 \<times> bytes \<times> expectation" "client_error + nat"
  | TsData bytes
  | TsDrain
  | TsTimer nat
  | TsError client_error
  | TsEnd
  | TsSocketClosed
  | TsClose

inductive ts_step ::
  "(js_string \<Rightarrow> js_value option) \<Rightarrow> (nat \<Rightarrow> write_answer) \<Rightarrow> ts_client \<Rightarrow> ts_event \<Rightarrow> ts_client \<Rightarrow> bool"
  for json_parse socket where
  send: "ts_send socket rq c = Some (r, c') \<Longrightarrow> ts_step json_parse socket c (TsSend rq r) c'"
| data: "ts_data json_parse chunk c = Some c' \<Longrightarrow> ts_step json_parse socket c (TsData chunk) c'"
| drain: "ts_step json_parse socket c TsDrain (ts_drain socket c)"
| timer: "ts_step json_parse socket c (TsTimer i) (ts_timer i c)"
| socket_error: "ts_step json_parse socket c (TsError e) (ts_socket_error e c)"
| socket_end: "ts_step json_parse socket c TsEnd (ts_socket_end c)"
| socket_closed: "ts_step json_parse socket c TsSocketClosed (ts_socket_close c)"
| close: "ts_step json_parse socket c TsClose (ts_close c)"

end
