(* ===== verification/Client_Session.thy ===== *)
theory Client_Session
  imports Client Transition "HOL-Library.Multiset"
begin

text \<open>
  The invariant of a connection of the client, over every order of sends, chunks of data, timers and
  events of the socket: identifiers are those of frames, at most as many requests are in flight as
  configured, every promise is either in flight or has been settled exactly once, and a closed
  client has nothing in flight. \<open>send\<close> always finds a free identifier.
\<close>

section \<open>Identifiers\<close>

definition id_range :: "nat \<Rightarrow> bool" where
  "id_range i = (1 \<le> i \<and> i \<le> 0xffffffff)"

definition id_after :: "nat \<Rightarrow> nat \<Rightarrow> nat" where
  "id_after i k = (i - 1 + k) mod 0xffffffff + 1"

lemma id_after_0:
  assumes "id_range i"
  shows "id_after i 0 = i"
proof -
  have "i - 1 < 0xffffffff" "1 \<le> i" using assms unfolding id_range_def by linarith+
  then show ?thesis unfolding id_after_def by simp
qed

lemma id_after_range: "id_range (id_after i k)"
proof -
  have "(i - 1 + k) mod 0xffffffff < 0xffffffff" by (rule mod_less_divisor) simp
  then show ?thesis unfolding id_range_def id_after_def by linarith
qed

lemma id_after_Suc: "id_after i (Suc k) = next_id (id_after i k)"
proof -
  have "Suc (i - 1 + k) mod 0xffffffff
      = (if Suc ((i - 1 + k) mod 0xffffffff) = 0xffffffff then 0 else Suc ((i - 1 + k) mod 0xffffffff))"
    by (rule mod_Suc)
  then show ?thesis by (simp add: id_after_def next_id_def)
qed

lemma id_after_next: "id_range i \<Longrightarrow> id_after (next_id i) k = id_after i (Suc k)"
proof (induction k)
  case 0
  then show ?case using id_after_Suc [of i 0] id_after_0 [of i] id_after_0 [of "next_id i"] id_after_range [of i 1] by simp
next
  case (Suc k)
  then show ?case by (simp add: id_after_Suc)
qed

lemma id_after_inj: "inj_on (id_after i) {..<0xffffffff}"
proof (rule inj_onI)
  fix j k :: nat
  assume jk: "j \<in> {..<0xffffffff}" "k \<in> {..<0xffffffff}" and eq: "id_after i j = id_after i k"
  have "(i - 1 + j) mod 0xffffffff = (i - 1 + k) mod 0xffffffff" using eq by (simp add: id_after_def)
  then have "j mod 0xffffffff = k mod 0xffffffff" by (simp add: nat_mod_eq_iff)
  then show "j = k" using jk by simp
qed

lemma free_id_after:
  assumes "id_range i" and "\<forall>j<k. hm_get m (id_after i j) \<noteq> None" and "hm_get m (id_after i k) = None"
  shows "free_id m i = Some (id_after i k)"
  using assms
proof (induction k arbitrary: i)
  case 0
  then show ?case by (subst free_id.simps) (simp add: id_after_0)
next
  case (Suc k)
  have taken: "hm_get m i \<noteq> None" using Suc.prems(1,2) id_after_0 [of i] by force
  have r: "id_range (next_id i)" using id_after_range [of i 1] id_after_Suc [of i 0] id_after_0 [OF Suc.prems(1)] by simp
  have "free_id m (next_id i) = Some (id_after (next_id i) k)"
    using Suc.prems by (intro Suc.IH [OF r]) (auto simp: id_after_next [OF Suc.prems(1)])
  then show ?case using taken by (subst free_id.simps) (simp add: id_after_next [OF Suc.prems(1)])
qed

text \<open>With fewer requests in flight than identifiers, the search ends at one that is free.\<close>

lemma free_id_found:
  assumes "id_range i" and "hm_ok m" and "length m < 0xffffffff"
  shows "\<exists>j. free_id m i = Some j \<and> id_range j \<and> hm_get m j = None"
proof -
  let ?P = "\<lambda>k. hm_get m (id_after i k) = None"
  have "\<exists>k<0xffffffff. ?P k"
  proof (rule ccontr)
    assume "\<not> (\<exists>k<0xffffffff. ?P k)"
    then have "id_after i ` {..<0xffffffff} \<subseteq> set (map fst m)"
      by (force simp: hm_get_def map_of_eq_None_iff)
    then have "card (id_after i ` {..<0xffffffff}) \<le> card (set (map fst m))" by (rule card_mono [OF finite_set])
    also have "\<dots> \<le> length m" using card_length [of "map fst m"] by simp
    finally show False using assms(3) card_image [OF id_after_inj, of i] by simp
  qed
  then obtain k0 where "?P k0" by blast
  then have p: "?P (LEAST k. ?P k)" by (rule LeastI)
  have "\<forall>j<(LEAST k. ?P k). hm_get m (id_after i j) \<noteq> None" using not_less_Least by blast
  then have "free_id m i = Some (id_after i (LEAST k. ?P k))" using p by (rule free_id_after [OF assms(1)])
  then show ?thesis using p id_after_range by blast
qed

section \<open>The invariant\<close>

definition promise_of :: "nat \<times> pending_request \<Rightarrow> nat" where
  "promise_of q = pd_promise (snd q)"

text \<open>Every promise that was ever made is in flight or settled, and is so once.\<close>

definition promises_ok :: "ts_client \<Rightarrow> bool" where
  "promises_ok c =
     (mset (map promise_of (ts_pending c) @ map fst (ts_settled c)) = mset [0..<ts_promises c])"

definition ts_core :: "ts_client \<Rightarrow> bool" where
  "ts_core c =
     (hm_ok (ts_pending c) \<and> (\<forall>i\<in>set (map fst (ts_pending c)). id_range i) \<and> id_range (ts_next_id c)
      \<and> length (ts_pending c) \<le> ts_max_pending c \<and> ts_max_pending c \<le> 256 \<and> promises_ok c
      \<and> (ts_closed c \<longrightarrow> ts_pending c = [] \<and> ts_write_queue c = []))"

definition ts_ok :: "ts_client \<Rightarrow> bool" where
  "ts_ok c = (ts_core c \<and> (ts_closed c \<or> decoder_ok (ts_decoder c)))"

lemma ts_ok_new: "n \<le> 256 \<Longrightarrow> ts_ok (ts_new n)"
  by (simp add: ts_ok_def ts_core_def ts_new_def promises_ok_def id_range_def decoder_new_ok)

lemma ts_core_cong:
  assumes "ts_core c" and "ts_pending c' = ts_pending c" "ts_next_id c' = ts_next_id c" "ts_max_pending c' = ts_max_pending c"
    "ts_settled c' = ts_settled c" "ts_promises c' = ts_promises c" "ts_closed c' = ts_closed c"
    "ts_closed c \<Longrightarrow> ts_write_queue c' = ts_write_queue c"
  shows "ts_core c'"
  using assms unfolding ts_core_def promises_ok_def by simp

lemma ts_core_fail:
  assumes "ts_core c"
  shows "ts_core (ts_fail e c)"
proof (cases "ts_closed c")
  case False
  have "map fst (ts_settled (ts_fail e c)) = map fst (ts_settled c) @ map promise_of (ts_pending c)"
    using False by (simp add: ts_fail_def promise_of_def split_beta)
  moreover have "ts_pending (ts_fail e c) = []" "ts_promises (ts_fail e c) = ts_promises c"
    using False by (simp_all add: ts_fail_def)
  moreover have "mset (map fst (ts_settled c) @ map promise_of (ts_pending c)) = mset [0..<ts_promises c]"
    using assms by (simp add: ts_core_def promises_ok_def add.commute del: mset_map)
  ultimately have "promises_ok (ts_fail e c)" by (simp only: promises_ok_def list.map append_Nil)
  then show ?thesis using assms unfolding ts_core_def by (simp add: ts_fail_def False)
qed (use assms in \<open>simp add: ts_fail_def\<close>)

lemma ts_ok_fail: "ts_core c \<Longrightarrow> ts_ok (ts_fail e c)"
  using ts_core_fail by (simp add: ts_ok_def) (simp add: ts_fail_def)

lemma ts_fail_ok: "ts_ok c \<Longrightarrow> ts_ok (ts_fail e c)"
  by (rule ts_ok_fail) (simp add: ts_ok_def)

lemma ts_ok_flush: "ts_ok c \<Longrightarrow> ts_ok (ts_flush socket c)"
proof (induction socket c rule: ts_flush.induct)
  case (1 socket c)
  show ?case
  proof (cases "ts_closed c \<or> ts_blocked c \<or> ts_write_queue c = []")
    case True
    then show ?thesis using "1.prems" by (subst ts_flush.simps) simp
  next
    case False
    let ?c = "c\<lparr>ts_write_queue := tl (ts_write_queue c)\<rparr>"
    have frame: "ts_ok (?c\<lparr>ts_written := w, ts_blocked := b\<rparr>)" for w b
      using "1.prems" False by (auto simp: ts_ok_def elim: ts_core_cong)
    have core: "ts_core ?c" using "1.prems" False by (auto simp: ts_ok_def elim: ts_core_cong)
    show ?thesis
      using 1(1-3) [OF False refl refl] frame ts_ok_fail [OF core] False
      by (subst ts_flush.simps) (simp add: Let_def split: write_answer.split)
  qed
qed

lemma filter_one: "hm_ok m \<Longrightarrow> (i, p) \<in> set m \<Longrightarrow> filter (\<lambda>q. fst q = i) m = [(i, p)]"
  by (induction m) (auto simp: hm_ok_def filter_empty_conv intro: rev_image_eqI)

lemma hm_remove_filter: "hm_remove i m = filter (\<lambda>q. fst q \<noteq> i) m"
  by (auto simp: hm_remove_def AList.delete_eq intro: filter_cong)

lemma promises_split:
  assumes "hm_ok m" and "hm_get m i = Some p"
  shows "mset (map promise_of m) = add_mset (pd_promise p) (mset (map promise_of (hm_remove i m)))"
proof -
  have one: "filter (\<lambda>q. fst q = i) m = [(i, p)]"
    using filter_one [OF assms(1)] hm.entries_get [OF assms(1)] assms(2) by blast
  have "mset m = mset (filter (\<lambda>q. fst q = i) m) + mset (filter (\<lambda>q. fst q \<noteq> i) m)"
    by (simp add: multiset_partition [symmetric])
  then have "mset m = add_mset (i, p) (mset (hm_remove i m))" by (simp add: one hm_remove_filter del: mset_filter)
  then show ?thesis by (simp add: promise_of_def)
qed

lemma ts_core_settle:
  assumes "ts_core c"
  shows "ts_core (ts_settle i r c)"
proof (cases "hm_get (ts_pending c) i")
  case (Some p)
  have ok: "hm_ok (ts_pending c)" using assms by (simp add: ts_core_def)
  have "promises_ok (ts_settle i r c)"
    using assms Some promises_split [OF ok Some] by (simp add: ts_core_def promises_ok_def ts_settle_def)
  moreover have "length (hm_remove i (ts_pending c)) \<le> ts_max_pending c"
    using assms by (simp add: hm_remove_filter ts_core_def le_trans [OF length_filter_le])
  moreover have "\<forall>j\<in>set (map fst (hm_remove i (ts_pending c))). id_range j"
    using assms by (simp add: hm_remove_filter ts_core_def)
  moreover have "\<not> ts_closed c" using assms Some by (auto simp: ts_core_def)
  ultimately show ?thesis
    using assms ok unfolding ts_core_def ts_settle_def Some by simp
qed (use assms in \<open>simp add: ts_settle_def\<close>)

section \<open>Every step\<close>

lemma ts_receive_core: "ts_core c \<Longrightarrow> ts_core (snd (ts_receive json_parse frame c))"
  by (simp add: ts_receive_def Let_def ts_core_settle split: option.split sum.split)

lemma stream_inv:
  assumes "\<And>frame s. I s \<Longrightarrow> I (snd (f frame s))" and "I s"
  shows "I (snd (snd (stream f bs s)))"
  using assms
proof (induction f bs s rule: stream.induct)
  case (1 f bs s)
  obtain thrown s1 where c: "f (take (be_nat (take 4 bs)) (drop 4 bs)) s = (thrown, s1)" by fastforce
  have s1: "I s1" using "1.prems" c by (metis snd_conv)
  show ?case
  proof (cases thrown)
    case None
    show ?thesis
      using "1.IH" [OF refl _ _ _ c [symmetric] None "1.prems"(1) s1] "1.prems" c None s1
      by (subst stream.simps) (auto simp: Let_def not_less)
  next
    case (Some e)
    then show ?thesis using "1.prems"(2) c s1 by (subst stream.simps) (auto simp: Let_def)
  qed
qed

lemma ts_data_ok:
  assumes "ts_ok c"
  shows "\<exists>c'. ts_data json_parse chunk c = Some c' \<and> ts_ok c'"
proof (cases "ts_closed c")
  case False
  let ?f = "ts_receive json_parse"
  have ok: "decoder_ok (ts_decoder c)" "ts_core c" using assms False by (simp_all add: ts_ok_def)
  obtain e rest c1 where t: "stream ?f (held (ts_decoder c) @ chunk) c = (e, rest, c1)"
    by (cases "stream ?f (held (ts_decoder c) @ chunk) c")
  have core: "ts_core c1"
    using stream_inv [of ts_core ?f, OF ts_receive_core ok(2), of "held (ts_decoder c) @ chunk"] by (simp add: t)
  obtain d where d: "push ?f chunk (ts_decoder c) c = Some (e, d, c1)" "e = None \<Longrightarrow> decoder_ok d"
    using push_stream [OF ok(1), of ?f chunk c] by (auto simp: matches_def t split: option.splits)
  have core_d: "ts_core (c1\<lparr>ts_decoder := d\<rparr>)" by (rule ts_core_cong [OF core]) simp_all
  show ?thesis
  proof (cases e)
    case None
    then show ?thesis using False d core_d by (simp add: ts_data_def ts_ok_def)
  next
    case (Some x)
    then show ?thesis using False d ts_ok_fail [OF core_d] by (simp add: ts_data_def)
  qed
qed (use assms in \<open>simp add: ts_data_def\<close>)

lemma hm_insert_fresh: "hm_get m k = None \<Longrightarrow> hm_insert k v m = m @ [(k, v)]"
  by (induction m) (auto simp: hm_get_def hm_insert_def split: if_splits)

lemma ts_send_ok:
  assumes "ts_ok c"
  shows "\<exists>r c'. ts_send socket rq c = Some (r, c') \<and> ts_ok c'"
proof -
  obtain opcode body expected where rq: "rq = (opcode, body, expected)" by (cases rq)
  show ?thesis
  proof (cases "ts_ensure_capacity c")
    case (Inl e)
    then show ?thesis using assms by (simp add: ts_send_def rq)
  next
    case (Inr u)
    then have room: "\<not> ts_closed c" "length (ts_pending c) < ts_max_pending c"
      by (auto simp: ts_ensure_capacity_def split: if_splits)
    have core: "ts_core c" "decoder_ok (ts_decoder c)" using assms room by (simp_all add: ts_ok_def)
    have few: "length (ts_pending c) < 0xffffffff" using core(1) room by (simp add: ts_core_def)
    obtain i where i: "free_id (ts_pending c) (ts_next_id c) = Some i" "id_range i" "hm_get (ts_pending c) i = None"
      using free_id_found [OF _ _ few, of "ts_next_id c"] core(1) by (auto simp: ts_core_def)
    have next_ok: "id_range (next_id i)" using id_after_range [of i 1] id_after_Suc [of i 0] id_after_0 [OF i(2)] by simp
    let ?c = "c\<lparr>ts_next_id := next_id i\<rparr>"
    have "ts_ok ?c" using core next_ok by (simp add: ts_ok_def ts_core_def promises_ok_def)
    moreover have "ts_ok (?c\<lparr>ts_promises := ts_promises c + 1,
        ts_pending := hm_insert i \<lparr>pd_opcode = opcode, pd_promise = ts_promises c, pd_expect = expected\<rparr> (ts_pending c),
        ts_write_queue := ts_write_queue c @ [frame]\<rparr>)" for frame
      using core next_ok room i(2)
      by (simp add: ts_ok_def ts_core_def promises_ok_def hm_insert_fresh [OF i(3)] promise_of_def hm_ok_def)
         (use i(3) in \<open>auto simp: hm_get_def map_of_eq_None_iff\<close>)
    ultimately show ?thesis
      using Inr i(1) by (simp add: ts_send_def rq Let_def ts_ok_flush split: sum.split)
  qed
qed

lemma ts_step_ok: "ts_step json_parse socket c ev c' \<Longrightarrow> ts_ok c \<Longrightarrow> ts_ok c'"
proof (induction rule: ts_step.induct)
  case (send rq c r c')
  then show ?case using ts_send_ok [of c socket rq] by auto
next
  case (data chunk c c')
  then show ?case using ts_data_ok [of c json_parse chunk] by auto
next
  case (drain c)
  then have "ts_ok (c\<lparr>ts_blocked := False\<rparr>)" by (auto simp: ts_ok_def elim: ts_core_cong)
  then show ?case unfolding ts_drain_def by (rule ts_ok_flush)
qed (simp_all add: ts_timer_def ts_socket_error_def ts_socket_end_def ts_socket_close_def ts_close_def ts_fail_ok)

interpretation ts_sys: invariant_system "ts_step json_parse socket" ts_ok for json_parse socket
  by unfold_locales (rule ts_step_ok)

section \<open>What has happened stays\<close>

definition ts_after :: "ts_client \<Rightarrow> ts_client \<Rightarrow> bool" where
  "ts_after c c' = ((\<exists>more. ts_settled c' = ts_settled c @ more) \<and> ts_max_pending c' = ts_max_pending c)"

lemma ts_after_refl [simp]: "ts_settled c' = ts_settled c \<Longrightarrow> ts_max_pending c' = ts_max_pending c \<Longrightarrow> ts_after c c'"
  by (simp add: ts_after_def)

lemma ts_after_trans: "ts_after a b \<Longrightarrow> ts_after b c \<Longrightarrow> ts_after a c"
  by (auto simp: ts_after_def)

lemma ts_after_fail: "ts_after c (ts_fail e c)"
  by (simp add: ts_after_def ts_fail_def)

lemma ts_after_flush: "ts_after c (ts_flush socket c)"
proof (induction socket c rule: ts_flush.induct)
  case (1 socket c)
  show ?case
  proof (cases "ts_closed c \<or> ts_blocked c \<or> ts_write_queue c = []")
    case True
    then show ?thesis by (subst ts_flush.simps) simp
  next
    case False
    let ?c = "c\<lparr>ts_write_queue := tl (ts_write_queue c)\<rparr>"
    have base: "ts_after (?c\<lparr>ts_written := w, ts_blocked := b\<rparr>) d \<Longrightarrow> ts_after c d" "ts_after (ts_fail e ?c) d \<Longrightarrow> ts_after c d" for w b e d
      using ts_after_fail [of ?c e] by (auto simp: ts_after_def)
    show ?thesis
    proof (cases "socket (length (ts_written c))")
      case Accepted
      then show ?thesis using base(1) [OF 1(1) [OF False refl refl]] False by (subst ts_flush.simps) (simp add: Let_def)
    next
      case Full
      then show ?thesis using base(1) [OF 1(2) [OF False refl refl]] False by (subst ts_flush.simps) (simp add: Let_def)
    next
      case (Threw e)
      then show ?thesis using base(2) [OF 1(3) [OF False refl refl]] False by (subst ts_flush.simps) (simp add: Let_def)
    qed
  qed
qed

lemma ts_after_receive: "ts_after a c \<Longrightarrow> ts_after a (snd (ts_receive json_parse frame c))"
  by (auto simp: ts_receive_def Let_def ts_settle_def ts_after_def split: option.split sum.split)

lemma ts_after_data:
  assumes "ts_ok c" and "ts_data json_parse chunk c = Some c'"
  shows "ts_after c c'"
proof (cases "ts_closed c")
  case False
  let ?f = "ts_receive json_parse"
  obtain e rest c1 where t: "stream ?f (held (ts_decoder c) @ chunk) c = (e, rest, c1)"
    by (cases "stream ?f (held (ts_decoder c) @ chunk) c")
  have after: "ts_after c c1"
    using stream_inv [of "ts_after c" ?f, OF ts_after_receive, of c "held (ts_decoder c) @ chunk"] by (simp add: t)
  have "decoder_ok (ts_decoder c)" using assms(1) False by (simp add: ts_ok_def)
  then obtain d where d: "push ?f chunk (ts_decoder c) c = Some (e, d, c1)"
    using push_stream [of "ts_decoder c" ?f chunk c] by (auto simp: matches_def t split: option.splits)
  have "ts_after c (c1\<lparr>ts_decoder := d\<rparr>)" using after by (simp add: ts_after_def)
  then show ?thesis
    using assms(2) False d ts_after_trans [OF _ ts_after_fail] by (cases e) (auto simp: ts_data_def)
qed (use assms in \<open>simp add: ts_data_def\<close>)

lemma ts_after_send:
  assumes "ts_send socket rq c = Some (r, c')"
  shows "ts_after c c'"
proof -
  have "ts_after c (ts_flush socket (c\<lparr>ts_next_id := i, ts_promises := p, ts_pending := m, ts_write_queue := q\<rparr>))" for i p m q
    by (rule ts_after_trans [OF _ ts_after_flush]) simp
  then show ?thesis
    using assms by (auto simp: ts_send_def Let_def split: prod.splits sum.splits option.splits)
qed

lemma ts_step_after: "ts_ok c \<Longrightarrow> ts_step json_parse socket c ev c' \<Longrightarrow> ts_after c c'"
proof (erule ts_step.cases)
  fix d assume "c = d" "c' = ts_drain socket d"
  then show "ts_after c c'" unfolding ts_drain_def by (auto intro: ts_after_trans [OF _ ts_after_flush])
qed (auto simp: ts_timer_def ts_socket_error_def ts_socket_end_def ts_socket_close_def ts_close_def
    intro: ts_after_fail ts_after_send ts_after_data)

lemma ts_run_after: "runs (ts_step json_parse socket) c evs c' \<Longrightarrow> ts_ok c \<Longrightarrow> ts_after c c'"
  by (rule ts_sys.run_related) (auto intro: ts_after_trans ts_step_after)

end
