(* ===== verification/Client_World.thy ===== *)
theory Client_World
  imports Client_Responses Client_Session World_Calls World_Store
begin

text \<open>
  The client and the whole server: every success that the server writes to a client, in any run, is
  what the client's parser for that call accepts.
\<close>

section \<open>The jobs a worker is handed\<close>

lemma remaining_bound: "remaining_ms d now \<le> 30000"
proof -
  have "max 1 (min 30000 ((d - now + 999999) div 1000000)) \<le> (30000 :: nat)" by simp
  then show ?thesis unfolding remaining_ms_def by (simp add: word_le_nat_alt unat_of_nat_lt)
qed

lemma try_take_remaining: "try_take_once w na nb s = Some (Dispatch j, t) \<Longrightarrow> job_remaining_ms j \<le> 30000"
  by (auto simp: try_take_once_def Let_def remaining_bound split: option.splits list.splits if_splits)

lemma asked_ok: "asked evs n i rq \<Longrightarrow> request_ok rq"
  using decode_request_dec by (auto simp: asked_def)

text \<open>A job in a run is one that the client's worker takes.\<close>

lemma job_taken:
  assumes run: "runs (server_step X token maximum) w evs w'" "world_inv X maximum w" "w_clients w = Map.empty"
    and new: "w_system w = system_new n0 b0" and ev: "Took n i rq (Dispatch j) \<in> set evs"
  shows "job_call_id j \<noteq> 0 \<and> job_remaining_ms j \<le> 30000 \<and> length (job_payload j) \<le> MAX_PAYLOAD"
proof -
  let ?ls = "events_of rpc_events evs"
  have "runs rpc_step (system_new n0 b0) ?ls (w_system w')" using run_scheduler [OF run(1,2)] new by simp
  from run_ok_runs [OF this] have tr: "trace_ok ?ls (rpc (w_system w'))" by (simp add: run_ok_def)
  have "Tried n (Dispatch j) \<in> set ?ls" using ev by (force simp: events_of_member)
  then obtain c name d where req: "Requested c name (job_payload j) (Inr \<lparr>tk_call_id = job_call_id j, tk_deadline = d\<rparr>) \<in> set ?ls"
    using tr unfolding trace_ok_def dispatches_ok_def by blast
  have "job_call_id j \<in> set (ids_of accepted_id ?ls)"
    using req by (force simp: ids_of_def map_filter_def image_iff)
  then have "job_call_id j \<noteq> 0" using tr by (auto simp: trace_ok_def accepts_ok_def)
  moreover obtain ic ms k t where "Dispatched c ic (request.Rpc name ms (job_payload j)) (AwaitTicket t) k \<in> set evs"
    using requested_origin [OF run(1) req] by blast
  then have "asked evs c ic (request.Rpc name ms (job_payload j))" by (rule event_asked [OF run]) simp
  from asked_ok [OF this] have "length (job_payload j) \<le> MAX_PAYLOAD" by simp
  moreover have "job_remaining_ms j \<le> 30000"
    using run(1) ev by (rule run_event) (erule server_stepE; simp add: try_take_remaining)
  ultimately show ?thesis by simp
qed

section \<open>What is written\<close>

lemma took_result:
  assumes run: "runs (server_step X token maximum) w evs w'" "world_inv X maximum w" "w_clients w = Map.empty"
    and new: "w_system w = system_new n0 b0" and ev: "Took n i rq res \<in> set evs" and out: "take_reply res = Inr out"
  shows "\<exists>v. parse_job out = Inr v \<and> length out \<le> MAX_FRAME - 5"
proof (cases res)
  case (Dispatch j)
  have j: "job_call_id j \<noteq> 0" "job_remaining_ms j \<le> 30000" "length (job_payload j) \<le> MAX_PAYLOAD"
    using job_taken [OF run new] ev Dispatch by blast+
  have "out = job_encode j" using out Dispatch by (simp add: take_reply_def take_body_def)
  moreover have "length (job_encode j) = 17 + length (job_payload j)" by (simp add: job_encode_def)
  moreover have "17 + MAX_PAYLOAD \<le> MAX_FRAME - 5" by (simp add: limit_defs)
  ultimately show ?thesis using job_response [OF j] j(3) by auto
qed (use out no_job_response in \<open>auto simp: take_reply_def take_body_def MAX_FRAME_def\<close>)

lemma answer_result:
  assumes run: "runs (server_step X token maximum) w evs w'" "world_inv X maximum w" "w_clients w = Map.empty" "w_tasks w = Map.empty"
    and new: "w_system w = system_new n0 b0" and ev: "Answering n i rq t r \<in> set evs" and out: "rpc_body r = Inr out"
  shows "\<exists>v. parse_payload out = Inr v \<and> length out \<le> MAX_FRAME - 5"
proof -
  obtain q where q: "r = Inr q" "out = encode_payload q" using out by (auto simp: rpc_body_Inr encode_payload_def)
  have "length q \<le> MAX_PAYLOAD"
  proof (rule answer_completed [OF run(1,2) new ev [unfolded q(1)]])
    fix wk ic cid out' k assume "Dispatched wk ic (Complete cid False q) (Reply (Inr out')) k \<in> set evs"
    then have "asked evs wk ic (Complete cid False q)" by (rule event_asked [OF run(1-3)]) simp
    from asked_ok [OF this] show ?thesis by simp
  qed
  then show ?thesis using payload_response q(2) by (simp add: encode_payload_def limit_defs)
qed

section \<open>Results of the store\<close>

lemma receipt_accepted:
  assumes "store_ok s" and "batch_ok rs"
  shows "\<exists>v. parse_receipt (length rs) (publish_receipt s rs) = Inr v"
proof -
  have "1 \<le> length rs" "length rs \<le> 256" using assms(2) by (simp_all add: batch_ok_def limit_defs)
  moreover have "unat (last_sequence s) + length rs < 2 ^ 64"
    using store_ok_last_sequence [OF assms(1)] calculation(2) by simp
  ultimately show ?thesis using receipt_response unfolding publish_receipt_def by blast
qed

lemma store_result:
  assumes reach: "store_reachable crc (sh_store sh)" "\<not> sh_poisoned sh"
    and op: "blocking_operation env crc to_vec from_slice now conns j (call_request c) sh = (Inr out, sh')"
    and rq: "request_ok (call_request c)" "store_request (call_request c)" "call_request c \<noteq> Stats"
    and msg: "call_message c = Inr (opcode, body, ex)" and json: "json_objects to_vec from_slice"
  shows "\<exists>v. parse_response jp ex out = Inr v \<and> length out \<le> MAX_FRAME - 5"
proof -
  have ok: "store_ok (sh_store sh)" by (rule store_reachable_ok [OF reach(1)])
  obtain r s' where o: "store_operation env crc to_vec from_slice now conns j (call_request c) (sh_store sh) = Some (r, s')"
      "\<And>b. r = Inr b \<Longrightarrow> length b \<le> MAX_FRAME - 5"
    by (rule store_operation_total [OF reach(1) rq(1,2) json, of j]) (use rq(3) in auto)
  then have r: "r = Inr out" using op reach(2) by (simp add: blocking_operation_def)
  have "\<exists>v. parse_response jp ex out = Inr v"
  proof (cases c)
    case (CallPublish rs)
    let ?rs = "map record_of rs"
    have batch: "batch_ok ?rs" using rq(1) CallPublish by simp
    have "publish env crc ?rs (sh_store sh) = (Inr out, s')" using o(1) r CallPublish by (simp add: store_operation_def)
    then have "out = publish_receipt (sh_store sh) ?rs" using publish_history(2) [OF ok batch] by blast
    moreover have "ex = ExpectReceipt (length ?rs)" using publish_body msg CallPublish by fastforce
    ultimately show ?thesis using receipt_accepted [OF ok batch] by (simp add: parse_response_def)
  next
    case (CallFetch topic opts)
    then obtain ep q where q: "ex = ExpectPage ep" "call_request c = Fetch q" "page_request ep q"
      using fetch_call_page [of topic opts opcode body ex] msg by auto
    then obtain fr where "fetch q (sh_store sh) = Some (Inr fr, s')" "out = fetch_result_encode fr"
      using o(1) r by (auto simp: store_operation_def split: option.splits prod.splits sum.splits)
    then show ?thesis using page_response [OF ok q(3)] q(1) by (simp add: parse_response_def)
  qed (use rq(2,3) in simp_all)
  then show ?thesis using o(2) r by blast
qed

lemma empty_result: "empty_reply r = Inr out \<Longrightarrow> out = []"
  by (auto simp: empty_reply_def and_then_def split: sum.splits)

lemma dispatch_result:
  assumes d: "dispatch env crc to_vec from_slice now now1 now2 conns n (call_request c) w = Some (Reply (Inr out), w')"
    and st: "\<not> store_request (call_request c)" and msg: "call_message c = Inr (opcode, body, ex)"
  shows "\<exists>v. parse_response jp ex out = Inr v \<and> length out \<le> MAX_FRAME - 5"
proof -
  have "out = [] \<and> ex = ExpectNothing"
    using assms
    by (cases c; cases w)
       (auto simp: dispatch_def ping_call_def register_call_def answer_job_def complete_call_def blocking_operation_def
          store_operation_def and_then_eq_Inr split: prod.splits option.splits sum.splits if_splits dest: empty_result)
  then show ?thesis using nothing_response by (simp add: parse_response_def)
qed

section \<open>Any result\<close>

lemma result_accepted:
  assumes run: "runs (server_step X token maximum) w evs w'" "world_inv X maximum w" "w_clients w = Map.empty" "w_tasks w = Map.empty"
    and new: "w_system w = system_new n0 b0" and ev: "ev \<in> set evs" "result_of ev = Some (n, i, call_request c, Inr out)"
    and msg: "call_message c = Inr (opcode, body, ex)" "ex \<noteq> ExpectStats"
  shows "\<exists>v. parse_response jp ex out = Inr v \<and> length out \<le> MAX_FRAME - 5"
proof (rule run_event [OF run(1) ev(1)])
  fix evs1 v u assume r1: "runs (server_step X token maximum) w evs1 v" and st: "server_step X token maximum v ev u"
  have iv: "world_inv X maximum v" using world_sys.run_inv [OF r1 run(2)] .
  then have ok: "world_ok X maximum v" and json: "json_objects (ex_to_vec X) (ex_from_slice X)" by (simp_all add: world_inv_def)
  have stats: "call_request c \<noteq> Stats" using msg by (cases c) (auto simp: stats_call_def)
  have ex_take: "ex = ExpectJob" if "call_request c = Take ms" for ms using that msg by (cases c) (auto simp: take_call_def)
  have ex_rpc: "ex = ExpectPayload" if "call_request c = request.Rpc name ms p" for name ms p
    using that msg by (cases c) (auto simp: request_call_def and_then_eq_Inr)
  show ?thesis
    using st
  proof (cases rule: server_stepE)
    case (dispatched n' i' rq conns env now now1 now2 out' sh s k now3)
    then have "out' = Reply (Inr out)" "rq = call_request c" using ev(2) by (cases out'; auto)+
    then show ?thesis using dispatch_result [OF _ _ msg(1)] dispatched(4,6) by blast
  next
    case (ran n' i' rq conns j env now r sh)
    then have e: "rq = call_request c" "r = Inr out" using ev(2) by simp_all
    have s: "stage_ok (w_system v) n' rq (Blocking conns j)" "request_ok rq" using task_okD(2,3) [OF ok ran(3)] by blast+
    then show ?thesis
      using store_result [OF world_store(1,2) [OF ok] _ _ _ stats msg(1) json] ran(4) e by (simp add: stage_ok_def)
  next
    case (took n' i' rq k tk e now1 now2 res s)
    then obtain ms where "call_request c = Take ms" using ev(2) task_okD(2) [OF ok took(3)] by (auto simp: stage_ok_def)
    moreover have "take_reply res = Inr out" "Took n' i' rq res \<in> set evs" using took(1) ev by auto
    ultimately show ?thesis using took_result [OF run(1-3) new] ex_take by (fastforce simp: parse_response_def)
  next
    case (took_none n' i' rq k tk e now)
    then obtain ms where "call_request c = Take ms" using ev(2) task_okD(2) [OF ok took_none(3)] by (auto simp: stage_ok_def)
    moreover have "out = [0]" using took_none(1) ev(2) by (simp add: take_body_def)
    ultimately show ?thesis using no_job_response ex_take by (simp add: parse_response_def MAX_FRAME_def)
  next
    case (answering n' i' rq t now r s)
    then obtain name ms p where "call_request c = request.Rpc name ms p"
      using ev(2) task_okD(2) [OF ok answering(3)] by (auto simp: stage_ok_def)
    moreover have "rpc_body r = Inr out" "Answering n' i' rq t r \<in> set evs" using answering(1) ev by auto
    ultimately show ?thesis using answer_result [OF run new] ex_rpc by (fastforce simp: parse_response_def)
  qed (use ev(2) in simp_all)
qed

end
