(* ===== verification/Client_Properties.thy ===== *)
theory Client_Properties
  imports Client_World World_Properties
begin

text \<open>
  The TypeScript client and the server together: each understands what the other sends, and a
  connection of the client keeps its promises.
\<close>

section \<open>From the client to the server\<close>

lemma id_unat: "id_range i \<Longrightarrow> unat (of_nat i :: u32) = i"
  by (intro unat_of_nat_lt) (simp add: id_range_def)

text \<open>
  C20. The server understands every call of the client. When the checks of a call of the client let
  it through, the server reads from the bytes that the client writes for it exactly one frame, under
  the identifier that the client gave it, and decodes it to the request that the call means, with the
  client's defaults and the UTF-8 of its strings.
\<close>

theorem calls_understood:
  assumes "call_message c = Inr (opcode, body, ex)" and "call_ok c" and "id_range i"
    and "client_envelope opcode i body = Inr frame" and "prompt io1" and "prompt io2"
  shows "read_frame True io1 io2 (frame @ rest) = Inr ((opcode, of_nat i, body), rest)
    \<and> decode_request opcode body = Inr (call_request c)"
proof -
  have n: "length body \<le> max_frame - 5" "frame = be_bytes 4 (length body + 5) @ [opcode] @ be_bytes 4 i @ body"
    using assms(4) by (auto simp: client_envelope_def max_frame_def split: if_splits)
  have i: "i < 2 ^ 32" "(of_nat i :: u32) \<noteq> 0"
    using assms(3) id_unat [of i] by (auto simp: id_range_def)
  have "frame = envelope opcode (of_nat i) body"
    using n i(1) by (simp add: envelope_prefix frame_data_def be_bytes_word add.commute)
  moreover have "read_frame True io1 io2 (envelope opcode (of_nat i) body @ rest) = Inr ((opcode, of_nat i, body), rest)"
    by (rule read_envelope [OF assms(5,6) i(2)]) (use n(1) limits_agree in simp)
  ultimately show ?thesis using call_body [OF assms(1,2)] decode_request_enc by simp
qed

text \<open>A call of the client, which publishes the record of the other examples.\<close>

definition sample_call :: client_call where
  "sample_call = CallPublish [\<lparr>pr_topic = js ''a'', pr_payload = Binary [7], pr_key = None\<rparr>]"

lemma be_bytes_short:
  "be_bytes 2 v = [of_nat (v div 256), of_nat v]"
  "be_bytes 4 v = [of_nat (v div 16777216), of_nat (v div 65536), of_nat (v div 256), of_nat v]"
proof -
  have n: "2 = Suc (Suc 0)" "4 = Suc (Suc (Suc (Suc 0)))" by simp_all
  show "be_bytes 2 v = [of_nat (v div 256), of_nat v]" unfolding n by simp
  show "be_bytes 4 v = [of_nat (v div 16777216), of_nat (v div 65536), of_nat (v div 256), of_nat v]"
    unfolding n(2) by simp
qed

lemma sample_call_message: "call_message sample_call = Inr (2, request_body demo_publish, ExpectReceipt 1)"
  and sample_call_request: "call_request sample_call = demo_publish"
proof -
  have a: "buffer_from (js ''a'') = str ''a''" "buffer_from [] = []"
    by (subst buffer_from_ascii; simp add: js_def str_def)+
  have p: "topic_pattern (js ''a'')" by (simp add: js_def topic_pattern_def topic_unit_def)
  have "topic_bytes (js ''a'') False = Inr (str ''a'')" "string_bytes [] 1024 nm = Inr []" for nm
    using a p by (simp_all add: topic_bytes_def string_bytes_def to_text_def)
  then show "call_message sample_call = Inr (2, request_body demo_publish, ExpectReceipt 1)"
    by (simp add: sample_call_def publish_call_def integer_def is_safe_integer_def max_safe_integer_def sample_encoded
        client_limit_defs str_def be_bytes_short)
  show "call_request sample_call = demo_publish"
    using a by (simp add: sample_call_def record_of_def text_of_def payload_of_def sample_record_def)
qed

lemma sample_call_ok: "call_ok sample_call"
  by (simp add: sample_call_def)

lemma calls_understood_witness:
  "read_frame True \<lparr>io_fault = None, io_elapsed = 0\<rparr> \<lparr>io_fault = None, io_elapsed = 0\<rparr> (envelope 2 2 (request_body demo_publish) @ [])
    = Inr ((2, 2, request_body demo_publish), []) \<and> decode_request 2 (request_body demo_publish) = Inr demo_publish"
proof -
  have "client_envelope 2 2 (request_body demo_publish) = Inr (envelope 2 2 (request_body demo_publish))"
    by (simp add: client_envelope_def sample_encoded envelope_def max_frame_def to_be_bytes_def)
  from calls_understood [OF sample_call_message _ _ this prompt_zero prompt_zero, of "[]"]
  show ?thesis by (simp add: sample_call_request id_range_def sample_call_ok)
qed

section \<open>From the server to the client\<close>

text \<open>
  C23. The client accepts every page. What the server answers to a FETCH of the client, from any
  well-formed store, passes all checks of the client (the order of the sequence numbers, the topics,
  the budgets, the progress of the cursor, and in the latest mode no key twice) and is read as the very
  cursor, events and flag that the server meant.
\<close>

theorem pages_accepted:
  assumes "store_ok s" and "fetch_call topic opts = Inr (opcode, body, ex)"
    and "call_request (CallFetch topic opts) = Fetch rq" and "fetch rq s = Some (Inr fr, s')"
  shows "parse_response json_parse ex (fetch_result_encode fr)
    = Inr (Page (unat (fr_cursor fr)) (map client_view (fr_events fr)) (fr_has_more fr))"
proof -
  obtain ep rq' where "ex = ExpectPage ep" "call_request (CallFetch topic opts) = Fetch rq'" "page_request ep rq'"
    by (rule fetch_call_page [OF assms(2)])
  then show ?thesis using page_response [OF assms(1) _ assms(4)] assms(3) by (simp add: parse_response_def)
qed

definition sample_options :: fetch_options where
  "sample_options = \<lparr>fo_after = None, fo_limit = Some (Whole 10), fo_max_bytes = Some (Whole 100), fo_mode = Some (js ''latest'')\<rparr>"

lemma pages_accepted_witness:
  "\<exists>opcode body ex. fetch_call (js ''*'') sample_options = Inr (opcode, body, ex)
     \<and> parse_response (\<lambda>_. None) ex (fetch_result_encode \<lparr>fr_cursor = 1, fr_events = events sample_store, fr_has_more = False\<rparr>)
       = Inr (Page 1 (map client_view (events sample_store)) False)"
proof -
  have rq: "call_request (CallFetch (js ''*'') sample_options) = Fetch sample_fetch"
    using buffer_from_star by (simp add: sample_options_def sample_fetch_def whole_def)
  have "js ''latest'' \<noteq> js ''all''" by (simp add: js_def)
  then obtain opcode body ex where call: "fetch_call (js ''*'') sample_options = Inr (opcode, body, ex)"
    using buffer_from_star
    by (simp add: fetch_call_def sample_options_def topic_bytes_def integer_def is_safe_integer_def max_safe_integer_def
        max_fetch_bytes_def Let_def)
  from pages_accepted [OF sample_store_ok call rq sample_page] call show ?thesis by simp
qed

text \<open>
  C22. Frames arrive whole, in order and once, however the network cuts the stream: for any chunks
  whose bytes together are those of some responses, the decoder of the client returns, and has handed
  its callback exactly these responses, up to the first that the callback refuses.
\<close>

theorem any_chunks:
  assumes "concat chunks = concat (map (\<lambda>(opcode, i, body). envelope opcode i body) rs)"
    and "\<forall>(opcode, i, body)\<in>set rs. length body \<le> max_frame - 5"
  shows "\<exists>d. push_all f chunks decoder_new s
    = Some (fst (deliver f (map frame_data rs) s), d, snd (deliver f (map frame_data rs) s))"
proof -
  have "matches (push_all f chunks decoder_new s) (stream f (concat chunks) s)"
    using push_all_stream [of decoder_new f chunks s] decoder_new_ok by simp
  moreover obtain rest where "stream f (concat chunks) s
      = (fst (deliver f (map frame_data rs) s), rest, snd (deliver f (map frame_data rs) s))"
    using stream_deliver [OF assms(2), of f s] assms(1) by auto
  ultimately show ?thesis by (auto simp: matches_def split: option.splits)
qed

lemma any_chunks_witness:
  "\<exists>d. push_all (\<lambda>frame got. (None, got @ [frame])) [[0, 0], [], [0, 5, 133, 0, 0], [0, 2]] decoder_new []
     = Some (None, d, [[133, 0, 0, 0, 2]])"
proof -
  have e: "envelope 133 2 [] = [0, 0, 0, 5, 133, 0, 0, 0, 2]" by (simp add: envelope_def to_be_bytes_def be_bytes_short)
  have "frame_data (133, 2, []) = [133, 0, 0, 0, 2]" by (simp add: frame_data_def to_be_bytes_def be_bytes_short)
  then show ?thesis
    using any_chunks [of "[[0, 0], [], [0, 5, 133, 0, 0], [0, 2]]" "[(133, 2, [])]" "\<lambda>frame got. (None, got @ [frame])" "[]"] e
    by simp
qed

section \<open>The promises of a connection\<close>

text \<open>
  C21. Every promise of a connection is settled once. Over every order of requests, of chunks of data,
  whatever bytes they hold, of timers and of events of the socket, each promise the client has made
  is in flight or settled, exactly once; what it is settled with stays; the requests in flight have
  identifiers of their own and are not more than configured; and a connection that is closed has none.
\<close>

theorem promises_settle_once:
  assumes "runs (ts_step json_parse socket) (ts_new m) evs c" and "m \<le> 256"
  shows "mset (map promise_of (ts_pending c) @ map fst (ts_settled c)) = mset [0..<ts_promises c]
    \<and> distinct (map fst (ts_pending c)) \<and> (\<forall>i\<in>set (map fst (ts_pending c)). id_range i) \<and> length (ts_pending c) \<le> m
    \<and> (ts_closed c \<longrightarrow> ts_pending c = [] \<and> ts_write_queue c = [])
    \<and> (\<forall>evs' c'. runs (ts_step json_parse socket) c evs' c' \<longrightarrow> take (length (ts_settled c)) (ts_settled c') = ts_settled c)"
proof -
  have ok: "ts_ok c" by (rule ts_sys.run_inv [OF assms(1) ts_ok_new [OF assms(2)]])
  have "ts_max_pending c = m" using ts_run_after [OF assms(1) ts_ok_new [OF assms(2)]] by (simp add: ts_after_def ts_new_def)
  moreover have "take (length (ts_settled c)) (ts_settled c') = ts_settled c" if "runs (ts_step json_parse socket) c evs' c'" for evs' c'
    using ts_run_after [OF that ok] by (auto simp: ts_after_def)
  ultimately show ?thesis
    using ok by (simp add: ts_ok_def ts_core_def promises_ok_def hm_ok_def del: mset_map)
qed

lemma promises_settle_once_witness:
  "\<exists>r c. runs (ts_step (\<lambda>_. None) (\<lambda>_. write_answer.Accepted)) (ts_new 4) [TsSend ping_call r, TsClose] c
     \<and> mset (map promise_of (ts_pending c) @ map fst (ts_settled c)) = mset [0..<ts_promises c]"
proof -
  let ?step = "ts_step (\<lambda>_. None) (\<lambda>_. write_answer.Accepted)"
  obtain r c where "ts_send (\<lambda>_. write_answer.Accepted) ping_call (ts_new 4) = Some (r, c)"
    using ts_send_ok [OF ts_ok_new, of 4] by fastforce
  then have "?step (ts_new 4) (TsSend ping_call r) c" by (rule ts_step.send)
  then have "runs ?step (ts_new 4) [TsSend ping_call r, TsClose] (ts_close c)"
    by (rule runs_cons) (rule runs_one, rule ts_step.close)
  then show ?thesis using promises_settle_once by fastforce
qed

text \<open>
  C40. A connection is never stuck in a call. In every state that it reaches, sending ends, with a free
  identifier (the search for one, which goes around the identifiers, stops); it makes a promise exactly
  when the connection is open, there is room for one more request and the body fits a frame; and the
  listener for data ends on every chunk.
\<close>

theorem client_operations_return:
  assumes "runs (ts_step json_parse socket) (ts_new m) evs c" and "m \<le> 256"
  shows "\<exists>r c1 c2. ts_send socket (opcode, body, ex) c = Some (r, c1) \<and> ts_data json_parse chunk c = Some c2
    \<and> ((\<exists>p. r = Inr p) \<longleftrightarrow> \<not> ts_closed c \<and> length (ts_pending c) < m \<and> length body \<le> max_frame - 5)"
proof -
  have ok: "ts_ok c" by (rule ts_sys.run_inv [OF assms(1) ts_ok_new [OF assms(2)]])
  have m: "ts_max_pending c = m" using ts_run_after [OF assms(1) ts_ok_new [OF assms(2)]] by (simp add: ts_after_def ts_new_def)
  obtain r c1 where s: "ts_send socket (opcode, body, ex) c = Some (r, c1)" using ts_send_ok [OF ok] by blast
  have "(\<exists>p. r = Inr p) \<longleftrightarrow> \<not> ts_closed c \<and> length (ts_pending c) < m \<and> length body \<le> max_frame - 5"
    using s m
    by (auto simp: ts_send_def ts_ensure_capacity_def client_envelope_def Let_def max_frame_def split: if_splits option.splits)
  then show ?thesis using s ts_data_ok [OF ok] by blast
qed

lemma client_operations_return_witness:
  "\<exists>p c1. ts_send (\<lambda>_. write_answer.Accepted) ping_call (ts_new 4) = Some (Inr p, c1)"
  using client_operations_return [OF runs_nil, of 4 "\<lambda>_. write_answer.Accepted" 5 "[]" ExpectNothing "\<lambda>_. None" "[]"]
  by (auto simp: ping_call_def ts_new_def max_frame_def)

section \<open>A call and its result\<close>

lemma receive_result:
  assumes p: "hm_get (ts_pending ct) (unat i) = Some p" and ct: "ts_ok ct"
    and op: "opcode = or (pd_opcode p) 128" "opcode \<noteq> 255" and v: "parse_response json_parse (pd_expect p) body = Inr v"
  shows "ts_receive json_parse (frame_data (opcode, i, body)) ct = (None, ts_settle (unat i) (Inr v) ct)"
proof -
  have "unat i \<in> set (map fst (ts_pending ct))" using p hm.entries_get ct by (force simp: ts_ok_def ts_core_def)
  then have "id_range (unat i)" "\<not> ts_closed ct" using ct by (auto simp: ts_ok_def ts_core_def)
  moreover have "be_nat (to_be_bytes i) = unat i" by (rule be_nat_word) simp
  ultimately show ?thesis
    using p op v by (simp add: ts_receive_def frame_data_def id_range_def)
qed

text \<open>
  C14. The client accepts what the server writes, for every call other than STATS (whose JSON text is
  the business of two libraries, \<open>serde_json\<close> and \<open>JSON.parse\<close>, and whose counters the client refuses
  above 2^53). Let the server, in any run, read the frame of a call of this client and later write a
  success under the identifier of that frame, no other frame under it having come in between and
  all earlier frames under it having been answered before, which is how the client uses its
  identifiers. Then the bytes, however they are cut into chunks, settle the promise of that call with the
  value that the client reads from the body.
\<close>

theorem results_accepted:
  assumes "serves X config sv evs w" and "json_objects (ex_to_vec X) (ex_from_slice X)"
    and "call_message c = Inr (opcode, body, ex)" and "call_ok c" and "ex \<noteq> ExpectStats"
    and "evs = A @ Framed n opcode (rs_request_id r) body # B @ Wrote n r # C" and "rs_opcode r \<noteq> 255"
    and "\<not> list_ex (asks n (rs_request_id r)) B"
    and "length (filter (asks n (rs_request_id r)) A) = length (filter (answers n (rs_request_id r)) A)"
    and "ts_ok ct" and "hm_get (ts_pending ct) (unat (rs_request_id r)) = Some p"
    and "pd_opcode p = opcode" and "pd_expect p = ex"
    and "decoder_ok d" and "held d = []" and "concat chunks = written_frame r"
  shows "\<exists>v d'. parse_response json_parse ex (rs_body r) = Inr v
    \<and> push_all (ts_receive json_parse) chunks d ct = Some (None, d', ts_settle (unat (rs_request_id r)) (Inr v) ct)"
proof -
  note run = servesD [OF assms(1,2)] and none = serving_empty(1,2) [of sv]
  obtain rq where f: "decode_request opcode body = Inr rq" "rs_opcode r = or opcode 128"
      "\<exists>ev \<in> set evs. result_of ev = Some (n, rs_request_id r, rq, Inr (rs_body r))"
    by (rule response_to_frame [OF run(1,2) none assms(6-9)])
  have "rq = call_request c" using f(1) call_body [OF assms(3,4)] decode_request_enc by simp
  then obtain v where v: "parse_response json_parse ex (rs_body r) = Inr v" and n: "length (rs_body r) \<le> MAX_FRAME - 5"
    using result_accepted [OF run(1,2) none run(4) _ _ assms(3,5)] f(3) by blast
  have n': "length (rs_body r) \<le> max_frame - 5" using n by (simp add: limits_agree)
  let ?frame = "frame_data (rs_opcode r, rs_request_id r, rs_body r)" and ?ct = "ts_settle (unat (rs_request_id r)) (Inr v) ct"
  have "written_frame r = envelope (rs_opcode r) (rs_request_id r) (rs_body r)"
    using n by (simp add: written_frame_def response_frame_small)
  then have bytes: "concat chunks = be_bytes 4 (length ?frame) @ ?frame @ []"
    using assms(16) envelope_prefix [OF n'] by simp
  have "ts_receive json_parse ?frame ct = (None, ?ct)"
    by (rule receive_result [OF assms(11,10)]) (use assms(7,12,13) f(2) v in simp_all)
  moreover have "5 \<le> length ?frame" "length ?frame \<le> max_frame" using n' by (simp_all add: frame_data_def max_frame_def)
  ultimately have "stream (ts_receive json_parse) (concat chunks) ct = (None, [], ?ct)"
    unfolding bytes by (subst stream_frame) (simp_all add: stream_short)
  then show ?thesis
    using push_all_stream [OF assms(14), of "ts_receive json_parse" chunks ct] assms(15) v
    by (auto simp: matches_def split: option.splits)
qed

definition sample_client :: ts_client where
  "sample_client = (ts_new 4)\<lparr>ts_pending := [(2, \<lparr>pd_opcode = 2, pd_promise = 0, pd_expect = ExpectReceipt 1\<rparr>)],
     ts_next_id := 3, ts_promises := 1\<rparr>"

lemma results_accepted_witness:
  "\<exists>w v d'. serves demo_externals (demo_config True) (demo_server (store_memory 0 1000 1000)) published_events w
     \<and> push_all (ts_receive (\<lambda>_. None)) [written_frame (demo_response 2 demo_publish (receipt 1 1 1 False))] decoder_new sample_client
       = Some (None, d', ts_settle 2 (Inr v) sample_client)"
proof -
  let ?r = "demo_response 2 demo_publish (receipt 1 1 1 False)"
  obtain w where s: "serves demo_externals (demo_config True) (demo_server (store_memory 0 1000 1000)) published_events w"
    using published_run demo_serves by blast
  have r: "rs_opcode ?r = 130" "rs_request_id ?r = 2" by (simp_all add: demo_response_def)
  have ok: "ts_ok sample_client"
    by (simp add: sample_client_def ts_ok_def ts_core_def ts_new_def promises_ok_def promise_of_def id_range_def hm_ok_def decoder_new_ok)
  have "\<exists>A B. published_events = A @ Framed 1 2 2 (request_body demo_publish) # B @ Wrote 1 ?r # []
      \<and> \<not> list_ex (asks 1 2) B \<and> filter (asks 1 2) A = [] \<and> filter (answers 1 2) A = []"
    by (rule exI [of _ "greeting_events (request_frame 2 demo_publish) []"],
      rule exI [of _ "butlast (drop (Suc (length (greeting_events (request_frame 2 demo_publish) []))) published_events)"])
      (simp add: published_events_def stored_events_def greeting_events_def)
  then obtain A B where evs: "published_events = A @ Framed 1 2 (rs_request_id ?r) (request_body demo_publish) # B @ Wrote 1 ?r # []"
      "\<not> list_ex (asks 1 (rs_request_id ?r)) B"
      "length (filter (asks 1 (rs_request_id ?r)) A) = length (filter (answers 1 (rs_request_id ?r)) A)"
    unfolding r(2) by auto
  have p: "hm_get (ts_pending sample_client) (unat (rs_request_id ?r)) = Some \<lparr>pd_opcode = 2, pd_promise = 0, pd_expect = ExpectReceipt 1\<rparr>"
    by (simp add: r(2) sample_client_def hm_get_def)
  obtain v d' where "push_all (ts_receive (\<lambda>_. None)) [written_frame ?r] decoder_new sample_client
      = Some (None, d', ts_settle (unat (rs_request_id ?r)) (Inr v) sample_client)"
    using results_accepted [OF s demo_json sample_call_message sample_call_ok _ evs(1) _ evs(2,3) ok p, of decoder_new "[written_frame ?r]" "\<lambda>_. None"]
      r decoder_new_ok by auto
  then show ?thesis using s r(2) by auto
qed

end
