(* ===== verification/Tests_Store.thy ===== *)
theory Tests_Store
  imports Store_Properties
begin

text \<open>
  The unit tests of \<open>crates/velobus/src/store.rs\<close>, as predicates on the model, and the proofs that the
  model passes them: a test that fails here would show that the model is not the program.
\<close>

section \<open>Helpers\<close>

definition test_budget :: u64 where "test_budget = 16 * 1024 * 1024"

definition test_record :: "string \<Rightarrow> string \<Rightarrow> bytes \<Rightarrow> log_record" where
  "test_record topic key payload = \<lparr>rec_topic = str topic, rec_key = str key, rec_payload = payload\<rparr>"

definition test_fetch :: "string \<Rightarrow> u64 \<Rightarrow> bool \<Rightarrow> nat \<Rightarrow> nat \<Rightarrow> fetch_request" where
  "test_fetch topic after latest limit max_bytes =
     \<lparr>fetch_topic = str topic, fetch_after = after, fetch_limit = limit, fetch_max_bytes = max_bytes, fetch_latest = latest\<rparr>"

section \<open>Memory\<close>

definition latest_coalesces_test :: "(bytes \<Rightarrow> u32) \<Rightarrow> bool" where
  "latest_coalesces_test crc =
     (case publish no_faults crc
         [test_record ''a'' ''x'' (str ''old''), test_record ''b'' ''x'' (str ''other''), test_record ''a'' '''' (str ''one''),
          test_record ''a'' ''x'' (str ''new''), test_record ''a'' '''' (str ''two'')] (store_memory 0 test_budget test_budget) of
        (Inr _, s) \<Rightarrow>
          (case fetch (test_fetch ''*'' 0 True 256 4096) s of
             Some (Inr latest, s) \<Rightarrow>
               map ev_sequence (fr_events latest) = [2, 3, 4, 5] \<and> fr_cursor latest = 5 \<and> \<not> fr_has_more latest
               \<and> (case fetch (test_fetch ''*'' 0 False 256 4096) s of
                    Some (Inr r, s) \<Rightarrow> length (fr_events r) = 5
                  | _ \<Rightarrow> False)
           | _ \<Rightarrow> False)
      | _ \<Rightarrow> False)"

lemmas test_store_defs = publish_def check_retained_capacity_def retained_bytes_def last_sequence_def commit_def stamp_def
  store_memory_def test_record_def test_budget_def test_fetch_def str_def checked_add_def saturating_sub_def Let_def
  fetch_def MAX_SCAN_def topic_matches_def coalesces_def event_bytes_def wire_bytes_def event_key_def enumerate_eq_zip

lemma latest_coalesces: "latest_coalesces_test crc"
  unfolding latest_coalesces_test_def by (simp add: test_store_defs)

definition replacement_over_budget_test :: "(bytes \<Rightarrow> u32) \<Rightarrow> bool" where
  "replacement_over_budget_test crc =
     (case publish no_faults crc [test_record ''a'' ''x'' (str ''1''), test_record ''a'' ''x'' (replicate 100 0)]
         (store_memory 0 test_budget test_budget) of
        (Inr _, s) \<Rightarrow>
          (case fetch (test_fetch ''*'' 0 True 1 20) s of
             Some (Inr r, s) \<Rightarrow>
               fr_cursor r = 1 \<and> rec_payload (ev_record (fr_events r ! 0)) = str ''1'' \<and> fr_has_more r
               \<and> (case fetch (test_fetch ''*'' 1 True 1 20) s of
                    Some (Inl e, s) \<Rightarrow>
                      err_code e = LIMIT
                      \<and> (case fetch (test_fetch ''*'' 1 True 1 200) s of
                           Some (Inr r, s) \<Rightarrow> ev_sequence (fr_events r ! 0) = 2
                         | _ \<Rightarrow> False)
                  | _ \<Rightarrow> False)
           | _ \<Rightarrow> False)
      | _ \<Rightarrow> False)"

lemma replacement_over_budget: "replacement_over_budget_test crc"
  unfolding replacement_over_budget_test_def by (simp add: test_store_defs)

definition limit_replaces_test :: "(bytes \<Rightarrow> u32) \<Rightarrow> bool" where
  "limit_replaces_test crc =
     (case publish no_faults crc
         [test_record ''a'' ''x'' (str ''1''), test_record ''a'' ''x'' (str ''2''), test_record ''a'' ''y'' (str ''3'')]
         (store_memory 0 test_budget test_budget) of
        (Inr _, s) \<Rightarrow>
          (case fetch (test_fetch ''*'' 0 True 1 4096) s of
             Some (Inr r, s) \<Rightarrow> fr_cursor r = 2 \<and> ev_sequence (fr_events r ! 0) = 2 \<and> fr_has_more r
           | _ \<Rightarrow> False)
      | _ \<Rightarrow> False)"

lemma limit_replaces: "limit_replaces_test crc"
  unfolding limit_replaces_test_def by (simp add: test_store_defs)

text \<open>The loop of a test that publishes one batch several times.\<close>

primrec publish_times :: "nat \<Rightarrow> (bytes \<Rightarrow> u32) \<Rightarrow> log_record list \<Rightarrow> store \<Rightarrow> store option" where
  "publish_times 0 crc rs s = Some s"
| "publish_times (Suc n) crc rs s =
     (case publish no_faults crc rs s of (Inl _, _) \<Rightarrow> None | (Inr _, s) \<Rightarrow> publish_times n crc rs s)"

definition bounded_scan_test :: "(bytes \<Rightarrow> u32) \<Rightarrow> bool" where
  "bounded_scan_test crc =
     (case publish_times 17 crc (replicate 256 (test_record ''a'' '''' (str ''1''))) (store_memory 0 test_budget test_budget) of
        Some s \<Rightarrow>
          (case fetch (test_fetch ''b'' 0 False 256 4096) s of
             Some (Inr r, s) \<Rightarrow>
               fr_cursor r = 4096 \<and> fr_events r = [] \<and> fr_has_more r
               \<and> (case fetch (test_fetch ''*'' 5000 False 256 4096) s of
                    Some (Inl e, s) \<Rightarrow> err_code e = CURSOR
                  | _ \<Rightarrow> False)
           | _ \<Rightarrow> False)
      | _ \<Rightarrow> False)"

lemma publish_times_memory:
  assumes "store_ok s" "\<not> poisoned s" "st_wal s = None" "batch_ok rs"
    and "total_cost (history s) + n * total_cost rs \<le> unat (st_max_retained_bytes s)"
  shows "\<exists>s'. publish_times n crc rs s = Some s' \<and> store_ok s' \<and> history s' = history s @ concat (replicate n rs)"
  using assms
proof (induction n arbitrary: s)
  case (Suc n)
  have room: "total_cost (history s @ rs) \<le> unat (st_max_retained_bytes s)" using Suc.prems(5) by simp
  have p: "publish no_faults crc rs s = (Inr (publish_receipt s rs), published s rs)"
    using publish_eq [OF Suc.prems(1,4,2) room, of no_faults crc] Suc.prems(3) by simp
  have ok: "store_ok (published s rs)" by (rule published_ok [OF Suc.prems(1,4) room])
  have sel: "st_wal (published s rs) = None" "\<not> poisoned (published s rs)" "history (published s rs) = history s @ rs"
      "st_max_retained_bytes (published s rs) = st_max_retained_bytes s"
    using Suc.prems(2,3) by simp_all
  from Suc.IH [OF ok sel(2,1) Suc.prems(4)] Suc.prems(5) show ?case by (simp add: p sel)
qed simp

lemma concat_replicate: "concat (replicate n (replicate m x)) = replicate (n * m) x"
  by (induction n) (simp_all add: replicate_add)

lemma fetch_loop_none:
  "\<forall>ev\<in>set evs. \<not> topic_matches rq ev \<Longrightarrow>
     fetch_loop rq evs sc = Some (Inr (sc\<lparr>sc_cursor := (if evs = [] then sc_cursor sc else ev_sequence (last evs))\<rparr>))"
  by (induction evs arbitrary: sc) auto

lemma bounded_scan: "bounded_scan_test crc"
proof -
  let ?r = "test_record ''a'' '''' (str ''1'')"
  let ?rs = "replicate 256 ?r" and ?s = "store_memory 0 test_budget test_budget" and ?rq = "test_fetch ''b'' 0 False 256 4096"
  have cost: "total_cost ?rs = 256 * 259"
    by (simp add: total_cost_def sum_list_replicate record_cost_def test_record_def str_def)
  have rec: "record_ok ?r"
    by (simp add: record_ok_def test_record_def valid_topic_def str_def topic_byte_def is_ascii_alphanumeric_def
        utf8_valid.simps MAX_PAYLOAD_def)
  then have batch: "batch_ok ?rs" by (simp add: batch_ok_def MAX_BATCH_def list_all_iff)
  have s: "\<not> poisoned ?s" "st_wal ?s = None" "history ?s = []" "unat (st_max_retained_bytes ?s) = 16777216"
    by (simp_all add: store_memory_def history_def test_budget_def)
  obtain s' where s': "publish_times 17 crc ?rs ?s = Some s'" "store_ok s'" "history s' = concat (replicate 17 ?rs)"
    using publish_times_memory [OF store_memory_ok s(1,2) batch, of 17 crc] cost s(3,4) by auto
  have ev: "events s' = stamp 1 (replicate 4352 ?r)"
    using s'(2,3) by (simp add: store_ok_fields concat_replicate)
  have last_seq: "last_sequence s' = 4352" by (simp add: last_sequence_def ev)
  have none: "\<forall>x\<in>set (take 4096 (events s')). \<not> topic_matches ?rq x"
  proof
    fix x assume "x \<in> set (take 4096 (events s'))"
    then have "ev_record x \<in> set (map ev_record (events s'))" by (auto dest: in_set_takeD)
    then have "ev_record x = ?r" by (simp add: ev)
    then show "\<not> topic_matches ?rq x" by (simp add: topic_matches_def test_fetch_def test_record_def str_def)
  qed
  have "length (events s') = 4352" by (simp add: ev)
  then have ne: "events s' \<noteq> []" by auto
  have last: "last (take 4096 (events s')) = \<lparr>ev_sequence = 4096, ev_record = ?r\<rparr>"
    using ne by (subst last_conv_nth) (simp_all add: ev stamp_nth)
  have "fetch_after ?rq = 0" by (simp add: test_fetch_def)
  with fetch_loop_none [OF none] obtain n m where
    "fetch ?rq s' = Some (Inr \<lparr>fr_cursor = 4096, fr_events = [], fr_has_more = True\<rparr>, fetched s' n m)"
    by (simp add: fetch_def last_seq MAX_SCAN_def last ne fetched_def)
  moreover have "\<exists>e. fetch (test_fetch ''*'' 5000 False 256 4096) (fetched s' n m) = Some (Inl e, fetched s' n m) \<and> err_code e = CURSOR"
    by (simp add: fetch_def test_fetch_def fetched_def last_sequence_def ev)
  ultimately show ?thesis by (auto simp: bounded_scan_test_def s'(1))
qed

end
