(* ===== verification/Tests_Disk.thy ===== *)
theory Tests_Disk
  imports Tests_Store
begin

text \<open>
  The unit tests of \<open>crates/velobus/src/store.rs\<close> that work on a disk, as predicates on the model. A
  store that is dropped leaves its file; opening it again is \<open>store_disk\<close> on that file. The hook
  \<open>fail_after_write\<close> is a fault of \<open>sync_all\<close>. What the tests of damaged files need of the checksum is
  a hypothesis: it changes when one byte does.
\<close>

section \<open>A store on disk and its file\<close>

definition disk_store :: "(bytes \<Rightarrow> u32) \<Rightarrow> store \<Rightarrow> batch list \<Rightarrow> bool" where
  "disk_store crc s bs =
     (store_ok s \<and> \<not> poisoned s \<and> numbered 0 bs \<and> batch_records bs = history s
      \<and> (\<exists>w. st_wal s = Some w \<and> wal_ok crc w bs \<and> wal_max_bytes w = st_max_wal_bytes s))"

definition test_file :: "store \<Rightarrow> wal_file" where
  "test_file s = wal_handle (the (st_wal s))"

definition file_length :: "store \<Rightarrow> nat" where
  "file_length s = length (content (test_file s))"

lemma disk_store_facts:
  assumes "disk_store crc s bs"
  shows "content (test_file s) = wal_layout crc bs" "last_sequence s = of_nat (length (batch_records bs))"
    "history s = batch_records bs" "store_ok s" "\<not> poisoned s" "st_wal s \<noteq> None" "list_all batch_fits bs"
  using assms by (auto simp: disk_store_def test_file_def wal_ok_def last_sequence_history)

lemma reopen:
  assumes bs: "list_all batch_fits bs" "numbered 0 bs" and tail: "tail = [] \<or> torn crc tail"
    and f: "content f = wal_layout crc bs @ tail" "length (content f) \<le> unat max_wal"
    and room: "total_cost (batch_records bs) \<le> unat max_retained"
  shows "\<exists>s dirs'. store_disk no_faults crc now directory dirs (Some f) max_retained max_wal = (Inr s, dirs', Some (test_file s))
    \<and> disk_store crc s bs \<and> st_max_retained_bytes s = max_retained \<and> st_max_wal_bytes s = max_wal \<and> published_records s = 0"
proof -
  let ?s0 = "store_memory now max_retained max_wal"
  let ?s1 = "with_history (batch_records bs) ?s0"
  have s0: "store_ok ?s0" "last_sequence ?s0 = 0" "history ?s0 = []"
    "st_max_retained_bytes ?s0 = max_retained" "st_max_wal_bytes ?s0 = max_wal" "\<not> poisoned ?s0" "published_records ?s0 = 0"
    by (simp_all add: store_memory_ok) (simp_all add: store_memory_def last_sequence_def history_def)
  have replay: "replay_all store_replay bs ?s0 = Inr ?s1" using bs room s0 by (simp add: store_replay_all)
  obtain dirs' w where w: "wal_open no_faults crc max_wal store_replay directory dirs (Some f) ?s0
        = (Inr (w, ?s1), dirs', Some (wal_handle w))" "wal_ok crc w bs" "wal_max_bytes w = max_wal"
    using wal_open_layout [OF bs(1) tail f, where replay = store_replay and s = ?s0
        and directory = directory and dirs = dirs] replay by auto
  let ?s = "?s1\<lparr>st_wal := Some w\<rparr>"
  have "list_all record_ok (batch_records bs)" using bs(1) by (induction bs) (auto simp: batch_fits_def batch_ok_def)
  then have "store_ok ?s1" using s0 room by (intro store_ok_with_history) simp_all
  then have "store_ok ?s" by (rule store_ok_cong) simp_all
  then have "disk_store crc ?s bs" using w bs s0 by (simp add: disk_store_def)
  moreover have "store_disk no_faults crc now directory dirs (Some f) max_retained max_wal = (Inr ?s, dirs', Some (test_file ?s))"
    by (simp add: store_disk_def w test_file_def)
  moreover have "published_records ?s1 = 0" using s0 by (simp add: with_history_def)
  ultimately show ?thesis using s0 by auto
qed

lemma open_new:
  assumes "8 \<le> unat max_wal"
  shows "\<exists>s dirs'. store_disk no_faults crc now directory dirs None max_retained max_wal = (Inr s, dirs', Some (test_file s))
    \<and> disk_store crc s [] \<and> st_max_retained_bytes s = max_retained \<and> st_max_wal_bytes s = max_wal"
proof -
  let ?s0 = "store_memory now max_retained max_wal"
  obtain dirs' w where w: "wal_open no_faults crc max_wal store_replay directory dirs None ?s0
        = (Inr (w, ?s0), dirs', Some (wal_handle w))" "wal_ok crc w []" "wal_max_bytes w = max_wal"
    using wal_open_fresh [OF assms disjI1 [OF refl], where replay = store_replay and s = ?s0 and crc = crc
        and directory = directory and dirs = dirs] by blast
  let ?s = "?s0\<lparr>st_wal := Some w\<rparr>"
  have "store_ok ?s" using store_memory_ok by (rule store_ok_cong) simp_all
  then have "disk_store crc ?s []" using w by (simp add: disk_store_def store_memory_def history_def)
  moreover have "store_disk no_faults crc now directory dirs None max_retained max_wal = (Inr ?s, dirs', Some (test_file ?s))"
    by (simp add: store_disk_def w test_file_def)
  ultimately show ?thesis by (auto simp: store_memory_def)
qed

lemma capacity_iff:
  assumes "wal_ok crc w bs" and "batch_fits (first, rs)"
  shows "wal_check_capacity w rs = Inr () \<longleftrightarrow>
    length (wal_layout crc bs) + length (wal_frame crc (first, rs)) \<le> unat (wal_max_bytes w)"
proof -
  have "unat (batch_bytes rs) = length (wal_frame crc (first, rs))" by (rule batch_bytes_frame [OF assms(2)])
  moreover have "unat (wal_bytes w) = length (wal_layout crc bs)" "unat (wal_bytes w) \<le> unat (wal_max_bytes w)"
    using assms(1) by (simp_all add: wal_ok_def word_le_nat_alt)
  ultimately show ?thesis
    unfolding wal_check_capacity_def word_less_nat_alt unat_saturating_sub by auto
qed

lemma disk_store_publish:
  assumes s: "disk_store crc s bs" and rs: "publishable rs" and room: "total_cost (history s @ rs) \<le> unat (st_max_retained_bytes s)"
    and wal: "file_length s + length (wal_frame crc (next_batch s rs)) \<le> unat (st_max_wal_bytes s)"
  shows "\<exists>s'. publish no_faults crc rs s = (Inr (publish_receipt s rs), s') \<and> disk_store crc s' (bs @ [next_batch s rs])
    \<and> st_max_retained_bytes s' = st_max_retained_bytes s \<and> st_max_wal_bytes s' = st_max_wal_bytes s"
proof -
  obtain w where w: "st_wal s = Some w" "wal_ok crc w bs" "wal_max_bytes w = st_max_wal_bytes s" using s by (auto simp: disk_store_def)
  have ok: "store_ok s" "\<not> poisoned s" and batch: "batch_ok rs" using disk_store_facts [OF s] rs by (simp_all add: publishable_def)
  have fits: "batch_fits (last_sequence s + 1, rs)" using rs publishable_fits [of s rs] by (simp add: next_batch_def)
  have cap: "wal_check_capacity w rs = Inr ()"
    using capacity_iff [OF w(2) fits] wal w disk_store_facts(1) [OF s] by (simp add: file_length_def next_batch_def)
  obtain w' where w': "wal_append no_faults crc (last_sequence s + 1) rs w = (Inr (), w')"
    by (auto simp: wal_append_def cap Let_def file_write_all_def file_sync_all_def)
  note app = wal_append_Inr [OF w(2) fits w']
  let ?s = "s\<lparr>st_wal := Some w'\<rparr>"
  have p: "publish no_faults crc rs s = (Inr (publish_receipt s rs), published ?s rs)"
    using publish_eq [OF ok(1) batch ok(2) room, of no_faults crc] w(1) cap w' by simp
  have "store_ok ?s" using ok(1) by (rule store_ok_cong) simp_all
  then have "store_ok (published ?s rs)" using batch room by (intro published_ok) simp_all
  moreover have "numbered 0 (bs @ [next_batch s rs])"
    using s by (simp add: disk_store_def numbered_snoc next_batch_def last_sequence_history add.commute)
  ultimately have "disk_store crc (published ?s rs) (bs @ [next_batch s rs])"
    using s w app ok by (simp add: disk_store_def next_batch_def)
  then show ?thesis using p by simp
qed

lemma disk_store_full:
  assumes s: "disk_store crc s bs" and rs: "publishable rs" and room: "total_cost (history s @ rs) \<le> unat (st_max_retained_bytes s)"
    and wal: "\<not> file_length s + length (wal_frame crc (next_batch s rs)) \<le> unat (st_max_wal_bytes s)"
  shows "\<exists>e. publish no_faults crc rs s = (Inl e, s) \<and> err_code e = CAPACITY"
proof -
  obtain w where w: "st_wal s = Some w" "wal_ok crc w bs" "wal_max_bytes w = st_max_wal_bytes s" using s by (auto simp: disk_store_def)
  have ok: "store_ok s" "\<not> poisoned s" and batch: "batch_ok rs" using disk_store_facts [OF s] rs by (simp_all add: publishable_def)
  have fits: "batch_fits (last_sequence s + 1, rs)" using rs publishable_fits [of s rs] by (simp add: next_batch_def)
  have "wal_check_capacity w rs \<noteq> Inr ()"
    using capacity_iff [OF w(2) fits] wal w disk_store_facts(1) [OF s] by (simp add: file_length_def next_batch_def)
  then obtain e where "wal_check_capacity w rs = Inl e" "err_code e = CAPACITY"
    by (auto simp: wal_check_capacity_def split: if_splits)
  then show ?thesis using publish_eq [OF ok(1) batch ok(2) room, of no_faults crc] w(1) by simp
qed

section \<open>Budgets\<close>

definition test_dir :: "rstring list" where "test_dir = [str ''nodara-test'']"

definition capacity_atomic_test :: "(bytes \<Rightarrow> u32) \<Rightarrow> bool" where
  "capacity_atomic_test crc =
     (let one = test_record ''a'' ''x'' (str ''1'')
      in case store_disk no_faults crc 0 test_dir {} None (retained_bytes one) test_budget of
           (Inr s, dirs, _) \<Rightarrow>
             (case publish no_faults crc [one, one] s of
                (Inl e, s) \<Rightarrow>
                  err_code e = CAPACITY \<and> last_sequence s = 0 \<and> file_length s = 8
                  \<and> (case publish no_faults crc [one] s of
                       (Inr _, s) \<Rightarrow>
                         last_sequence s = 1
                         \<and> (case store_disk no_faults crc 0 test_dir dirs (Some (test_file s)) test_budget test_budget of
                              (Inr restored, _) \<Rightarrow> last_sequence restored = 1
                            | _ \<Rightarrow> False)
                     | _ \<Rightarrow> False)
              | _ \<Rightarrow> False)
         | _ \<Rightarrow> False)"

definition wal_limit_test :: "(bytes \<Rightarrow> u32) \<Rightarrow> bool" where
  "wal_limit_test crc =
     (let one = test_record ''a'' ''x'' (str ''1'');
          max_wal = 8 + batch_bytes [one]
      in case store_disk no_faults crc 0 test_dir {} None test_budget max_wal of
           (Inr s, _) \<Rightarrow>
             (case publish no_faults crc [one, one] s of
                (Inl e, s) \<Rightarrow>
                  err_code e = CAPACITY \<and> \<not> poisoned s \<and> file_length s = 8
                  \<and> (case publish no_faults crc [one] s of
                       (Inr _, s) \<Rightarrow> file_length s = unat max_wal
                     | _ \<Rightarrow> False)
              | _ \<Rightarrow> False)
         | _ \<Rightarrow> False)"

text \<open>Records of the tests: they are valid, and their sizes.\<close>

definition small_record :: "string \<Rightarrow> string \<Rightarrow> bytes \<Rightarrow> bool" where
  "small_record topic key payload =
     (valid_topic (str topic) \<and> list_all (\<lambda>b. b < 0x80) (str key) \<and> length key \<le> 100 \<and> length payload \<le> 200)"

lemma small_record_ok: "small_record topic key payload \<Longrightarrow> record_ok (test_record topic key payload)"
  by (auto simp: small_record_def record_ok_def test_record_def MAX_PAYLOAD_def str_def list_all_iff intro!: utf8_valid_ascii)

lemma test_cost: "record_cost (test_record topic key payload) = 256 + 2 * length topic + 2 * length key + length payload"
  by (simp add: record_cost_def test_record_def str_def)

lemma test_encoded:
  "length (encode_record [] (test_record topic key payload)) = 8 + length topic + length key + length payload"
  by (simp add: length_encode_record wire_bytes_def test_record_def str_def)

lemma frame_length: "length (wal_frame crc (n, rs)) = 22 + sum_list (map (\<lambda>r. length (encode_record [] r)) rs)"
  by (simp add: HEADER_BYTES_def encode_records_concat length_concat comp_def)

lemma layout_length: "length (wal_layout crc bs) = 8 + sum_list (map (\<lambda>b. length (wal_frame crc b)) bs)"
  by (simp add: wal_layout_def length_concat comp_def del: length_wal_frame)

declare length_wal_frame [simp del]

lemma topic_a: "valid_topic (str ''a'')" "valid_topic (str ''b'')"
  by (simp_all add: valid_topic_def str_def topic_byte_def is_ascii_alphanumeric_def)

lemma small_publishable:
  assumes "list_all record_ok rs" and "rs \<noteq> []" and "length rs \<le> 2" and "\<forall>r\<in>set rs. length (encode_record [] r) \<le> 1000"
  shows "publishable rs"
proof -
  have "sum_list (map (\<lambda>r. length (encode_record [] r)) rs) \<le> length rs * 1000"
    using assms(4) by (induction rs) auto
  then have "length (encode_records rs) \<le> MAX_FRAME - 5"
    using assms(3) by (simp add: encode_records_concat length_concat comp_def MAX_FRAME_def)
  moreover have "batch_ok rs" using assms(1-3) by (cases rs) (simp_all add: batch_ok_def MAX_BATCH_def)
  ultimately show ?thesis by (simp add: publishable_def)
qed

lemma disk_store_length: "disk_store crc s bs \<Longrightarrow> file_length s = 8 + sum_list (map (\<lambda>b. length (wal_frame crc b)) bs)"
  by (simp add: file_length_def disk_store_facts(1) layout_length)

lemmas test_sizes = frame_length test_encoded test_cost next_batch_def

lemma budget_value: "unat test_budget = 16777216"
  by (simp add: test_budget_def)

lemma capacity_atomic: "capacity_atomic_test crc"
proof -
  let ?one = "test_record ''a'' ''x'' (str ''1'')"
  have rec: "record_ok ?one" by (rule small_record_ok) (use topic_a in \<open>simp add: small_record_def str_def\<close>)
  have pub: "publishable [?one]" "publishable [?one, ?one]"
    by (rule small_publishable; use rec in \<open>simp add: test_encoded str_def\<close>)+
  have cost: "unat (retained_bytes ?one) = 261" by (simp add: retained_bytes_def test_record_def str_def)
  obtain s dirs where s: "store_disk no_faults crc 0 test_dir {} None (retained_bytes ?one) test_budget = (Inr s, dirs, Some (test_file s))"
      "disk_store crc s []" "st_max_retained_bytes s = retained_bytes ?one" "st_max_wal_bytes s = test_budget"
    using open_new [of test_budget crc 0 test_dir "{}" "retained_bytes ?one"] budget_value by auto
  note f = disk_store_facts [OF s(2)]
  obtain e where full: "publish no_faults crc [?one, ?one] s = (Inl e, s)" "err_code e = CAPACITY"
    using publish_full [OF f(4) _ f(5), of "[?one, ?one]" no_faults crc] pub(2) f(3) s(3) cost
    by (simp add: publishable_def test_cost str_def)
  have "length (str ''1'') = 1" by (simp add: str_def)
  then obtain s' where s': "publish no_faults crc [?one] s = (Inr (publish_receipt s [?one]), s')"
      "disk_store crc s' [next_batch s [?one]]"
    using disk_store_publish [OF s(2) pub(1)] s(3,4) cost budget_value f(3) by (auto simp: test_sizes disk_store_length [OF s(2)] str_def)
  note f' = disk_store_facts [OF s'(2)]
  have "length (content (test_file s')) \<le> unat test_budget" "total_cost (batch_records [next_batch s [?one]]) \<le> unat test_budget"
    using budget_value \<open>length (str ''1'') = 1\<close> by (simp_all add: f'(1) layout_length frame_length test_encoded test_cost next_batch_def)
  then obtain s2 dirs2 where "store_disk no_faults crc 0 test_dir dirs (Some (test_file s')) test_budget test_budget
      = (Inr s2, dirs2, Some (test_file s2))" "disk_store crc s2 [next_batch s [?one]]"
    using reopen [OF f'(7) _ _ _ , of "[]" crc "test_file s'" test_budget test_budget 0 test_dir dirs] f'(1) s'(2)
    by (auto simp: disk_store_def)
  then show ?thesis
    using s(1) full s'(1) f f' disk_store_facts(2) [of crc s2]
    by (simp add: capacity_atomic_test_def Let_def file_length_def layout_length next_batch_def)
qed

lemma wal_limit: "wal_limit_test crc"
proof -
  let ?one = "test_record ''a'' ''x'' (str ''1'')"
  let ?max = "8 + batch_bytes [?one]"
  have rec: "record_ok ?one" by (rule small_record_ok) (use topic_a in \<open>simp add: small_record_def str_def\<close>)
  have pub: "publishable [?one]" "publishable [?one, ?one]"
    by (rule small_publishable; use rec in \<open>simp add: test_encoded str_def\<close>)+
  have max: "unat ?max = 41" by (simp add: batch_bytes_def HEADER_BYTES_def wire_bytes_def test_record_def str_def)
  obtain s dirs where s: "store_disk no_faults crc 0 test_dir {} None test_budget ?max = (Inr s, dirs, Some (test_file s))"
      "disk_store crc s []" "st_max_retained_bytes s = test_budget" "st_max_wal_bytes s = ?max"
    using open_new [of ?max crc 0 test_dir "{}" test_budget] max by auto
  note f = disk_store_facts [OF s(2)] and len = disk_store_length [OF s(2)]
  obtain e where full: "publish no_faults crc [?one, ?one] s = (Inl e, s)" "err_code e = CAPACITY"
    using disk_store_full [OF s(2) pub(2)] s(3,4) f(3) max budget_value by (auto simp: test_sizes len str_def)
  obtain s' where s': "publish no_faults crc [?one] s = (Inr (publish_receipt s [?one]), s')"
      "disk_store crc s' [next_batch s [?one]]"
    using disk_store_publish [OF s(2) pub(1)] s(3,4) f(3) max budget_value by (auto simp: test_sizes len str_def)
  show ?thesis
    using s(1) full s'(1) f(5) len disk_store_length [OF s'(2)] max
    by (simp add: wal_limit_test_def Let_def test_sizes str_def)
qed

section \<open>The lock and a restart\<close>

text \<open>What a process finds that opens a directory another process has locked.\<close>

definition locked :: io_env where
  "locked = no_faults\<lparr>fault := (\<lambda>c. if c = LockFile then Some (str ''locked'') else None)\<rparr>"

definition exclusive_lock_test :: "(bytes \<Rightarrow> u32) \<Rightarrow> bool" where
  "exclusive_lock_test crc =
     (case store_disk no_faults crc 0 test_dir {} None test_budget test_budget of
        (Inr s, dirs, file) \<Rightarrow>
          (case store_disk locked crc 0 test_dir dirs file test_budget test_budget of
             (Inl _, _) \<Rightarrow>
               (case publish no_faults crc [test_record ''a'' ''x'' [0, 255], test_record ''a'' '''' (str ''next'')] s of
                  (Inr reply, s) \<Rightarrow>
                    reply ! 18 = 1
                    \<and> (case store_disk no_faults crc 0 test_dir dirs (Some (test_file s)) test_budget test_budget of
                         (Inr s, _) \<Rightarrow>
                           last_sequence s = 2 \<and> published_records s = 0
                           \<and> (case fetch (test_fetch ''*'' 0 False 256 4096) s of
                                Some (Inr r, s) \<Rightarrow>
                                  rec_payload (ev_record (fr_events r ! 0)) = [0, 255]
                                  \<and> (case publish no_faults crc [test_record ''b'' '''' (str ''3'')] s of
                                       (Inr _, s) \<Rightarrow> last_sequence s = 3
                                     | _ \<Rightarrow> False)
                              | _ \<Rightarrow> False)
                       | _ \<Rightarrow> False)
                | _ \<Rightarrow> False)
           | _ \<Rightarrow> False)
      | _ \<Rightarrow> False)"

lemma locked_simps:
  "syscall locked (CreateDir p) = Inr ()" "syscall locked (SyncDir p) = Inr ()" "raced locked p = False"
  by (simp_all add: syscall_def locked_def no_faults_def)

lemma locked_refused: "\<exists>e. fst (store_disk locked crc now dir dirs file max_retained max_wal) = Inl e"
proof -
  have "ensure_directory locked dir ds = ensure_directory no_faults dir ds" for ds
    by (induction dir arbitrary: ds) (simp_all add: locked_simps split: prod.split sum.split)
  then obtain dirs' where "ensure_directory locked dir dirs = (Inr (), dirs')" using ensure_directory_no_faults by metis
  then show ?thesis
    by (simp add: store_disk_def wal_open_def Let_def) (simp add: locked_def no_faults_def syscall_def)
qed

lemma fetched_disk_store: "disk_store crc s bs \<Longrightarrow> disk_store crc (fetched s n m) bs"
  by (auto simp: disk_store_def fetched_def history_def elim: store_ok_cong)

lemma exclusive_lock: "exclusive_lock_test crc"
proof -
  let ?rs = "[test_record ''a'' ''x'' [0, 255], test_record ''a'' '''' (str ''next'')]" and ?r3 = "test_record ''b'' '''' (str ''3'')"
  let ?open = "\<lambda>dirs f. store_disk no_faults crc 0 test_dir dirs f test_budget test_budget"
  have rec: "list_all record_ok ?rs" "record_ok ?r3"
    using topic_a by (simp_all add: small_record_ok small_record_def str_def)
  have pub: "publishable ?rs" "publishable [?r3]"
    by (rule small_publishable; use rec in \<open>simp add: test_encoded str_def\<close>)+
  obtain s dirs where s: "?open {} None = (Inr s, dirs, Some (test_file s))" "disk_store crc s []"
      "st_max_retained_bytes s = test_budget" "st_max_wal_bytes s = test_budget"
    using open_new [of test_budget crc 0 test_dir "{}" test_budget] budget_value by auto
  note f = disk_store_facts [OF s(2)]
  let ?b = "next_batch s ?rs"
  obtain s1 where s1: "publish no_faults crc ?rs s = (Inr (publish_receipt s ?rs), s1)" "disk_store crc s1 [?b]"
    using disk_store_publish [OF s(2) pub(1)] s(3,4) f(3) budget_value by (auto simp: test_sizes disk_store_length [OF s(2)] str_def)
  note f1 = disk_store_facts [OF s1(2)]
  have durable: "publish_receipt s ?rs ! 18 = 1" using f(6) by (simp add: publish_receipt_def receipt_def nth_append)
  have fits: "length (content (test_file s1)) \<le> unat test_budget" "total_cost (batch_records [?b]) \<le> unat test_budget"
    using budget_value by (simp_all add: f1(1) layout_length test_sizes str_def)
  obtain s2 dirs2 where s2: "?open dirs (Some (test_file s1)) = (Inr s2, dirs2, Some (test_file s2))" "disk_store crc s2 [?b]"
      "st_max_retained_bytes s2 = test_budget" "st_max_wal_bytes s2 = test_budget" "published_records s2 = 0"
    using reopen [OF f1(7) _ _ _ fits, of "[]" crc 0 test_dir dirs] f1(1) s1(2) by (auto simp: disk_store_def)
  note f2 = disk_store_facts [OF s2(2)]
  have ev: "events s2 = stamp 1 ?rs" using f2(3,4) by (simp add: store_ok_fields next_batch_def)
  obtain r n m where r: "fetch (test_fetch ''*'' 0 False 256 4096) s2 = Some (Inr r, fetched s2 n m)"
      "rec_payload (ev_record (fr_events r ! 0)) = [0, 255]"
    by (simp add: test_store_defs ev fetched_def)
  let ?s3 = "fetched s2 n m"
  note d3 = fetched_disk_store [OF s2(2), of n m]
  have "st_max_retained_bytes ?s3 = test_budget" "st_max_wal_bytes ?s3 = test_budget" using s2(3,4) by (simp_all add: fetched_def)
  then obtain s4 where s4: "publish no_faults crc [?r3] ?s3 = (Inr (publish_receipt ?s3 [?r3]), s4)" "disk_store crc s4 ([?b] @ [next_batch ?s3 [?r3]])"
    using disk_store_publish [OF d3 pub(2)] disk_store_facts(3) [OF d3] budget_value
    by (auto simp: test_sizes disk_store_length [OF d3] str_def)
  obtain e where "fst (store_disk locked crc 0 test_dir dirs (Some (test_file s)) test_budget test_budget) = Inl e"
    using locked_refused by blast
  then show ?thesis
    using s(1) s1(1) durable s2(1,5) f2(2) r s4(1) disk_store_facts(2) [OF s4(2)]
    by (auto simp: exclusive_lock_test_def next_batch_def split: prod.split)
qed

section \<open>A torn tail\<close>

text \<open>\<open>set_len\<close> on the file of a store that has been dropped.\<close>

definition with_length :: "nat \<Rightarrow> wal_file \<Rightarrow> wal_file" where
  "with_length n f = snd (file_set_len no_faults (Truncate n) n f)"

definition partial_tail_test :: "(bytes \<Rightarrow> u32) \<Rightarrow> bool" where
  "partial_tail_test crc = list_all (\<lambda>part.
     case store_disk no_faults crc 0 test_dir {} None test_budget test_budget of
       (Inr s, dirs, _) \<Rightarrow>
         (case publish no_faults crc [test_record ''a'' '''' (str ''first'')] s of
            (Inr _, s) \<Rightarrow>
              (let valid = file_length s
               in case publish no_faults crc [test_record ''a'' '''' (str ''second'')] s of
                    (Inr _, s) \<Rightarrow>
                      (case store_disk no_faults crc 0 test_dir dirs (Some (with_length (valid + part) (test_file s)))
                              test_budget test_budget of
                         (Inr restored, _) \<Rightarrow> last_sequence restored = 1 \<and> file_length restored = valid
                       | _ \<Rightarrow> False)
                  | _ \<Rightarrow> False)
          | _ \<Rightarrow> False)
     | _ \<Rightarrow> False) [1, 8, 12, 16]"

lemma partial_tail_one:
  assumes part: "0 < part" "part < 37"
    and s: "disk_store crc s []" "st_max_retained_bytes s = test_budget" "st_max_wal_bytes s = test_budget"
  shows "\<exists>r1 s1 r2 s2 s3 dirs3 rest. publish no_faults crc [test_record ''a'' '''' (str ''first'')] s = (Inr r1, s1)
    \<and> publish no_faults crc [test_record ''a'' '''' (str ''second'')] s1 = (Inr r2, s2)
    \<and> store_disk no_faults crc 0 test_dir dirs (Some (with_length (file_length s1 + part) (test_file s2))) test_budget test_budget
        = (Inr s3, dirs3, rest)
    \<and> last_sequence s3 = 1 \<and> file_length s3 = file_length s1"
proof -
  let ?r1 = "test_record ''a'' '''' (str ''first'')" and ?r2 = "test_record ''a'' '''' (str ''second'')"
  have rec: "record_ok ?r1" "record_ok ?r2" using topic_a by (simp_all add: small_record_ok small_record_def str_def)
  have pub: "publishable [?r1]" "publishable [?r2]"
    by (rule small_publishable; use rec in \<open>simp add: test_encoded str_def\<close>)+
  let ?b1 = "next_batch s [?r1]"
  obtain s1 where s1: "publish no_faults crc [?r1] s = (Inr (publish_receipt s [?r1]), s1)" "disk_store crc s1 [?b1]"
      "st_max_retained_bytes s1 = test_budget" "st_max_wal_bytes s1 = test_budget"
    using disk_store_publish [OF s(1) pub(1)] s(2,3) disk_store_facts(3) [OF s(1)] budget_value
    by (auto simp: test_sizes disk_store_length [OF s(1)] str_def)
  note f1 = disk_store_facts [OF s1(2)]
  let ?b2 = "next_batch s1 [?r2]"
  obtain s2 where s2: "publish no_faults crc [?r2] s1 = (Inr (publish_receipt s1 [?r2]), s2)" "disk_store crc s2 [?b1, ?b2]"
    using disk_store_publish [OF s1(2) pub(2)] s1(3,4) f1(3) budget_value
    by (auto simp: test_sizes disk_store_length [OF s1(2)] str_def)
  note f2 = disk_store_facts [OF s2(2)]
  let ?f = "with_length (file_length s1 + part) (test_file s2)" and ?tail = "take part (wal_frame crc ?b2)"
  have two: "content (test_file s2) = wal_layout crc [?b1] @ wal_frame crc ?b2"
    using f2(1) wal_layout_snoc [of crc "[?b1]" ?b2] by simp
  have l1: "file_length s1 = length (wal_layout crc [?b1])" by (simp add: file_length_def f1(1))
  have l2: "length (wal_frame crc ?b2) = 37" by (simp add: test_sizes str_def)
  have f: "content ?f = wal_layout crc [?b1] @ ?tail"
    using part l2 by (simp add: with_length_def file_set_len_def two l1)
  have "batch_fits ?b2" using f2(7) by simp
  then have torn: "torn crc ?tail"
    using torn_take_frame [of "last_sequence s1 + 1" "[?r2]" part crc] part l2 by (simp add: next_batch_def)
  have "length (content ?f) \<le> unat test_budget" "total_cost (batch_records [?b1]) \<le> unat test_budget"
    using budget_value part by (simp_all add: f layout_length test_sizes str_def)
  then obtain s3 dirs3 where s3: "store_disk no_faults crc 0 test_dir dirs (Some ?f) test_budget test_budget = (Inr s3, dirs3, Some (test_file s3))"
      "disk_store crc s3 [?b1]"
    using reopen [OF f1(7) _ _ f, of test_budget test_budget 0 test_dir dirs] torn s1(2) by (auto simp: disk_store_def)
  have "file_length s3 = file_length s1" by (simp add: disk_store_length [OF s3(2)] disk_store_length [OF s1(2)])
  then show ?thesis using s1(1) s2(1) s3(1) disk_store_facts(2) [OF s3(2)] by (auto simp: next_batch_def)
qed

lemma partial_tail: "partial_tail_test crc"
proof -
  obtain s dirs where s: "store_disk no_faults crc 0 test_dir {} None test_budget test_budget = (Inr s, dirs, Some (test_file s))"
      "disk_store crc s []" "st_max_retained_bytes s = test_budget" "st_max_wal_bytes s = test_budget"
    using open_new [of test_budget crc 0 test_dir "{}" test_budget] budget_value by auto
  have "case publish no_faults crc [test_record ''a'' '''' (str ''first'')] s of
            (Inr _, s) \<Rightarrow>
              (let valid = file_length s
               in case publish no_faults crc [test_record ''a'' '''' (str ''second'')] s of
                    (Inr _, s) \<Rightarrow>
                      (case store_disk no_faults crc 0 test_dir dirs (Some (with_length (valid + part) (test_file s)))
                              test_budget test_budget of
                         (Inr restored, _) \<Rightarrow> last_sequence restored = 1 \<and> file_length restored = valid
                       | _ \<Rightarrow> False)
                  | _ \<Rightarrow> False)
          | _ \<Rightarrow> False" if "0 < part" "part < 37" for part
    using partial_tail_one [OF that s(2-4), of dirs] by (elim exE conjE) (simp add: Let_def)
  then show ?thesis by (simp add: partial_tail_test_def s(1))
qed

section \<open>An uncertain append\<close>

definition sync_fails :: io_env where
  "sync_fails = no_faults\<lparr>fault := (\<lambda>c. if c = SyncFrame then Some (str ''injected failure after write, before sync'') else None)\<rparr>"

definition uncertain_append_test :: "(bytes \<Rightarrow> u32) \<Rightarrow> bool" where
  "uncertain_append_test crc =
     (case store_disk no_faults crc 0 test_dir {} None test_budget test_budget of
        (Inr s, dirs, _) \<Rightarrow>
          (case publish sync_fails crc [test_record ''a'' '''' (str ''unknown outcome'')] s of
             (Inl e, s) \<Rightarrow>
               err_code e = STORAGE \<and> poisoned s \<and> last_sequence s = 0
               \<and> (let uncertain_length = file_length s
                  in uncertain_length > 8
                     \<and> (case publish sync_fails crc [test_record ''a'' '''' (str ''must not append'')] s of
                          (Inl e, s) \<Rightarrow>
                            err_code e = STORAGE \<and> file_length s = uncertain_length
                            \<and> (case store_disk no_faults crc 0 test_dir dirs (Some (test_file s)) test_budget test_budget of
                                 (Inr restored, _) \<Rightarrow>
                                   last_sequence restored = 1
                                   \<and> (case fetch (test_fetch ''*'' 0 False 256 4096) restored of
                                        Some (Inr r, restored) \<Rightarrow>
                                          rec_payload (ev_record (fr_events r ! 0)) = str ''unknown outcome''
                                          \<and> (case publish no_faults crc [test_record ''a'' '''' (str ''next'')] restored of
                                               (Inr _, restored) \<Rightarrow> last_sequence restored = 2
                                             | _ \<Rightarrow> False)
                                      | _ \<Rightarrow> False)
                               | _ \<Rightarrow> False)
                        | _ \<Rightarrow> False))
           | _ \<Rightarrow> False)
      | _ \<Rightarrow> False)"

lemma disk_store_uncertain:
  assumes s: "disk_store crc s bs" and rs: "publishable rs" and room: "total_cost (history s @ rs) \<le> unat (st_max_retained_bytes s)"
    and wal: "file_length s + length (wal_frame crc (next_batch s rs)) \<le> unat (st_max_wal_bytes s)"
  shows "\<exists>e s'. publish sync_fails crc rs s = (Inl e, s') \<and> err_code e = STORAGE \<and> poisoned s' \<and> last_sequence s' = last_sequence s
    \<and> content (test_file s') = wal_layout crc (bs @ [next_batch s rs])"
proof -
  obtain w where w: "st_wal s = Some w" "wal_ok crc w bs" "wal_max_bytes w = st_max_wal_bytes s" using s by (auto simp: disk_store_def)
  have ok: "store_ok s" "\<not> poisoned s" and batch: "batch_ok rs" using disk_store_facts [OF s] rs by (simp_all add: publishable_def)
  have fits: "batch_fits (last_sequence s + 1, rs)" using rs publishable_fits [of s rs] by (simp add: next_batch_def)
  have cap: "wal_check_capacity w rs = Inr ()"
    using capacity_iff [OF w(2) fits] wal w disk_store_facts(1) [OF s] by (simp add: file_length_def next_batch_def)
  have env: "fault sync_fails WriteFrame = None" "fault sync_fails SyncFrame \<noteq> None"
      "syscall sync_fails WriteFrame = Inr ()"
    by (simp_all add: sync_fails_def no_faults_def syscall_def)
  obtain m where m: "syscall sync_fails SyncFrame = Inl (storage m)" by (simp add: sync_fails_def no_faults_def syscall_def)
  have h: "cursor (wal_handle w) = length (content (wal_handle w))" "content (wal_handle w) = wal_layout crc bs"
    using w(2) by (simp_all add: wal_ok_def)
  let ?frame = "wal_frame crc (next_batch s rs)"
  obtain w' where w': "wal_append sync_fails crc (last_sequence s + 1) rs w = (Inl (storage m), w')"
      "content (wal_handle w') = wal_layout crc bs @ ?frame"
    using cap env(1-3) m h
    by (auto simp: wal_append_def Let_def file_write_all_def file_sync_all_def next_batch_def overwrite_end)
  have "publish sync_fails crc rs s = (Inl (storage m), s\<lparr>st_wal := Some w', poisoned := True\<rparr>)"
    using publish_eq [OF ok(1) batch ok(2) room, of sync_fails crc] w(1) cap w'(1) by simp
  then show ?thesis using w'(2) by (simp add: storage_def test_file_def wal_layout_snoc last_sequence_def)
qed

lemma uncertain_append: "uncertain_append_test crc"
proof -
  let ?r1 = "test_record ''a'' '''' (str ''unknown outcome'')" and ?r2 = "test_record ''a'' '''' (str ''next'')"
  let ?open = "\<lambda>dirs f. store_disk no_faults crc 0 test_dir dirs f test_budget test_budget"
  have rec: "record_ok ?r1" "record_ok ?r2" using topic_a by (simp_all add: small_record_ok small_record_def str_def)
  have pub: "publishable [?r1]" "publishable [?r2]"
    by (rule small_publishable; use rec in \<open>simp add: test_encoded str_def\<close>)+
  obtain s dirs where s: "?open {} None = (Inr s, dirs, Some (test_file s))" "disk_store crc s []"
      "st_max_retained_bytes s = test_budget" "st_max_wal_bytes s = test_budget"
    using open_new [of test_budget crc 0 test_dir "{}" test_budget] budget_value by auto
  note f = disk_store_facts [OF s(2)]
  let ?b = "next_batch s [?r1]"
  obtain e1 s1 where s1: "publish sync_fails crc [?r1] s = (Inl e1, s1)" "err_code e1 = STORAGE" "poisoned s1"
      "last_sequence s1 = 0" "content (test_file s1) = wal_layout crc [?b]"
    using disk_store_uncertain [OF s(2) pub(1)] s(3,4) f(2,3) budget_value by (auto simp: test_sizes disk_store_length [OF s(2)] str_def)
  have long: "file_length s1 > 8" by (simp add: file_length_def s1(5) layout_length test_sizes)
  have fits: "list_all batch_fits [?b]" using pub(1) by (simp add: publishable_fits)
  have sizes: "length (content (test_file s1)) \<le> unat test_budget" "total_cost (batch_records [?b]) \<le> unat test_budget"
    using budget_value by (simp_all add: s1(5) layout_length test_sizes str_def)
  have num: "numbered 0 [?b]" by (simp add: next_batch_def f(2))
  obtain s2 dirs2 where s2: "?open dirs (Some (test_file s1)) = (Inr s2, dirs2, Some (test_file s2))" "disk_store crc s2 [?b]"
      "st_max_retained_bytes s2 = test_budget" "st_max_wal_bytes s2 = test_budget"
    using reopen [OF fits num _ _ sizes, of "[]" crc 0 test_dir dirs] s1(5) by auto
  note f2 = disk_store_facts [OF s2(2)]
  have ev: "events s2 = stamp 1 [?r1]" using f2(3,4) by (simp add: store_ok_fields next_batch_def)
  obtain r n m where r: "fetch (test_fetch ''*'' 0 False 256 4096) s2 = Some (Inr r, fetched s2 n m)"
      "rec_payload (ev_record (fr_events r ! 0)) = str ''unknown outcome''"
    by (simp add: test_store_defs ev fetched_def)
  let ?s3 = "fetched s2 n m"
  note d3 = fetched_disk_store [OF s2(2), of n m]
  have "st_max_retained_bytes ?s3 = test_budget" "st_max_wal_bytes ?s3 = test_budget" using s2(3,4) by (simp_all add: fetched_def)
  then obtain s4 where s4: "publish no_faults crc [?r2] ?s3 = (Inr (publish_receipt ?s3 [?r2]), s4)" "disk_store crc s4 ([?b] @ [next_batch ?s3 [?r2]])"
    using disk_store_publish [OF d3 pub(2)] disk_store_facts(3) [OF d3] budget_value
    by (auto simp: test_sizes disk_store_length [OF d3] str_def)
  show ?thesis
    using s(1) s1(1-4) long publish_poisoned [OF s1(3)] s2(1) f2(2) r s4(1) disk_store_facts(2) [OF s4(2)]
    by (simp add: uncertain_append_test_def next_batch_def)
qed

section \<open>Damage\<close>

text \<open>A file that is damaged somewhere and opened again: refused, with its length unchanged.\<close>

definition refused_unchanged :: "(bytes \<Rightarrow> u32) \<Rightarrow> rstring list set \<Rightarrow> wal_file \<Rightarrow> bool" where
  "refused_unchanged crc dirs f =
     (case store_disk no_faults crc 0 test_dir dirs (Some f) test_budget test_budget of
        (Inl _, _, Some f') \<Rightarrow> length (content f') = length (content f)
      | _ \<Rightarrow> False)"

definition corruption_test :: "(bytes \<Rightarrow> u32) \<Rightarrow> bool" where
  "corruption_test crc = list_all (\<lambda>offset.
     case store_disk no_faults crc 0 test_dir {} None test_budget test_budget of
       (Inr s, dirs, _) \<Rightarrow>
         (case publish no_faults crc [test_record ''a'' ''x'' (str ''payload'')] s of
            (Inr _, s) \<Rightarrow>
              (let f = test_file s
               in refused_unchanged crc dirs (f\<lparr>content := (content f)[offset := xor (content f ! offset) 1]\<rparr>))
          | _ \<Rightarrow> False)
     | _ \<Rightarrow> False) [8, 12, 16, 20, 30]"

definition invalid_length_test :: "(bytes \<Rightarrow> u32) \<Rightarrow> bool" where
  "invalid_length_test crc =
     (case store_disk no_faults crc 0 test_dir {} None test_budget test_budget of
        (Inr s, dirs, _) \<Rightarrow>
          (let header = to_be_bytes (0 :: u32) @ to_be_bytes (0 :: u32);
               header = header @ to_be_bytes (crc header);
               f = (test_file s)\<lparr>content := content (test_file s) @ header\<rparr>
           in refused_unchanged crc dirs f \<and> length (content f) = 20)
      | _ \<Rightarrow> False)"

lemma bad_frame_refused:
  assumes f: "content f = MAGIC @ h @ rest" "length h = HEADER_BYTES" "length (content f) \<le> unat test_budget"
    and n: "n = unat (from_be_bytes (take 4 h) :: u32)"
    and bad: "crc (take 8 h) \<noteq> from_be_bytes (take 4 (drop 8 h)) \<or> \<not> (19 \<le> n \<and> n \<le> MAX_FRAME + 3)
      \<or> (n \<le> length rest \<and> crc (take n rest) \<noteq> from_be_bytes (take 4 (drop 4 h)))"
  shows "refused_unchanged crc dirs f"
proof -
  let ?s0 = "store_memory 0 test_budget test_budget" and ?f = "f\<lparr>cursor := 8\<rparr>" and ?len = "length (content f)"
  obtain dirs1 where dirs: "ensure_directory no_faults test_dir dirs = (Inr (), dirs1)" using ensure_directory_no_faults by blast
  have magic: "file_read_exact no_faults ReadMagic 8 (f\<lparr>cursor := 0\<rparr>) = (Inr MAGIC, ?f)"
    by (simp add: file_read_exact_no_faults f(1))
  have h: "file_read_exact no_faults (ReadHeader 8) HEADER_BYTES ?f = (Inr h, f\<lparr>cursor := 8 + HEADER_BYTES\<rparr>)"
    using f(1,2) by (simp add: file_read_exact_no_faults)
  have b: "file_read_exact no_faults (ReadBody 8) n (f\<lparr>cursor := 8 + HEADER_BYTES\<rparr>)
      = (Inr (take n rest), f\<lparr>cursor := 8 + HEADER_BYTES + n\<rparr>)" if "n \<le> length rest"
    using that f(1,2) by (simp add: file_read_exact_no_faults)
  have len: "?len = 8 + HEADER_BYTES + length rest" using f(1,2) by simp
  then have long: "8 < ?len" "\<not> ?len - 8 < HEADER_BYTES" "?len < 8 + HEADER_BYTES + n \<longleftrightarrow> \<not> n \<le> length rest"
    by (auto simp: HEADER_BYTES_def)
  have "\<exists>e f'. open_loop no_faults crc store_replay ?len 8 ?f ?s0 = (Inl e, f')"
    using bad by (subst open_loop.simps) (auto simp: long h b Let_def n [symmetric])
  then obtain e f' where loop: "open_loop no_faults crc store_replay ?len 8 ?f ?s0 = (Inl e, f')" by blast
  from open_loop_refuses [OF loop] have same: "content f' = content f" by simp
  have "content f \<noteq> []" using f(1) by (auto simp: MAGIC_def str_def)
  then have "wal_open no_faults crc test_budget store_replay test_dir dirs (Some f) ?s0 = (Inl e, dirs1, Some f')"
    using f(3) by (simp add: wal_open_def dirs Let_def magic loop)
  then show ?thesis by (simp add: refused_unchanged_def store_disk_def same)
qed

lemma invalid_length_refused: "invalid_length_test crc"
proof -
  obtain s dirs where s: "store_disk no_faults crc 0 test_dir {} None test_budget test_budget = (Inr s, dirs, Some (test_file s))"
      "disk_store crc s []"
    using open_new [of test_budget crc 0 test_dir "{}" test_budget] budget_value by auto
  let ?z = "to_be_bytes (0 :: u32) @ to_be_bytes (0 :: u32)"
  let ?h = "?z @ to_be_bytes (crc ?z)"
  let ?f = "(test_file s)\<lparr>content := content (test_file s) @ ?h\<rparr>"
  have c: "content (test_file s) = MAGIC" using disk_store_facts(1) [OF s(2)] by (simp add: wal_layout_def)
  have "refused_unchanged crc dirs ?f"
    by (rule bad_frame_refused [where h = ?h and rest = "[]", OF _ _ _ refl])
       (use budget_value in \<open>simp_all add: c HEADER_BYTES_def from_to_be_bytes\<close>)
  then show ?thesis using s(1) by (simp add: invalid_length_test_def Let_def c)
qed

text \<open>The checksum changes when the lowest bit of a byte does.\<close>

definition detects_flips :: "(bytes \<Rightarrow> u32) \<Rightarrow> bool" where
  "detects_flips crc = (\<forall>bs i. i < length bs \<longrightarrow> crc (bs[i := xor (bs ! i) 1]) \<noteq> crc bs)"

lemma flip_word:
  assumes "length bs = 4" and "i < 4"
  shows "(from_be_bytes (bs[i := xor (bs ! i) 1]) :: u32) \<noteq> from_be_bytes bs"
proof
  assume eq: "(from_be_bytes (bs[i := xor (bs ! i) 1]) :: u32) = from_be_bytes bs"
  have "to_be_bytes (from_be_bytes xs :: u32) = xs" if "length xs = 4" for xs using that by (simp add: to_from_be_bytes)
  then have "bs[i := xor (bs ! i) 1] = bs" using eq assms by (metis length_list_update)
  then have "xor (bs ! i) 1 = bs ! i" using assms by (metis nth_list_update_eq)
  then have "xor (bs ! i) (xor (bs ! i) 1) = xor (bs ! i) (bs ! i)" by simp
  then show False by (simp add: xor.assoc [symmetric])
qed

lemma flipped_refused:
  assumes crc: "detects_flips crc" and fits: "batch_fits (first, rs)"
    and f: "content f = wal_layout crc [(first, rs)]" "length (content f) \<le> unat test_budget"
    and i: "8 \<le> i" "i < length (content f)"
  shows "refused_unchanged crc dirs (f\<lparr>content := (content f)[i := xor (content f ! i) 1]\<rparr>)"
proof -
  let ?b = "wal_body first rs"
  let ?h = "wal_header crc ?b" and ?k = "i - 8" and ?f = "f\<lparr>content := (content f)[i := xor (content f ! i) 1]\<rparr>"
  note n = batch_fits_length [OF fits]
  have c: "content f = MAGIC @ ?h @ ?b" using f(1) by (simp add: wal_layout_def wal_frame_split)
  have fields: "unat (from_be_bytes (take 4 ?h) :: u32) = length ?b" "crc (take 8 ?h) = from_be_bytes (take 4 (drop 8 ?h))"
      "crc ?b = from_be_bytes (take 4 (drop 4 ?h))"
    using n(3) by (simp_all only: wal_header_fields from_to_be_bytes) (simp_all add: from_to_be_bytes)
  show ?thesis
  proof (cases "?k < HEADER_BYTES")
    case True
    let ?h' = "?h[?k := xor (?h ! ?k) 1]"
    have c': "content ?f = MAGIC @ ?h' @ ?b" using i(1) True by (simp add: c list_update_append nth_append)
    have "crc (take 8 ?h') \<noteq> from_be_bytes (take 4 (drop 8 ?h'))"
    proof (cases "?k < 8")
      case low: True
      have t: "take 8 ?h' = (take 8 ?h)[?k := xor (take 8 ?h ! ?k) 1]" using low by (simp add: take_update_swap)
      have "?k < length (take 8 ?h)" using low by (simp add: HEADER_BYTES_def)
      then have "crc (take 8 ?h') \<noteq> crc (take 8 ?h)" using crc unfolding t detects_flips_def by blast
      then show ?thesis using low fields(2) by (simp add: drop_update_cancel)
    next
      case high: False
      have "take 4 (drop 8 ?h') = (take 4 (drop 8 ?h))[?k - 8 := xor (take 4 (drop 8 ?h) ! (?k - 8)) 1]"
        using high True by (simp add: drop_update_swap take_update_swap HEADER_BYTES_def)
      moreover have "length (take 4 (drop 8 ?h)) = 4" "?k - 8 < 4" using True by (simp_all add: HEADER_BYTES_def)
      ultimately have "(from_be_bytes (take 4 (drop 8 ?h')) :: u32) \<noteq> from_be_bytes (take 4 (drop 8 ?h))" using flip_word by metis
      then show ?thesis using high fields(2) by (simp add: take_update_cancel)
    qed
    moreover have "length (content ?f) \<le> unat test_budget" using f(2) by simp
    ultimately show ?thesis by (intro bad_frame_refused [OF c' _ _ refl]) simp_all
  next
    case False
    let ?j = "?k - HEADER_BYTES"
    let ?b' = "?b[?j := xor (?b ! ?j) 1]"
    have j: "?j < length ?b" using i False by (simp add: c)
    have c': "content ?f = MAGIC @ ?h @ ?b'" using i(1) False by (simp add: c list_update_append nth_append)
    have "crc ?b' \<noteq> crc ?b" using crc j by (simp add: detects_flips_def)
    then have "crc (take (length ?b) ?b') \<noteq> from_be_bytes (take 4 (drop 4 ?h))" using fields(3) by simp
    moreover have "length (content ?f) \<le> unat test_budget" using f(2) by simp
    ultimately show ?thesis by (intro bad_frame_refused [OF c' _ _ fields(1) [symmetric]]) simp_all
  qed
qed

lemma corruption:
  assumes "detects_flips crc"
  shows "corruption_test crc"
proof -
  let ?r = "test_record ''a'' ''x'' (str ''payload'')"
  have rec: "record_ok ?r" using topic_a by (simp add: small_record_ok small_record_def str_def)
  have pub: "publishable [?r]" by (rule small_publishable) (use rec in \<open>simp_all add: test_encoded str_def\<close>)
  obtain s dirs where s: "store_disk no_faults crc 0 test_dir {} None test_budget test_budget = (Inr s, dirs, Some (test_file s))"
      "disk_store crc s []" "st_max_retained_bytes s = test_budget" "st_max_wal_bytes s = test_budget"
    using open_new [of test_budget crc 0 test_dir "{}" test_budget] budget_value by auto
  obtain s1 where s1: "publish no_faults crc [?r] s = (Inr (publish_receipt s [?r]), s1)" "disk_store crc s1 [next_batch s [?r]]"
    using disk_store_publish [OF s(2) pub] s(3,4) disk_store_facts(3) [OF s(2)] budget_value
    by (auto simp: test_sizes disk_store_length [OF s(2)] str_def)
  have len: "length (content (test_file s1)) = 47"
    using disk_store_length [OF s1(2)] by (simp add: file_length_def test_sizes str_def)
  have fits: "batch_fits (last_sequence s + 1, [?r])" using pub publishable_fits [of s] by (simp add: next_batch_def)
  have "refused_unchanged crc dirs ((test_file s1)\<lparr>content := (content (test_file s1))[i := xor (content (test_file s1) ! i) 1]\<rparr>)"
    if "8 \<le> i" "i < 47" for i
    by (rule flipped_refused [OF assms fits]) (use that len budget_value disk_store_facts(1) [OF s1(2)] in \<open>simp_all add: next_batch_def\<close>)
  then show ?thesis using s(1) s1(1) by (simp add: corruption_test_def Let_def)
qed

end
