(* ===== verification/Tests_Protocol.thy ===== *)
theory Tests_Protocol
  imports Codec
begin

text \<open>
  The unit tests of \<open>crates/velobus/src/protocol.rs\<close>, as predicates on the model, and the proofs that
  the model passes them.
\<close>

definition strict_decode_test :: bool where
  "strict_decode_test =
     (isl (decode_request 5 [1]) \<and> isl (decode_request 2 [0, 0]) \<and> isl (decode_request 77 [])
      \<and> isl (decode_request 1 [0, 1, 0, 1, 255])
      \<and> (let body = put_string [] (str ''*'');
             body = body @ to_be_bytes (0 :: u64);
             body = body @ to_be_bytes (1 :: u16);
             body = body @ to_be_bytes (100 :: u32);
             body = body @ [2]
         in isl (decode_request 3 body)))"

text \<open>What the strict decoder accepts is what it would encode.\<close>

lemma refused:
  assumes "\<And>q. opcode = request_opcode q \<Longrightarrow> body = request_body q \<Longrightarrow> request_ok q \<Longrightarrow> False"
  shows "isl (decode_request opcode body)"
  using assms decode_request_dec by (cases "decode_request opcode body") auto

lemma strict_decode: "strict_decode_test"
proof -
  have "isl (decode_request 5 [1])"
  proof (rule refused)
    fix q assume "5 = request_opcode q" "[1] = request_body q"
    then show False by (cases q) simp_all
  qed
  moreover have "isl (decode_request 2 [0, 0])"
    by (simp add: decode_request_def reader_new_def decode_records_def reader_u16_def reader_take_def from_be_bytes_def be_nat_def)
  moreover have "isl (decode_request 77 [])" by (simp add: decode_request_def)
  moreover have "isl (decode_request 1 [0, 1, 0, 1, 255])"
    by (simp add: decode_request_def reader_new_def decode_hello_def reader_u16_def reader_take_def reader_string_def
        from_be_bytes_def be_nat_def from_utf8_def utf8_valid.simps utf8_char_width_def utf8_second_def)
  moreover have "isl (decode_request 3 ((((put_string [] (str ''*'') @ to_be_bytes (0 :: u64)) @ to_be_bytes (1 :: u16))
      @ to_be_bytes (100 :: u32)) @ [2]))"
  proof (rule refused)
    fix q assume "3 = request_opcode q" and body: "(((put_string [] (str ''*'') @ to_be_bytes (0 :: u64)) @ to_be_bytes (1 :: u16))
      @ to_be_bytes (100 :: u32)) @ [2] = request_body q"
    then obtain f where "q = Fetch f" by (cases q) simp_all
    with body have "last (request_body (Fetch f)) = 2" by (metis last_snoc)
    then show False by (simp split: if_splits)
  qed
  ultimately show ?thesis by (simp add: strict_decode_test_def)
qed

text \<open>A key of the tests, in UTF-8.\<close>

definition cedilla :: rstring where "cedilla = [0xC3, 0xA7]"

definition binary_payload_test :: bool where
  "binary_payload_test =
     (let records = [\<lparr>rec_topic = str ''vehicle.position'', rec_key = cedilla, rec_payload = [0, 255, 1]\<rparr>];
          bad = [(records ! 0)\<lparr>rec_payload := replicate (MAX_PAYLOAD + 1) 0\<rparr>]
      in (case decode_request 2 (encode_records records) of
            Inr (Publish decoded) \<Rightarrow>
              rec_payload (decoded ! 0) = rec_payload (records ! 0) \<and> rec_key (decoded ! 0) = cedilla
          | _ \<Rightarrow> False)
         \<and> isl (validate_topic (str ''topic/invalid'') False) \<and> isl (validate_topic (str ''*'') False)
         \<and> \<not> isl (validate_topic (str ''*'') True)
         \<and> (case decode_request 2 (encode_records bad) of Inl e \<Rightarrow> err_code e = LIMIT | _ \<Rightarrow> False))"

lemma vehicle_topic: "valid_topic (str ''vehicle.position'')"
  by (simp add: valid_topic_def str_def topic_byte_def is_ascii_alphanumeric_def)

lemma cedilla_ok: "string_ok 1024 cedilla"
  by (simp add: string_ok_def cedilla_def utf8_valid.simps utf8_char_width_def utf8_second_def is_continuation_def)

lemma oversize_payload:
  assumes "valid_topic t" and "string_ok 1024 k" and "length p = MAX_PAYLOAD + 1"
  shows "\<exists>e. decode_request 2 (encode_records [\<lparr>rec_topic = t, rec_key = k, rec_payload = p\<rparr>]) = Inl e \<and> err_code e = LIMIT"
proof -
  let ?n = "of_nat (length p) :: u32" and ?r = "reader_new (encode_records [\<lparr>rec_topic = t, rec_key = k, rec_payload = p\<rparr>])"
  have "unread ?r = to_be_bytes (1 :: u16) @ put_string [] t @ put_string [] k @ to_be_bytes ?n @ p"
    by (simp add: encode_records_concat encode_record_parts)
  then obtain r1 where r1: "reader_u16 ?r = Inr (1, r1)" "unread r1 = put_string [] t @ put_string [] k @ to_be_bytes ?n @ p" "reader_ok r1"
    using u16_codec.dec_step [of ?r 1] by auto
  obtain r2 where r2: "reader_string 255 r1 = Inr (t, r2)" "unread r2 = put_string [] k @ to_be_bytes ?n @ p" "reader_ok r2"
    using string_codec.dec_step [OF r1(3,2) string_ok_topic [OF assms(1)]] by auto
  obtain r3 where r3: "reader_string 1024 r2 = Inr (k, r3)" "unread r3 = to_be_bytes ?n @ p" "reader_ok r3"
    using string_codec.dec_step [OF r2(3,2) assms(2)] by auto
  obtain r4 where r4: "reader_u32 r3 = Inr (?n, r4)" using u32_codec.dec_step [OF r3(3,2)] by auto
  have "unat ?n = MAX_PAYLOAD + 1" using assms(3) by (simp add: MAX_PAYLOAD_def)
  then have "decode_records ?r = Inl (error_new LIMIT (str ''payload exceeds 262144 bytes''))"
    using r1(1) r2(1) r3(1) r4 validate_topic_strict [of t] assms(1)
    by (simp add: decode_records_def decode_record_def MAX_BATCH_def)
  then show ?thesis by (simp add: decode_request_def)
qed

lemma binary_payload: "binary_payload_test"
proof -
  let ?r = "\<lparr>rec_topic = str ''vehicle.position'', rec_key = cedilla, rec_payload = [0, 255, 1]\<rparr>"
  have "record_ok ?r" using vehicle_topic cedilla_ok by (simp add: record_ok_def string_ok_def MAX_PAYLOAD_def)
  then have "decode_request 2 (encode_records [?r]) = Inr (Publish [?r])"
    using decode_request_enc [of "Publish [?r]"] by (simp add: batch_ok_def MAX_BATCH_def)
  moreover have "isl (validate_topic (str ''topic/invalid'') False)" "isl (validate_topic (str ''*'') False)"
    "\<not> isl (validate_topic (str ''*'') True)"
    by (simp_all add: validate_topic_def str_def topic_byte_def is_ascii_alphanumeric_def)
  moreover obtain e where "decode_request 2 (encode_records [?r\<lparr>rec_payload := replicate (MAX_PAYLOAD + 1) 0\<rparr>]) = Inl e" "err_code e = LIMIT"
    using oversize_payload [OF vehicle_topic cedilla_ok, of "replicate (MAX_PAYLOAD + 1) 0"] by auto
  ultimately show ?thesis by (simp add: binary_payload_test_def)
qed

end
