(* ===== verification/Tests_Main.thy ===== *)
theory Tests_Main
  imports Startup
begin

text \<open>
  The unit tests of \<open>crates/velobus/src/main.rs\<close> that need no socket of their own, as predicates on the
  model, and the proofs that the model passes them. Where a test reads from a socket, the bytes the
  peer sends are given and the peer then falls silent or closes.
\<close>

section \<open>Retiring a response before it is visible\<close>

text \<open>
  The observer of the test: as soon as the frame is visible, a peer takes a permit and uses the
  identifier again.
\<close>

definition immediate_reply :: "u32 \<Rightarrow> connection \<Rightarrow> connection option" where
  "immediate_reply i c =
     (if cn_permits c = 0 \<or> i \<in> cn_ids c then None
      else Some (c\<lparr>cn_permits := cn_permits c - 1, cn_ids := insert i (cn_ids c)\<rparr>))"

definition visible_reply_test :: bool where
  "visible_reply_test =
     (let ids = set (map of_nat [1..<MAX_IN_FLIGHT + 1]) :: u32 set; last = of_nat MAX_IN_FLIGHT;
          response = \<lparr>rs_opcode = 133, rs_request_id = last, rs_body = [], rs_permit = True, rs_written = False\<rparr>;
          c = connection_new\<lparr>cn_ids := ids, cn_permits := 0, cn_responses := [response]\<rparr>
      in case immediate_reply last (on_retired response [] c) of
           None \<Rightarrow> False
         | Some c \<Rightarrow>
             (let c = on_written response c
              in cn_permits c = 0 \<and> card (cn_ids c) = MAX_IN_FLIGHT \<and> last \<in> cn_ids c))"

lemma visible_reply: "visible_reply_test"
proof -
  have "card (of_nat ` {1..<33} :: u32 set) = 32"
    by (subst card_image) (auto intro!: inj_onI dest!: arg_cong [of _ _ unat] simp: unat_of_nat)
  then have "card (set (map of_nat [1..<33] :: u32 list)) = 32" by simp
  moreover have "(32 :: u32) \<in> set (map of_nat [1..<33])" using image_eqI [of 32 of_nat 32 "{1..<33}"] by simp
  ultimately show ?thesis
    by (simp add: visible_reply_test_def immediate_reply_def on_retired_def on_written_def MAX_IN_FLIGHT_def
        insert_absorb insert_Diff del: set_map)
qed

section \<open>The command line\<close>

definition refused_args :: "string list list" where
  "refused_args =
     [[''--memory'', ''--data-dir'', ''/tmp/test''],
      [''--listen'', ''0.0.0.0:7447''],
      [''--max-connections'', ''0''],
      [''--max-retained-bytes'', ''0''],
      [''--max-wal-bytes'', ''7''],
      [''--max-retained-bytes'', ''18446744073709551615'']]"

definition defaults_and_cli_test :: bool where
  "defaults_and_cli_test =
     ((case config_parse [] [] of
         Inr c \<Rightarrow> Some (cfg_listen c) = parse_socket_addr (str ''127.0.0.1:7447'') \<and> \<not> cfg_memory c
       | Inl _ \<Rightarrow> False)
      \<and> list_all (\<lambda>args. isl (config_parse (map str args) [])) refused_args
      \<and> \<not> isl (config_parse [str ''--listen'', str ''0.0.0.0:7447''] (str ''secret'')))"

lemma any_address: "parse_socket_addr (str ''0.0.0.0:7447'') = Some \<lparr>ip = V4 [0, 0, 0, 0], port = 7447\<rparr>"
proof -
  have four: "(4 :: nat) = Suc (Suc (Suc (Suc 0)))" by simp
  have bytes: "str ''0.0.0.0:7447'' = [0x30, 0x2E, 0x30, 0x2E, 0x30, 0x2E, 0x30, 0x3A, 0x37, 0x34, 0x34, 0x37]"
    by (simp add: str_def)
  show ?thesis
    unfolding bytes parse_socket_addr_def read_socket_v4_def read_ipv4_def four
    by (simp add: read_port_def read_separator_def read_given_def read_number_def to_digit_def)
qed

lemmas config_simps = config_parse_def config_option_def config_default_def is_loopback_def and_then_def

lemma option_numbers:
  "parse_u64 (str ''0'') = Some 0" "parse_u64 (str ''7'') = Some 7"
  "parse_u64 (str ''18446744073709551615'') = Some 18446744073709551615"
  by (simp_all add: parse_u64_def str_def to_digit_def)

lemma refused_budgets: "parse_budget (str ''0'') 1 = Inl (str ''byte budget must be '' @ decimal 1 @ str ''..'' @ decimal (2 ^ 40))"
  "parse_budget (str ''7'') 8 = Inl (str ''byte budget must be '' @ decimal 8 @ str ''..'' @ decimal (2 ^ 40))"
  "parse_budget (str ''18446744073709551615'') 1 = Inl (str ''byte budget must be '' @ decimal 1 @ str ''..'' @ decimal (2 ^ 40))"
  by (simp_all add: parse_budget_def option_numbers)

lemma str_Nil [simp]: "str xs = [] \<longleftrightarrow> xs = []"
  by (simp add: str_def)

lemma refused_all: "list_all (\<lambda>args. isl (config_parse (map str args) [])) refused_args"
  by (simp add: refused_args_def config_simps any_address option_numbers refused_budgets [unfolded One_nat_def])

lemma defaults_and_cli: "defaults_and_cli_test"
proof -
  have "\<not> isl (config_parse [str ''--listen'', str ''0.0.0.0:7447''] (str ''secret''))"
    by (simp add: config_simps any_address) (simp add: str_def)
  with refused_all show ?thesis
    by (simp add: defaults_and_cli_test_def) (simp add: config_simps default_address)
qed

section \<open>Envelopes\<close>

definition envelopes_bounded_test :: bool where
  "envelopes_bounded_test =
     (\<not> valid_length 0 \<and> \<not> valid_length 4 \<and> valid_length 5 \<and> valid_length MAX_FRAME
      \<and> \<not> valid_length (MAX_FRAME + 1) \<and> \<not> valid_length (2 ^ 32 - 1)
      \<and> (let oversized = response_frame 132 17 (replicate MAX_FRAME 0)
         in length oversized < 100 \<and> oversized ! 4 = 255
            \<and> from_be_bytes (take 4 (drop 5 oversized)) = (17 :: u32)
            \<and> from_be_bytes (take 2 (drop 9 oversized)) = LIMIT))"

lemma envelopes_bounded: "envelopes_bounded_test"
proof -
  have "response_frame 132 17 (replicate MAX_FRAME 0)
      = envelope 255 17 (error_body (error_new LIMIT (str ''response exceeds maximum frame size'')))"
    by (simp add: response_frame_def MAX_FRAME_def)
  then show ?thesis
    by (simp add: envelopes_bounded_test_def valid_length_def MAX_FRAME_def envelope_def error_body_def error_new_def
        put_string_def str_def from_to_be_bytes nth_append Let_def)
qed

definition bad_envelopes :: "bytes list" where
  "bad_envelopes = [to_be_bytes (0 :: u32), to_be_bytes (of_nat (MAX_FRAME + 1) :: u32), envelope 5 0 []]"

text \<open>The client stays connected: what follows its bytes is a fault, or nothing until the deadline.\<close>

definition bad_envelopes_test :: "io_read \<Rightarrow> io_read \<Rightarrow> bool" where
  "bad_envelopes_test io1 io2 = list_all (\<lambda>bad. isl (read_frame False io1 io2 bad)) bad_envelopes"

lemma isl_if_no_value: "(\<And>x. r = Inr x \<Longrightarrow> False) \<Longrightarrow> isl r"
  by (cases r) auto

lemma zero_prefix: "isl (read_frame False io1 io2 (to_be_bytes (0 :: u32)))"
  by (rule isl_if_no_value) (auto simp: read_frame_def read_exact_def timeout_def and_then_eq_Inr valid_length_def from_to_be_bytes Let_def
      split: if_splits option.splits)

lemma long_prefix: "isl (read_frame False io1 io2 (to_be_bytes (of_nat (MAX_FRAME + 1) :: u32)))"
  by (rule isl_if_no_value) (auto simp: read_frame_def read_exact_def timeout_def and_then_eq_Inr valid_length_def from_to_be_bytes Let_def
      MAX_FRAME_def split: if_splits option.splits)

lemma zero_identifier: "isl (read_frame False io1 io2 (envelope 5 0 []))"
  by (rule isl_if_no_value) (auto simp: read_frame_def read_exact_def timeout_def and_then_eq_Inr envelope_def from_to_be_bytes Let_def
      split: if_splits option.splits)

lemma bad_envelopes_refused: "bad_envelopes_test io1 io2"
  using zero_prefix [of io1 io2] long_prefix [of io1 io2] zero_identifier [of io1 io2]
  by (simp only: bad_envelopes_test_def bad_envelopes_def list.pred_inject)

end
