(* ===== verification/Tests_Rpc.thy ===== *)
theory Tests_Rpc
  imports Rpc_Demo Config
begin

text \<open>
  The unit tests of \<open>crates/velobus/src/rpc.rs\<close>, as predicates on the model, and the proofs that the
  model passes them. An operation that panics fails its test. The clock of each call is given, in
  nanoseconds; nothing else happens between the operations of a test, as in its one task.
\<close>

section \<open>Chaining operations\<close>

text \<open>\<open>unwrap\<close> on a value, and the code of the error an operation is expected to return.\<close>

definition unwrapped :: "((error + 'a) \<times> state) option \<Rightarrow> ('a \<Rightarrow> state \<Rightarrow> bool) \<Rightarrow> bool" where
  "unwrapped r k = (case r of Some (Inr a, s) \<Rightarrow> k a s | _ \<Rightarrow> False)"

definition refused_with :: "u16 \<Rightarrow> ((error + 'a) \<times> state) option \<Rightarrow> (state \<Rightarrow> bool) \<Rightarrow> bool" where
  "refused_with code r k = (case r of Some (Inl e, s) \<Rightarrow> err_code e = code \<and> k s | _ \<Rightarrow> False)"

text \<open>The state is evaluated before the rest of a test is.\<close>

lemma unwrapped_cong [cong]: "r = r' \<Longrightarrow> unwrapped r k = unwrapped r' k" by simp

lemma refused_with_cong [cong]: "r = r' \<Longrightarrow> refused_with code r k = refused_with code r' k" by simp

lemma unwrapped_simps [simp]: "unwrapped (Some (Inr a, s)) k = k a s" "unwrapped (Some (Inl e, s)) k = False"
  by (simp_all add: unwrapped_def)

lemma refused_with_simps [simp]: "refused_with code (Some (Inl e, s)) k = (err_code e = code \<and> k s)"
  by (simp add: refused_with_def)

section \<open>Helpers\<close>

definition users_get :: rstring where "users_get = str ''users.get''"

definition payload :: bytes where "payload = str ''request''"

text \<open>The helper \<open>register\<close> of the tests.\<close>

definition test_register :: "u64 \<Rightarrow> nat \<Rightarrow> nat \<Rightarrow> state \<Rightarrow> ((error + unit) \<times> state) option" where
  "test_register i conc queue_limit s = Some (register i users_get conc queue_limit (connected 10 (connected i s)))"

text \<open>
  \<open>take\<close> that is awaited with nothing else going on: it tries once at \<open>now\<close>, and without a call it
  waits until its time is over.
\<close>

definition take_alone :: "u64 \<Rightarrow> nat \<Rightarrow> state \<Rightarrow> ((error + job option) \<times> state) option" where
  "take_alone w now s =
     (case take_begin w s of
        (Inl e, s) \<Rightarrow> Some (Inl e, s)
      | (Inr _, s) \<Rightarrow>
          (case try_take w [(now, now)] s of
             None \<Rightarrow> None
           | Some (r, s) \<Rightarrow> Some (r, take_guard_drop w s)))"

text \<open>Awaiting a ticket, which is dropped with its answer; \<open>now\<close> is when it is polled.\<close>

definition wait_ticket :: "nat \<Rightarrow> ticket \<Rightarrow> state \<Rightarrow> ((error + bytes) \<times> state) option" where
  "wait_ticket now t s = map_option (\<lambda>(r, s). (r, cancel (tk_call_id t) s)) (ticket_poll now t s)"

definition the_job :: "job option \<Rightarrow> (job \<Rightarrow> bool) \<Rightarrow> bool" where
  "the_job j k = (case j of None \<Rightarrow> False | Some j \<Rightarrow> k j)"

definition number_of :: "string \<Rightarrow> state \<Rightarrow> nat \<Rightarrow> bool" where
  "number_of field s n =
     (case rpc_stats s of JObject obj \<Rightarrow> map_of obj (str field) = Some (JNumber n) | _ \<Rightarrow> False)"

definition no_routes :: "state \<Rightarrow> bool" where
  "no_routes s =
     (case rpc_stats s of JObject obj \<Rightarrow> map_of obj (str ''routes'') = Some (JArray []) | _ \<Rightarrow> False)"

lemma number_of_stats:
  "number_of ''queued'' s n = (length (calls s) - length (filter (\<lambda>(cid, c). owner c \<noteq> None) (calls s)) = n)"
  "number_of ''running'' s n = (length (filter (\<lambda>(cid, c). owner c \<noteq> None) (calls s)) = n)"
  "number_of ''retainedBytes'' s n = (unat (rpc_retained_bytes s) = n)"
  by (simp_all add: number_of_def rpc_stats_def Let_def)

lemma no_routes_stats: "no_routes s = (routes s = [])"
  by (simp add: no_routes_def rpc_stats_def Let_def flip: length_0_conv)

lemma length_users_get [simp]: "length users_get = 9" by (simp add: users_get_def str_def)

lemma other_routes [simp]: "users_get \<noteq> str ''missing''" "str ''missing'' \<noteq> users_get"
  by (simp_all add: users_get_def)

lemma length_payload [simp]: "length payload = 7" by (simp add: payload_def str_def)

lemmas test_simps = test_register_def take_alone_def wait_ticket_def ticket_poll_def the_job_def number_of_stats
  no_routes_stats cancel_def drop_sender_def take_response_def expire_def disconnect_def fail_call_def
  deadline_error_def error_new_def

section \<open>Limits\<close>

definition queue_and_worker_limits_test :: bool where
  "queue_and_worker_limits_test =
     unwrapped (test_register 1 1 1 (rpc_new 100 (2 ^ 20))) (\<lambda>_ s.
     unwrapped (test_register 2 1 1 s) (\<lambda>_ s.
     unwrapped (request 10 users_get 1000 payload 0 0 s) (\<lambda>first s.
     refused_with OVERLOADED (request 10 users_get 1000 payload 0 0 s) (\<lambda>s.
     unwrapped (take_alone 1 1 s) (\<lambda>job s. the_job job (\<lambda>job.
     unwrapped (take_alone 2 2 s) (\<lambda>none s. none = None \<and>
     unwrapped (request 10 users_get 5 payload 3 3 s) (\<lambda>second s.
     refused_with DEADLINE_EXCEEDED (wait_ticket 5000003 second s) (\<lambda>s.
     unwrapped (take_alone 2 5000004 s) (\<lambda>none s. none = None \<and>
     unwrapped (complete 1 (job_call_id job) False (str ''ok'') 5000005 s) (\<lambda>_ s.
     unwrapped (wait_ticket 5000006 first s) (\<lambda>answer s.
       answer = str ''ok'' \<and> number_of ''retainedBytes'' s 0))))))))))))"

lemma queue_and_worker_limits: "queue_and_worker_limits_test"
  by (simp add: queue_and_worker_limits_test_def test_simps demo_simps)

definition running_timeouts_test :: bool where
  "running_timeouts_test =
     unwrapped (test_register 1 1 4 (rpc_new 2 (2 ^ 20))) (\<lambda>_ s.
     unwrapped (request 10 users_get 5 payload 0 0 s) (\<lambda>first s.
     unwrapped (take_alone 1 1 s) (\<lambda>job s. the_job job (\<lambda>job.
     refused_with DEADLINE_EXCEEDED (wait_ticket 5000000 first s) (\<lambda>s.
     unwrapped (request 10 users_get 1000 payload 5000001 5000001 s) (\<lambda>second s.
     unwrapped (take_alone 1 5000002 s) (\<lambda>none s. none = None
       \<and> number_of ''running'' s 1 \<and> number_of ''queued'' s 1 \<and>
     refused_with OVERLOADED (request 10 users_get 1000 payload 5000003 5000003 s) (\<lambda>s.
     unwrapped (complete 1 (job_call_id job) False [] 5000004 s) (\<lambda>_ s.
     unwrapped (take_alone 1 5000005 s) (\<lambda>next s. the_job next (\<lambda>next.
     unwrapped (complete 1 (job_call_id next) False payload 5000006 s) (\<lambda>_ s.
     unwrapped (wait_ticket 5000007 second s) (\<lambda>_ s.
       number_of ''running'' s 0 \<and> number_of ''retainedBytes'' s 0)))))))))))))"

lemma running_timeouts: "running_timeouts_test"
  by (simp add: running_timeouts_test_def test_simps demo_simps)

section \<open>Cancellation and disconnection\<close>

text \<open>\<open>disconnect\<close> returns nothing; the tickets of the test are dropped with \<open>cancel\<close>.\<close>

definition disconnected :: "u64 \<Rightarrow> state \<Rightarrow> ((error + unit) \<times> state) option" where
  "disconnected i s = map_option (\<lambda>s. (Inr (), s)) (disconnect i s)"

definition cancellation_test :: bool where
  "cancellation_test =
     unwrapped (test_register 1 1 4 (rpc_new 10 (2 ^ 20))) (\<lambda>_ s.
     unwrapped (request 10 users_get 1000 payload 0 0 s) (\<lambda>cancelled s.
     unwrapped (Some (Inr (), cancel (tk_call_id cancelled) s)) (\<lambda>_ s. number_of ''queued'' s 0 \<and>
     unwrapped (request 10 users_get 1000 payload 1 1 s) (\<lambda>first s.
     unwrapped (take_alone 1 2 s) (\<lambda>job s. the_job job (\<lambda>job.
     unwrapped (request 10 users_get 1000 payload 3 3 s) (\<lambda>second s.
     unwrapped (disconnected 10 s) (\<lambda>_ s. number_of ''queued'' s 0 \<and> number_of ''running'' s 1 \<and>
     unwrapped (Some (Inr (), cancel (tk_call_id second) (cancel (tk_call_id first) s))) (\<lambda>_ s.
     unwrapped (complete 1 (job_call_id job) False payload 4 s) (\<lambda>_ s.
       number_of ''retainedBytes'' s 0))))))))))"

lemma cancellation: "cancellation_test"
  by (simp add: cancellation_test_def disconnected_def test_simps demo_simps)

definition worker_failure_test :: bool where
  "worker_failure_test =
     unwrapped (test_register 1 1 4 (rpc_new 10 (2 ^ 20))) (\<lambda>_ s.
     unwrapped (request 10 users_get 1000 payload 0 0 s) (\<lambda>first s.
     unwrapped (take_alone 1 1 s) (\<lambda>job s. job \<noteq> None \<and>
     unwrapped (request 10 users_get 1000 payload 2 2 s) (\<lambda>second s.
     unwrapped (disconnected 1 s) (\<lambda>_ s.
     refused_with SERVICE_UNAVAILABLE (wait_ticket 3 first s) (\<lambda>s.
     refused_with SERVICE_UNAVAILABLE (wait_ticket 4 second s) (\<lambda>s.
       number_of ''retainedBytes'' s 0 \<and> no_routes s \<and>
     unwrapped (test_register 2 1 4 s) (\<lambda>_ s.
     unwrapped (take_alone 2 5 s) (\<lambda>none s. none = None)))))))))"

lemma worker_failure: "worker_failure_test"
  by (simp add: worker_failure_test_def disconnected_def test_simps demo_simps)

section \<open>Waiting for work\<close>

text \<open>
  The two halves of a \<open>take\<close> that waits: it finds no call and listens on its handle, from where the
  number of notifications shows whether it is woken; then it tries again.
\<close>

definition take_waits :: "u64 \<Rightarrow> nat \<Rightarrow> state \<Rightarrow> ((error + nat \<times> nat) \<times> state) option" where
  "take_waits w now s =
     (case take_begin w s of
        (Inl e, s) \<Rightarrow> Some (Inl e, s)
      | (Inr n, s) \<Rightarrow>
          (case try_take_once w now now s of
             Some (Idle, s) \<Rightarrow> Some (Inr (n, notifies s ! n), s)
           | _ \<Rightarrow> None))"

definition woken :: "nat \<times> nat \<Rightarrow> state \<Rightarrow> bool" where
  "woken h s = (snd h < notifies s ! fst h)"

definition take_resumes :: "u64 \<Rightarrow> nat \<Rightarrow> state \<Rightarrow> ((error + job option) \<times> state) option" where
  "take_resumes w now s = map_option (\<lambda>(r, s). (r, take_guard_drop w s)) (try_take w [(now, now)] s)"

definition take_waits_test :: bool where
  "take_waits_test =
     unwrapped (test_register 1 1 4 (rpc_new 10 (2 ^ 20))) (\<lambda>_ s.
     unwrapped (test_register 2 1 4 s) (\<lambda>_ s.
     unwrapped (take_waits 1 0 s) (\<lambda>taking s. \<not> woken taking s \<and>
     unwrapped (request 10 users_get 1000 payload 1 1 s) (\<lambda>ticket s. woken taking s \<and>
     unwrapped (take_resumes 1 2 s) (\<lambda>job s. the_job job (\<lambda>job.
     refused_with UNAUTHORIZED (complete 2 (job_call_id job) False payload 3 s) (\<lambda>s.
     unwrapped (complete 1 (job_call_id job) True (str ''handler broke'') 4 s) (\<lambda>_ s.
     refused_with HANDLER_ERROR (wait_ticket 5 ticket s) (\<lambda>s.
     refused_with INVALID (complete 1 (job_call_id job) False payload 6 s) (\<lambda>s. True))))))))))"

lemmas waiting_simps = take_waits_def woken_def take_resumes_def

lemma take_waits_for_work: "take_waits_test"
  by (simp add: take_waits_test_def waiting_simps test_simps demo_simps)

definition budget_and_takes_test :: bool where
  "budget_and_takes_test =
     unwrapped (test_register 1 1 4 (rpc_new 10 1)) (\<lambda>_ s.
     refused_with OVERLOADED (request 10 users_get 1000 payload 0 0 s) (\<lambda>s. number_of ''retainedBytes'' s 0 \<and>
     refused_with NO_SERVICE (request 10 (str ''missing'') 1000 payload 1 1 s) (\<lambda>s.
       (case register 1 (str ''another'') 1 1 s of (r, s) \<Rightarrow> isl r \<and>
       (case register 2 users_get 1 3 s of (r, s) \<Rightarrow> isl r \<and>
     unwrapped (take_waits 1 2 s) (\<lambda>taking s.
     refused_with OVERLOADED (take_alone 1 3 s) (\<lambda>s.
     unwrapped (Some (Inr (), take_guard_drop 1 s)) (\<lambda>_ s.
     unwrapped (take_alone 1 4 s) (\<lambda>none s. none = None)))))))))"

lemma budget_and_takes: "budget_and_takes_test"
  by (simp add: budget_and_takes_test_def waiting_simps test_simps demo_simps)

definition disconnected_test :: bool where
  "disconnected_test =
     unwrapped (test_register 1 1 4 (rpc_new 10 (2 ^ 20))) (\<lambda>_ s.
     unwrapped (disconnected 1 s) (\<lambda>_ s.
     refused_with SERVICE_UNAVAILABLE (Some (register 1 users_get 1 4 s)) (\<lambda>s.
     unwrapped (disconnected 10 s) (\<lambda>_ s.
     refused_with SERVICE_UNAVAILABLE (request 10 users_get 1000 payload 0 0 s) (\<lambda>s.
       number_of ''retainedBytes'' s 0 \<and> no_routes s)))))"

lemma disconnected_stay_out: "disconnected_test"
  by (simp add: disconnected_test_def disconnected_def test_simps demo_simps)

end
