(* ===== verification/Spec2Isabelle.thy ===== *)
theory Spec2Isabelle
  imports Store_Properties Rpc_Operations World_Properties Client_Properties Tests_Disk Tests_Protocol Tests_Main Tests_Rpc
begin

text \<open>
  Verification of the broker of this repository, the Rust crate \<open>crates/velobus\<close>, and of the protocol
  that its TypeScript client, \<open>packages/client\<close>, speaks with it.

  \<^bold>\<open>The program.\<close> One process serves two things over TCP. Events: \<open>PUBLISH\<close> appends batches of records to
  a numbered history, in memory or behind a write-ahead log, and \<open>FETCH\<close> reads pages of it by
  cursor. Requests: workers \<open>REGISTER\<close> a route and \<open>TAKE\<close> jobs, callers send \<open>RPC\<close> requests with a
  deadline, and a worker \<open>COMPLETE\<close>s a job. \<open>main.rs\<close> parses the command line, opens the store,
  accepts connections, authenticates them, reads frames and spawns one operation per request;
  \<open>dispatch\<close> calls the store under a mutex and the scheduler under its own; responses go through
  a queue to one writer per connection. \<open>protocol.rs\<close> decodes and encodes, \<open>store.rs\<close> calls \<open>wal.rs\<close>.
  The client (\<open>index.ts\<close> on \<open>protocol.ts\<close>) checks the arguments of a call, writes one frame for it, and
  settles the promise of the call with what its parser makes of the response.

  \<^bold>\<open>Theories and source.\<close>

  \<^item> \<open>Prelude\<close>: machine integers with the checked and saturating operations, results (\<open>'e + 'a\<close>, with
    \<open>and_then\<close> for the operator \<open>?\<close>), strings as their bytes, big-endian integers. \<open>Utf8\<close> and \<open>Std_Parse\<close>
    are what the program uses of the standard library to recognise strings, integers and addresses.
  \<^item> \<open>protocol.rs\<close> is \<open>Protocol\<close>: limits, error codes, \<open>error\<close> (\<open>Error\<close>), \<open>log_record\<close> (\<open>Record\<close>), \<open>request\<close>
    (\<open>Request\<close>), \<open>reader\<close> with its \<open>reader_*\<close> methods, \<open>decode_request\<close> with one definition per opcode,
    and the encoders. \<open>Codec\<close> has the locale \<open>codec\<close> (what a decoder and an encoder promise each
    other), its interpretations for every field, and the wire layout of requests.
  \<^item> \<open>wal.rs\<close> is \<open>Wal\<close>: the file as its content, the part a loss of power keeps, and a position; every
    system call has an outcome given by the argument \<open>io_env\<close>. \<open>Wal_Recovery\<close> characterises
    \<open>wal_open\<close> and \<open>wal_append\<close> and states the contract of the log as the locale \<open>append_log\<close>.
  \<^item> \<open>store.rs\<close> is \<open>Store\<close>; \<open>Store_Log\<close> abstracts it to the list of published records, \<open>Store_Disk\<close> ties
    it to the bytes of the log, \<open>Store_Fetch\<close> specifies a page and refines the scan to it,
    \<open>Store_Service\<close> has the reachable stores and the reader that follows the cursor, and
    \<open>Store_Settled\<close> the logs that a server may be started on: those that are on stable storage as
    they are, which is what a fresh directory and a loss of power leave.
  \<^item> \<open>rpc.rs\<close> is \<open>Rpc\<close>: \<open>state\<close> (\<open>State\<close>) and one definition per operation under the lock; a panic is the
    result \<open>None\<close>, a clock reading is an argument in nanoseconds, hash maps are \<open>Hash_Map\<close>, the
    one-shot channels and the notification handles are heaps in the state. \<open>Rpc_Inv\<close>, \<open>Rpc_Ops\<close>,
    \<open>Rpc_Finish\<close> and \<open>Rpc_Disconnect\<close> show the invariant, \<open>Rpc_Wake\<close> who is woken, \<open>Rpc_Evolve\<close> and
    \<open>Rpc_Steady\<close> what never changes, \<open>Rpc_Queue\<close> and \<open>Rpc_Limits\<close> the queues and budgets. \<open>Rpc_System\<close> adds
    the clients, tickets (\<open>Ticket::wait\<close>) and \<open>TAKE\<close> operations in progress (\<open>Rpc::take\<close>), as the step
    relation \<open>rpc_step\<close>; \<open>Rpc_Trace\<close> the histories of its runs, \<open>Rpc_Demo\<close> a concrete run.
  \<^item> \<open>main.rs\<close> is \<open>Config\<close> (\<open>Config::parse\<close>), \<open>Startup\<close> (\<open>main\<close>, the start of \<open>serve\<close> and its accept loop), \<open>Frame\<close>
    (\<open>read_frame\<close>, \<open>response_frame\<close>, \<open>write_response\<close>), \<open>Connection\<close> (\<open>connection\<close> and
    \<open>write_queued_response\<close>: handshake, then the step relation \<open>conn_step\<close>) and \<open>Dispatch\<close> (\<open>dispatch\<close>).
    \<open>Server\<close> composes \<open>Dispatch\<close> with the store and the scheduler.
  \<^item> \<open>World\<close> is the whole of \<open>serve\<close> and \<open>connection\<close> at run time: a \<open>world\<close> has the accept loop, the shared
    store and scheduler, every client (the bytes it sends, and its connection once it is greeted),
    the task of every operation at its \<open>stage\<close> in \<open>dispatch\<close>, and the blocking tasks that outlive
    theirs; \<open>server_step\<close> is what one task does between two points where another may run, and
    \<open>take_turn\<close> is a turn of the loop of the TAKE of one task.
    \<open>World_Refine\<close> shows that \<open>dispatch\<close> takes steps of the scheduler, \<open>World_Inv\<close> states the invariant
    of the server and \<open>World_Steps\<close> and \<open>World_Safe\<close> prove it; \<open>World_Trace\<close> projects runs of the server
    to runs of its parts, \<open>World_History\<close> traces a response back to frames, \<open>World_Store\<close> follows the
    log, \<open>World_Calls\<close> where the events of the scheduler come from and what clients leave behind,
    \<open>World_Order\<close> the order of events, from a response back to its frame and from an answer to the
    worker, \<open>World_Progress\<close> how an operation and a client come to their end, and \<open>World_Demo\<close> has
    concrete runs.
  \<^item> The client, \<open>packages/client/src\<close>: \<open>Client_Text\<close> has the strings of JavaScript and their UTF-8,
    \<open>Client_Protocol\<close> is \<open>protocol.ts\<close> (checks of arguments, \<open>Reader\<close>, \<open>FrameDecoder\<close> as \<open>push\<close>, \<open>envelope\<close>),
    \<open>Client_Calls\<close> the requests of \<open>index.ts\<close>, one definition \<open>*_call\<close> for what a method sends and one
    \<open>parse_*\<close> for what it accepts (the closure over its arguments is an \<open>expectation\<close>), and \<open>Client\<close> the
    class \<open>Client\<close>: \<open>ts_send\<close>, \<open>ts_flush\<close>, \<open>ts_receive\<close>, \<open>ts_fail\<close> and the listeners, as the step relation
    \<open>ts_step\<close>. \<open>Client_Frames\<close> shows that chunks do not matter, \<open>Client_Session\<close> the invariant,
    \<open>Client_Requests\<close> that a call is the layout of the request it means, \<open>Client_Responses\<close> (with the locale
    \<open>response_field\<close> for the fields of a response) that replies of the server are accepted, and
    \<open>Client_World\<close> that this is so in every run of the server.
  \<^item> \<open>Tests_Store\<close>, \<open>Tests_Disk\<close>, \<open>Tests_Protocol\<close>, \<open>Tests_Main\<close> and \<open>Tests_Rpc\<close> state the unit tests of the crate
    on the model, one predicate \<open>*_test\<close> for each, and prove that the model passes them: what the
    authors expect of the code is what the definitions do. The clock of a test is explicit, an
    operation that panics fails it, and its hook \<open>fail_after_write\<close> is a fault of \<open>sync_all\<close>. The test of
    damaged logs assumes of \<open>crc32fast\<close> that the checksum changes with one bit (\<open>detects_flips\<close>). The
    one test that is not stated is \<open>partial_frame_survives_rpc_deadline\<close> of \<open>main.rs\<close>, which drives a whole
    connection over a socket.
  \<^item> \<open>Transition\<close> has runs of a step relation and the locale \<open>invariant_system\<close>, interpreted for
    \<open>rpc_step\<close>, \<open>conn_step\<close>, \<open>accept_step\<close>, \<open>server_step\<close> and \<open>ts_step\<close>.

  \<^bold>\<open>What is shown.\<close> The properties are in \<open>Codec\<close>, \<open>Wal_Properties\<close>, \<open>Store_Properties\<close>, \<open>Rpc_Properties\<close>,
  \<open>Rpc_Operations\<close>, \<open>Server_Properties\<close>, \<open>World_Properties\<close> and \<open>Client_Properties\<close>, each after a text that
  states it.

  \<^item> Protocol: \<open>decode_request\<close> accepts exactly the documented layouts; what it refuses with which codes.
  \<^item> Log and store: when the store was opened on a log that is on stable storage, every acknowledged
    publish survives a loss of power at any moment (a log left by a failed synchronization is the
    exception: \<open>open\<close> serves it and does not synchronize it); recovery is sound and complete, budgets
    are exact, a failed write poisons the store, a fetch computes its specification, and a reader that
    follows the cursor gets every event once, or the latest of every key, or LIMIT when an event is
    larger than its byte budget.
  \<^item> Scheduler, for every interleaving and every clock: a call is accepted, dispatched and completed
    at most once, bytes and counts are exact and bounded, no wake-up is lost, answers and jobs
    are authentic, an answer is final, no operation panics, and what every operation does on
    every branch.
  \<^item> Server: which configurations are accepted, which bytes are a frame, who passes the handshake, that
    a connection runs at most 32 operations and answers every frame once, and why it closes.
  \<^item> The whole server, in every interleaving of any number of clients: its runs are runs of its
    parts, so that all of the above holds in it; a receipt that a client has been written names the
    place of the records it sent, and survives a loss of power; an answer that a caller has been
    written is what a worker sent for this very call, which it had been given with the caller's payload,
    all in the order of the protocol; nobody acts who has not sent the token; tickets and TAKEs are each
    held by one task; every operation can come to its response by steps of its own task and every client
    to its end, whether it has greeted or not, without a panic, and its permit comes back.
  \<^item> Client and server: the server decodes every call of the client to the request it means; what it
    writes as a success settles the promise of the call, STATS apart, however the stream is cut; a page passes all
    checks of the client; every promise is settled at most once, and all of them when the connection
    closes; sending always finds an identifier.

  \<^bold>\<open>Parameters.\<close> Code outside the repository is an argument: \<open>crc\<close> (\<open>crc32fast\<close>, of which nothing is
  assumed), \<open>to_vec\<close> and \<open>from_slice\<close> (\<open>serde_json\<close>, which renders an object as an object), \<open>ct_eq\<close>
  (\<open>subtle\<close>, which is equality), \<open>json_parse\<close> (\<open>JSON.parse\<close>), the outcomes of system calls, of socket
  reads and writes, and the readings of the clock.

  \<^bold>\<open>Loops and fuel.\<close> Loops over data are structural recursion. \<open>Wal::open\<close> is a terminating function on
  the bytes left. The loop of \<open>try_take\<close> takes a list of clock readings, one pair for each
  iteration, and is shown to return with one more than the length of the queue of its route.
  The loops of tasks that wait are step relations. \<open>push\<close> and the search of the client for a free
  identifier are partial functions, shown to return.

  \<^bold>\<open>Abstractions.\<close> A step of \<open>rpc_step\<close> is the code between taking and releasing the lock. A ticket that
  is answered is dropped, which cancels its call, in the same step: the call is then gone, or runs
  without a sender, and cancelling it changes nothing. \<open>TAKE\<close> may be woken only by a
  notification counted on its handle. A step of \<open>conn_step\<close> may queue a response whatever the
  capacity of the channel, so runs in which a sender waits are included. When a connection ends,
  its operations are aborted and it is disconnected twice (\<open>connection\<close>, then
  \<open>ConnectionCleanup\<close>): in the scheduler these are the steps \<open>Aborted\<close>, \<open>TicketDropped\<close> and \<open>Disconnected\<close>,
  which are possible at any moment, and in the server \<open>Cancelling\<close> and \<open>Left\<close>, in any order, once the
  loop of the connection has ended. The bytes that a client will send are chosen when it is accepted,
  and a frame is read when it is handled. The writer stops when its connection is gone, not at a
  later poll. When the numbers of connections are exhausted the process ends; the model lets the
  other clients go on. \<open>usize\<close> is 64 bits wide. The scope of an IPv6 address is
  parsed and dropped.

  A number of the client is a whole number, a fraction or not finite; what it reads from a response
  is a natural number. A promise is a number, and what it is settled with is recorded.

  \<^bold>\<open>Not modelled.\<close> The text of \<open>--help\<close> and the line printed when ready, the shutdown signal, binding and
  accepting on the socket, the rendering of JSON, the scheduling fairness of tokio (a waiting
  task that can run is not shown to run). Of the client: how a connection is opened and its options,
  child clients, services beyond the answer to a job, observers, \<open>subscribe\<close>, the JSON helpers, abort
  signals and the tests of run-time types; \<open>cluster.ts\<close>, which reconnects over several brokers with the
  timers of the runtime. That the JSON the server renders passes \<open>stats\<close> of the client depends on
  \<open>serde_json\<close> and \<open>JSON.parse\<close> and is not shown. The scripts and examples.
\<close>

end
